(* ===== verification/Prelude.thy ===== *)
theory Prelude
  imports Main "HOL-Library.Word" "HOL-Library.Signed_Division"
begin

unbundle bit_operations_syntax

text \<open>
  Shared vocabulary of the development: the machine integer types, the faults a C run can
  end in, the result type of an operation that can fault, blocks of memory as byte lists
  with checked reads and writes, and little-endian values.

  An operation of type \<open>'a res\<close> either returns \<open>Inr v\<close> or ends in \<open>Inl f\<close>, where the
  fault \<open>f\<close> stands for a run that C leaves undefined (a read or write outside its block, a
  NULL or dangling pointer, signed overflow, an uninitialised variable) or that the program
  aborts (a failed \<open>assert\<close>). \<open>OutOfFuel\<close> stands for a loop that has not ended.
\<close>

type_synonym u8 = "8 word"
type_synonym u16 = "16 word"
type_synonym u32 = "32 word"
type_synonym u64 = "64 word"

datatype fault =
    OutOfBounds
  | BufferOverflow
  | AssertFailed
  | NullDeref
  | DoubleFree
  | IntOverflow
  | Uninitialized
  | BadFormat
  | OutOfFuel

type_synonym 'a res = "fault + 'a"

named_theorems res_simps "rewriting of results"
named_theorems byte_simps "reads, writes and little-endian values"

subsection \<open>Sequencing of operations that can fault\<close>

definition bindE :: "'a res \<Rightarrow> ('a \<Rightarrow> 'b res) \<Rightarrow> 'b res" where
  "bindE m f = (case m of Inl e \<Rightarrow> Inl e | Inr x \<Rightarrow> f x)"

definition checkE :: "fault \<Rightarrow> bool \<Rightarrow> unit res" where
  "checkE e b = (if b then Inr () else Inl e)"

lemma bindE_simps [simp]:
  "bindE (Inr x) f = f x"
  "bindE (Inl e) f = Inl e"
  by (simp_all add: bindE_def)

lemma checkE_simps [simp]:
  "checkE e True = Inr ()"
  "checkE e False = Inl e"
  by (simp_all add: checkE_def)

lemma bindE_Inr_iff [res_simps]:
  "bindE m f = Inr y \<longleftrightarrow> (\<exists>x. m = Inr x \<and> f x = Inr y)"
  by (cases m) auto

lemma bindE_Inl_iff [res_simps]:
  "bindE m f = Inl e \<longleftrightarrow> m = Inl e \<or> (\<exists>x. m = Inr x \<and> f x = Inl e)"
  by (cases m) auto

lemma checkE_Inr_iff [res_simps]: "checkE e b = Inr u \<longleftrightarrow> b"
  by (simp add: checkE_def)

lemma checkE_Inl_iff [res_simps]: "checkE e b = Inl e' \<longleftrightarrow> \<not> b \<and> e' = e"
  by (auto simp add: checkE_def)

lemma bindE_assoc: "bindE (bindE m f) g = bindE m (\<lambda>x. bindE (f x) g)"
  by (cases m) auto

lemma bindE_if: "bindE (if b then m else m') f = (if b then bindE m f else bindE m' f)"
  by simp

lemma bindE_cong [fundef_cong]:
  "m = m' \<Longrightarrow> (\<And>x. m' = Inr x \<Longrightarrow> f x = f' x) \<Longrightarrow> bindE m f = bindE m' f'"
  by (cases m') auto

text \<open>Following a pointer that may be NULL.\<close>

definition deref :: "'a option \<Rightarrow> 'a res" where
  "deref p = (case p of None \<Rightarrow> Inl NullDeref | Some x \<Rightarrow> Inr x)"

subsection \<open>Blocks of memory\<close>

text \<open>
  A block is the byte list from a pointer to the end of the object it points into.
  \<open>peek\<close> is \<open>memcpy\<close> out of a block (or a load of \<open>n\<close> bytes), \<open>poke\<close> is \<open>memcpy\<close>
  into a block; both fault outside it.
\<close>

definition peek :: "u8 list \<Rightarrow> nat \<Rightarrow> nat \<Rightarrow> u8 list res" where
  "peek b off n = (if off + n \<le> length b then Inr (take n (drop off b)) else Inl OutOfBounds)"

definition poke :: "'a list \<Rightarrow> nat \<Rightarrow> 'a list \<Rightarrow> 'a list res" where
  "poke b off xs =
     (if off + length xs \<le> length b
      then Inr (take off b @ xs @ drop (off + length xs) b) else Inl BufferOverflow)"

definition nthE :: "'a list \<Rightarrow> nat \<Rightarrow> 'a res" where
  "nthE xs i = (if i < length xs then Inr (xs ! i) else Inl OutOfBounds)"

lemma peek_Inr_iff [res_simps]:
  "peek b off n = Inr bs \<longleftrightarrow> off + n \<le> length b \<and> bs = take n (drop off b)"
  by (auto simp add: peek_def)

lemma poke_Inr_iff [res_simps]:
  "poke b off xs = Inr b' \<longleftrightarrow>
     off + length xs \<le> length b \<and> b' = take off b @ xs @ drop (off + length xs) b"
  by (auto simp add: poke_def)

lemma nthE_Inr_iff [res_simps]: "nthE xs i = Inr x \<longleftrightarrow> i < length xs \<and> x = xs ! i"
  by (auto simp add: nthE_def)

lemma peek_append [byte_simps]:
  "off = length pre \<Longrightarrow> n = length bs \<Longrightarrow> peek (pre @ bs @ post) off n = Inr bs"
  by (simp add: peek_def)

lemma peek_length: "peek b off n = Inr bs \<Longrightarrow> length bs = n"
  by (auto simp add: peek_def split: if_splits)

lemma poke_length: "poke b off xs = Inr b' \<Longrightarrow> length b' = length b"
  by (auto simp add: poke_def split: if_splits)

lemma poke_over: "off = length xs \<Longrightarrow> length ys' = length ys \<Longrightarrow> poke (xs @ ys @ zs) off ys' = Inr (xs @ ys' @ zs)"
  by (simp add: poke_def)

text \<open>The C string that starts at an offset of a block: the bytes before the first NUL.\<close>

definition cstring_at :: "u8 list \<Rightarrow> nat \<Rightarrow> u8 list res" where
  "cstring_at b off =
     (if 0 \<in> set (drop off b) then Inr (takeWhile (\<lambda>x. x \<noteq> 0) (drop off b)) else Inl OutOfBounds)"

lemma cstring_at_append [byte_simps]:
  "off = length pre \<Longrightarrow> 0 \<notin> set s \<Longrightarrow> cstring_at (pre @ s @ 0 # post) off = Inr s"
proof -
  assume *: "off = length pre" "0 \<notin> set s"
  then have "takeWhile (\<lambda>x. x \<noteq> 0) (s @ 0 # post) = s"
    by (subst takeWhile_append2) auto
  with * show ?thesis by (simp add: cstring_at_def)
qed

lemma cstring_at_nonzero: "cstring_at b off = Inr s \<Longrightarrow> 0 \<notin> set s"
  by (auto simp add: cstring_at_def split: if_splits dest: set_takeWhileD)

subsection \<open>Little-endian values\<close>

text \<open>
  \<open>le_val\<close> is the number a little-endian host reads from a run of bytes, \<open>le_bytes n v\<close> the
  \<open>n\<close> bytes it stores for \<open>v\<close>.
\<close>

primrec le_val :: "u8 list \<Rightarrow> nat" where
  "le_val [] = 0"
| "le_val (b # bs) = unat b + 256 * le_val bs"

primrec le_bytes :: "nat \<Rightarrow> nat \<Rightarrow> u8 list" where
  "le_bytes 0 v = []"
| "le_bytes (Suc n) v = of_nat v # le_bytes n (v div 256)"

lemma length_le_bytes [simp, byte_simps]: "length (le_bytes n v) = n"
  by (induction n arbitrary: v) auto

lemma unat_u8_of_nat: "unat (of_nat v :: u8) = v mod 256"
  by (simp add: unat_of_nat)

lemma unat_u8_less [simp]: "unat (b :: u8) < 256"
  using unsigned_less [of b] by simp

lemma le_val_bound: "le_val bs < 256 ^ length bs"
proof (induction bs)
  case (Cons b bs)
  have "unat b + 256 * le_val bs < 256 * (le_val bs + 1)"
    using unat_u8_less [of b] by simp
  also have "\<dots> \<le> 256 * 256 ^ length bs" using Cons by simp
  finally show ?case by simp
qed simp

lemma le_val_le_bytes: "le_val (le_bytes n v) = v mod 256 ^ n"
proof (induction n arbitrary: v)
  case (Suc n)
  have "v mod 256 ^ Suc n = v mod 256 + 256 * (v div 256 mod 256 ^ n)"
    by (simp add: mod_mult2_eq)
  with Suc show ?case by (simp add: unat_u8_of_nat)
qed simp

lemma le_val_le_bytes_id [byte_simps]: "v < 256 ^ n \<Longrightarrow> le_val (le_bytes n v) = v"
  by (simp add: le_val_le_bytes)

lemma le_bytes_le_val [byte_simps]: "le_bytes (length bs) (le_val bs) = bs"
proof (induction bs)
  case (Cons b bs)
  have "(unat b + 256 * le_val bs) div 256 = le_val bs"
    using unat_u8_less [of b] by simp
  moreover have "(of_nat (unat b + 256 * le_val bs) :: u8) = b"
  proof -
    have "unat (of_nat (unat b + 256 * le_val bs) :: u8) = unat b"
      by (simp only: unat_u8_of_nat) simp
    then show ?thesis by (simp only: word_unat_eq_iff)
  qed
  ultimately show ?case using Cons by simp
qed simp

lemma le_val_append: "le_val (xs @ ys) = le_val xs + 256 ^ length xs * le_val ys"
  by (induction xs) (simp_all add: algebra_simps)

text \<open>The same bytes, most significant first.\<close>

definition be_bytes :: "nat \<Rightarrow> nat \<Rightarrow> u8 list" where
  "be_bytes n v = rev (le_bytes n v)"

lemma length_be_bytes [simp]: "length (be_bytes n v) = n"
  by (simp add: be_bytes_def)

subsection \<open>Lists\<close>

lemma list3_conv: "length bs = 3 \<Longrightarrow> bs = [bs ! 0, bs ! 1, bs ! 2]"
  by (auto simp: numeral_3_eq_3 length_Suc_conv)

lemma list6_conv:
  "length bs = 6 \<Longrightarrow> bs = [bs ! 0, bs ! 1, bs ! 2, bs ! 3, bs ! 4, bs ! 5]"
  by (auto simp: eval_nat_numeral length_Suc_conv)

end
