(* ===== verification/Decimal.thy ===== *)
theory Decimal
  imports Prelude
begin

text \<open>
  The exact decimals of \<open>src/src/decimal.c\<close>, as far as the event parser uses them: the
  representation \<open>decimal_t\<close> in base \<open>10^9\<close>, the binary format of a \<open>DECIMAL(p,s)\<close>
  column (\<open>decimal_bin_size\<close>, \<open>bin2decimal\<close>) and the printable form
  (\<open>remove_leading_zeroes\<close>, \<open>decimal2string\<close>). A \<open>dec1\<close> is a 32-bit C integer; the
  model keeps it as an \<open>int\<close> and faults with \<open>IntOverflow\<close> where the one multiplication
  that could leave the 32-bit range does. \<open>/\<close> and \<open>%\<close> of C are \<open>sdiv\<close> and \<open>smod\<close>.
\<close>

datatype dec_error =
  E_DEC_OK | E_DEC_TRUNCATED | E_DEC_OVERFLOW | E_DEC_DIV_ZERO | E_DEC_BAD_NUM | E_DEC_OOM

record decimal_t =
  d_intg :: int
  d_frac :: int
  d_len :: int
  d_sign :: int
  d_buf :: "int list"

subsection \<open>Constants and tables\<close>

abbreviation DIG_PER_DEC1 :: int where "DIG_PER_DEC1 \<equiv> 9"
abbreviation DIG_MASK :: int where "DIG_MASK \<equiv> 100000000"
abbreviation DIG_MAX :: int where "DIG_MAX \<equiv> 999999999"

definition powers10 :: "int list" where
  "powers10 = [1, 10, 100, 1000, 10000, 100000, 1000000, 10000000, 100000000, 1000000000]"

definition dig2bytes :: "int list" where
  "dig2bytes = [0, 1, 1, 2, 2, 3, 3, 4, 4, 4]"

definition ROUND_UP :: "int \<Rightarrow> int" where
  "ROUND_UP x = (x + DIG_PER_DEC1 - 1) sdiv DIG_PER_DEC1"

text \<open>Array accesses with a C \<open>int\<close> index.\<close>

definition nthZ :: "'a list \<Rightarrow> int \<Rightarrow> 'a res" where
  "nthZ xs i = (if 0 \<le> i then nthE xs (nat i) else Inl OutOfBounds)"

definition putZ :: "'a list \<Rightarrow> int \<Rightarrow> 'a list \<Rightarrow> 'a list res" where
  "putZ b off xs = (if 0 \<le> off then poke b (nat off) xs else Inl BufferOverflow)"

text \<open>\<open>FIX_INTG_FRAC_ERROR\<close>: the word counts that fit a buffer of \<open>len\<close> words.\<close>

definition fix_intg_frac_error :: "int \<Rightarrow> int \<Rightarrow> int \<Rightarrow> int \<times> int \<times> dec_error" where
  "fix_intg_frac_error len intg1 frac1 =
     (if intg1 + frac1 > len
      then if intg1 > len then (len, 0, E_DEC_OVERFLOW)
           else (intg1, len - intg1, E_DEC_TRUNCATED)
      else (intg1, frac1, E_DEC_OK))"

definition decimal_make_zero :: "decimal_t \<Rightarrow> decimal_t res" where
  "decimal_make_zero d = bindE (poke (d_buf d) 0 [0]) (\<lambda>b.
     Inr (d\<lparr>d_buf := b, d_intg := 1, d_frac := 0, d_sign := 0\<rparr>))"

subsection \<open>The big-endian loads (mi_sint1korr to mi_sint4korr)\<close>

definition mi_sint1korr :: "u8 list \<Rightarrow> int" where
  "mi_sint1korr A = sint (A ! 0)"

definition mi_sint2korr :: "u8 list \<Rightarrow> int" where
  "mi_sint2korr A = uint (A ! 1) + sint (A ! 0) * 2 ^ 8"

definition mi_sint3korr :: "u8 list \<Rightarrow> int" where
  "mi_sint3korr A = sint
     (if A ! 0 AND 128 \<noteq> 0
      then push_bit 24 255 OR push_bit 16 (ucast (A ! 0)) OR push_bit 8 (ucast (A ! 1)) OR
           ucast (A ! 2)
      else push_bit 16 (ucast (A ! 0)) OR push_bit 8 (ucast (A ! 1)) OR (ucast (A ! 2) :: u32))"

definition mi_sint4korr :: "u8 list \<Rightarrow> int" where
  "mi_sint4korr A =
     uint (A ! 3) + uint (A ! 2) * 2 ^ 8 + uint (A ! 1) * 2 ^ 16 + sint (A ! 0) * 2 ^ 24"

text \<open>The \<open>switch (i)\<close> of \<open>bin2decimal\<close> over the byte count of a partial group.\<close>

definition mi_sintkorr :: "int \<Rightarrow> u8 list \<Rightarrow> nat \<Rightarrow> int res" where
  "mi_sintkorr i d from =
     (if i = 1 then bindE (peek d from 1) (\<lambda>b. Inr (mi_sint1korr b))
      else if i = 2 then bindE (peek d from 2) (\<lambda>b. Inr (mi_sint2korr b))
      else if i = 3 then bindE (peek d from 3) (\<lambda>b. Inr (mi_sint3korr b))
      else if i = 4 then bindE (peek d from 4) (\<lambda>b. Inr (mi_sint4korr b))
      else Inr 0)"

subsection \<open>The binary format of a column\<close>

definition decimal_bin_size :: "int \<Rightarrow> int \<Rightarrow> int res" where
  "decimal_bin_size precision scale =
     (let intg = precision - scale;
          intg0 = intg sdiv DIG_PER_DEC1; frac0 = scale sdiv DIG_PER_DEC1;
          intg0x = intg - intg0 * DIG_PER_DEC1; frac0x = scale - frac0 * DIG_PER_DEC1
      in bindE (nthZ dig2bytes intg0x) (\<lambda>ib. bindE (nthZ dig2bytes frac0x) (\<lambda>fb.
           Inr (intg0 * 4 + ib + frac0 * 4 + fb))))"

text \<open>
  The three group loops of \<open>bin2decimal\<close>. \<open>buf\<close> is \<open>to->buf\<close>, \<open>k\<close> the index of the
  write pointer in it. The flag of the result is \<open>False\<close> when the code takes \<open>goto err\<close>.
\<close>

fun bin_intg_words ::
    "u8 list \<Rightarrow> int \<Rightarrow> nat \<Rightarrow> nat \<Rightarrow> int list \<Rightarrow> nat \<Rightarrow> int \<Rightarrow> (bool \<times> int list \<times> nat \<times> int) res"
where
  "bin_intg_words d msk 0 from buf k intg = Inr (True, buf, k, intg)"
| "bin_intg_words d msk (Suc n) from buf k intg =
     bindE (peek d from 4) (\<lambda>b.
       let x = mi_sint4korr b XOR msk in
       bindE (poke buf k [x]) (\<lambda>buf.
         if x < 0 \<or> x > DIG_MAX then Inr (False, buf, k, intg)
         else if k > 0 \<or> x \<noteq> 0 then bin_intg_words d msk n (from + 4) buf (Suc k) intg
         else bin_intg_words d msk n (from + 4) buf k (intg - DIG_PER_DEC1)))"

fun bin_frac_words ::
    "u8 list \<Rightarrow> int \<Rightarrow> nat \<Rightarrow> nat \<Rightarrow> int list \<Rightarrow> nat \<Rightarrow> (bool \<times> int list \<times> nat) res"
where
  "bin_frac_words d msk 0 from buf k = Inr (True, buf, k)"
| "bin_frac_words d msk (Suc n) from buf k =
     bindE (peek d from 4) (\<lambda>b.
       let x = mi_sint4korr b XOR msk in
       bindE (poke buf k [x]) (\<lambda>buf.
         if x < 0 \<or> x > DIG_MAX then Inr (False, buf, k)
         else bin_frac_words d msk n (from + 4) buf (Suc k)))"

definition bin_intg_lead ::
    "u8 list \<Rightarrow> int \<Rightarrow> int \<Rightarrow> nat \<Rightarrow> int list \<Rightarrow> int \<Rightarrow> (bool \<times> int list \<times> nat \<times> int \<times> nat) res"
where
  "bin_intg_lead d msk intg0x from buf intg =
     (if intg0x \<noteq> 0 then
        bindE (nthZ dig2bytes intg0x) (\<lambda>i.
        bindE (mi_sintkorr i d from) (\<lambda>x0.
          let x = x0 XOR msk; from = from + nat i in
          bindE (poke buf 0 [x]) (\<lambda>buf.
          bindE (nthZ powers10 (intg0x + 1)) (\<lambda>p.
            if x < 0 \<or> x \<ge> p then Inr (False, buf, 0, intg, from)
            else if x \<noteq> 0 then Inr (True, buf, 1, intg, from)
            else Inr (True, buf, 0, intg - intg0x, from)))))
      else Inr (True, buf, 0, intg, from))"

definition bin_frac_tail ::
    "u8 list \<Rightarrow> int \<Rightarrow> int \<Rightarrow> nat \<Rightarrow> int list \<Rightarrow> nat \<Rightarrow> (bool \<times> int list) res"
where
  "bin_frac_tail d msk frac0x from buf k =
     (if frac0x \<noteq> 0 then
        bindE (nthZ dig2bytes frac0x) (\<lambda>i.
        bindE (mi_sintkorr i d from) (\<lambda>x0.
        bindE (nthZ powers10 (DIG_PER_DEC1 - frac0x)) (\<lambda>p.
          let x = (x0 XOR msk) * p in
          if x < - (2 ^ 31) \<or> x \<ge> 2 ^ 31 then Inl IntOverflow
          else bindE (poke buf k [x]) (\<lambda>buf.
            if x < 0 \<or> x > DIG_MAX then Inr (False, buf) else Inr (True, buf)))))
      else Inr (True, buf))"

definition bin2decimal ::
    "u8 list \<Rightarrow> nat \<Rightarrow> decimal_t \<Rightarrow> int \<Rightarrow> int \<Rightarrow> (dec_error \<times> decimal_t) res"
where
  "bin2decimal ev from to precision scale =
     (let intg = precision - scale;
          intg0 = intg sdiv DIG_PER_DEC1; frac0 = scale sdiv DIG_PER_DEC1;
          intg0x = intg - intg0 * DIG_PER_DEC1; frac0x = scale - frac0 * DIG_PER_DEC1;
          intg1 = intg0 + of_bool (intg0x > 0); frac1 = frac0 + of_bool (frac0x > 0)
      in bindE (peek ev from 1) (\<lambda>first.
         let msk = (if first ! 0 AND 128 \<noteq> 0 then 0 else - 1 :: int) in
         bindE (decimal_bin_size precision scale) (\<lambda>bin_size.
         bindE (checkE OutOfBounds (0 \<le> bin_size)) (\<lambda>_.
         bindE (peek ev from (nat bin_size)) (\<lambda>d.
         bindE (nthE d 0) (\<lambda>d0.
         let d = d[0 := d0 XOR 128];
             (intg1', frac1', error) = fix_intg_frac_error (d_len to) intg1 frac1 in
         bindE (if error \<noteq> E_DEC_OK then
                  if intg1' < intg0 + of_bool (intg0x > 0)
                  then bindE (nthZ dig2bytes intg0x) (\<lambda>ib.
                         Inr (nat (ib + 4 * (intg0 - intg1')), intg1', 0, 0, 0))
                  else Inr (0, intg0, intg0x, frac1', 0)
                else Inr (0, intg0, intg0x, frac0, frac0x))
           (\<lambda>(off, intg0, intg0x, frac0, frac0x).
         let to = to\<lparr>d_sign := of_bool (msk \<noteq> 0), d_intg := intg0 * DIG_PER_DEC1 + intg0x,
                     d_frac := frac0 * DIG_PER_DEC1 + frac0x\<rparr>;
             err = (\<lambda>buf intg. bindE (decimal_make_zero (to\<lparr>d_buf := buf, d_intg := intg\<rparr>))
                      (\<lambda>z. Inr (E_DEC_BAD_NUM, z))) in
         bindE (bin_intg_lead d msk intg0x off (d_buf to) (d_intg to))
           (\<lambda>(ok, buf, k, intg, off).
         if \<not> ok then err buf intg else
         bindE (bin_intg_words d msk (nat intg0) off buf k intg) (\<lambda>(ok, buf, k, intg).
         if \<not> ok then err buf intg else
         bindE (bin_frac_words d msk (nat frac0) (off + 4 * nat intg0) buf k)
           (\<lambda>(ok, buf, k).
         if \<not> ok then err buf intg else
         bindE (bin_frac_tail d msk frac0x (off + 4 * nat intg0 + 4 * nat frac0) buf k)
           (\<lambda>(ok, buf).
         if \<not> ok then err buf intg
         else Inr (error, to\<lparr>d_buf := buf, d_intg := intg\<rparr>))))))))))))"

subsection \<open>The printable form\<close>

text \<open>\<open>while (intg > 0 && *buf0 == 0)\<close> over the words from \<open>buf0\<close> on.\<close>

fun skip_zero_words :: "int list \<Rightarrow> int \<Rightarrow> int \<Rightarrow> nat \<Rightarrow> (nat \<times> int) res" where
  "skip_zero_words [] intg i k = (if intg > 0 then Inl OutOfBounds else Inr (k, intg))"
| "skip_zero_words (w # ws) intg i k =
     (if intg > 0 \<and> w = 0 then skip_zero_words ws (intg - i) DIG_PER_DEC1 (Suc k)
      else Inr (k, intg))"

text \<open>\<open>for (i= (intg - 1) % DIG_PER_DEC1; *buf0 < powers10[i--]; intg--) ;\<close>\<close>

fun skip_zero_digits :: "int \<Rightarrow> nat \<Rightarrow> int \<Rightarrow> int res" where
  "skip_zero_digits w 0 intg = (if w < 1 then Inl OutOfBounds else Inr intg)"
| "skip_zero_digits w (Suc i) intg =
     bindE (nthE powers10 (Suc i)) (\<lambda>p.
       if w < p then skip_zero_digits w i (intg - 1) else Inr intg)"

definition remove_leading_zeroes :: "decimal_t \<Rightarrow> (nat \<times> int) res" where
  "remove_leading_zeroes from =
     bindE (skip_zero_words (d_buf from) (d_intg from)
              ((d_intg from - 1) smod DIG_PER_DEC1 + 1) 0) (\<lambda>(buf0, intg).
       if intg > 0 then
         bindE (nthE (d_buf from) buf0) (\<lambda>w.
         bindE (skip_zero_digits w (nat ((intg - 1) smod DIG_PER_DEC1)) intg) (\<lambda>intg.
           Inr (buf0, intg)))
       else Inr (buf0, 0))"

text \<open>The \<open>i\<close>-loops that print one word, from the top digit down and from the last digit up.\<close>

fun frac_chars :: "int \<Rightarrow> nat \<Rightarrow> u8 list" where
  "frac_chars x 0 = []"
| "frac_chars x (Suc i) =
     (let y = x sdiv DIG_MASK in (48 + of_int y) # frac_chars ((x - y * DIG_MASK) * 10) i)"

fun intg_chars :: "int \<Rightarrow> nat \<Rightarrow> u8 list \<Rightarrow> u8 list" where
  "intg_chars x 0 acc = acc"
| "intg_chars x (Suc i) acc =
     (let y = x sdiv 10 in intg_chars y i ((48 + of_int (x - y * 10)) # acc))"

text \<open>\<open>for (; frac > 0; frac -= DIG_PER_DEC1)\<close> over the words after the point.\<close>

fun frac_loop :: "int list \<Rightarrow> nat \<Rightarrow> u8 list res" where
  "frac_loop ws 0 = Inr []"
| "frac_loop [] (Suc f) = Inl OutOfBounds"
| "frac_loop (w # ws) (Suc f) =
     bindE (frac_loop ws (Suc f - 9)) (\<lambda>cs. Inr (frac_chars w (min (Suc f) 9) @ cs))"

text \<open>The same for the words before the point, read backwards (\<open>*--buf\<close>).\<close>

fun intg_loop :: "int list \<Rightarrow> nat \<Rightarrow> u8 list \<Rightarrow> u8 list res" where
  "intg_loop ws 0 acc = Inr acc"
| "intg_loop [] (Suc f) acc = Inl OutOfBounds"
| "intg_loop (w # ws) (Suc f) acc = intg_loop ws (Suc f - 9) (intg_chars w (min (Suc f) 9) acc)"

text \<open>\<open>for (; fill; fill--)\<close>: a negative count runs out of the buffer.\<close>

definition fill_chars :: "int \<Rightarrow> u8 \<Rightarrow> u8 list res" where
  "fill_chars fill c = (if fill < 0 then Inl BufferOverflow else Inr (replicate (nat fill) c))"

text \<open>
  The widths and the error code \<open>decimal2string\<close> settles on before it writes (lines 392-422):
  \<open>(error, len, intg, frac, intg_len, frac_len, to_len)\<close>.
\<close>

definition d2s_widths ::
    "int \<Rightarrow> int \<Rightarrow> int \<Rightarrow> int \<Rightarrow> int \<Rightarrow> int \<Rightarrow> dec_error \<times> int \<times> int \<times> int \<times> int \<times> int"
where
  "d2s_widths sign intg frac to_len fixed_precision fixed_decimals =
     (let fixed_intg = (if fixed_precision \<noteq> 0 then fixed_precision - fixed_decimals else 0);
          il = (if fixed_precision \<noteq> 0 then fixed_intg else intg);
          intg_len = (if il = 0 then 1 else il);
          frac_len = (if fixed_precision \<noteq> 0 then fixed_decimals else frac);
          len = sign + intg_len + of_bool (frac \<noteq> 0) + frac_len
      in if fixed_precision \<noteq> 0 then
           let (error, frac) =
                 (if frac > fixed_decimals then (E_DEC_TRUNCATED, fixed_decimals)
                  else (E_DEC_OK, frac));
               (error, intg) =
                 (if intg > fixed_intg then (E_DEC_OVERFLOW, fixed_intg) else (error, intg))
           in (error, len, intg, frac, intg_len, frac_len)
         else if len > to_len - 1 then
           let j = len - (to_len - 1);
               error = (if frac \<noteq> 0 \<and> j \<le> frac + 1 then E_DEC_TRUNCATED else E_DEC_OVERFLOW);
               j = (if frac \<noteq> 0 \<and> j \<ge> frac + 1 then j - 1 else j);
               (intg, frac) = (if j > frac then (intg - (j - frac), 0) else (intg, frac - j));
               len = sign + intg_len + of_bool (frac \<noteq> 0) + frac_len
           in (error, len, intg, frac, intg_len, frac_len)
         else (E_DEC_OK, len, intg, frac, intg_len, frac_len))"

definition decimal2string ::
    "decimal_t \<Rightarrow> u8 list \<Rightarrow> int \<Rightarrow> int \<Rightarrow> int \<Rightarrow> u8 \<Rightarrow> (dec_error \<times> u8 list \<times> int) res"
where
  "decimal2string from to to_len fixed_precision fixed_decimals filler =
     bindE (remove_leading_zeroes from) (\<lambda>(off, intg).
     let (intg, words) = (if intg + d_frac from = 0 then (1, [0])
                          else (intg, drop off (d_buf from)));
         (error, len, intg, frac, intg_len, frac_len) =
           d2s_widths (d_sign from) intg (d_frac from) to_len fixed_precision fixed_decimals;
         s = (if d_sign from \<noteq> 0 then 1 else 0)
     in
     bindE (putZ to len [0]) (\<lambda>to.
     bindE (if d_sign from \<noteq> 0 then putZ to 0 [45] else Inr to) (\<lambda>to.
     bindE (if frac \<noteq> 0 then
              bindE (putZ to (s + intg_len) [46]) (\<lambda>to.
              bindE (checkE OutOfBounds (0 \<le> ROUND_UP intg)) (\<lambda>_.
              bindE (frac_loop (drop (nat (ROUND_UP intg)) words) (nat frac)) (\<lambda>cs.
              bindE (fill_chars (frac_len - frac) filler) (\<lambda>fs.
              putZ to (s + intg_len + 1) (cs @ fs)))))
            else Inr to) (\<lambda>to.
     bindE (fill_chars (if intg = 0 then intg_len - intg - 1 else intg_len - intg) filler) (\<lambda>fs.
     bindE (putZ to s fs) (\<lambda>to.
     bindE (if intg \<noteq> 0 then
              bindE (checkE OutOfBounds (0 \<le> intg \<and> ROUND_UP intg \<le> int (length words))) (\<lambda>_.
              bindE (intg_loop (rev (take (nat (ROUND_UP intg)) words)) (nat intg) []) (\<lambda>cs.
              putZ to (s + int (length fs)) cs))
            else putZ to (s + int (length fs)) [48]) (\<lambda>to.
     Inr (error, to, len))))))))"

end
