(* ===== verification/DecimalArith.thy ===== *)
theory DecimalArith
  imports Decimal
begin

text \<open>
  Addition, subtraction and comparison of decimals (\<open>src/src/decimal.c\<close>). A \<open>dec1\<close> pointer
  into a buffer is the index of the word it points to, and a loop that walks down a buffer is a
  recursion on that index. The destination of an operation is a buffer of its own. A sum of
  \<open>dec1\<close> values that leaves the 32-bit range is the fault \<open>IntOverflow\<close>.
\<close>

abbreviation DIG_BASE :: int where "DIG_BASE \<equiv> 1000000000"

definition i32 :: "int \<Rightarrow> int res" where
  "i32 x = (if - (2 ^ 31) \<le> x \<and> x < 2 ^ 31 then Inr x else Inl IntOverflow)"

text \<open>The cast of a 64-bit value (\<open>dec2\<close>) to a \<open>dec1\<close>.\<close>

definition dec1_of :: "int \<Rightarrow> int" where
  "dec1_of x = signed_take_bit 31 x"

text \<open>The macros \<open>ADD\<close> and \<open>SUB\<close>: the word stored and the new carry.\<close>

definition ADD :: "int \<Rightarrow> int \<Rightarrow> int \<Rightarrow> (int \<times> int) res" where
  "ADD from1 from2 carry =
     bindE (i32 (from1 + from2)) (\<lambda>a. bindE (i32 (a + carry)) (\<lambda>a.
       Inr (if a \<ge> DIG_BASE then (a - DIG_BASE, 1) else (a, 0))))"

definition SUB :: "int \<Rightarrow> int \<Rightarrow> int \<Rightarrow> (int \<times> int) res" where
  "SUB from1 from2 carry =
     bindE (i32 (from1 - from2)) (\<lambda>a. bindE (i32 (a - carry)) (\<lambda>a.
       Inr (if a < 0 then (a + DIG_BASE, 1) else (a, 0))))"

definition frac_max :: "int list" where
  "frac_max = [900000000, 990000000, 999000000, 999900000, 999990000, 999999000, 999999900, 999999990]"

text \<open>\<open>for (; n; n--) *buf++ = DIG_MAX\<close>: a negative count runs out of the buffer.\<close>

definition fill_max :: "int list \<Rightarrow> int \<Rightarrow> int \<Rightarrow> (int list \<times> int) res" where
  "fill_max b k n =
     (if n < 0 then Inl BufferOverflow
      else bindE (putZ b k (replicate (nat n) DIG_MAX)) (\<lambda>b. Inr (b, k + n)))"

definition max_decimal :: "int \<Rightarrow> int \<Rightarrow> decimal_t \<Rightarrow> decimal_t res" where
  "max_decimal precision frac to =
     (let intpart = precision - frac; firstdigits = intpart smod DIG_PER_DEC1;
          lastdigits = frac smod DIG_PER_DEC1
      in
      bindE (if intpart \<noteq> 0 then
               bindE (if firstdigits \<noteq> 0 then
                        bindE (nthZ powers10 firstdigits) (\<lambda>p.
                        bindE (putZ (d_buf to) 0 [p - 1]) (\<lambda>b. Inr (b, 1)))
                      else Inr (d_buf to, 0)) (\<lambda>(b, k).
               fill_max b k (intpart sdiv DIG_PER_DEC1))
             else Inr (d_buf to, 0)) (\<lambda>(b, k).
      bindE (if frac \<noteq> 0 then
               bindE (fill_max b k (frac sdiv DIG_PER_DEC1)) (\<lambda>(b, k).
               if lastdigits \<noteq> 0 then
                 bindE (nthZ frac_max (lastdigits - 1)) (\<lambda>m. putZ b k [m])
               else Inr b)
             else Inr b) (\<lambda>b.
      Inr (to\<lparr>d_sign := 0, d_intg := intpart, d_frac := frac, d_buf := b\<rparr>))))"

definition decimal_size :: "int \<Rightarrow> int \<Rightarrow> int" where
  "decimal_size precision scale = ROUND_UP (precision - scale) + ROUND_UP scale"

definition decimal_result_size :: "decimal_t \<Rightarrow> decimal_t \<Rightarrow> char \<Rightarrow> int \<Rightarrow> int" where
  "decimal_result_size from1 from2 op param =
     (if op = CHR ''-'' then
        ROUND_UP (max (d_intg from1) (d_intg from2)) + ROUND_UP (max (d_frac from1) (d_frac from2))
      else if op = CHR ''+'' then
        ROUND_UP (max (d_intg from1) (d_intg from2) + 1) + ROUND_UP (max (d_frac from1) (d_frac from2))
      else if op = CHR ''*'' then
        ROUND_UP (d_intg from1 + d_intg from2) + ROUND_UP (d_frac from1) + ROUND_UP (d_frac from2)
      else if op = CHR ''/'' then
        ROUND_UP (d_intg from1 + d_intg from2 + 1 + d_frac from1 + d_frac from2 + param)
      else - 1)"

subsection \<open>The loops of do_add\<close>

text \<open>\<open>while (buf1 > stop) *--buf0 = *--buf1\<close>\<close>

function copy_down :: "int list \<Rightarrow> int \<Rightarrow> int list \<Rightarrow> int \<Rightarrow> int \<Rightarrow> (int list \<times> int \<times> int) res" where
  "copy_down src stop to buf0 buf1 =
     (if buf1 > stop then
        bindE (nthZ src (buf1 - 1)) (\<lambda>w.
        bindE (putZ to (buf0 - 1) [w]) (\<lambda>to.
        copy_down src stop to (buf0 - 1) (buf1 - 1)))
      else Inr (to, buf0, buf1))"
  by pat_completeness auto

termination
  by (relation "measure (\<lambda>(src, stop, to, buf0, buf1). nat (buf1 - stop))") auto

text \<open>\<open>while (buf1 > stop2) ADD(*--buf0, *--buf1, *--buf2, carry)\<close>\<close>

function add_down ::
    "int list \<Rightarrow> int \<Rightarrow> int list \<Rightarrow> int list \<Rightarrow> int \<Rightarrow> int \<Rightarrow> int \<Rightarrow> int \<Rightarrow> (int list \<times> int \<times> int) res"
where
  "add_down src1 stop2 src2 to buf0 buf1 buf2 carry =
     (if buf1 > stop2 then
        bindE (nthZ src1 (buf1 - 1)) (\<lambda>v.
        bindE (nthZ src2 (buf2 - 1)) (\<lambda>w.
        bindE (ADD v w carry) (\<lambda>(a, carry).
        bindE (putZ to (buf0 - 1) [a]) (\<lambda>to.
        add_down src1 stop2 src2 to (buf0 - 1) (buf1 - 1) (buf2 - 1) carry))))
      else Inr (to, buf0, carry))"
  by pat_completeness auto

termination
  by (relation "measure (\<lambda>(src1, stop2, src2, to, buf0, buf1, buf2, carry). nat (buf1 - stop2))") auto

text \<open>\<open>while (buf1 > stop) ADD(*--buf0, *--buf1, 0, carry)\<close>\<close>

function carry_down ::
    "int list \<Rightarrow> int \<Rightarrow> int list \<Rightarrow> int \<Rightarrow> int \<Rightarrow> int \<Rightarrow> (int list \<times> int \<times> int) res"
where
  "carry_down src stop to buf0 buf1 carry =
     (if buf1 > stop then
        bindE (nthZ src (buf1 - 1)) (\<lambda>v.
        bindE (ADD v 0 carry) (\<lambda>(a, carry).
        bindE (putZ to (buf0 - 1) [a]) (\<lambda>to.
        carry_down src stop to (buf0 - 1) (buf1 - 1) carry)))
      else Inr (to, buf0, carry))"
  by pat_completeness auto

termination
  by (relation "measure (\<lambda>(src, stop, to, buf0, buf1, carry). nat (buf1 - stop))") auto

definition do_add :: "decimal_t \<Rightarrow> decimal_t \<Rightarrow> decimal_t \<Rightarrow> (dec_error \<times> decimal_t) res" where
  "do_add from1 from2 to =
     (let src1 = d_buf from1; src2 = d_buf from2;
          intg1 = ROUND_UP (d_intg from1); intg2 = ROUND_UP (d_intg from2);
          frac1 = ROUND_UP (d_frac from1); frac2 = ROUND_UP (d_frac from2)
      in
      bindE (if intg1 > intg2 then nthZ src1 0
             else if intg2 > intg1 then nthZ src2 0
             else bindE (nthZ src1 0) (\<lambda>v. bindE (nthZ src2 0) (\<lambda>w. i32 (v + w)))) (\<lambda>x.
      bindE (if x > DIG_MAX - 1
             then bindE (putZ (d_buf to) 0 [0]) (\<lambda>b. Inr (max intg1 intg2 + 1, b))
             else Inr (max intg1 intg2, d_buf to)) (\<lambda>(intg0, b).
      let (intg0, frac0, error) = fix_intg_frac_error (d_len to) intg0 (max frac1 frac2) in
      if error = E_DEC_OVERFLOW
      then bindE (max_decimal (d_len to * DIG_PER_DEC1) 0 (to\<lparr>d_buf := b\<rparr>)) (\<lambda>to. Inr (error, to))
      else
      let frac = max (d_frac from1) (d_frac from2);
          (frac, frac1, frac2, intg1, intg2) =
            (if error \<noteq> E_DEC_OK
             then (min frac (frac0 * DIG_PER_DEC1), min frac1 frac0, min frac2 frac0,
                   min intg1 intg0, min intg2 intg0)
             else (frac, frac1, frac2, intg1, intg2));
          (hi, buf1, stop, lo, buf2, stop2) =
            (if frac1 > frac2
             then (src1, intg1 + frac1, intg1 + frac2, src2, intg2 + frac2,
                   if intg1 > intg2 then intg1 - intg2 else 0)
             else (src2, intg2 + frac2, intg2 + frac1, src1, intg1 + frac1,
                   if intg2 > intg1 then intg2 - intg1 else 0))
      in
      bindE (copy_down hi stop b (intg0 + frac0) buf1) (\<lambda>(b, buf0, buf1).
      bindE (add_down hi stop2 lo b buf0 buf1 buf2 0) (\<lambda>(b, buf0, carry).
      bindE (if intg1 > intg2 then carry_down src1 0 b buf0 (intg1 - intg2) carry
             else carry_down src2 0 b buf0 (intg2 - intg1) carry) (\<lambda>(b, buf0, carry).
      bindE (if carry \<noteq> 0 then putZ b (buf0 - 1) [1] else Inr b) (\<lambda>b.
      Inr (error, to\<lparr>d_sign := d_sign from1, d_frac := frac, d_intg := intg0 * DIG_PER_DEC1, d_buf := b\<rparr>))))))))"


subsection \<open>The comparison at the head of do_sub\<close>

text \<open>\<open>while (buf1 < stop1 && *buf1 == 0) buf1++\<close>\<close>

function skip_zeros :: "int list \<Rightarrow> int \<Rightarrow> int \<Rightarrow> int res" where
  "skip_zeros src stop1 buf1 =
     (if buf1 < stop1 then
        bindE (nthZ src buf1) (\<lambda>w. if w = 0 then skip_zeros src stop1 (buf1 + 1) else Inr buf1)
      else Inr buf1)"
  by pat_completeness auto

termination
  by (relation "measure (\<lambda>(src, stop1, buf1). nat (stop1 - buf1))") auto

text \<open>\<open>while (buf1 <= end1 && *end1 == 0) end1--\<close>\<close>

function trim_zeros :: "int list \<Rightarrow> int \<Rightarrow> int \<Rightarrow> int res" where
  "trim_zeros src buf1 end1 =
     (if buf1 \<le> end1 then
        bindE (nthZ src end1) (\<lambda>w. if w = 0 then trim_zeros src buf1 (end1 - 1) else Inr end1)
      else Inr end1)"
  by pat_completeness auto

termination
  by (relation "measure (\<lambda>(src, buf1, end1). nat (end1 + 1 - buf1))") auto

text \<open>\<open>while (buf1 <= end1 && buf2 <= end2 && *buf1 == *buf2) buf1++, buf2++\<close>\<close>

function skip_equal :: "int list \<Rightarrow> int \<Rightarrow> int list \<Rightarrow> int \<Rightarrow> int \<Rightarrow> int \<Rightarrow> (int \<times> int) res" where
  "skip_equal src1 end1 src2 end2 buf1 buf2 =
     (if buf1 \<le> end1 \<and> buf2 \<le> end2 then
        bindE (nthZ src1 buf1) (\<lambda>v. bindE (nthZ src2 buf2) (\<lambda>w.
          if v = w then skip_equal src1 end1 src2 end2 (buf1 + 1) (buf2 + 1) else Inr (buf1, buf2)))
      else Inr (buf1, buf2))"
  by pat_completeness auto

termination
  by (relation "measure (\<lambda>(src1, end1, src2, end2, buf1, buf2). nat (end1 + 1 - buf1))") auto

text \<open>
  \<open>carry\<close> (\<open>None\<close> when the numbers are equal), and \<open>start\<close>, \<open>intg\<close> and \<open>frac\<close> of both
  operands as the code leaves them.
\<close>

definition sub_order ::
    "decimal_t \<Rightarrow> decimal_t \<Rightarrow> (int option \<times> (int \<times> int \<times> int) \<times> (int \<times> int \<times> int)) res"
where
  "sub_order from1 from2 =
     (let src1 = d_buf from1; src2 = d_buf from2;
          stop1 = ROUND_UP (d_intg from1); stop2 = ROUND_UP (d_intg from2);
          frac1 = ROUND_UP (d_frac from1); frac2 = ROUND_UP (d_frac from2)
      in
      bindE (nthZ src1 0) (\<lambda>v.
      bindE (if v = 0 then skip_zeros src1 stop1 0 else Inr 0) (\<lambda>start1.
      bindE (nthZ src2 0) (\<lambda>w.
      bindE (if w = 0 then skip_zeros src2 stop2 0 else Inr 0) (\<lambda>start2.
      let intg1 = stop1 - start1; intg2 = stop2 - start2 in
      if intg2 > intg1 then Inr (Some 1, (start1, intg1, frac1), (start2, intg2, frac2))
      else if intg2 = intg1 then
        bindE (trim_zeros src1 start1 (stop1 + (frac1 - 1))) (\<lambda>end1.
        bindE (trim_zeros src2 start2 (stop2 + (frac2 - 1))) (\<lambda>end2.
        let frac1 = end1 - stop1 + 1; frac2 = end2 - stop2 + 1 in
        bindE (skip_equal src1 end1 src2 end2 start1 start2) (\<lambda>(buf1, buf2).
        bindE (if buf1 \<le> end1 then
                 if buf2 \<le> end2 then
                   bindE (nthZ src2 buf2) (\<lambda>w. bindE (nthZ src1 buf1) (\<lambda>v.
                     Inr (Some (of_bool (w > v)))))
                 else Inr (Some 0)
               else if buf2 \<le> end2 then Inr (Some 1)
               else Inr None) (\<lambda>carry.
        Inr (carry, (start1, intg1, frac1), (start2, intg2, frac2))))))
      else Inr (Some 0, (start1, intg1, frac1), (start2, intg2, frac2)))))))"

text \<open>\<open>do_sub\<close> with \<open>to == 0\<close>: the result of the comparison.\<close>

definition do_sub_cmp :: "decimal_t \<Rightarrow> decimal_t \<Rightarrow> int res" where
  "do_sub_cmp from1 from2 =
     bindE (sub_order from1 from2) (\<lambda>(carry, _, _).
       Inr (case carry of None \<Rightarrow> 0 | Some c \<Rightarrow> if c = d_sign from1 then 1 else - 1))"

subsection \<open>The loops of do_sub\<close>

text \<open>\<open>while (n-- > 0) *--buf0 = 0\<close>\<close>

fun zero_down :: "int list \<Rightarrow> int \<Rightarrow> nat \<Rightarrow> (int list \<times> int) res" where
  "zero_down to buf0 0 = Inr (to, buf0)"
| "zero_down to buf0 (Suc n) =
     bindE (putZ to (buf0 - 1) [0]) (\<lambda>to. zero_down to (buf0 - 1) n)"

text \<open>\<open>while (buf2 > stop2) SUB(*--buf0, 0, *--buf2, carry)\<close>\<close>

function negate_down ::
    "int list \<Rightarrow> int \<Rightarrow> int list \<Rightarrow> int \<Rightarrow> int \<Rightarrow> int \<Rightarrow> (int list \<times> int \<times> int \<times> int) res"
where
  "negate_down src2 stop2 to buf0 buf2 carry =
     (if buf2 > stop2 then
        bindE (nthZ src2 (buf2 - 1)) (\<lambda>w.
        bindE (SUB 0 w carry) (\<lambda>(a, carry).
        bindE (putZ to (buf0 - 1) [a]) (\<lambda>to.
        negate_down src2 stop2 to (buf0 - 1) (buf2 - 1) carry)))
      else Inr (to, buf0, buf2, carry))"
  by pat_completeness auto

termination
  by (relation "measure (\<lambda>(src2, stop2, to, buf0, buf2, carry). nat (buf2 - stop2))") auto

text \<open>\<open>while (buf2 > start2) SUB(*--buf0, *--buf1, *--buf2, carry)\<close>\<close>

function sub_down ::
    "int list \<Rightarrow> int list \<Rightarrow> int \<Rightarrow> int list \<Rightarrow> int \<Rightarrow> int \<Rightarrow> int \<Rightarrow> int \<Rightarrow>
      (int list \<times> int \<times> int \<times> int) res"
where
  "sub_down src1 src2 start2 to buf0 buf1 buf2 carry =
     (if buf2 > start2 then
        bindE (nthZ src1 (buf1 - 1)) (\<lambda>v.
        bindE (nthZ src2 (buf2 - 1)) (\<lambda>w.
        bindE (SUB v w carry) (\<lambda>(a, carry).
        bindE (putZ to (buf0 - 1) [a]) (\<lambda>to.
        sub_down src1 src2 start2 to (buf0 - 1) (buf1 - 1) (buf2 - 1) carry))))
      else Inr (to, buf0, buf1, carry))"
  by pat_completeness auto

termination
  by (relation "measure (\<lambda>(src1, src2, start2, to, buf0, buf1, buf2, carry). nat (buf2 - start2))") auto

text \<open>\<open>while (carry && buf1 > start1) SUB(*--buf0, *--buf1, 0, carry)\<close>\<close>

function borrow_down ::
    "int list \<Rightarrow> int \<Rightarrow> int list \<Rightarrow> int \<Rightarrow> int \<Rightarrow> int \<Rightarrow> (int list \<times> int \<times> int) res"
where
  "borrow_down src1 start1 to buf0 buf1 carry =
     (if carry \<noteq> 0 \<and> buf1 > start1 then
        bindE (nthZ src1 (buf1 - 1)) (\<lambda>v.
        bindE (SUB v 0 carry) (\<lambda>(a, carry).
        bindE (putZ to (buf0 - 1) [a]) (\<lambda>to.
        borrow_down src1 start1 to (buf0 - 1) (buf1 - 1) carry)))
      else Inr (to, buf0, buf1))"
  by pat_completeness auto

termination
  by (relation "measure (\<lambda>(src1, start1, to, buf0, buf1, carry). nat (buf1 - start1))") auto

text \<open>
  \<open>do_sub\<close> with a destination. The code swaps \<open>from1\<close> with itself where it means
  \<open>from1\<close> and \<open>from2\<close>; nothing but the symmetric \<open>max\<close> reads them afterwards.
\<close>

definition do_sub :: "decimal_t \<Rightarrow> decimal_t \<Rightarrow> decimal_t \<Rightarrow> (dec_error \<times> decimal_t) res" where
  "do_sub from1 from2 to =
     bindE (sub_order from1 from2) (\<lambda>(carry, (start1, intg1, frac1), (start2, intg2, frac2)).
     case carry of
       None \<Rightarrow> bindE (decimal_make_zero to) (\<lambda>to. Inr (E_DEC_OK, to))
     | Some carry \<Rightarrow>
       let frac0 = max (ROUND_UP (d_frac from1)) (ROUND_UP (d_frac from2));
           (sign, src1, start1, intg1, frac1, src2, start2, intg2, frac2) =
             (if carry \<noteq> 0
              then (1 - d_sign from1, d_buf from2, start2, intg2, frac2,
                    d_buf from1, start1, intg1, frac1)
              else (d_sign from1, d_buf from1, start1, intg1, frac1,
                    d_buf from2, start2, intg2, frac2));
           (intg1, frac0, error) = fix_intg_frac_error (d_len to) intg1 frac0;
           frac = max (d_frac from1) (d_frac from2);
           intg = intg1 * DIG_PER_DEC1;
           (frac, frac1, frac2, intg2) =
             (if error \<noteq> E_DEC_OK
              then (min frac (frac0 * DIG_PER_DEC1), min frac1 frac0, min frac2 frac0, min intg2 intg1)
              else (frac, frac1, frac2, intg2));
           buf0 = intg1 + frac0; buf1 = start1 + intg1 + frac1; buf2 = start2 + intg2 + frac2
       in
       bindE (if frac1 > frac2 then
                bindE (zero_down (d_buf to) buf0 (nat (frac0 - frac1))) (\<lambda>(b, buf0).
                bindE (copy_down src1 (start1 + intg1 + frac2) b buf0 buf1) (\<lambda>(b, buf0, buf1).
                Inr (b, buf0, buf1, buf2, 0)))
              else
                bindE (zero_down (d_buf to) buf0 (nat (frac0 - frac2))) (\<lambda>(b, buf0).
                bindE (negate_down src2 (start2 + intg2 + frac1) b buf0 buf2 0)
                  (\<lambda>(b, buf0, buf2, carry).
                Inr (b, buf0, buf1, buf2, carry)))) (\<lambda>(b, buf0, buf1, buf2, carry).
       bindE (sub_down src1 src2 start2 b buf0 buf1 buf2 carry) (\<lambda>(b, buf0, buf1, carry).
       bindE (borrow_down src1 start1 b buf0 buf1 carry) (\<lambda>(b, buf0, buf1).
       bindE (copy_down src1 start1 b buf0 buf1) (\<lambda>(b, buf0, buf1).
       bindE (zero_down b buf0 (nat buf0)) (\<lambda>(b, buf0).
       Inr (error, to\<lparr>d_sign := sign, d_frac := frac, d_intg := intg, d_buf := b\<rparr>)))))))"

subsection \<open>The operations\<close>

definition decimal_intg :: "decimal_t \<Rightarrow> int res" where
  "decimal_intg from = bindE (remove_leading_zeroes from) (\<lambda>(_, intg). Inr intg)"

definition decimal_add :: "decimal_t \<Rightarrow> decimal_t \<Rightarrow> decimal_t \<Rightarrow> (dec_error \<times> decimal_t) res" where
  "decimal_add from1 from2 to =
     (if d_sign from1 = d_sign from2 then do_add from1 from2 to else do_sub from1 from2 to)"

definition decimal_sub :: "decimal_t \<Rightarrow> decimal_t \<Rightarrow> decimal_t \<Rightarrow> (dec_error \<times> decimal_t) res" where
  "decimal_sub from1 from2 to =
     (if d_sign from1 = d_sign from2 then do_sub from1 from2 to else do_add from1 from2 to)"

definition decimal_cmp :: "decimal_t \<Rightarrow> decimal_t \<Rightarrow> int res" where
  "decimal_cmp from1 from2 =
     (if d_sign from1 = d_sign from2 then do_sub_cmp from1 from2
      else Inr (if d_sign from1 > d_sign from2 then - 1 else 1))"

text \<open>\<open>while (buf1 < end) if (*buf1++) return 0;\<close>\<close>

definition decimal_is_zero :: "decimal_t \<Rightarrow> bool res" where
  "decimal_is_zero from =
     (let stop = ROUND_UP (d_intg from) + ROUND_UP (d_frac from)
      in bindE (skip_zeros (d_buf from) stop 0) (\<lambda>buf1. Inr (\<not> buf1 < stop)))"

end
