(* ===== verification/DecimalMul.thy ===== *)
theory DecimalMul
  imports DecimalArith
begin

text \<open>
  Multiplication of decimals (\<open>src/src/decimal.c\<close>): the schoolbook product of the words of
  the operands, written from the last word of the destination upwards. Products are computed in
  64 bits (\<open>dec2\<close>) and cast down to 32 bits (\<open>dec1_of\<close>).
\<close>

text \<open>The macro \<open>ADD2\<close>: the word stored and the new carry.\<close>

definition ADD2 :: "int \<Rightarrow> int \<Rightarrow> int \<Rightarrow> int \<times> int" where
  "ADD2 from1 from2 carry =
     (let a = from1 + from2 + carry;
          (a, carry) = (if a \<ge> DIG_BASE then (a - DIG_BASE, 1) else (a, 0));
          (a, carry) = (if a \<ge> DIG_BASE then (a - DIG_BASE, carry + 1) else (a, carry))
      in (dec1_of a, carry))"

text \<open>The inner loop: one word \<open>x\<close> of \<open>from1\<close> times the words of \<open>from2\<close>.\<close>

function mul_row ::
    "int \<Rightarrow> int list \<Rightarrow> int \<Rightarrow> int list \<Rightarrow> int \<Rightarrow> int \<Rightarrow> int \<Rightarrow> (int list \<times> int \<times> int) res"
where
  "mul_row x src2 stop2 to buf0 buf2 carry =
     (if buf2 \<ge> stop2 then
        bindE (nthZ src2 buf2) (\<lambda>w.
        let p = x * w; hi = dec1_of (p sdiv DIG_BASE); lo = dec1_of (p - hi * DIG_BASE) in
        bindE (nthZ to buf0) (\<lambda>v.
        let (a, carry) = ADD2 v lo carry in
        bindE (putZ to buf0 [a]) (\<lambda>to.
        bindE (i32 (carry + hi)) (\<lambda>carry.
        mul_row x src2 stop2 to (buf0 - 1) (buf2 - 1) carry))))
      else Inr (to, buf0, carry))"
  by pat_completeness auto

termination
  by (relation "measure (\<lambda>(x, src2, stop2, to, buf0, buf2, carry). nat (buf2 + 1 - stop2))") auto

text \<open>
  The carry out of a row. The flag of the result is \<open>False\<close> where the code returns
  \<open>E_DEC_OVERFLOW\<close>.
\<close>

function mul_ripple :: "int list \<Rightarrow> int \<Rightarrow> int \<Rightarrow> (bool \<times> int list) res" where
  "mul_ripple to buf0 carry =
     (if carry = 0 then Inr (True, to)
      else if buf0 < 0 then Inr (False, to)
      else
        bindE (nthZ to buf0) (\<lambda>v.
        bindE (ADD v 0 carry) (\<lambda>(a, carry).
        bindE (putZ to buf0 [a]) (\<lambda>to. mul_ripple to (buf0 - 1) carry))))"
  by pat_completeness auto

termination
  by (relation "measure (\<lambda>(to, buf0, carry). nat (buf0 + 1))") auto

definition mul_carry :: "int list \<Rightarrow> int \<Rightarrow> int \<Rightarrow> (bool \<times> int list) res" where
  "mul_carry to buf0 carry =
     (if carry \<noteq> 0 then
        if buf0 < 0 then Inr (False, to)
        else
          bindE (nthZ to buf0) (\<lambda>v.
          let (a, carry) = ADD2 v 0 carry in
          bindE (putZ to buf0 [a]) (\<lambda>to. mul_ripple to (buf0 - 1) carry))
      else mul_ripple to (buf0 - 1) carry)"

text \<open>The outer loop over the words of \<open>from1\<close>.\<close>

function mul_rows ::
    "int list \<Rightarrow> int \<Rightarrow> int list \<Rightarrow> int \<Rightarrow> int \<Rightarrow> int list \<Rightarrow> int \<Rightarrow> int \<Rightarrow> (bool \<times> int list) res"
where
  "mul_rows src1 stop1 src2 stop2 start2 to start0 buf1 =
     (if buf1 \<ge> stop1 then
        bindE (if start2 \<ge> stop2 then nthZ src1 buf1 else Inr 0) (\<lambda>x.
        bindE (mul_row x src2 stop2 to start0 start2 0) (\<lambda>(to, buf0, carry).
        bindE (mul_carry to buf0 carry) (\<lambda>(fits, to).
        if fits then mul_rows src1 stop1 src2 stop2 start2 to (start0 - 1) (buf1 - 1)
        else Inr (False, to))))
      else Inr (True, to))"
  by pat_completeness auto

termination
  by (relation "measure (\<lambda>(src1, stop1, src2, stop2, start2, to, start0, buf1). nat (buf1 + 1 - stop1))") auto

text \<open>
  The check for a negative zero: \<open>True\<close> when the words from \<open>buf\<close> up to \<open>end\<close> are zero. The
  code tests \<open>end\<close> only behind a word it has read.
\<close>

function all_zero_words :: "int list \<Rightarrow> int \<Rightarrow> int \<Rightarrow> bool res" where
  "all_zero_words b buf stop =
     (if 0 \<le> buf \<and> buf < int (length b) then
        if b ! nat buf \<noteq> 0 then Inr False
        else if buf + 1 = stop then Inr True
        else all_zero_words b (buf + 1) stop
      else Inl OutOfBounds)"
  by pat_completeness auto

termination
  by (relation "measure (\<lambda>(b, buf, stop). nat (int (length b) - buf))") auto

text \<open>\<open>while (!*buf1 && (to->intg > DIG_PER_DEC1))\<close>\<close>

function drop_lead_words :: "int list \<Rightarrow> int \<Rightarrow> int \<Rightarrow> int \<Rightarrow> (int \<times> int \<times> int) res" where
  "drop_lead_words b buf1 intg d_to_move =
     (if intg > DIG_PER_DEC1 then
        bindE (nthZ b buf1) (\<lambda>w.
          if w = 0 then drop_lead_words b (buf1 + 1) (intg - DIG_PER_DEC1) (d_to_move - 1)
          else Inr (buf1, intg, d_to_move))
      else bindE (nthZ b buf1) (\<lambda>w. Inr (buf1, intg, d_to_move)))"
  by pat_completeness auto

termination
  by (relation "measure (\<lambda>(b, buf1, intg, d_to_move). nat intg)") auto

text \<open>\<open>for (; d_to_move--; cur_d++, buf1++) *cur_d = *buf1\<close>\<close>

fun copy_up :: "int list \<Rightarrow> int \<Rightarrow> int \<Rightarrow> nat \<Rightarrow> int list res" where
  "copy_up b cur_d buf1 0 = Inr b"
| "copy_up b cur_d buf1 (Suc n) =
     bindE (nthZ b buf1) (\<lambda>w. bindE (putZ b cur_d [w]) (\<lambda>b. copy_up b (cur_d + 1) (buf1 + 1) n))"

text \<open>The word counts of the product when the destination is too short.\<close>

definition mul_bounds ::
    "int \<Rightarrow> int \<Rightarrow> int \<Rightarrow> int \<Rightarrow> int \<Rightarrow> int \<Rightarrow> int \<Rightarrow> int \<Rightarrow> int \<times> int \<times> int \<times> int"
where
  "mul_bounds i j intg0 frac0 intg1 intg2 frac1 frac2 =
     (if i > intg0 then
        let i = i - intg0; j = drop_bit 1 i in (intg1 - j, intg2 - (i - j), 0, 0)
      else
        let j = j - frac0; i = drop_bit 1 j in
        if frac1 \<le> frac2 then (intg1, intg2, frac1 - i, frac2 - (j - i))
        else (intg1, intg2, frac1 - (j - i), frac2 - i))"

text \<open>
  What follows the loops: a negative zero becomes zero, and leading zero words are dropped. \<open>to\<close>
  holds the product in its first \<open>intg0 + frac0\<close> words.
\<close>

definition mul_finish :: "dec_error \<Rightarrow> int \<Rightarrow> int \<Rightarrow> decimal_t \<Rightarrow> (dec_error \<times> decimal_t) res" where
  "mul_finish error intg0 frac0 to =
     bindE (if d_sign to \<noteq> 0 then
              bindE (all_zero_words (d_buf to) 0 (intg0 + frac0)) (\<lambda>z.
                if z then decimal_make_zero to else Inr to)
            else Inr to) (\<lambda>to.
     bindE (drop_lead_words (d_buf to) 0 (d_intg to) (intg0 + ROUND_UP (d_frac to)))
       (\<lambda>(buf1, intg, d_to_move).
     bindE (if 0 < buf1 then
              if d_to_move < 0 then Inl OutOfBounds
              else copy_up (d_buf to) 0 buf1 (nat d_to_move)
            else Inr (d_buf to)) (\<lambda>b.
     Inr (error, to\<lparr>d_intg := intg, d_buf := b\<rparr>))))"

definition decimal_mul :: "decimal_t \<Rightarrow> decimal_t \<Rightarrow> decimal_t \<Rightarrow> (dec_error \<times> decimal_t) res" where
  "decimal_mul from1 from2 to =
     (let intg1 = ROUND_UP (d_intg from1); intg2 = ROUND_UP (d_intg from2);
          frac1 = ROUND_UP (d_frac from1); frac2 = ROUND_UP (d_frac from2);
          intg0 = ROUND_UP (d_intg from1 + d_intg from2); frac0 = frac1 + frac2;
          buf1 = intg1; buf2 = intg2; i = intg0; j = frac0;
          (intg0, frac0, error) = fix_intg_frac_error (d_len to) intg0 frac0;
          sign = of_bool (d_sign from1 \<noteq> d_sign from2);
          frac = d_frac from1 + d_frac from2;
          frac = (if error \<noteq> E_DEC_OK then min frac (frac0 * DIG_PER_DEC1) else frac);
          to = to\<lparr>d_sign := sign, d_frac := frac, d_intg := intg0 * DIG_PER_DEC1\<rparr>;
          (intg1, intg2, frac1, frac2) =
            (if error \<noteq> E_DEC_OK then mul_bounds i j intg0 frac0 intg1 intg2 frac1 frac2
             else (intg1, intg2, frac1, frac2))
      in
      if intg0 + frac0 < 0 then Inl BufferOverflow
      else
      bindE (putZ (d_buf to) 0 (replicate (nat (intg0 + frac0)) 0)) (\<lambda>b.
      bindE (mul_rows (d_buf from1) (buf1 - intg1) (d_buf from2) (buf2 - intg2) (buf2 + frac2 - 1) b
               (intg0 + frac0 - 1) (buf1 + frac1 - 1)) (\<lambda>(fits, b).
      if fits then mul_finish error intg0 frac0 (to\<lparr>d_buf := b\<rparr>)
      else Inr (E_DEC_OVERFLOW, to\<lparr>d_buf := b\<rparr>))))"

end
