(* ===== verification/ByteStream.thy ===== *)
theory ByteStream
  imports Prelude
begin

text \<open>
  The interface between a source of bytes and the decoders that consume it. MySQL's
  length-encoded integer is decoded twice in the code, from the event buffer
  (\<open>decodeint\<close> in \<open>src/src/logevent.c\<close>) and from a packet
  (\<open>readEncodeLength\<close> in \<open>src/src/protocol/protocol.c\<close>): the locale states what both rest
  on and proves once that decoding inverts the encoding.
\<close>

text \<open>The encoding of the MySQL protocol: one byte below 251, else a marker and 2, 3 or 8 bytes.\<close>

definition lenenc :: "nat \<Rightarrow> u8 list" where
  "lenenc v =
     (if v < 251 then [of_nat v]
      else if v < 2 ^ 16 then 252 # le_bytes 2 v
      else if v < 2 ^ 24 then 253 # le_bytes 3 v
      else 254 # le_bytes 8 v)"

lemma lenenc_nonempty [simp]: "lenenc v \<noteq> []"
  by (simp add: lenenc_def)

lemma length_lenenc_le: "length (lenenc v) \<le> 9"
  by (simp add: lenenc_def)

locale byte_stream =
  fixes rd :: "nat \<Rightarrow> 's \<Rightarrow> (u8 list \<times> 's) res"
    and rest :: "'s \<Rightarrow> u8 list"
    and pos :: "'s \<Rightarrow> nat"
    and wf :: "'s \<Rightarrow> bool"
  assumes rd_take: "wf s \<Longrightarrow> rest s = bs @ r \<Longrightarrow>
      \<exists>s'. rd (length bs) s = Inr (bs, s') \<and> rest s' = r \<and> pos s' = pos s + length bs \<and> wf s'"
    and rd_short: "wf s \<Longrightarrow> length (rest s) < n \<Longrightarrow> \<exists>e. rd n s = Inl e"
begin

lemma rd_obtain:
  assumes "wf s" "rest s = bs @ r" "length bs = n"
  obtains s' where "rd n s = Inr (bs, s')" "rest s' = r" "pos s' = pos s + n" "wf s'"
  using rd_take [OF assms(1,2)] assms(3) by auto

lemma rd_Inr_length:
  assumes "wf s" "rd n s = Inr (bs, s')"
  shows "n \<le> length (rest s) \<and> bs = take n (rest s) \<and> rest s' = drop n (rest s)"
proof -
  have n: "n \<le> length (rest s)" using rd_short [OF assms(1), of n] assms(2) by fastforce
  then obtain t where "rd n s = Inr (take n (rest s), t)" "rest t = drop n (rest s)"
    by (metis append_take_drop_id assms(1) length_take min.absorb2 rd_take)
  with assms n show ?thesis by simp
qed

end

locale lenenc_reader = byte_stream rd rest pos wf
  for rd :: "nat \<Rightarrow> 's \<Rightarrow> (u8 list \<times> 's) res" and rest pos wf +
  fixes dec :: "'s \<Rightarrow> (u64 \<times> 's) res"
  assumes dec_unfold: "wf s \<Longrightarrow> dec s =
      bindE (rd 1 s) (\<lambda>(b, s1).
        let v = b ! 0 in
        if v < 251 then Inr (ucast v, s1)
        else if v = 251 then Inr (0, s1)
        else if v = 252 then bindE (rd 2 s1) (\<lambda>(x, s2). Inr (of_nat (le_val x), s2))
        else if v = 253 then bindE (rd 3 s1) (\<lambda>(x, s2). Inr (of_nat (le_val x), s2))
        else if v = 254 then bindE (rd 8 s1) (\<lambda>(x, s2). Inr (of_nat (le_val x), s2))
        else Inr (0, s1))"
begin

text \<open>The bytes of \<open>lenenc v\<close> decode to \<open>v\<close> and are consumed exactly.\<close>

lemma dec_marker:
  assumes s: "wf s" "rest s = m # le_bytes k v @ r"
    and m: "(m, k) \<in> {(252, 2), (253, 3), (254, 8)}" and v: "v < 256 ^ k"
  shows "\<exists>s'. dec s = Inr (of_nat v, s') \<and> rest s' = r \<and> pos s' = pos s + Suc k \<and> wf s'"
proof -
  obtain s1 where 1: "rd 1 s = Inr ([m], s1)" "rest s1 = le_bytes k v @ r"
      "pos s1 = pos s + 1" "wf s1"
    using rd_obtain [of s "[m]" _ 1] s by (metis One_nat_def append_Cons append_Nil
        length_Cons list.size(3))
  obtain s2 where 2: "rd k s1 = Inr (le_bytes k v, s2)" "rest s2 = r"
      "pos s2 = pos s1 + k" "wf s2"
    using rd_obtain [OF 1(4,2), of k] by auto
  have "le_val (le_bytes k v) = v" using v by (rule le_val_le_bytes_id)
  with 1 2 m s show ?thesis by (auto simp add: dec_unfold)
qed

lemma dec_lenenc:
  assumes s: "wf s" "rest s = lenenc v @ r" and v: "v < 2 ^ 64"
  shows "\<exists>s'. dec s = Inr (of_nat v, s') \<and> rest s' = r \<and>
      pos s' = pos s + length (lenenc v) \<and> wf s'"
proof (cases "v < 251")
  case True
  then have r: "rest s = [of_nat v] @ r" using s by (simp add: lenenc_def)
  obtain s1 where "rd 1 s = Inr ([of_nat v], s1)" "rest s1 = r" "pos s1 = pos s + 1" "wf s1"
    using rd_obtain [OF s(1) r, of 1] by auto
  moreover have u: "unat (of_nat v :: u8) = v" using True by (simp add: unat_u8_of_nat)
  then have "(of_nat v :: u8) < 251" using True by (simp add: word_less_nat_alt)
  moreover have "(ucast (of_nat v :: u8) :: u64) = of_nat v" using u by (metis of_nat_unat)
  ultimately show ?thesis using True s by (simp add: dec_unfold lenenc_def)
next
  case False
  then show ?thesis
    using dec_marker [OF s(1), of 252 2 v r] dec_marker [OF s(1), of 253 3 v r]
      dec_marker [OF s(1), of 254 8 v r] s(2) v
    by (auto simp add: lenenc_def)
qed

text \<open>Two encoded integers in a row, as the packets that carry a pair of counters have them.\<close>

lemma dec_lenenc_twice:
  assumes "wf s" "rest s = lenenc v @ lenenc w @ r" "v < 2 ^ 64" "w < 2 ^ 64"
  shows "\<exists>s1 s2. dec s = Inr (of_nat v, s1) \<and> dec s1 = Inr (of_nat w, s2) \<and> rest s2 = r \<and>
      pos s2 = pos s + length (lenenc v) + length (lenenc w) \<and> wf s2"
proof -
  obtain s1 where "dec s = Inr (of_nat v, s1)" "rest s1 = lenenc w @ r"
      "pos s1 = pos s + length (lenenc v)" "wf s1"
    using dec_lenenc [OF assms(1-3)] by blast
  with dec_lenenc [of s1 w r] assms(4) show ?thesis by fastforce
qed

end

end
