(* ===== verification/EventReader.thy ===== *)
theory EventReader
  imports ByteStream
begin

text \<open>
  The byte-level readers of the event parser: the load macros of \<open>src/src/util.h\<close>, the
  \<open>EventCursor\<close> of \<open>src/src/logevent.h\<close> with its \<open>read*\<close> functions
  (\<open>src/src/logevent.c\<close>, lines 10-66), MySQL's length-encoded integers (\<open>decodeint\<close>) and
  bitmaps (\<open>isSet\<close>). The host is little-endian, as the casts of \<open>util.h\<close> assume.
  Signed C values are words of the same width, read with \<open>sint\<close>.
\<close>

subsection \<open>Loads from a block (util.h)\<close>

definition getUint8 :: "u8 list \<Rightarrow> nat \<Rightarrow> u8 res" where
  "getUint8 ev off = bindE (peek ev off 1) (\<lambda>b. Inr (b ! 0))"

definition getUint16 :: "u8 list \<Rightarrow> nat \<Rightarrow> u16 res" where
  "getUint16 ev off = bindE (peek ev off 2) (\<lambda>b. Inr (of_nat (le_val b)))"

definition getUint32 :: "u8 list \<Rightarrow> nat \<Rightarrow> u32 res" where
  "getUint32 ev off = bindE (peek ev off 4) (\<lambda>b. Inr (of_nat (le_val b)))"

definition getUint64 :: "u8 list \<Rightarrow> nat \<Rightarrow> u64 res" where
  "getUint64 ev off = bindE (peek ev off 8) (\<lambda>b. Inr (of_nat (le_val b)))"

definition uint24_of :: "u8 list \<Rightarrow> u32" where
  "uint24_of A = ucast (A ! 0) + push_bit 8 (ucast (A ! 1)) + push_bit 16 (ucast (A ! 2))"

definition int24_of :: "u8 list \<Rightarrow> u32" where
  "int24_of A = ucast (A ! 0) + push_bit 8 (ucast (A ! 1)) + push_bit 16 (scast (A ! 2))"

definition uint48_of :: "u8 list \<Rightarrow> u64" where
  "uint48_of A =
     ucast (ucast (A ! 0) + push_bit 8 (ucast (A ! 1)) + push_bit 16 (ucast (A ! 2))
            + push_bit 24 (ucast (A ! 3)) :: u32)
     + push_bit 32 (ucast (A ! 4)) + push_bit 40 (ucast (A ! 5))"

definition getUint24 :: "u8 list \<Rightarrow> nat \<Rightarrow> u32 res" where
  "getUint24 ev off = bindE (peek ev off 3) (\<lambda>b. Inr (uint24_of b))"

definition getInt24 :: "u8 list \<Rightarrow> nat \<Rightarrow> u32 res" where
  "getInt24 ev off = bindE (peek ev off 3) (\<lambda>b. Inr (int24_of b))"

definition getUint48 :: "u8 list \<Rightarrow> nat \<Rightarrow> u64 res" where
  "getUint48 ev off = bindE (peek ev off 6) (\<lambda>b. Inr (uint48_of b))"

subsection \<open>The event cursor\<close>

record EventCursor =
  ec_ev :: "u8 list"
  ec_cur :: nat

text \<open>
  \<open>cur\<close> is a C \<open>int\<close>; an advance past \<open>INT_MAX\<close> is the fault \<open>IntOverflow\<close>.
\<close>

definition INT_MAX :: nat where
  "INT_MAX = 2147483647"

lemma sint_u32_small:
  assumes "n \<le> INT_MAX"
  shows "sint (of_nat n :: u32) = int n"
proof -
  have b: "int n \<le> 2147483647" using assms by (simp add: INT_MAX_def)
  have "(of_nat n :: u32) = of_int (int n)" by simp
  moreover have "signed_take_bit 31 (int n) = int n"
    using b by (intro signed_take_bit_int_eq_self) simp_all
  ultimately show ?thesis by (simp only: signed_of_int) simp
qed

definition advance :: "nat \<Rightarrow> EventCursor \<Rightarrow> EventCursor res" where
  "advance n c =
     (if ec_cur c + n \<le> INT_MAX then Inr (c\<lparr>ec_cur := ec_cur c + n\<rparr>) else Inl IntOverflow)"

definition readUint32 :: "EventCursor \<Rightarrow> (u32 \<times> EventCursor) res" where
  "readUint32 c = bindE (getUint32 (ec_ev c) (ec_cur c)) (\<lambda>v.
     bindE (advance 4 c) (\<lambda>c'. Inr (v, c')))"

definition readUint64 :: "EventCursor \<Rightarrow> (u64 \<times> EventCursor) res" where
  "readUint64 c = bindE (getUint64 (ec_ev c) (ec_cur c)) (\<lambda>v.
     bindE (advance 8 c) (\<lambda>c'. Inr (v, c')))"

definition readUint8 :: "EventCursor \<Rightarrow> (u8 \<times> EventCursor) res" where
  "readUint8 c = bindE (getUint8 (ec_ev c) (ec_cur c)) (\<lambda>v.
     bindE (advance 1 c) (\<lambda>c'. Inr (v, c')))"

definition readUint16 :: "EventCursor \<Rightarrow> (u16 \<times> EventCursor) res" where
  "readUint16 c = bindE (getUint16 (ec_ev c) (ec_cur c)) (\<lambda>v.
     bindE (advance 2 c) (\<lambda>c'. Inr (v, c')))"

definition readUint24 :: "EventCursor \<Rightarrow> (u32 \<times> EventCursor) res" where
  "readUint24 c = bindE (getUint24 (ec_ev c) (ec_cur c)) (\<lambda>v.
     bindE (advance 3 c) (\<lambda>c'. Inr (v, c')))"

definition readInt32 :: "EventCursor \<Rightarrow> (u32 \<times> EventCursor) res" where
  "readInt32 c = bindE (getUint32 (ec_ev c) (ec_cur c)) (\<lambda>v.
     bindE (advance 4 c) (\<lambda>c'. Inr (v, c')))"

definition readInt64 :: "EventCursor \<Rightarrow> (u64 \<times> EventCursor) res" where
  "readInt64 c = bindE (getUint64 (ec_ev c) (ec_cur c)) (\<lambda>v.
     bindE (advance 8 c) (\<lambda>c'. Inr (v, c')))"

definition readInt8 :: "EventCursor \<Rightarrow> (u8 \<times> EventCursor) res" where
  "readInt8 c = bindE (getUint8 (ec_ev c) (ec_cur c)) (\<lambda>v.
     bindE (advance 1 c) (\<lambda>c'. Inr (v, c')))"

definition readInt16 :: "EventCursor \<Rightarrow> (u16 \<times> EventCursor) res" where
  "readInt16 c = bindE (getUint16 (ec_ev c) (ec_cur c)) (\<lambda>v.
     bindE (advance 2 c) (\<lambda>c'. Inr (v, c')))"

definition readInt24 :: "EventCursor \<Rightarrow> (u32 \<times> EventCursor) res" where
  "readInt24 c = bindE (getInt24 (ec_ev c) (ec_cur c)) (\<lambda>v.
     bindE (advance 3 c) (\<lambda>c'. Inr (v, c')))"

text \<open>\<open>memcpy(value, evcur->ev + evcur->cur, n); evcur->cur += n\<close>, as the cell decoder does.\<close>

definition readBytes :: "nat \<Rightarrow> EventCursor \<Rightarrow> (u8 list \<times> EventCursor) res" where
  "readBytes n c = bindE (peek (ec_ev c) (ec_cur c) n) (\<lambda>b.
     bindE (advance n c) (\<lambda>c'. Inr (b, c')))"

subsection \<open>Length-encoded integers and bitmaps\<close>

definition decodeint :: "u8 list \<Rightarrow> u32 \<Rightarrow> (u64 \<times> u32) res" where
  "decodeint ev cur =
     bindE (getUint8 ev (unat cur)) (\<lambda>v.
       if v < 251 then Inr (ucast v, cur + 1)
       else if v = 251 then Inr (0, cur + 1)
       else if v = 252 then
         bindE (getUint16 ev (unat cur + 1)) (\<lambda>x. Inr (ucast x, cur + 1 + 2))
       else if v = 253 then
         bindE (getUint24 ev (unat cur + 1)) (\<lambda>x. Inr (ucast x, cur + 1 + 3))
       else if v = 254 then
         bindE (getUint64 ev (unat cur + 1)) (\<lambda>x. Inr (x, cur + 1 + 8))
       else Inr (0, cur + 1))"

definition isSet :: "u8 list \<Rightarrow> nat \<Rightarrow> nat \<Rightarrow> bool res" where
  "isSet ev bitmap idx =
     bindE (getUint8 ev (bitmap + idx div 8)) (\<lambda>b. Inr ((drop_bit (idx mod 8) b) AND 1 = 1))"

subsection \<open>Values of the loads\<close>

lemma ucast_u8_of_nat: "(ucast (b :: u8) :: 'a::len word) = of_nat (unat b)"
  by simp

lemma push_bit_word_of_nat: "(push_bit n (of_nat k) :: 'a::len word) = of_nat (k * 2 ^ n)"
  by (simp add: push_bit_eq_mult)

lemma uint24_of_le [byte_simps]:
  assumes "length bs = 3"
  shows "uint24_of bs = of_nat (le_val bs)"
proof -
  have "le_val bs = unat (bs ! 0) + unat (bs ! 1) * 2 ^ 8 + unat (bs ! 2) * 2 ^ 16"
    using arg_cong [OF list3_conv [OF assms], of le_val] by simp
  then show ?thesis
    by (simp only: uint24_of_def ucast_u8_of_nat push_bit_word_of_nat of_nat_add)
qed

lemma uint48_of_le [byte_simps]:
  assumes "length bs = 6"
  shows "uint48_of bs = of_nat (le_val bs)"
proof -
  define v where "v = unat (bs ! 0) + unat (bs ! 1) * 2 ^ 8 + unat (bs ! 2) * 2 ^ 16
    + unat (bs ! 3) * 2 ^ 24"
  have "v < 2 ^ 32"
    using le_val_bound [of "[bs ! 0, bs ! 1, bs ! 2, bs ! 3]"] by (simp add: v_def)
  then have v: "unat (of_nat v :: u32) = v"
    by (simp add: unat_of_nat)
  have low: "ucast (of_nat v :: u32) = (of_nat v :: u64)"
    using v by (metis of_nat_unat)
  have le: "le_val bs = v + unat (bs ! 4) * 2 ^ 32 + unat (bs ! 5) * 2 ^ 40"
    using arg_cong [OF list6_conv [OF assms], of le_val] by (simp add: v_def)
  have "uint48_of bs = ucast (of_nat v :: u32) + of_nat (unat (bs ! 4) * 2 ^ 32)
      + of_nat (unat (bs ! 5) * 2 ^ 40)"
    unfolding uint48_of_def v_def
    by (simp only: ucast_u8_of_nat push_bit_word_of_nat of_nat_add)
  then show ?thesis by (simp only: low le of_nat_add)
qed

text \<open>The 24-bit signed load extends the sign of the third byte.\<close>

lemma sint_u8:
  "sint (c :: u8) = (if unat c < 128 then int (unat c) else int (unat c) - 256)"
proof -
  have shift: "(k + 128) mod 256 - 128 = (if k < 128 then k else k - 256)"
    if "0 \<le> k" "k < 256" for k :: int
  proof (cases "k < 128")
    case False
    have "k + 128 = (k - 128) + 256" by simp
    then have "(k + 128) mod 256 = ((k - 128) + 256) mod 256" by (rule arg_cong)
    also have "\<dots> = k - 128" using that False by (simp only: mod_add_self2 mod_pos_pos_trivial)
    finally show ?thesis using False by simp
  next
    case True
    then show ?thesis using that by simp
  qed
  have "sint c = (int (unat c) + 128) mod 256 - 128"
    by (simp add: sint_uint signed_take_bit_eq_take_bit_shift take_bit_eq_mod)
  also have "\<dots> = (if int (unat c) < 128 then int (unat c) else int (unat c) - 256)"
    using unat_u8_less [of c] by (intro shift) linarith+
  also have "int (unat c) < 128 \<longleftrightarrow> unat c < 128" by linarith
  finally show ?thesis .
qed

lemma int24_of_sint:
  assumes "length bs = 3"
  shows "sint (int24_of bs) =
    (if le_val bs < 2 ^ 23 then int (le_val bs) else int (le_val bs) - 2 ^ 24)"
proof -
  define a b c where "a = bs ! 0" and "b = bs ! 1" and "c = bs ! 2"
  have le: "le_val bs = unat a + 256 * unat b + 65536 * unat c"
    using arg_cong [OF list3_conv [OF assms], of le_val] by (simp add: a_def b_def c_def)
  define s where "s = (if unat c < 128 then int (unat c) else int (unat c) - 256)"
  define v where "v = int (unat a) + int (unat b) * 2 ^ 8 + s * 2 ^ 16"
  have rng: "unat a < 256" "unat b < 256" "unat c < 256" by simp_all
  have s: "s = int (unat c) \<and> unat c < 128 \<or> s = int (unat c) - 256 \<and> 128 \<le> unat c"
    by (simp only: s_def) (cases "unat c < 128", simp_all)
  have "(push_bit 16 (scast c) :: u32) = of_int (s * 2 ^ 16)"
    by (simp add: push_bit_eq_mult s_def flip: sint_u8)
  then have "int24_of bs = of_nat (unat a) + of_nat (unat b * 2 ^ 8) + of_int (s * 2 ^ 16)"
    unfolding int24_of_def a_def b_def c_def
    by (simp only: ucast_u8_of_nat push_bit_word_of_nat)
  also have "\<dots> = of_int v" by (simp add: v_def)
  finally have "int24_of bs = of_int v" .
  moreover have "- 2147483648 \<le> v \<and> v < 2147483648"
  proof -
    have "v = int (unat a) + int (unat b) * 256 + s * 65536" by (simp only: v_def) simp
    moreover have "- 128 \<le> s \<and> s \<le> 127" using s rng by (elim disjE conjE) linarith+
    ultimately show ?thesis using rng by linarith
  qed
  ultimately have sv: "sint (int24_of bs) = v"
    by (simp add: signed_of_int signed_take_bit_int_eq_self)
  have "int (le_val bs) = int (unat a) + 256 * int (unat b) + 65536 * int (unat c)"
    unfolding le by (simp only: of_nat_add of_nat_mult of_nat_numeral)
  moreover have "le_val bs < 8388608 \<longleftrightarrow> unat c < 128"
    using rng unfolding le by (intro iffI) linarith+
  ultimately show ?thesis using s unfolding sv v_def by (elim disjE conjE) simp_all
qed

subsection \<open>What the cursor reads\<close>

text \<open>
  \<open>at_bytes c bs\<close>: the cursor stands before the bytes \<open>bs\<close>, in a block no longer than
  \<open>INT_MAX\<close>. Every reader returns the value of those bytes and moves past them.
\<close>

definition at_bytes :: "EventCursor \<Rightarrow> u8 list \<Rightarrow> bool" where
  "at_bytes c bs \<longleftrightarrow>
     ec_cur c + length bs \<le> length (ec_ev c) \<and>
     take (length bs) (drop (ec_cur c) (ec_ev c)) = bs \<and>
     length (ec_ev c) \<le> INT_MAX"

definition skip :: "nat \<Rightarrow> EventCursor \<Rightarrow> EventCursor" where
  "skip n c = c\<lparr>ec_cur := ec_cur c + n\<rparr>"

lemma skip_simps [simp]:
  "ec_ev (skip n c) = ec_ev c"
  "ec_cur (skip n c) = ec_cur c + n"
  "skip m (skip n c) = skip (n + m) c"
  "skip 0 c = c"
  by (simp_all add: skip_def add.assoc)

lemma at_bytes_append:
  "at_bytes c (xs @ ys) \<longleftrightarrow> at_bytes c xs \<and> at_bytes (skip (length xs) c) ys"
  by (auto simp add: at_bytes_def take_add add.commute drop_drop append_eq_append_conv
      simp del: drop_drop) (simp_all add: add.commute min_def)

lemma at_bytes_whole:
  "length (pre @ bs @ post) \<le> INT_MAX \<Longrightarrow>
   at_bytes \<lparr>ec_ev = pre @ bs @ post, ec_cur = length pre\<rparr> bs"
  by (simp add: at_bytes_def)

lemma advance_at [byte_simps]: "at_bytes c bs \<Longrightarrow> n \<le> length bs \<Longrightarrow> advance n c = Inr (skip n c)"
  by (simp add: at_bytes_def advance_def skip_def)

lemma peek_at [byte_simps]:
  "at_bytes c bs \<Longrightarrow> length bs = n \<Longrightarrow> peek (ec_ev c) (ec_cur c) n = Inr bs"
  by (auto simp add: at_bytes_def peek_def)

lemma advance_Inr_iff [res_simps]:
  "advance n c = Inr c' \<longleftrightarrow> ec_cur c + n \<le> INT_MAX \<and> c' = skip n c"
  by (auto simp add: advance_def skip_def)

lemma readBytes_at [byte_simps]:
  "at_bytes c bs \<Longrightarrow> length bs = n \<Longrightarrow> readBytes n c = Inr (bs, skip n c)"
  by (simp add: readBytes_def peek_at advance_at)

lemma read_at [byte_simps]:
  "at_bytes c [b] \<Longrightarrow> readUint8 c = Inr (b, skip 1 c)"
  "at_bytes c [b] \<Longrightarrow> readInt8 c = Inr (b, skip 1 c)"
  "at_bytes c bs \<Longrightarrow> length bs = 2 \<Longrightarrow> readUint16 c = Inr (of_nat (le_val bs), skip 2 c)"
  "at_bytes c bs \<Longrightarrow> length bs = 2 \<Longrightarrow> readInt16 c = Inr (of_nat (le_val bs), skip 2 c)"
  "at_bytes c bs \<Longrightarrow> length bs = 3 \<Longrightarrow> readUint24 c = Inr (of_nat (le_val bs), skip 3 c)"
  "at_bytes c bs \<Longrightarrow> length bs = 3 \<Longrightarrow> readInt24 c = Inr (int24_of bs, skip 3 c)"
  "at_bytes c bs \<Longrightarrow> length bs = 4 \<Longrightarrow> readUint32 c = Inr (of_nat (le_val bs), skip 4 c)"
  "at_bytes c bs \<Longrightarrow> length bs = 4 \<Longrightarrow> readInt32 c = Inr (of_nat (le_val bs), skip 4 c)"
  "at_bytes c bs \<Longrightarrow> length bs = 8 \<Longrightarrow> readUint64 c = Inr (of_nat (le_val bs), skip 8 c)"
  "at_bytes c bs \<Longrightarrow> length bs = 8 \<Longrightarrow> readInt64 c = Inr (of_nat (le_val bs), skip 8 c)"
  by (simp_all add: readUint8_def readInt8_def readUint16_def readInt16_def readUint24_def
      readInt24_def readUint32_def readInt32_def readUint64_def readInt64_def getUint8_def
      getUint16_def getUint24_def getInt24_def getUint32_def getUint64_def peek_at advance_at
      uint24_of_le)

text \<open>
  Whatever a reader returns, it stayed inside the block and moved by exactly its width.
\<close>

lemmas reader_defs = readUint8_def readInt8_def readUint16_def readInt16_def readUint24_def
  readInt24_def readUint32_def readInt32_def readUint64_def readInt64_def getUint8_def
  getUint16_def getUint24_def getInt24_def getUint32_def getUint64_def readBytes_def

lemma read_width:
  "readUint8 c = Inr (v8, c') \<Longrightarrow> c' = skip 1 c \<and> ec_cur c + 1 \<le> length (ec_ev c)"
  "readInt8 c = Inr (v8, c') \<Longrightarrow> c' = skip 1 c \<and> ec_cur c + 1 \<le> length (ec_ev c)"
  "readUint16 c = Inr (v16, c') \<Longrightarrow> c' = skip 2 c \<and> ec_cur c + 2 \<le> length (ec_ev c)"
  "readInt16 c = Inr (v16, c') \<Longrightarrow> c' = skip 2 c \<and> ec_cur c + 2 \<le> length (ec_ev c)"
  "readUint24 c = Inr (v24, c') \<Longrightarrow> c' = skip 3 c \<and> ec_cur c + 3 \<le> length (ec_ev c)"
  "readInt24 c = Inr (v24, c') \<Longrightarrow> c' = skip 3 c \<and> ec_cur c + 3 \<le> length (ec_ev c)"
  "readUint32 c = Inr (v32, c') \<Longrightarrow> c' = skip 4 c \<and> ec_cur c + 4 \<le> length (ec_ev c)"
  "readInt32 c = Inr (v32, c') \<Longrightarrow> c' = skip 4 c \<and> ec_cur c + 4 \<le> length (ec_ev c)"
  "readUint64 c = Inr (v64, c') \<Longrightarrow> c' = skip 8 c \<and> ec_cur c + 8 \<le> length (ec_ev c)"
  "readInt64 c = Inr (v64, c') \<Longrightarrow> c' = skip 8 c \<and> ec_cur c + 8 \<le> length (ec_ev c)"
  "readBytes n c = Inr (bs, c') \<Longrightarrow>
     c' = skip n c \<and> ec_cur c + n \<le> length (ec_ev c) \<and> length bs = n"
  by (auto simp add: reader_defs res_simps)

subsection \<open>decodeint and isSet\<close>

text \<open>
  The event buffer with the 32-bit offset \<open>cur\<close> of the \<open>parse*Event\<close> functions is a byte
  stream, and \<open>decodeint\<close> reads a length-encoded integer from it.
\<close>

type_synonym evpos = "u8 list \<times> u32"

definition ev_rd :: "nat \<Rightarrow> evpos \<Rightarrow> (u8 list \<times> evpos) res" where
  "ev_rd n s = (case s of (ev, cur) \<Rightarrow>
     bindE (peek ev (unat cur) n) (\<lambda>b. Inr (b, (ev, cur + of_nat n))))"

definition ev_rest :: "evpos \<Rightarrow> u8 list" where
  "ev_rest s = drop (unat (snd s)) (fst s)"

definition ev_wf :: "evpos \<Rightarrow> bool" where
  "ev_wf s \<longleftrightarrow> unat (snd s) \<le> length (fst s) \<and> length (fst s) < 2 ^ 32"

definition ev_dec :: "evpos \<Rightarrow> (u64 \<times> evpos) res" where
  "ev_dec s = (case s of (ev, cur) \<Rightarrow>
     bindE (decodeint ev cur) (\<lambda>(v, cur'). Inr (v, (ev, cur'))))"

lemma unat_u32_add:
  "unat (cur :: u32) + n < 2 ^ 32 \<Longrightarrow> unat (cur + of_nat n) = unat cur + n"
  by (simp add: unat_word_ariths unat_of_nat)

interpretation evs: byte_stream ev_rd ev_rest "\<lambda>s. unat (snd s)" ev_wf
proof unfold_locales
  fix s bs r
  assume s: "ev_wf s" "ev_rest s = bs @ r"
  obtain ev cur where [simp]: "s = (ev, cur)" by (cases s)
  have d: "drop (unat cur) ev = bs @ r" and w: "unat cur \<le> length ev" "length ev < 2 ^ 32"
    using s by (simp_all add: ev_rest_def ev_wf_def)
  have len: "unat cur + length bs \<le> length ev"
    using arg_cong [OF d, of length] w by simp
  then have u: "unat (cur + of_nat (length bs)) = unat cur + length bs"
    using w by (intro unat_u32_add) simp
  have "drop (unat cur + length bs) ev = r"
    using arg_cong [OF d, of "drop (length bs)"] by (simp add: add.commute)
  with len u d w show "\<exists>s'. ev_rd (length bs) s = Inr (bs, s') \<and> ev_rest s' = r \<and>
      unat (snd s') = unat (snd s) + length bs \<and> ev_wf s'"
    by (simp add: ev_rd_def ev_rest_def ev_wf_def peek_def)
next
  fix s n
  assume "ev_wf s" "length (ev_rest s) < n"
  then show "\<exists>e. ev_rd n s = Inl e"
    by (auto simp add: ev_rd_def ev_rest_def ev_wf_def peek_def split: prod.splits)
qed

interpretation evl: lenenc_reader ev_rd ev_rest "\<lambda>s. unat (snd s)" ev_wf ev_dec
proof unfold_locales
  fix s
  assume wf: "ev_wf s"
  obtain ev cur where s: "s = (ev, cur)" by (cases s)
  have u: "unat (cur + 1) = unat cur + 1" if "unat cur + 1 \<le> length ev"
    using unat_u32_add [of cur 1] wf that by (simp add: ev_wf_def s)
  have w2: "(ucast (of_nat (le_val b) :: u16) :: u64) = of_nat (le_val b)"
    if "length b = 2" for b
    using le_val_bound [of b] that by (simp add: unsigned_of_nat take_bit_nat_eq_self)
  have w3: "(ucast (of_nat (le_val b) :: u32) :: u64) = of_nat (le_val b)"
    if "length b = 3" for b
    using le_val_bound [of b] that by (simp add: unsigned_of_nat take_bit_nat_eq_self)
  show "ev_dec s = bindE (ev_rd 1 s) (\<lambda>(b, s1).
        let v = b ! 0 in
        if v < 251 then Inr (ucast v, s1)
        else if v = 251 then Inr (0, s1)
        else if v = 252 then bindE (ev_rd 2 s1) (\<lambda>(x, s2). Inr (of_nat (le_val x), s2))
        else if v = 253 then bindE (ev_rd 3 s1) (\<lambda>(x, s2). Inr (of_nat (le_val x), s2))
        else if v = 254 then bindE (ev_rd 8 s1) (\<lambda>(x, s2). Inr (of_nat (le_val x), s2))
        else Inr (0, s1))"
  proof (cases "unat cur + 1 \<le> length ev")
    case False
    then show ?thesis
      by (simp add: s ev_dec_def decodeint_def ev_rd_def getUint8_def peek_def)
  next
    case True
    note u = u [OF True]
    define v where "v = ev ! unat cur"
    have 1: "ev_rd 1 (ev, cur) = Inr ([v], (ev, cur + 1))" "getUint8 ev (unat cur) = Inr v"
      using True by (simp_all add: ev_rd_def getUint8_def peek_def v_def take_Suc hd_drop_conv_nth)
    have 2: "bindE (getUint16 ev (unat cur + 1)) (\<lambda>x. Inr (ucast x :: u64, ev, cur + 1 + 2))
        = bindE (ev_rd 2 (ev, cur + 1)) (\<lambda>(x, s2). Inr (of_nat (le_val x), s2))"
      "bindE (getUint24 ev (unat cur + 1)) (\<lambda>x. Inr (ucast x :: u64, ev, cur + 1 + 3))
        = bindE (ev_rd 3 (ev, cur + 1)) (\<lambda>(x, s2). Inr (of_nat (le_val x), s2))"
      "bindE (getUint64 ev (unat cur + 1)) (\<lambda>x. Inr (x, ev, cur + 1 + 8))
        = bindE (ev_rd 8 (ev, cur + 1)) (\<lambda>(x, s2). Inr (of_nat (le_val x), s2))"
      by (simp_all add: getUint16_def getUint24_def getUint64_def ev_rd_def u peek_def uint24_of_le)
        (intro impI; rule w2 w3; simp)+
    show ?thesis
      unfolding 1 s ev_dec_def decodeint_def prod.case bindE_simps
      by (simp only: 1 2 bindE_if bindE_assoc bindE_simps prod.case Let_def nth_Cons_0)
  qed
qed

text \<open>The bitmap MySQL writes for a list of flags: bit \<open>i mod 8\<close> of byte \<open>i div 8\<close>.\<close>

definition bits_val :: "bool list \<Rightarrow> nat" where
  "bits_val bs = foldr (\<lambda>b v. of_bool b + 2 * v) bs 0"

definition bitmap :: "bool list \<Rightarrow> u8 list" where
  "bitmap bs = le_bytes ((length bs + 7) div 8) (bits_val bs)"

lemma length_bitmap [simp]: "length (bitmap bs) = (length bs + 7) div 8"
  by (simp add: bitmap_def)

lemma bits_val_Cons [simp]: "bits_val (b # bs) = of_bool b + 2 * bits_val bs"
  by (simp add: bits_val_def)

lemma bits_val_bound: "bits_val bs < 2 ^ length bs"
  by (induction bs) (auto simp add: bits_val_def)

lemma bits_val_nth: "i < length bs \<Longrightarrow> odd (bits_val bs div 2 ^ i) = bs ! i"
proof (induction bs arbitrary: i)
  case (Cons b bs)
  show ?case
  proof (cases i)
    case (Suc j)
    have "(of_bool b + 2 * bits_val bs) div 2 = bits_val bs" by simp
    then have "bits_val (b # bs) div 2 ^ i = bits_val bs div 2 ^ j"
      by (simp add: Suc div_mult2_eq)
    with Cons Suc show ?thesis by simp
  qed simp
qed simp

lemma le_bytes_nth: "i < n \<Longrightarrow> le_bytes n v ! i = of_nat (v div 256 ^ i)"
proof (induction n arbitrary: i v)
  case (Suc n)
  then show ?case by (cases i) (simp_all add: div_mult2_eq)
qed simp

lemma u8_bit_test:
  assumes "j < 8"
  shows "drop_bit j (of_nat v :: u8) AND 1 = 1 \<longleftrightarrow> odd (v div 2 ^ j)"
proof -
  have "drop_bit j (of_nat v :: u8) AND 1 = 1 \<longleftrightarrow> bit (of_nat v :: u8) j"
    by (simp only: and_one_eq bit_iff_odd_drop_bit odd_iff_mod_2_eq_one)
  also have "\<dots> \<longleftrightarrow> odd (v div 2 ^ j)"
  proof -
    have "(of_nat v :: u8) = of_int (int v)" by simp
    then have "bit (of_nat v :: u8) j \<longleftrightarrow> bit (int v) j"
      using assms by (simp only: bit_word_of_int_iff) simp
    then show ?thesis by (simp only: bit_of_nat_iff_bit bit_iff_odd [of v])
  qed
  finally show ?thesis .
qed

text \<open>\<open>isSet\<close> reads back each flag of a bitmap, wherever the bitmap stands in the block.\<close>

lemma isSet_bitmap:
  assumes "i < length bs" "off = length pre"
  shows "isSet (pre @ bitmap bs @ post) off i = Inr (bs ! i)"
proof -
  have i: "i div 8 < (length bs + 7) div 8" using assms(1) by simp
  have "getUint8 (pre @ bitmap bs @ post) (off + i div 8) = Inr (bitmap bs ! (i div 8))"
    using i assms(2)
    by (simp add: getUint8_def peek_def take_Suc hd_drop_conv_nth nth_append)
  moreover have "bitmap bs ! (i div 8) = of_nat (bits_val bs div 256 ^ (i div 8))"
    using i by (simp add: bitmap_def le_bytes_nth)
  moreover have "bits_val bs div 256 ^ (i div 8) div 2 ^ (i mod 8) = bits_val bs div 2 ^ i"
  proof -
    have "(256 :: nat) ^ (i div 8) * 2 ^ (i mod 8) = 2 ^ (8 * (i div 8) + i mod 8)"
      by (simp only: power_add power_mult) simp
    then show ?thesis by (simp add: flip: div_mult2_eq)
  qed
  ultimately show ?thesis
    using bits_val_nth [OF assms(1)]
    by (simp add: isSet_def u8_bit_test)
qed

end
