(* ===== verification/Cells.thy ===== *)
theory Cells
  imports EventReader Decimal
begin

text \<open>
  The cell decoder \<open>value2Cell\<close> of \<open>src/src/logevent.c\<close>: one column value of a row image,
  read at the event cursor, becomes a \<open>Cell\<close> with a C type, a MySQL type and a block of
  bytes. Each \<open>case\<close> of the \<open>switch\<close> is a definition of its own, \<open>value2Cell\<close> dispatches.

  \<open>c_value\<close> is the block \<open>cell.value\<close> points to (\<open>None\<close> for NULL). A block that
  \<open>malloc\<close> returns is modelled with zero bytes where the code leaves it uninitialised.
\<close>

subsection \<open>The enumerations and the cell (logevent.h)\<close>

datatype bl_enum_field_types =
    BL_MYSQL_TYPE_DECIMAL | BL_MYSQL_TYPE_TINY
  | BL_MYSQL_TYPE_SHORT | BL_MYSQL_TYPE_LONG
  | BL_MYSQL_TYPE_FLOAT | BL_MYSQL_TYPE_DOUBLE
  | BL_MYSQL_TYPE_NULL | BL_MYSQL_TYPE_TIMESTAMP
  | BL_MYSQL_TYPE_LONGLONG | BL_MYSQL_TYPE_INT24
  | BL_MYSQL_TYPE_DATE | BL_MYSQL_TYPE_TIME
  | BL_MYSQL_TYPE_DATETIME | BL_MYSQL_TYPE_YEAR
  | BL_MYSQL_TYPE_NEWDATE | BL_MYSQL_TYPE_VARCHAR
  | BL_MYSQL_TYPE_BIT
  | BL_MYSQL_TYPE_NEWDECIMAL
  | BL_MYSQL_TYPE_ENUM
  | BL_MYSQL_TYPE_SET
  | BL_MYSQL_TYPE_TINY_BLOB
  | BL_MYSQL_TYPE_MEDIUM_BLOB
  | BL_MYSQL_TYPE_LONG_BLOB
  | BL_MYSQL_TYPE_BLOB
  | BL_MYSQL_TYPE_VAR_STRING
  | BL_MYSQL_TYPE_STRING
  | BL_MYSQL_TYPE_GEOMETRY

text \<open>The number of each constant; a type byte with no constant takes the \<open>default\<close> branch.\<close>

fun field_type_code :: "bl_enum_field_types \<Rightarrow> u8" where
  "field_type_code BL_MYSQL_TYPE_DECIMAL = 0"
| "field_type_code BL_MYSQL_TYPE_TINY = 1"
| "field_type_code BL_MYSQL_TYPE_SHORT = 2"
| "field_type_code BL_MYSQL_TYPE_LONG = 3"
| "field_type_code BL_MYSQL_TYPE_FLOAT = 4"
| "field_type_code BL_MYSQL_TYPE_DOUBLE = 5"
| "field_type_code BL_MYSQL_TYPE_NULL = 6"
| "field_type_code BL_MYSQL_TYPE_TIMESTAMP = 7"
| "field_type_code BL_MYSQL_TYPE_LONGLONG = 8"
| "field_type_code BL_MYSQL_TYPE_INT24 = 9"
| "field_type_code BL_MYSQL_TYPE_DATE = 10"
| "field_type_code BL_MYSQL_TYPE_TIME = 11"
| "field_type_code BL_MYSQL_TYPE_DATETIME = 12"
| "field_type_code BL_MYSQL_TYPE_YEAR = 13"
| "field_type_code BL_MYSQL_TYPE_NEWDATE = 14"
| "field_type_code BL_MYSQL_TYPE_VARCHAR = 15"
| "field_type_code BL_MYSQL_TYPE_BIT = 16"
| "field_type_code BL_MYSQL_TYPE_NEWDECIMAL = 246"
| "field_type_code BL_MYSQL_TYPE_ENUM = 247"
| "field_type_code BL_MYSQL_TYPE_SET = 248"
| "field_type_code BL_MYSQL_TYPE_TINY_BLOB = 249"
| "field_type_code BL_MYSQL_TYPE_MEDIUM_BLOB = 250"
| "field_type_code BL_MYSQL_TYPE_LONG_BLOB = 251"
| "field_type_code BL_MYSQL_TYPE_BLOB = 252"
| "field_type_code BL_MYSQL_TYPE_VAR_STRING = 253"
| "field_type_code BL_MYSQL_TYPE_STRING = 254"
| "field_type_code BL_MYSQL_TYPE_GEOMETRY = 255"

definition all_field_types :: "bl_enum_field_types list" where
  "all_field_types =
     [BL_MYSQL_TYPE_DECIMAL, BL_MYSQL_TYPE_TINY, BL_MYSQL_TYPE_SHORT, BL_MYSQL_TYPE_LONG,
      BL_MYSQL_TYPE_FLOAT, BL_MYSQL_TYPE_DOUBLE, BL_MYSQL_TYPE_NULL, BL_MYSQL_TYPE_TIMESTAMP,
      BL_MYSQL_TYPE_LONGLONG, BL_MYSQL_TYPE_INT24, BL_MYSQL_TYPE_DATE, BL_MYSQL_TYPE_TIME,
      BL_MYSQL_TYPE_DATETIME, BL_MYSQL_TYPE_YEAR, BL_MYSQL_TYPE_NEWDATE, BL_MYSQL_TYPE_VARCHAR,
      BL_MYSQL_TYPE_BIT, BL_MYSQL_TYPE_NEWDECIMAL, BL_MYSQL_TYPE_ENUM, BL_MYSQL_TYPE_SET,
      BL_MYSQL_TYPE_TINY_BLOB, BL_MYSQL_TYPE_MEDIUM_BLOB, BL_MYSQL_TYPE_LONG_BLOB,
      BL_MYSQL_TYPE_BLOB, BL_MYSQL_TYPE_VAR_STRING, BL_MYSQL_TYPE_STRING,
      BL_MYSQL_TYPE_GEOMETRY]"

definition field_type_of :: "u8 \<Rightarrow> bl_enum_field_types option" where
  "field_type_of b = find (\<lambda>t. field_type_code t = b) all_field_types"

datatype bl_ctypes =
  INT32 | INT8 | INT16 | INT64 | UINT32 | UINT64 | FLOAT | DOUBLE | STRING | BINARY

record Cell =
  c_ctype :: bl_ctypes
  c_mtype :: bl_enum_field_types
  c_length :: nat
  c_value :: "u8 list option"

text \<open>\<open>Cell c = {0}\<close>: the NULL cell, whose type fields are the constants numbered 0.\<close>

definition null_cell :: Cell where
  "null_cell = \<lparr>c_ctype = INT32, c_mtype = BL_MYSQL_TYPE_DECIMAL, c_length = 0, c_value = None\<rparr>"

definition mk_cell :: "bl_ctypes \<Rightarrow> bl_enum_field_types \<Rightarrow> nat \<Rightarrow> u8 list \<Rightarrow> Cell" where
  "mk_cell ct mt len v = \<lparr>c_ctype = ct, c_mtype = mt, c_length = len, c_value = Some v\<rparr>"

subsection \<open>The library functions the decoder calls\<close>

text \<open>\<open>malloc(n)\<close>, then a copy of \<open>bs\<close> to the start of the block.\<close>

definition malloc_copy :: "nat \<Rightarrow> u8 list \<Rightarrow> u8 list res" where
  "malloc_copy n bs = poke (replicate n 0) 0 bs"

text \<open>\<open>sprintf\<close> with \<open>%0wd\<close>: decimal digits, zero-padded to width \<open>w\<close>, the sign first.\<close>

fun dec_digits :: "nat \<Rightarrow> u8 list" where
  "dec_digits n =
     (if n < 10 then [48 + of_nat n] else dec_digits (n div 10) @ [48 + of_nat (n mod 10)])"

declare dec_digits.simps [simp del]

definition fmt0 :: "nat \<Rightarrow> int \<Rightarrow> u8 list" where
  "fmt0 w v =
     (let ds = dec_digits (nat \<bar>v\<bar>)
      in if v < 0 then 45 # replicate (w - 1 - length ds) 48 @ ds
         else replicate (w - length ds) 48 @ ds)"

subsection \<open>The cases of the switch\<close>

text \<open>\<open>BL_MYSQL_TYPE_STRING\<close> carries the real type and the length in its metadata (147-172).\<close>

definition string_real_type :: "u8 \<Rightarrow> u32 \<Rightarrow> u8 \<times> u32" where
  "string_real_type type meta =
     (if type = field_type_code BL_MYSQL_TYPE_STRING then
        if meta \<ge> 256 then
          let byte0 = (ucast (drop_bit 8 meta) :: u8); byte1 = (ucast (meta AND 255) :: u8);
              (type, nLength) =
                (if byte0 AND 48 \<noteq> 48
                 then (byte0 OR 48,
                       ucast byte1 OR push_bit 4 (ucast ((byte0 AND 48) XOR 48)))
                 else (type, meta AND 255))
          in if byte0 = field_type_code BL_MYSQL_TYPE_SET \<or>
                byte0 = field_type_code BL_MYSQL_TYPE_ENUM \<or>
                byte0 = field_type_code BL_MYSQL_TYPE_STRING
             then (byte0, ucast byte1) else (type, nLength)
        else (type, meta)
      else (type, 0))"

definition cell_LONG :: "EventCursor \<Rightarrow> (Cell \<times> EventCursor) res" where
  "cell_LONG ec = bindE (readInt32 ec) (\<lambda>(v, ec).
     bindE (malloc_copy 4 (le_bytes 4 (unat v))) (\<lambda>value.
       Inr (mk_cell INT32 BL_MYSQL_TYPE_LONG 4 value, ec)))"

definition cell_TINY :: "EventCursor \<Rightarrow> (Cell \<times> EventCursor) res" where
  "cell_TINY ec = bindE (readInt8 ec) (\<lambda>(v, ec).
     bindE (malloc_copy 1 (le_bytes 1 (unat v))) (\<lambda>value.
       Inr (mk_cell INT8 BL_MYSQL_TYPE_TINY 1 value, ec)))"

definition cell_SHORT :: "EventCursor \<Rightarrow> (Cell \<times> EventCursor) res" where
  "cell_SHORT ec = bindE (readInt16 ec) (\<lambda>(v, ec).
     bindE (malloc_copy 2 (le_bytes 2 (unat v))) (\<lambda>value.
       Inr (mk_cell INT16 BL_MYSQL_TYPE_SHORT 2 value, ec)))"

definition cell_LONGLONG :: "EventCursor \<Rightarrow> (Cell \<times> EventCursor) res" where
  "cell_LONGLONG ec = bindE (readInt64 ec) (\<lambda>(v, ec).
     bindE (malloc_copy 8 (le_bytes 8 (unat v))) (\<lambda>value.
       Inr (mk_cell INT64 BL_MYSQL_TYPE_LONGLONG 8 value, ec)))"

definition cell_INT24 :: "EventCursor \<Rightarrow> (Cell \<times> EventCursor) res" where
  "cell_INT24 ec = bindE (readInt24 ec) (\<lambda>(v, ec).
     bindE (malloc_copy 4 (le_bytes 4 (unat v))) (\<lambda>value.
       Inr (mk_cell INT32 BL_MYSQL_TYPE_INT24 4 value, ec)))"

definition cell_TIMESTAMP :: "EventCursor \<Rightarrow> (Cell \<times> EventCursor) res" where
  "cell_TIMESTAMP ec = bindE (readUint32 ec) (\<lambda>(v, ec).
     bindE (malloc_copy 4 (le_bytes 4 (unat v))) (\<lambda>value.
       Inr (mk_cell UINT32 BL_MYSQL_TYPE_TIMESTAMP 4 value, ec)))"

text \<open>A \<open>STRING\<close> cell made with \<open>strdup\<close>: the bytes and the terminating NUL.\<close>

definition string_cell :: "bl_enum_field_types \<Rightarrow> u8 list \<Rightarrow> Cell" where
  "string_cell mt s = mk_cell STRING mt (length s) (s @ [0])"

definition datetime_text :: "u64 \<Rightarrow> u8 list" where
  "datetime_text v =
     (let d = sint (ucast (v div 1000000) :: u32); t = sint (ucast (v mod 1000000) :: u32)
      in fmt0 4 (d sdiv 10000) @ [45] @ fmt0 2 ((d smod 10000) sdiv 100) @ [45] @
         fmt0 2 (d smod 100) @ [32] @ fmt0 2 (t sdiv 10000) @ [58] @
         fmt0 2 ((t smod 10000) sdiv 100) @ [58] @ fmt0 2 (t smod 100))"

definition cell_DATETIME :: "EventCursor \<Rightarrow> (Cell \<times> EventCursor) res" where
  "cell_DATETIME ec = bindE (readUint64 ec) (\<lambda>(v, ec).
     Inr (string_cell BL_MYSQL_TYPE_DATETIME (datetime_text v), ec))"

definition time_text :: "u32 \<Rightarrow> u8 list" where
  "time_text v =
     [39] @ fmt0 2 (uint (v div 10000)) @ [58] @ fmt0 2 (uint ((v mod 10000) div 100)) @ [58] @
     fmt0 2 (uint (v mod 100)) @ [39]"

definition cell_TIME :: "EventCursor \<Rightarrow> (Cell \<times> EventCursor) res" where
  "cell_TIME ec = bindE (readUint24 ec) (\<lambda>(v, ec).
     Inr (string_cell BL_MYSQL_TYPE_TIME (time_text v), ec))"

text \<open>\<open>NEWDATE\<close> writes its ten characters from the last to the first.\<close>

definition newdate_text :: "u32 \<Rightarrow> u8 list" where
  "newdate_text tmp =
     (let part = uint (tmp AND 31);
          pos = [48 + of_int (part div 10), 48 + of_int (part mod 10)];
          pos = 58 # pos;
          part = uint (drop_bit 5 tmp AND 15);
          pos = [48 + of_int (part div 10), 48 + of_int (part mod 10)] @ pos;
          pos = 58 # pos;
          part = uint (drop_bit 9 tmp);
          pos = (48 + of_int (part mod 10)) # pos; part = part div 10;
          pos = (48 + of_int (part mod 10)) # pos; part = part div 10;
          pos = (48 + of_int (part mod 10)) # pos; part = part div 10
      in (48 + of_int part) # pos)"

definition cell_NEWDATE :: "EventCursor \<Rightarrow> (Cell \<times> EventCursor) res" where
  "cell_NEWDATE ec = bindE (readUint24 ec) (\<lambda>(tmp, ec).
     Inr (string_cell BL_MYSQL_TYPE_NEWDATE (newdate_text tmp), ec))"

definition date_text :: "u32 \<Rightarrow> u8 list" where
  "date_text v =
     fmt0 4 (uint v div (16 * 32)) @ [45] @ fmt0 2 (uint v div 32 mod 16) @ [45] @
     fmt0 2 (uint v mod 32)"

definition cell_DATE :: "EventCursor \<Rightarrow> (Cell \<times> EventCursor) res" where
  "cell_DATE ec = bindE (readUint24 ec) (\<lambda>(v, ec).
     Inr (string_cell BL_MYSQL_TYPE_DATE (date_text v), ec))"

definition cell_YEAR :: "EventCursor \<Rightarrow> (Cell \<times> EventCursor) res" where
  "cell_YEAR ec = bindE (readUint8 ec) (\<lambda>(v, ec).
     Inr (string_cell BL_MYSQL_TYPE_YEAR (fmt0 4 (uint v + 1900)), ec))"

text \<open>
  The 2-byte \<open>ENUM\<close> allocates \<open>sizeof(uint8_t)\<close> and stores a \<open>uint32_t\<close>: \<open>malloc_copy\<close>
  reports the store past the block. Any other pack length leaves the value NULL.
\<close>

definition cell_ENUM :: "u32 \<Rightarrow> EventCursor \<Rightarrow> (Cell \<times> EventCursor) res" where
  "cell_ENUM meta ec =
     (if meta AND 255 = 1 then
        bindE (readUint8 ec) (\<lambda>(v, ec).
        bindE (malloc_copy 4 (le_bytes 4 (unat v))) (\<lambda>value.
          Inr (mk_cell INT32 BL_MYSQL_TYPE_ENUM 4 value, ec)))
      else if meta AND 255 = 2 then
        bindE (readUint16 ec) (\<lambda>(v, ec).
        bindE (malloc_copy 1 (le_bytes 4 (unat v))) (\<lambda>value.
          Inr (mk_cell INT32 BL_MYSQL_TYPE_ENUM 4 value, ec)))
      else Inr (null_cell\<lparr>c_ctype := INT32, c_mtype := BL_MYSQL_TYPE_ENUM\<rparr>, ec))"

text \<open>\<open>SET\<close> copies from \<open>evcur->ev\<close>, the start of the event, and then advances the cursor.\<close>

definition cell_SET :: "u32 \<Rightarrow> EventCursor \<Rightarrow> (Cell \<times> EventCursor) res" where
  "cell_SET meta ec =
     (let n = unat (meta AND 255)
      in bindE (peek (ec_ev ec) 0 n) (\<lambda>b.
         bindE (malloc_copy 32 b) (\<lambda>szBuf.
         bindE (advance n ec) (\<lambda>ec.
           Inr (mk_cell BINARY BL_MYSQL_TYPE_SET n szBuf, ec)))))"

definition blob_body :: "nat \<Rightarrow> EventCursor \<Rightarrow> (Cell \<times> EventCursor) res" where
  "blob_body nLength ec = bindE (readBytes nLength ec) (\<lambda>(b, ec).
     Inr (mk_cell BINARY BL_MYSQL_TYPE_BLOB nLength b, ec))"

definition cell_BLOB :: "u32 \<Rightarrow> EventCursor \<Rightarrow> (Cell \<times> EventCursor) res" where
  "cell_BLOB meta ec =
     (if meta = 1 then bindE (readUint8 ec) (\<lambda>(n, ec). blob_body (unat n) ec)
      else if meta = 2 then bindE (readUint16 ec) (\<lambda>(n, ec). blob_body (unat n) ec)
      else if meta = 3 then bindE (readUint24 ec) (\<lambda>(n, ec). blob_body (unat n) ec)
      else if meta = 4 then bindE (readUint32 ec) (\<lambda>(n, ec). blob_body (unat n) ec)
      else Inr (null_cell\<lparr>c_ctype := BINARY, c_mtype := BL_MYSQL_TYPE_BLOB\<rparr>, ec))"

definition text_body :: "bl_enum_field_types \<Rightarrow> nat \<Rightarrow> EventCursor \<Rightarrow> (Cell \<times> EventCursor) res"
where
  "text_body mt nLength ec = bindE (readBytes nLength ec) (\<lambda>(b, ec).
     Inr (mk_cell STRING mt nLength (b @ [0]), ec))"

definition cell_VARCHAR :: "u32 \<Rightarrow> EventCursor \<Rightarrow> (Cell \<times> EventCursor) res" where
  "cell_VARCHAR meta ec =
     (if meta < 256
      then bindE (readUint8 ec) (\<lambda>(n, ec). text_body BL_MYSQL_TYPE_VARCHAR (unat n) ec)
      else bindE (readUint16 ec) (\<lambda>(n, ec). text_body BL_MYSQL_TYPE_VARCHAR (unat n) ec))"

definition cell_STRING :: "u32 \<Rightarrow> EventCursor \<Rightarrow> (Cell \<times> EventCursor) res" where
  "cell_STRING nLength ec =
     (if nLength < 256
      then bindE (readUint8 ec) (\<lambda>(n, ec). text_body BL_MYSQL_TYPE_STRING (unat n) ec)
      else bindE (readUint16 ec) (\<lambda>(n, ec). text_body BL_MYSQL_TYPE_STRING (unat n) ec))"

definition cell_BIT :: "u32 \<Rightarrow> EventCursor \<Rightarrow> (Cell \<times> EventCursor) res" where
  "cell_BIT meta ec =
     (let nBits = drop_bit 8 meta * 8 + (meta AND 255); nLength = (nBits + 7) div 8
      in bindE (readBytes (unat nLength) ec) (\<lambda>(b, ec).
           Inr (mk_cell BINARY BL_MYSQL_TYPE_BIT (unat nLength) b, ec)))"

definition cell_FLOAT :: "EventCursor \<Rightarrow> (Cell \<times> EventCursor) res" where
  "cell_FLOAT ec = bindE (readBytes 4 ec) (\<lambda>(b, ec).
     Inr (mk_cell FLOAT BL_MYSQL_TYPE_FLOAT 4 b, ec))"

definition cell_DOUBLE :: "EventCursor \<Rightarrow> (Cell \<times> EventCursor) res" where
  "cell_DOUBLE ec = bindE (readBytes 8 ec) (\<lambda>(b, ec).
     Inr (mk_cell DOUBLE BL_MYSQL_TYPE_DOUBLE 8 b, ec))"

text \<open>
  \<open>DECIMAL(p,s)\<close>: decoded into a 128-word \<open>decimal_t\<close>, printed into a 512-byte buffer. When
  \<open>bin2decimal\<close> fails, the NULL cell is returned and the cursor has not moved.
\<close>

definition cell_NEWDECIMAL :: "u32 \<Rightarrow> EventCursor \<Rightarrow> (Cell \<times> EventCursor) res" where
  "cell_NEWDECIMAL meta ec =
     (let precision = uint (ucast (drop_bit 8 meta) :: u8);
          decimals = uint (ucast (meta AND 255) :: u8);
          d = \<lparr>d_intg = 0, d_frac = 0, d_len = 128, d_sign = 0, d_buf = replicate 128 0\<rparr>
      in bindE (decimal_bin_size precision decimals) (\<lambda>size.
         bindE (bin2decimal (ec_ev ec) (ec_cur ec) d precision decimals) (\<lambda>(ret, d).
         if ret \<noteq> E_DEC_OK then Inr (null_cell, ec)
         else bindE (decimal2string d (replicate 512 0) 512 0 0 0) (\<lambda>(_, buf, buflen).
              bindE (putZ buf buflen [0]) (\<lambda>buf.
              bindE (cstring_at buf 0) (\<lambda>s.
              bindE (advance (nat size) ec) (\<lambda>ec.
                Inr (mk_cell STRING BL_MYSQL_TYPE_NEWDECIMAL (nat buflen) (s @ [0]), ec))))))))"

definition value2Cell :: "EventCursor \<Rightarrow> u8 \<Rightarrow> u32 \<Rightarrow> (Cell \<times> EventCursor) res" where
  "value2Cell ec type meta =
     (let (type, nLength) = string_real_type type meta
      in case field_type_of type of
           Some BL_MYSQL_TYPE_LONG \<Rightarrow> cell_LONG ec
         | Some BL_MYSQL_TYPE_TINY \<Rightarrow> cell_TINY ec
         | Some BL_MYSQL_TYPE_SHORT \<Rightarrow> cell_SHORT ec
         | Some BL_MYSQL_TYPE_LONGLONG \<Rightarrow> cell_LONGLONG ec
         | Some BL_MYSQL_TYPE_INT24 \<Rightarrow> cell_INT24 ec
         | Some BL_MYSQL_TYPE_TIMESTAMP \<Rightarrow> cell_TIMESTAMP ec
         | Some BL_MYSQL_TYPE_DATETIME \<Rightarrow> cell_DATETIME ec
         | Some BL_MYSQL_TYPE_TIME \<Rightarrow> cell_TIME ec
         | Some BL_MYSQL_TYPE_NEWDATE \<Rightarrow> cell_NEWDATE ec
         | Some BL_MYSQL_TYPE_DATE \<Rightarrow> cell_DATE ec
         | Some BL_MYSQL_TYPE_YEAR \<Rightarrow> cell_YEAR ec
         | Some BL_MYSQL_TYPE_ENUM \<Rightarrow> cell_ENUM meta ec
         | Some BL_MYSQL_TYPE_SET \<Rightarrow> cell_SET meta ec
         | Some BL_MYSQL_TYPE_BLOB \<Rightarrow> cell_BLOB meta ec
         | Some BL_MYSQL_TYPE_VARCHAR \<Rightarrow> cell_VARCHAR meta ec
         | Some BL_MYSQL_TYPE_VAR_STRING \<Rightarrow> cell_VARCHAR meta ec
         | Some BL_MYSQL_TYPE_STRING \<Rightarrow> cell_STRING nLength ec
         | Some BL_MYSQL_TYPE_BIT \<Rightarrow> cell_BIT meta ec
         | Some BL_MYSQL_TYPE_FLOAT \<Rightarrow> cell_FLOAT ec
         | Some BL_MYSQL_TYPE_DOUBLE \<Rightarrow> cell_DOUBLE ec
         | Some BL_MYSQL_TYPE_NEWDECIMAL \<Rightarrow> cell_NEWDECIMAL meta ec
         | _ \<Rightarrow> Inr (null_cell, ec))"

end
