(* ===== verification/DecimalText.thy ===== *)
theory DecimalText
  imports Cells
begin

text \<open>
  The printed form of a decimal. \<open>dec_text neg s n\<close> is the text of \<open>n / 10 ^ s\<close> with a
  sign; \<open>holds d neg I s F\<close> says that a \<open>decimal_t\<close> represents the number with integral part
  \<open>I\<close> and the \<open>s\<close> fractional digits \<open>F\<close> in its base \<open>10^9\<close> words. The theory ends with
  the proof that \<open>decimal2string\<close> prints the one for the other.
\<close>

subsection \<open>Decimal digits\<close>

fun padded :: "nat \<Rightarrow> nat \<Rightarrow> u8 list" where
  "padded 0 n = []"
| "padded (Suc w) n = padded w (n div 10) @ [48 + of_nat (n mod 10)]"

lemma length_padded [simp]: "length (padded w n) = w"
  by (induction w arbitrary: n) simp_all

lemma padded_0: "padded w 0 = replicate w 48"
  by (induction w) (simp_all add: replicate_append_same)

lemma dec_digits_padded:
  "n < 10 ^ w \<Longrightarrow> 0 < w \<Longrightarrow>
   length (dec_digits n) \<le> w \<and> replicate (w - length (dec_digits n)) 48 @ dec_digits n = padded w n"
proof (induction w arbitrary: n)
  case (Suc w)
  show ?case
  proof (cases "n < 10")
    case True
    then show ?thesis by (simp add: dec_digits.simps [of n] padded_0)
  next
    case False
    then have "0 < w" using Suc.prems by (cases w) simp_all
    moreover have "n div 10 < 10 ^ w" using Suc.prems by (simp add: div_less_iff_less_mult mult.commute)
    ultimately have "length (dec_digits (n div 10)) \<le> w"
      "replicate (w - length (dec_digits (n div 10))) 48 @ dec_digits (n div 10) = padded w (n div 10)"
      using Suc.IH by blast+
    with False show ?thesis by (simp add: dec_digits.simps [of n])
  qed
qed simp

lemma fmt0_padded: "n < 10 ^ w \<Longrightarrow> 0 < w \<Longrightarrow> fmt0 w (int n) = padded w n"
  using dec_digits_padded [of n w] by (simp add: fmt0_def Let_def)

lemma length_dec_digits_ge: "10 ^ k \<le> n \<Longrightarrow> k < length (dec_digits n)"
proof (induction k arbitrary: n)
  case 0
  then show ?case by (simp add: dec_digits.simps [of n])
next
  case (Suc k)
  then have "10 ^ k \<le> n div 10" "\<not> n < 10"
    by (simp_all add: less_eq_div_iff_mult_less_eq mult.commute)
      (metis Suc.prems leD less_le_trans mult.right_neutral mult_le_mono2 one_le_numeral one_le_power power_Suc)
  with Suc.IH [of "n div 10"] show ?case by (simp add: dec_digits.simps [of n])
qed

lemma fmt0_wide:
  assumes "10 ^ k \<le> n" "n < 10 ^ Suc k" "w \<le> k"
  shows "fmt0 w (int n) = padded (Suc k) n"
  using dec_digits_padded [of n "Suc k"] length_dec_digits_ge [OF assms(1)] assms(2,3)
  by (simp add: fmt0_def Let_def)

lemma sdiv_nonneg: "0 \<le> a \<Longrightarrow> 0 \<le> b \<Longrightarrow> (a :: int) sdiv b = a div b"
  by (cases "a = 0"; cases "b = 0") (simp_all add: signed_divide_int_def)

lemma smod_nonneg: "0 \<le> a \<Longrightarrow> 0 \<le> b \<Longrightarrow> (a :: int) smod b = a mod b"
  by (cases "a = 0") (simp_all add: signed_modulo_int_def)

lemma sdiv_int_numeral: "int a sdiv numeral k = int (a div numeral k)"
  by (simp add: sdiv_nonneg zdiv_int)

lemma smod_int_numeral: "int a smod numeral k = int (a mod numeral k)"
  by (simp add: smod_nonneg zmod_int)

lemma padded_split: "padded (a + b) n = padded a (n div 10 ^ b) @ padded b n"
  by (induction b arbitrary: n) (simp_all add: div_mult2_eq)

lemma padded_mod: "padded w (n mod 10 ^ w) = padded w n"
proof (induction w arbitrary: n)
  case (Suc w)
  have "n mod 10 ^ Suc w = 10 * (n div 10 mod 10 ^ w) + n mod 10" by (simp add: mod_mult2_eq)
  then have "n mod 10 ^ Suc w div 10 = n div 10 mod 10 ^ w" "n mod 10 ^ Suc w mod 10 = n mod 10" by simp_all
  then show ?case using Suc.IH [of "n div 10"] by (simp only: padded.simps)
qed simp

lemma dec_digits_eq_padded:
  assumes "10 ^ k \<le> n" "n < 10 ^ Suc k"
  shows "dec_digits n = padded (Suc k) n" "length (dec_digits n) = Suc k"
proof -
  have "Suc k \<le> length (dec_digits n)" using length_dec_digits_ge [OF assms(1)] by simp
  moreover have "length (dec_digits n) \<le> Suc k"
    "replicate (Suc k - length (dec_digits n)) 48 @ dec_digits n = padded (Suc k) n"
    using dec_digits_padded [OF assms(2)] by simp_all
  ultimately show "length (dec_digits n) = Suc k" "dec_digits n = padded (Suc k) n" by simp_all
qed

subsection \<open>Words of nine digits\<close>

fun int_words :: "nat \<Rightarrow> nat \<Rightarrow> nat list" where
  "int_words 0 n = []"
| "int_words (Suc k) n = int_words k (n div 10 ^ 9) @ [n mod 10 ^ 9]"

lemma length_int_words [simp]: "length (int_words k n) = k"
  by (induction k arbitrary: n) simp_all

lemma int_words_less: "w \<in> set (int_words k n) \<Longrightarrow> w < 10 ^ 9"
  by (induction k arbitrary: n) auto

lemma int_words_0: "int_words k 0 = replicate k 0"
  by (induction k) (simp_all add: replicate_append_same)

function frac_words :: "nat \<Rightarrow> nat \<Rightarrow> nat list" where
  "frac_words f n =
     (if f = 0 then []
      else if f \<le> 9 then [n * 10 ^ (9 - f)]
      else (n div 10 ^ (f - 9)) # frac_words (f - 9) (n mod 10 ^ (f - 9)))"
  by pat_completeness auto

termination
  by (relation "measure fst") auto

declare frac_words.simps [simp del]

subsection \<open>Printing words\<close>

lemma frac_chars_padded:
  "w < 10 ^ 9 \<Longrightarrow> i \<le> 9 \<Longrightarrow> frac_chars (int w) i = padded i (w div 10 ^ (9 - i))"
proof (induction i arbitrary: w)
  case (Suc i)
  define y where "y = w div 10 ^ 8"
  define r where "r = w mod 10 ^ 8"
  have w: "w = y * 10 ^ 8 + r" "r < 10 ^ 8" by (simp_all add: y_def r_def)
  have y: "y < 10" using Suc.prems(1) by (simp add: y_def less_mult_imp_div_less)
  have yi: "int w sdiv DIG_MASK = int y" by (simp add: sdiv_nonneg y_def zdiv_int)
  have rest: "(int w - int y * DIG_MASK) * 10 = int (r * 10)" using w(1) by simp
  have e: "9 - i = Suc (8 - i)" "9 - Suc i = 8 - i" using Suc.prems(2) by simp_all
  have p: "(10 :: nat) ^ 8 = 10 ^ i * 10 ^ (8 - i)" using Suc.prems(2) by (simp flip: power_add)
  have "w div 10 ^ (8 - i) = y * 10 ^ i + r div 10 ^ (8 - i)"
    unfolding w(1) p by (simp add: div_mult_self3 mult.assoc [symmetric])
  moreover have "r div 10 ^ (8 - i) < 10 ^ i" using w(2) p by (simp add: less_mult_imp_div_less)
  ultimately have d: "w div 10 ^ (8 - i) div 10 ^ i = y" "w div 10 ^ (8 - i) mod 10 ^ i = r div 10 ^ (8 - i)"
    by simp_all
  have "frac_chars (int w) (Suc i) = (48 + of_int (int y)) # frac_chars (int (r * 10)) i"
    unfolding frac_chars.simps Let_def yi rest ..
  also have "frac_chars (int (r * 10)) i = padded i (r * 10 div 10 ^ (9 - i))"
    using Suc.prems w(2) by (intro Suc.IH) simp_all
  also have "r * 10 div 10 ^ (9 - i) = w div 10 ^ (8 - i) mod 10 ^ i"
    unfolding d(2) e(1) by simp
  also have "padded i \<dots> = padded i (w div 10 ^ (8 - i))" by (rule padded_mod)
  also have "(48 + of_int (int y)) # padded i (w div 10 ^ (8 - i)) = padded (1 + i) (w div 10 ^ (8 - i))"
    unfolding padded_split d(1) using y by simp
  finally show ?case using e(2) by simp
qed simp

lemma intg_chars_padded: "intg_chars (int w) i acc = padded i w @ acc"
proof (induction i arbitrary: w acc)
  case (Suc i)
  have y: "int w sdiv 10 = int (w div 10)" by (simp add: sdiv_nonneg zdiv_int)
  have "int w - int (w div 10) * 10 = int (w mod 10)" by (simp add: zmod_int zdiv_int minus_div_mult_eq_mod)
  then have c: "(of_int (int w - int (w div 10) * 10) :: u8) = of_nat (w mod 10)" by (simp only: of_int_of_nat_eq)
  show ?case unfolding intg_chars.simps Let_def y c using Suc.IH [of "w div 10"] by simp
qed simp

lemma frac_loop_words:
  "n < 10 ^ f \<Longrightarrow> frac_loop (map int (frac_words f n) @ rest) f = Inr (padded f n)"
proof (induction f n rule: frac_words.induct)
  case (1 f n)
  consider "f = 0" | "f \<noteq> 0" "f \<le> 9" | "9 < f" by linarith
  then show ?case
  proof cases
    case 2
    then obtain g where g: "f = Suc g" by (cases f) auto
    have "n * 10 ^ (9 - f) < 10 ^ f * 10 ^ (9 - f)" using "1.prems" by simp
    moreover have "(10 :: nat) ^ f * 10 ^ (9 - f) = 10 ^ 9" using 2(2) by (simp flip: power_add)
    ultimately have "n * 10 ^ (9 - f) < 10 ^ 9" by (simp only:)
    from frac_chars_padded [OF this 2(2)] have c: "frac_chars (int (n * 10 ^ (9 - f))) f = padded f n" by simp
    have "frac_loop (int w # ws) f = bindE (frac_loop ws (f - 9)) (\<lambda>cs. Inr (frac_chars (int w) f @ cs))" for w ws
      using 2(2) unfolding g by (simp add: min_def del: frac_chars.simps)
    from this [of "n * 10 ^ (9 - f)"] c 2 show ?thesis
      by (subst frac_words.simps) (simp del: of_nat_mult of_nat_power)
  next
    case 3
    then obtain g where g: "f = Suc g" "g - 8 = f - 9" by (cases f) auto
    have w: "n div 10 ^ (f - 9) < 10 ^ 9"
      using "1.prems" 3 by (intro less_mult_imp_div_less) (simp only: le_add_diff_inverse less_imp_le flip: power_add)
    have "frac_loop (map int (frac_words (f - 9) (n mod 10 ^ (f - 9))) @ rest) (f - 9) =
        Inr (padded (f - 9) (n mod 10 ^ (f - 9)))"
      using "1.IH" 3 by simp
    moreover have "padded f n = padded 9 (n div 10 ^ (f - 9)) @ padded (f - 9) n"
      using padded_split [of 9 "f - 9" n] 3 by simp
    moreover have "frac_loop (int w # ws) f = bindE (frac_loop ws (f - 9)) (\<lambda>cs. Inr (frac_chars (int w) 9 @ cs))" for w ws
      using 3 unfolding g(1) by (simp add: min_def)
    ultimately show ?thesis
      using 3 frac_chars_padded [OF w, of 9] by (subst frac_words.simps) (simp add: padded_mod)
  qed (simp add: frac_words.simps)
qed

lemma intg_loop_words:
  "n < 10 ^ d \<Longrightarrow> d \<le> 9 * k \<Longrightarrow> intg_loop (rev (map int (int_words k n))) d acc = Inr (padded d n @ acc)"
proof (induction k arbitrary: d n acc)
  case (Suc k)
  show ?case
  proof (cases d)
    case 0
    then show ?thesis by simp
  next
    case (Suc e)
    then have l: "intg_loop (int w # ws) d acc = intg_loop ws (d - 9) (intg_chars (int w) (min d 9) acc)" for w ws
      by simp
    show ?thesis
    proof (cases "d \<le> 9")
      case True
      have "n < 10 ^ 9" using Suc.prems(1) power_increasing [OF True, of "10 :: nat"] by simp
      then show ?thesis using True by (simp add: l intg_chars_padded min_def)
    next
      case False
      have "n div 10 ^ 9 < 10 ^ (d - 9)"
        using Suc.prems(1) False by (intro less_mult_imp_div_less) (simp only: le_add_diff_inverse2 linorder_not_le less_imp_le flip: power_add)
      then have "intg_loop (rev (map int (int_words k (n div 10 ^ 9)))) (d - 9) (padded 9 (n mod 10 ^ 9) @ acc) =
          Inr (padded (d - 9) (n div 10 ^ 9) @ padded 9 (n mod 10 ^ 9) @ acc)"
        using Suc.prems(2) False by (intro Suc.IH) simp_all
      moreover have "padded d n = padded (d - 9) (n div 10 ^ 9) @ padded 9 n"
        using padded_split [of "d - 9" 9 n] False by simp
      ultimately show ?thesis using False padded_mod [of 9 n] by (simp add: l intg_chars_padded min_def)
    qed
  qed
qed simp

subsection \<open>The printed form\<close>

text \<open>The text of \<open>n / 10 ^ s\<close> with a sign.\<close>

definition dec_text :: "bool \<Rightarrow> nat \<Rightarrow> nat \<Rightarrow> u8 list" where
  "dec_text neg s n = (if neg then [45] else []) @ dec_digits (n div 10 ^ s) @
     (if s = 0 then [] else 46 # padded s (n mod 10 ^ s))"

lemma int_words_Cons: "int_words (Suc k) n = (n div 10 ^ (9 * k) mod 10 ^ 9) # int_words k n"
proof (induction k arbitrary: n)
  case (Suc k)
  have "n div 10 ^ 9 div 10 ^ (9 * k) = n div 10 ^ (9 * Suc k)"
    by (simp only: div_mult2_eq [symmetric] power_add [symmetric] mult_Suc_right)
  then show ?case using Suc.IH [of "n div 10 ^ 9"] by (simp only: int_words.simps append_Cons)
qed simp

lemma powers10_nth: "i \<le> 9 \<Longrightarrow> nthE powers10 i = Inr (10 ^ i)"
proof -
  assume "i \<le> 9"
  then have "i = 0 \<or> i = 1 \<or> i = 2 \<or> i = 3 \<or> i = 4 \<or> i = 5 \<or> i = 6 \<or> i = 7 \<or> i = 8 \<or> i = 9" by auto
  then show ?thesis by (elim disjE) (simp_all add: nthE_def powers10_def)
qed

lemma skip_zero_digits_count:
  "10 ^ e \<le> w \<Longrightarrow> w < 10 ^ Suc e \<Longrightarrow> e \<le> i \<Longrightarrow> i \<le> 9 \<Longrightarrow>
    skip_zero_digits (int w) i D = Inr (D - int (i - e))"
proof (induction i arbitrary: D)
  case (Suc i)
  have p: "nthE powers10 (Suc i) = Inr (10 ^ Suc i)" using Suc.prems(4) by (rule powers10_nth)
  show ?case
  proof (cases "e = Suc i")
    case True
    then have "\<not> int w < 10 ^ Suc i" using Suc.prems(1) by (metis leD of_nat_less_iff of_nat_numeral of_nat_power)
    then show ?thesis using True p by simp
  next
    case False
    have "w < 10 ^ Suc i"
      using Suc.prems(2,3) False power_increasing [of "Suc e" "Suc i" "10 :: nat"] by linarith
    then have "int w < 10 ^ Suc i" by (metis of_nat_less_iff of_nat_numeral of_nat_power)
    moreover have "D - 1 - int (i - e) = D - int (Suc i - e)" using Suc.prems(3) False by simp
    ultimately show ?thesis using Suc.IH [of "D - 1"] Suc.prems False p by simp
  qed
qed simp

lemma remove_leading_zeroes_count:
  assumes "d_buf d = map int (int_words (Suc k) n) @ rest" "d_intg d = int D"
    and "9 * k < D" "D \<le> 9 * Suc k" "10 ^ (9 * k) \<le> n" "n < 10 ^ D"
  shows "remove_leading_zeroes d = Inr (0, int (length (dec_digits n)))"
proof -
  define w where "w = n div 10 ^ (9 * k)"
  define i where "i = D - 1 - 9 * k"
  have D: "D = 9 * k + Suc i" "i \<le> 8" using assms(3,4) by (simp_all add: i_def)
  have "n < 10 ^ Suc i * 10 ^ (9 * k)" using assms(6) unfolding D(1) by (simp only: power_add mult.commute)
  then have w: "w < 10 ^ Suc i" "1 \<le> w"
    using assms(5) by (auto simp add: w_def less_mult_imp_div_less div_greater_zero_iff Suc_le_eq)
  have w9: "w < 10 ^ 9" using w(1) D(2) power_increasing [of "Suc i" 9 "10 :: nat"] by linarith
  obtain e where e: "10 ^ e \<le> w" "w < 10 ^ Suc e" using ex_power_ivl1 [of 10 w] w(2) by auto
  have ei: "e \<le> i"
    using e(1) w(1) power_increasing [of "Suc i" e "10 :: nat"] by (cases "e \<le> i") (simp_all add: not_le Suc_le_eq)
  have hd: "int_words (Suc k) n = w # int_words k n" using w9 unfolding int_words_Cons w_def by (simp del: int_words.simps)
  have "10 ^ (9 * k + e) \<le> n"
  proof -
    have "10 ^ (9 * k + e) \<le> 10 ^ (9 * k) * w" using e(1) by (simp add: power_add)
    also have "\<dots> \<le> n" by (simp add: w_def)
    finally show ?thesis .
  qed
  moreover have "n < 10 ^ Suc (9 * k + e)"
  proof -
    have "n < 10 ^ (9 * k) * Suc w" by (simp add: w_def dividend_less_times_div)
    also have "\<dots> \<le> 10 ^ (9 * k) * 10 ^ Suc e" using e(2) by (intro mult_le_mono2) simp
    finally show ?thesis by (simp add: power_add)
  qed
  ultimately have l: "length (dec_digits n) = Suc (9 * k + e)" by (rule dec_digits_eq_padded(2))
  have m: "(int D - 1) smod DIG_PER_DEC1 = int i" using D by (simp add: smod_nonneg)
  have "skip_zero_digits (int w) i (int D) = Inr (int D - int (i - e))"
    using e ei D(2) by (intro skip_zero_digits_count) simp_all
  also have "int D - int (i - e) = int (length (dec_digits n))" using D(1) ei l by simp
  finally have skip: "skip_zero_digits (int w) i (int D) = Inr (int (length (dec_digits n)))" .
  have words: "skip_zero_words (d_buf d) (int D) j 0 = Inr (0, int D)" for j
    using w(2) assms(1) unfolding hd by simp
  have first: "nthE (d_buf d) 0 = Inr (int w)" using assms(1) unfolding hd by (simp add: nthE_def)
  have pos: "(0 :: int) < int D" using D(1) by simp
  show ?thesis
    unfolding remove_leading_zeroes_def assms(2) words bindE_simps prod.case m nat_int first skip
    using pos by simp
qed

lemma remove_leading_zeroes_zero:
  assumes "d_intg d = 0"
  shows "remove_leading_zeroes d = Inr (0, 0)"
  using assms by (cases "d_buf d") (simp_all add: remove_leading_zeroes_def)

lemma putZ_over: "off = int (length xs) \<Longrightarrow> length ys' = length ys \<Longrightarrow> putZ (xs @ ys @ zs) off ys' = Inr (xs @ ys' @ zs)"
  by (simp add: putZ_def poke_over)

lemma fill_chars_0 [simp]: "fill_chars 0 c = Inr []"
  by (simp add: fill_chars_def)

lemma d2s_widths_free:
  assumes "len = sg + (if intg = 0 then 1 else intg) + of_bool (frac \<noteq> 0) + frac" "len < to_len"
  shows "d2s_widths sg intg frac to_len 0 0 =
    (E_DEC_OK, len, intg, frac, if intg = 0 then 1 else intg, frac)"
  using assms by (simp add: d2s_widths_def Let_def)

text \<open>
  The writes of \<open>decimal2string\<close>, once the number of digits before the point and the words
  that hold them are known.
\<close>

lemma decimal2string_writes:
  assumes lead: "remove_leading_zeroes d = Inr (0, int L)"
    and sign: "d_sign d = of_bool neg" and frac: "d_frac d = int s"
    and ip: "length ip = max 1 L" "L = 0 \<Longrightarrow> ip = [48]"
    and fp: "length fp = s"
    and intw: "0 < L \<Longrightarrow> ROUND_UP (int L) \<le> int (length (d_buf d)) \<and>
      intg_loop (rev (take (nat (ROUND_UP (int L))) (d_buf d))) L [] = Inr ip"
    and fracw: "0 < s \<Longrightarrow> frac_loop (drop (nat (ROUND_UP (int L))) (d_buf d)) s = Inr fp"
    and len: "len = of_bool neg + max 1 L + of_bool (s \<noteq> 0) + s" "len < 512"
  shows "decimal2string d (replicate 512 0) 512 0 0 0 =
    Inr (E_DEC_OK,
         (if neg then [45] else []) @ ip @ (if s = 0 then [] else 46 # fp) @ replicate (512 - len) 0,
         int len)"
proof -
  define sg :: "u8 list" where "sg = (if neg then [45] else [])"
  define z :: "u8 list" where "z = replicate (512 - len) 0"
  define r :: "nat \<Rightarrow> u8 list" where "r n = replicate n 0" for n
  have sl: "length sg = of_bool neg" by (simp add: sg_def)
  define words where "words = (if L + s = 0 then [0] else d_buf d)"
  define intg where "intg = (if L + s = 0 then 1 else int L)"
  have il: "(if intg = 0 then 1 else intg) = int (max 1 L)" by (simp add: intg_def)
  have "int len = of_bool neg + (if intg = 0 then 1 else intg) + of_bool (int s \<noteq> 0) + int s"
    unfolding il len(1) by simp
  moreover have "int len < 512" using len(2) by simp
  ultimately have w: "d2s_widths (of_bool neg) intg (int s) 512 0 0 =
      (E_DEC_OK, int len, intg, int s, int (max 1 L), int s)"
    using d2s_widths_free [of "int len" "of_bool neg" intg "int s" 512] unfolding il by blast
  have split: "replicate 512 0 = r (of_bool neg) @ r (max 1 L) @ r (of_bool (s \<noteq> 0)) @ r s @ z"
    using len by (simp add: r_def z_def flip: replicate_add)
  have nul: "putZ (replicate 512 0) (int len) [0] = Inr (replicate 512 (0 :: u8))"
    using len(2) by (simp add: putZ_def poke_def flip: replicate_Suc replicate_add replicate_append_same)
  have sgn: "(if (of_bool neg :: int) \<noteq> 0 then putZ (r (of_bool neg) @ rest) 0 [45] else Inr (r (of_bool neg) @ rest)) =
      Inr (sg @ rest)" for rest
    by (cases neg) (simp_all add: putZ_def poke_def r_def sg_def)
  have "0 < s \<Longrightarrow> words = d_buf d \<and> intg = int L" by (simp add: words_def intg_def)
  then have fr: "(if int s \<noteq> 0 then
      bindE (putZ (sg @ r (max 1 L) @ r (of_bool (s \<noteq> 0)) @ r s @ z) (of_bool neg + int (max 1 L)) [46]) (\<lambda>to.
      bindE (checkE OutOfBounds (0 \<le> ROUND_UP intg)) (\<lambda>_.
      bindE (frac_loop (drop (nat (ROUND_UP intg)) words) (nat (int s))) (\<lambda>cs.
      bindE (fill_chars (int s - int s) 0) (\<lambda>fs.
      putZ to (of_bool neg + int (max 1 L) + 1) (cs @ fs)))))
     else Inr (sg @ r (max 1 L) @ r (of_bool (s \<noteq> 0)) @ r s @ z)) =
     Inr (sg @ r (max 1 L) @ (if s = 0 then [] else 46 # fp) @ z)"
  proof (cases "s = 0")
    case False
    have c: "0 \<le> ROUND_UP (int L)" by (simp add: ROUND_UP_def sdiv_nonneg)
    have 1: "putZ (sg @ r (max 1 L) @ r 1 @ r s @ z) (of_bool neg + int (max 1 L)) [46] =
        Inr (sg @ r (max 1 L) @ [46] @ r s @ z)"
      using putZ_over [of "of_bool neg + int (max 1 L)" "sg @ r (max 1 L)" "[46]" "r 1" "r s @ z"] sl
      by (simp add: r_def)
    have 2: "putZ (sg @ r (max 1 L) @ [46] @ r s @ z) (of_bool neg + int (max 1 L) + 1) fp =
        Inr (sg @ r (max 1 L) @ [46] @ fp @ z)"
      using putZ_over [of "of_bool neg + int (max 1 L) + 1" "sg @ r (max 1 L) @ [46]" fp "r s" z] sl fp
      by (simp add: r_def)
    show ?thesis using False 1 2 c fracw \<open>0 < s \<Longrightarrow> words = d_buf d \<and> intg = int L\<close> by simp
  qed (simp add: r_def)
  have fl: "(if intg = 0 then int (max 1 L) - intg - 1 else int (max 1 L) - intg) = 0"
    by (auto simp add: intg_def)
  have s0: "(if (of_bool neg :: int) \<noteq> 0 then 1 else 0) = (of_bool neg :: int)" by simp
  have empty: "putZ (sg @ r (max 1 L) @ rest) (of_bool neg) [] = Inr (sg @ r (max 1 L) @ rest)" for rest
    using sl by (simp add: putZ_def poke_def)
  have ints: "(if intg \<noteq> 0 then
      bindE (checkE OutOfBounds (0 \<le> intg \<and> ROUND_UP intg \<le> int (length words))) (\<lambda>_.
      bindE (intg_loop (rev (take (nat (ROUND_UP intg)) words)) (nat intg) []) (\<lambda>cs.
      putZ (sg @ r (max 1 L) @ rest) (of_bool neg + int (length [])) cs))
     else putZ (sg @ r (max 1 L) @ rest) (of_bool neg + int (length [])) [48]) = Inr (sg @ ip @ rest)" for rest
  proof -
    have put: "putZ (sg @ r (max 1 L) @ rest) (of_bool neg + int (length [])) ip = Inr (sg @ ip @ rest)"
      using putZ_over [of "of_bool neg" sg ip "r (max 1 L)" rest] sl ip by (simp add: r_def)
    consider "L = 0" "s = 0" | "L = 0" "0 < s" | "0 < L" by blast
    then show ?thesis
    proof cases
      case 1
      have "intg_chars 0 1 [] = [48]" by simp
      then have "intg_loop [0] 1 [] = Inr ip" using ip(2) 1 by simp
      then show ?thesis using put 1 by (simp add: intg_def words_def ROUND_UP_def)
    next
      case 2
      then show ?thesis using put ip(2) by (simp add: intg_def)
    next
      case 3
      then show ?thesis using put intw by (simp add: intg_def words_def)
    qed
  qed
  have head: "(if int L + int s = 0 then (1, [0]) else (int L, drop 0 (d_buf d))) = (intg, words)"
    by (simp add: intg_def words_def)
  have "decimal2string d (replicate 512 0) 512 0 0 0 = Inr (E_DEC_OK, sg @ ip @ (if s = 0 then [] else 46 # fp) @ z, int len)"
    unfolding decimal2string_def lead bindE_simps prod.case Let_def sign frac head s0
    unfolding prod.case w nul bindE_simps
    unfolding split sgn bindE_simps fr fl fill_chars_0 empty ints append.assoc ..
  then show ?thesis unfolding sg_def z_def .
qed

lemma ROUND_UP_words: "9 * k < L \<Longrightarrow> L \<le> 9 * Suc k \<Longrightarrow> ROUND_UP (int L) = int (Suc k)"
proof -
  assume *: "9 * k < L" "L \<le> 9 * Suc k"
  have "ROUND_UP (int L) = int ((L + 8) div 9)"
    by (simp add: ROUND_UP_def sdiv_nonneg zdiv_int)
  moreover have "(L + 8) div 9 = Suc k" using * by (intro div_nat_eqI) simp_all
  ultimately show ?thesis by simp
qed

lemma length_dec_digits_le: "n < 10 ^ w \<Longrightarrow> 0 < w \<Longrightarrow> length (dec_digits n) \<le> w"
  using dec_digits_padded by blast

lemma dec_digits_self:
  shows "n < 10 ^ length (dec_digits n)" "padded (length (dec_digits n)) n = dec_digits n"
proof -
  have "n < 10 ^ length (dec_digits n) \<and> padded (length (dec_digits n)) n = dec_digits n"
  proof (cases "n = 0")
    case False
    then obtain e where "10 ^ e \<le> n" "n < 10 ^ Suc e" using ex_power_ivl1 [of 10 n] by auto
    then show ?thesis using dec_digits_eq_padded [of e n] by simp
  qed (simp add: dec_digits.simps)
  then show "n < 10 ^ length (dec_digits n)" "padded (length (dec_digits n)) n = dec_digits n" by blast+
qed

text \<open>
  \<open>holds d neg I s F\<close>: the decimal \<open>d\<close> represents the number with integral part \<open>I\<close> and
  the \<open>s\<close> fractional digits \<open>F\<close>, with no word before the first non-zero one.
\<close>

definition holds :: "decimal_t \<Rightarrow> bool \<Rightarrow> nat \<Rightarrow> nat \<Rightarrow> nat \<Rightarrow> bool" where
  "holds d neg I s F \<longleftrightarrow>
     d_sign d = of_bool neg \<and> d_frac d = int s \<and> F < 10 ^ s \<and>
     (\<exists>k D rest. d_buf d = map int (int_words k I) @ map int (frac_words s F) @ rest \<and> d_intg d = int D \<and>
       I < 10 ^ D \<and> D \<le> 9 * k \<and> (\<forall>j. k = Suc j \<longrightarrow> 9 * j < D \<and> 10 ^ (9 * j) \<le> I))"

lemma dec_text_parts:
  "F < 10 ^ s \<Longrightarrow> dec_text neg s (I * 10 ^ s + F) =
     (if neg then [45] else []) @ dec_digits I @ (if s = 0 then [] else 46 # padded s F)"
  by (simp add: dec_text_def)

lemma decimal2string_holds:
  assumes "holds d neg I s F" "length (dec_text neg s (I * 10 ^ s + F)) = len" "len < 512"
  shows "decimal2string d (replicate 512 0) 512 0 0 0 =
    Inr (E_DEC_OK, dec_text neg s (I * 10 ^ s + F) @ replicate (512 - len) 0, int len)"
proof -
  obtain k D rest where buf: "d_buf d = map int (int_words k I) @ map int (frac_words s F) @ rest"
    and D: "d_intg d = int D" "I < 10 ^ D" "D \<le> 9 * k"
    and first: "\<And>j. k = Suc j \<Longrightarrow> 9 * j < D \<and> 10 ^ (9 * j) \<le> I"
    and sgn: "d_sign d = of_bool neg" and frac: "d_frac d = int s" and F: "F < 10 ^ s"
    using assms(1) unfolding holds_def by blast
  define L where "L = (if k = 0 then 0 else length (dec_digits I))"
  have pos: "0 < length (dec_digits I)" using length_dec_digits_ge [of 0 I] by (cases "I = 0") (simp_all add: dec_digits.simps)
  have k0: "k = 0 \<Longrightarrow> D = 0 \<and> I = 0" using D(2,3) by simp
  have d0: "dec_digits 0 = [48]" by (simp add: dec_digits.simps)
  have ip: "length (dec_digits I) = max 1 L" using pos k0 by (simp add: L_def d0 max_absorb2 Suc_leI)
  have len: "len = of_bool neg + max 1 L + of_bool (s \<noteq> 0) + s"
    using assms(2) unfolding dec_text_parts [OF F] ip [symmetric] by (cases neg) auto
  have round: "ROUND_UP (int L) = int k \<and> remove_leading_zeroes d = Inr (0, int L) \<and>
      intg_loop (rev (map int (int_words k I))) L [] = Inr (if k = 0 then [] else dec_digits I)"
  proof (cases k)
    case 0
    then show ?thesis using k0 D(1) remove_leading_zeroes_zero [of d] by (simp add: L_def ROUND_UP_def)
  next
    case (Suc j)
    note f = first [OF Suc]
    have L: "L = length (dec_digits I)" using Suc by (simp add: L_def)
    have l: "9 * j < L" "L \<le> D" unfolding L using f D(2) length_dec_digits_ge [of "9 * j" I]
      by (auto intro!: length_dec_digits_le)
    have "remove_leading_zeroes d = Inr (0, int L)"
      unfolding L using f D by (intro remove_leading_zeroes_count [OF buf [unfolded Suc]])
        (simp_all add: Suc)
    moreover have "ROUND_UP (int L) = int k" unfolding Suc using l D(3) Suc by (intro ROUND_UP_words) simp_all
    moreover have "intg_loop (rev (map int (int_words k I))) L [] = Inr (padded L I @ [])"
    proof (rule intg_loop_words)
      show "L \<le> 9 * k" using l D(3) by simp
      show "I < 10 ^ L" unfolding L by (rule dec_digits_self)
    qed
    moreover have "padded L I = dec_digits I" unfolding L by (rule dec_digits_self)
    ultimately show ?thesis using Suc by simp
  qed
  have "decimal2string d (replicate 512 0) 512 0 0 0 =
    Inr (E_DEC_OK, (if neg then [45] else []) @ dec_digits I @ (if s = 0 then [] else 46 # padded s F) @
      replicate (512 - len) 0, int len)"
  proof (rule decimal2string_writes)
    have Lk: "0 < L \<Longrightarrow> 0 < k" by (simp add: L_def split: if_splits)
    have words: "take (nat (ROUND_UP (int L))) (d_buf d) = map int (int_words k I)"
      "drop (nat (ROUND_UP (int L))) (d_buf d) = map int (frac_words s F) @ rest"
      using round unfolding buf by simp_all
    show "remove_leading_zeroes d = Inr (0, int L)" using round by blast
    show "L = 0 \<Longrightarrow> dec_digits I = [48]" using pos k0 by (simp add: L_def d0 split: if_splits)
    show "ROUND_UP (int L) \<le> int (length (d_buf d)) \<and>
      intg_loop (rev (take (nat (ROUND_UP (int L))) (d_buf d))) L [] = Inr (dec_digits I)" if "0 < L"
      unfolding words using round Lk [OF that] by (simp add: buf)
    show "frac_loop (drop (nat (ROUND_UP (int L))) (d_buf d)) s = Inr (padded s F)"
      unfolding words by (rule frac_loop_words [OF F])
  qed (rule sgn frac ip len length_padded assms(3))+
  then show ?thesis unfolding dec_text_parts [OF F] by simp
qed

end
