(* ===== verification/DecimalValue.thy ===== *)
theory DecimalValue
  imports DecimalArith DecimalText Complex_Main
begin

text \<open>
  The value of a list of words in base \<open>10^9\<close>, what the loops of \<open>do_add\<close> do to it, and the
  sum of two magnitudes (\<open>do_add_run\<close>), also when the destination is too short.
\<close>

subsection \<open>The value of a list of words\<close>

fun wval :: "int list \<Rightarrow> int" where
  "wval [] = 0"
| "wval (w # ws) = w * DIG_BASE ^ length ws + wval ws"

definition digs :: "int list \<Rightarrow> bool" where
  "digs ws \<longleftrightarrow> (\<forall>w\<in>set ws. 0 \<le> w \<and> w < DIG_BASE)"

lemma digs_simps [simp]:
  "digs []" "digs (w # ws) \<longleftrightarrow> 0 \<le> w \<and> w < DIG_BASE \<and> digs ws" "digs (xs @ ys) \<longleftrightarrow> digs xs \<and> digs ys"
  by (auto simp add: digs_def)

lemma digs_replicate [simp]: "0 \<le> w \<Longrightarrow> w < DIG_BASE \<Longrightarrow> digs (replicate n w)"
  by (simp add: digs_def)

lemma digs_take_drop: "digs ws \<Longrightarrow> digs (take n ws)" "digs ws \<Longrightarrow> digs (drop n ws)"
  by (auto simp add: digs_def dest: in_set_takeD in_set_dropD)

lemma wval_append: "wval (xs @ ys) = wval xs * DIG_BASE ^ length ys + wval ys"
  by (induction xs) (simp_all add: power_add algebra_simps)

lemma wval_replicate_0 [simp]: "wval (replicate n 0) = 0"
  by (induction n) simp_all

lemma wval_bounds: "digs ws \<Longrightarrow> 0 \<le> wval ws \<and> wval ws < DIG_BASE ^ length ws"
proof (induction ws)
  case (Cons w ws)
  then have IH: "0 \<le> wval ws" "wval ws < DIG_BASE ^ length ws" and w: "0 \<le> w" "w \<le> DIG_BASE - 1"
    by simp_all
  have "w * DIG_BASE ^ length ws \<le> (DIG_BASE - 1) * DIG_BASE ^ length ws"
    using w(2) by (intro mult_right_mono) simp_all
  then have "wval (w # ws) < (DIG_BASE - 1) * DIG_BASE ^ length ws + DIG_BASE ^ length ws"
    using IH unfolding wval.simps by linarith
  moreover have "(DIG_BASE - 1) * DIG_BASE ^ length ws + DIG_BASE ^ length ws = DIG_BASE ^ length (w # ws)"
    by (simp add: left_diff_distrib)
  moreover have "0 \<le> w * DIG_BASE ^ length ws" using w by simp
  ultimately show ?case using IH by (simp only: wval.simps) simp
qed simp

lemma wval_0_iff: "digs ws \<Longrightarrow> wval ws = 0 \<longleftrightarrow> (\<forall>w\<in>set ws. w = 0)"
proof (induction ws)
  case (Cons w ws)
  have "0 \<le> w * DIG_BASE ^ length ws" using Cons.prems by simp
  moreover have "0 \<le> wval ws" using wval_bounds [of ws] Cons.prems by simp
  ultimately have "w * DIG_BASE ^ length ws + wval ws = 0 \<longleftrightarrow> w * DIG_BASE ^ length ws = 0 \<and> wval ws = 0"
    by (rule add_nonneg_eq_0_iff)
  then show ?case using Cons by simp
qed simp

subsection \<open>Reads and writes of a word\<close>

lemma nthZ_mid: "i = int (length p) \<Longrightarrow> nthZ (p @ x # q) i = Inr x"
  by (simp add: nthZ_def nthE_def)

lemma putZ_mid: "i = int (length p) \<Longrightarrow> putZ (p @ y # q) i [x] = Inr (p @ x # q)"
  by (simp add: putZ_def poke_def)

lemma i32_in: "- 2147483648 \<le> x \<Longrightarrow> x < 2147483648 \<Longrightarrow> i32 x = Inr x"
  by (simp add: i32_def)

lemma ADD_words:
  assumes "0 \<le> v" "v < DIG_BASE" "0 \<le> w" "w < DIG_BASE" "c = 0 \<or> c = 1"
  obtains a c' where "ADD v w c = Inr (a, c')" "a + c' * DIG_BASE = v + w + c" "0 \<le> a" "a < DIG_BASE"
    "c' = 0 \<or> c' = 1"
proof -
  have "ADD v w c = Inr (if v + w + c \<ge> DIG_BASE then (v + w + c - DIG_BASE, 1) else (v + w + c, 0))"
    using assms by (auto simp add: ADD_def i32_in)
  with assms show ?thesis by (cases "v + w + c \<ge> DIG_BASE") (auto intro!: that)
qed

lemma SUB_words:
  assumes "0 \<le> v" "v < DIG_BASE" "0 \<le> w" "w < DIG_BASE" "c = 0 \<or> c = 1"
  obtains a c' where "SUB v w c = Inr (a, c')" "a - c' * DIG_BASE = v - w - c" "0 \<le> a" "a < DIG_BASE"
    "c' = 0 \<or> c' = 1"
proof -
  have "SUB v w c = Inr (if v - w - c < 0 then (v - w - c + DIG_BASE, 1) else (v - w - c, 0))"
    using assms by (auto simp add: SUB_def i32_in)
  with assms show ?thesis by (cases "v - w - c < 0") (auto intro!: that)
qed

subsection \<open>The loops on aligned words\<close>

text \<open>
  In each lemma the source of a loop is a list \<open>sp @ xs @ sq\<close> whose part \<open>xs\<close> is read, and the
  destination a list \<open>tp @ ys @ tq\<close> whose part \<open>ys\<close> is overwritten.
\<close>

declare copy_down.simps [simp del] add_down.simps [simp del] carry_down.simps [simp del]
  skip_zeros.simps [simp del] trim_zeros.simps [simp del] skip_equal.simps [simp del]
  negate_down.simps [simp del] sub_down.simps [simp del] borrow_down.simps [simp del]

lemma copy_down_words:
  "length ys = length xs \<Longrightarrow> stop = int (length sp) \<Longrightarrow> i0 = int (length tp + length xs) \<Longrightarrow>
    i1 = int (length sp + length xs) \<Longrightarrow>
   copy_down (sp @ xs @ sq) stop (tp @ ys @ tq) i0 i1 = Inr (tp @ xs @ tq, int (length tp), stop)"
proof (induction xs arbitrary: ys sq tq i0 i1 rule: rev_induct)
  case Nil
  then show ?case by (simp add: copy_down.simps)
next
  case (snoc x xs)
  then obtain ys' y where ys: "ys = ys' @ [y]" by (cases ys rule: rev_exhaust) auto
  have r: "nthZ (sp @ (xs @ [x]) @ sq) (i1 - 1) = Inr x"
    using nthZ_mid [of "i1 - 1" "sp @ xs" x sq] snoc.prems by simp
  have w: "putZ (tp @ ys @ tq) (i0 - 1) [x] = Inr (tp @ ys' @ x # tq)"
    using putZ_mid [of "i0 - 1" "tp @ ys'" y tq x] snoc.prems by (simp add: ys)
  have "copy_down (sp @ (xs @ [x]) @ sq) stop (tp @ ys' @ x # tq) (i0 - 1) (i1 - 1) =
      Inr (tp @ xs @ x # tq, int (length tp), stop)"
    using snoc.IH [of ys' "i0 - 1" "i1 - 1" "x # sq" "x # tq"] snoc.prems by (simp add: ys)
  then show ?case using r w snoc.prems by (subst copy_down.simps) simp
qed

lemma add_down_words:
  "length ws = length xs \<Longrightarrow> length ys = length xs \<Longrightarrow> stop = int (length sp) \<Longrightarrow>
    i0 = int (length tp + length xs) \<Longrightarrow> i1 = int (length sp + length xs) \<Longrightarrow>
    i2 = int (length rp + length xs) \<Longrightarrow> digs xs \<Longrightarrow> digs ws \<Longrightarrow> c = 0 \<or> c = 1 \<Longrightarrow>
   \<exists>zs c'. add_down (sp @ xs @ sq) stop (rp @ ws @ rq) (tp @ ys @ tq) i0 i1 i2 c =
       Inr (tp @ zs @ tq, int (length tp), c') \<and>
     length zs = length xs \<and> digs zs \<and> (c' = 0 \<or> c' = 1) \<and>
     wval zs + c' * DIG_BASE ^ length xs = wval xs + wval ws + c"
proof (induction xs arbitrary: ws ys sq rq tq i0 i1 i2 c rule: rev_induct)
  case Nil
  then show ?case by (intro exI [of _ "[]"] exI [of _ c]) (auto simp add: add_down.simps)
next
  case (snoc x xs)
  then obtain ys' y ws' w where ys: "ys = ys' @ [y]" and ws: "ws = ws' @ [w]"
    by (cases ys rule: rev_exhaust; cases ws rule: rev_exhaust) auto
  have r: "nthZ (sp @ (xs @ [x]) @ sq) (i1 - 1) = Inr x"
    using nthZ_mid [of "i1 - 1" "sp @ xs" x sq] snoc.prems by simp
  have r2: "nthZ (rp @ ws @ rq) (i2 - 1) = Inr w"
    using nthZ_mid [of "i2 - 1" "rp @ ws'" w rq] snoc.prems by (simp add: ws)
  obtain a c' where a: "ADD x w c = Inr (a, c')" "a + c' * DIG_BASE = x + w + c" "0 \<le> a" "a < DIG_BASE"
    "c' = 0 \<or> c' = 1" using ADD_words [of x w c] snoc.prems by (auto simp add: ws)
  have wr: "putZ (tp @ ys @ tq) (i0 - 1) [a] = Inr (tp @ ys' @ a # tq)"
    using putZ_mid [of "i0 - 1" "tp @ ys'" y tq a] snoc.prems by (simp add: ys)
  obtain zs c'' where z: "add_down (sp @ xs @ x # sq) stop (rp @ ws' @ w # rq) (tp @ ys' @ a # tq)
      (i0 - 1) (i1 - 1) (i2 - 1) c' = Inr (tp @ zs @ a # tq, int (length tp), c'')"
    "length zs = length xs" "digs zs" "c'' = 0 \<or> c'' = 1"
    "wval zs + c'' * DIG_BASE ^ length xs = wval xs + wval ws' + c'"
    using snoc.IH [of ws' ys' "i0 - 1" "i1 - 1" "i2 - 1" c' "x # sq" "w # rq" "a # tq"] snoc.prems a(5)
    by (auto simp add: ys ws)
  have "wval (zs @ [a]) + c'' * DIG_BASE ^ length (xs @ [x]) =
      (wval zs + c'' * DIG_BASE ^ length xs) * DIG_BASE + a"
    by (simp add: wval_append algebra_simps)
  also have "\<dots> = wval (xs @ [x]) + wval ws + c"
    unfolding z(5) using a(2) by (simp add: ws wval_append algebra_simps)
  finally have "wval (zs @ [a]) + c'' * DIG_BASE ^ length (xs @ [x]) = wval (xs @ [x]) + wval ws + c" .
  moreover have "add_down (sp @ (xs @ [x]) @ sq) stop (rp @ ws @ rq) (tp @ ys @ tq) i0 i1 i2 c =
      Inr (tp @ (zs @ [a]) @ tq, int (length tp), c'')"
    using r r2 a(1) wr z(1) snoc.prems by (subst add_down.simps) (simp add: ws)
  ultimately show ?case using z(2-4) a(3,4) by (intro exI [of _ "zs @ [a]"] exI [of _ c'']) simp
qed

lemma carry_down_words:
  "length ys = length xs \<Longrightarrow> stop = int (length sp) \<Longrightarrow>
    i0 = int (length tp + length xs) \<Longrightarrow> i1 = int (length sp + length xs) \<Longrightarrow> digs xs \<Longrightarrow> c = 0 \<or> c = 1 \<Longrightarrow>
   \<exists>zs c'. carry_down (sp @ xs @ sq) stop (tp @ ys @ tq) i0 i1 c =
       Inr (tp @ zs @ tq, int (length tp), c') \<and>
     length zs = length xs \<and> digs zs \<and> (c' = 0 \<or> c' = 1) \<and>
     wval zs + c' * DIG_BASE ^ length xs = wval xs + c"
proof (induction xs arbitrary: ys sq tq i0 i1 c rule: rev_induct)
  case Nil
  then show ?case by (intro exI [of _ "[]"] exI [of _ c]) (auto simp add: carry_down.simps)
next
  case (snoc x xs)
  then obtain ys' y where ys: "ys = ys' @ [y]" by (cases ys rule: rev_exhaust) auto
  have r: "nthZ (sp @ (xs @ [x]) @ sq) (i1 - 1) = Inr x"
    using nthZ_mid [of "i1 - 1" "sp @ xs" x sq] snoc.prems by simp
  obtain a c' where a: "ADD x 0 c = Inr (a, c')" "a + c' * DIG_BASE = x + 0 + c" "0 \<le> a" "a < DIG_BASE"
    "c' = 0 \<or> c' = 1" using ADD_words [of x 0 c] snoc.prems by auto
  have wr: "putZ (tp @ ys @ tq) (i0 - 1) [a] = Inr (tp @ ys' @ a # tq)"
    using putZ_mid [of "i0 - 1" "tp @ ys'" y tq a] snoc.prems by (simp add: ys)
  obtain zs c'' where z: "carry_down (sp @ xs @ x # sq) stop (tp @ ys' @ a # tq)
      (i0 - 1) (i1 - 1) c' = Inr (tp @ zs @ a # tq, int (length tp), c'')"
    "length zs = length xs" "digs zs" "c'' = 0 \<or> c'' = 1"
    "wval zs + c'' * DIG_BASE ^ length xs = wval xs + c'"
    using snoc.IH [of ys' "i0 - 1" "i1 - 1" c' "x # sq" "a # tq"] snoc.prems a(5)
    by (auto simp add: ys)
  have "wval (zs @ [a]) + c'' * DIG_BASE ^ length (xs @ [x]) =
      (wval zs + c'' * DIG_BASE ^ length xs) * DIG_BASE + a"
    by (simp add: wval_append algebra_simps)
  also have "\<dots> = wval (xs @ [x]) + c"
    unfolding z(5) using a(2) by (simp add: wval_append algebra_simps)
  finally have "wval (zs @ [a]) + c'' * DIG_BASE ^ length (xs @ [x]) = wval (xs @ [x]) + c" .
  moreover have "carry_down (sp @ (xs @ [x]) @ sq) stop (tp @ ys @ tq) i0 i1 c =
      Inr (tp @ (zs @ [a]) @ tq, int (length tp), c'')"
    using r a(1) wr z(1) snoc.prems by (subst carry_down.simps) simp
  ultimately show ?case using z(2-4) a(3,4) by (intro exI [of _ "zs @ [a]"] exI [of _ c'']) simp
qed


lemma copy_then_add:
  assumes hi: "hi = P @ M @ T @ hq" and lo: "lo = P' @ N @ lq" and L: "L = (if P' = [] then P else P')"
    and long: "long = L @ rest" and P: "P = [] \<or> P' = []" and MN: "length N = length M"
    and tb: "tb = E @ YL @ YM @ YT @ tq" "length YL = length L" "length YM = length M" "length YT = length T"
    and digs: "digs P" "digs P'" "digs M" "digs N"
  shows "\<exists>Z c. bindE (copy_down hi (int (length P + length M)) tb (int (length E + length L + length M + length T))
        (int (length P + length M + length T))) (\<lambda>(b, buf0, buf1).
      bindE (add_down hi (int (length P)) lo b buf0 buf1 (int (length P' + length N)) 0) (\<lambda>(b, buf0, carry).
      carry_down long 0 b buf0 (int (length L)) carry)) = Inr (E @ Z @ T @ tq, int (length E), c) \<and>
    length Z = length L + length M \<and> digs Z \<and> (c = 0 \<or> c = 1) \<and>
    wval Z + c * DIG_BASE ^ (length L + length M) = wval L * DIG_BASE ^ length M + wval M + wval N"
proof -
  have "copy_down ((P @ M) @ T @ hq) (int (length P + length M)) ((E @ YL @ YM) @ YT @ tq)
      (int (length E + length L + length M + length T)) (int (length P + length M + length T)) =
    Inr ((E @ YL @ YM) @ T @ tq, int (length (E @ YL @ YM)), int (length P + length M))"
    by (rule copy_down_words) (simp_all add: tb)
  then have 1: "copy_down hi (int (length P + length M)) tb (int (length E + length L + length M + length T))
        (int (length P + length M + length T)) =
      Inr (E @ YL @ YM @ T @ tq, int (length E + length L + length M), int (length P + length M))"
    using tb by (simp add: hi)
  obtain zs c' where 2: "add_down (P @ M @ T @ hq) (int (length P)) (P' @ N @ lq) ((E @ YL) @ YM @ T @ tq)
      (int (length (E @ YL) + length M)) (int (length P + length M)) (int (length P' + length M)) 0 =
      Inr ((E @ YL) @ zs @ T @ tq, int (length (E @ YL)), c')" "length zs = length M" "digs zs"
    "c' = 0 \<or> c' = 1" "wval zs + c' * DIG_BASE ^ length M = wval M + wval N + 0"
    using add_down_words [of N M YM "int (length P)" P "int (length (E @ YL) + length M)" "E @ YL"
        "int (length P + length M)" "int (length P' + length M)" P' 0 "T @ hq" lq "T @ tq"] digs MN tb by auto
  obtain ls c where 3: "carry_down ([] @ L @ rest) 0 (E @ YL @ zs @ T @ tq) (int (length E + length L))
      (int (length ([] :: int list) + length L)) c' = Inr (E @ ls @ zs @ T @ tq, int (length E), c)" "length ls = length L" "digs ls"
    "c = 0 \<or> c = 1" "wval ls + c * DIG_BASE ^ length L = wval L + c'"
    using carry_down_words [of YL L 0 "[]" "int (length E + length L)" E "int (length ([] :: int list) + length L)" c' rest "zs @ T @ tq"]
      digs tb 2(4) by (auto simp add: L split: if_splits)
  have "wval (ls @ zs) + c * DIG_BASE ^ (length L + length M) =
      (wval ls + c * DIG_BASE ^ length L) * DIG_BASE ^ length M + wval zs"
    by (simp add: wval_append 2 power_add algebra_simps)
  also have "\<dots> = wval L * DIG_BASE ^ length M + (wval zs + c' * DIG_BASE ^ length M)"
    unfolding 3(5) by (simp add: algebra_simps)
  also have "\<dots> = wval L * DIG_BASE ^ length M + wval M + wval N" unfolding 2(5) by simp
  finally have v: "wval (ls @ zs) + c * DIG_BASE ^ (length L + length M) =
      wval L * DIG_BASE ^ length M + wval M + wval N" .
  show ?thesis
    using 1 2(1-4) 3(1-4) v MN tb
    by (intro exI [of _ "ls @ zs"] exI [of _ c]) (simp add: hi lo long)
qed

text \<open>The top words tell whether the sum can need another word.\<close>

lemma add_no_carry:
  assumes "digs L" "digs M" "digs N" "length N = length M"
    and "L \<noteq> [] \<Longrightarrow> hd L \<le> DIG_MAX - 1" "L = [] \<Longrightarrow> M \<noteq> [] \<Longrightarrow> hd M + hd N \<le> DIG_MAX - 1"
    and "wval Z + c * DIG_BASE ^ (length L + length M) = wval L * DIG_BASE ^ length M + wval M + wval N"
    and "digs Z" "c = 0 \<or> c = 1"
  shows "c = 0"
proof -
  have "wval L * DIG_BASE ^ length M + wval M + wval N < DIG_BASE ^ (length L + length M)"
  proof (cases L)
    case (Cons l L')
    have b: "wval L' < DIG_BASE ^ length L'" "wval M < DIG_BASE ^ length M" "wval N < DIG_BASE ^ length M"
      using wval_bounds [of L'] wval_bounds [OF assms(2)] wval_bounds [OF assms(3)] assms(1,4) unfolding Cons by simp_all
    let ?q = "DIG_BASE ^ (length L' + length M)"
    have "(wval L' + 1) * DIG_BASE ^ length M \<le> DIG_BASE ^ length L' * DIG_BASE ^ length M"
      using b(1) by (intro mult_right_mono) simp_all
    then have "wval L' * DIG_BASE ^ length M + wval M < ?q" using b(2) by (simp add: power_add algebra_simps)
    moreover have "wval N < ?q"
      using b(3) power_increasing [of "length M" "length L' + length M" DIG_BASE] by linarith
    moreover have "l * ?q \<le> (DIG_MAX - 1) * ?q" using assms(5) Cons by (intro mult_right_mono) simp_all
    moreover have "wval L * DIG_BASE ^ length M = l * ?q + wval L' * DIG_BASE ^ length M"
      by (simp add: Cons power_add algebra_simps)
    moreover have "DIG_BASE ^ (length L + length M) = (DIG_MAX - 1) * ?q + ?q + ?q" by (simp add: Cons)
    ultimately show ?thesis by linarith
  next
    case Nil
    show ?thesis
    proof (cases M)
      case (Cons m M')
      then obtain n N' where N: "N = n # N'" "length N' = length M'" using assms(4) by (cases N) auto
      let ?q = "DIG_BASE ^ length M'"
      have "wval M' < ?q" "wval N' < ?q" using wval_bounds [of M'] wval_bounds [of N'] assms(2,3) N(2) unfolding Cons N(1) by simp_all
      moreover have "(m + n) * ?q \<le> (DIG_MAX - 1) * ?q"
        using assms(6) [OF Nil] Cons N by (intro mult_right_mono) simp_all
      moreover have "wval M + wval N = (m + n) * ?q + wval M' + wval N'" by (simp add: Cons N algebra_simps)
      moreover have "DIG_BASE ^ (length L + length M) = (DIG_MAX - 1) * ?q + ?q + ?q" by (simp add: Cons Nil)
      ultimately show ?thesis by (simp only: Nil wval.simps)
    next
      case Nil': Nil
      then show ?thesis using Nil assms(4) by simp
    qed
  qed
  moreover have "0 \<le> wval Z" using wval_bounds assms(8) by blast
  ultimately show ?thesis using assms(7,9) by auto
qed


lemma drop_take_split: "k + l \<le> length xs \<Longrightarrow> take l (drop k xs) @ drop (k + l) xs = drop k xs"
  by (metis add.commute append_take_drop_id drop_drop)

lemma split3:
  "a + m + t \<le> length ys \<Longrightarrow>
   \<exists>as ms ts q. ys = as @ ms @ ts @ q \<and> length as = a \<and> length ms = m \<and> length ts = t"
  by (rule exI [of _ "take a ys"], rule exI [of _ "take m (drop a ys)"], rule exI [of _ "take t (drop m (drop a ys))"],
      rule exI [of _ "drop t (drop m (drop a ys))"]) (simp del: drop_drop)

lemma add_loops:
  assumes fr: "fl \<le> fh" and hi: "ih + fh \<le> length hi" and lo: "il + fl \<le> length lo"
    and digs: "digs (take (ih + fh) hi)" "digs (take (il + fl) lo)"
    and b: "b = E @ Y" "max ih il + fh \<le> length Y"
  shows "\<exists>R c tq. bindE (copy_down hi (int (ih + fl)) b (int (length E + max ih il + fh)) (int (ih + fh))) (\<lambda>(b, buf0, buf1).
      bindE (add_down hi (if ih > il then int ih - int il else 0) lo b buf0 buf1 (int (il + fl)) 0) (\<lambda>(b, buf0, carry).
      if ih > il then carry_down hi 0 b buf0 (int ih - int il) carry
      else carry_down lo 0 b buf0 (int il - int ih) carry)) = Inr (E @ R @ tq, int (length E), c) \<and>
    length R = max ih il + fh \<and> length R + length tq = length Y \<and> digs R \<and> (c = 0 \<or> c = 1) \<and>
    wval R + c * DIG_BASE ^ (max ih il + fh) =
      wval (take (ih + fh) hi) + wval (take (il + fl) lo) * DIG_BASE ^ (fh - fl) \<and>
    ((if ih > il then hd hi else if ih < il then hd lo else if ih + fl = 0 then 0 else hd hi + hd lo) \<le> DIG_MAX - 1
      \<longrightarrow> c = 0)" (is "\<exists>R c tq. ?run = _ \<and> _")
proof -
  define k where "k = min ih il"
  define P where "P = take (ih - k) hi"
  define P' where "P' = take (il - k) lo"
  define M where "M = take (k + fl) (drop (ih - k) hi)"
  define N where "N = take (k + fl) (drop (il - k) lo)"
  define T where "T = take (fh - fl) (drop (ih + fl) hi)"
  define L where "L = (if P' = [] then P else P')"
  have k: "k \<le> ih" "k \<le> il" "k = ih \<or> k = il" by (auto simp add: k_def)
  have len: "length P = ih - k" "length P' = il - k" "length M = k + fl" "length N = k + fl" "length T = fh - fl"
    using k hi lo fr by (simp_all add: P_def P'_def M_def N_def T_def)
  have hi_eq: "hi = P @ M @ T @ drop (ih + fh) hi"
  proof -
    have "T @ drop (ih + fh) hi = drop (ih + fl) hi"
      using drop_take_split [of "ih + fl" "fh - fl" hi] hi fr by (simp add: T_def)
    moreover have "M @ drop (ih + fl) hi = drop (ih - k) hi"
      using drop_take_split [of "ih - k" "k + fl" hi] hi fr k(1) by (simp add: M_def)
    ultimately show ?thesis by (simp add: P_def)
  qed
  have lo_eq: "lo = P' @ N @ drop (il + fl) lo"
  proof -
    have "N @ drop (il + fl) lo = drop (il - k) lo"
      using drop_take_split [of "il - k" "k + fl" lo] lo k(2) by (simp add: N_def)
    then show ?thesis by (simp add: P'_def)
  qed
  have tk_hi: "take (ih + fh) hi = P @ M @ T" using len k fr by (subst hi_eq) simp
  have tk_lo: "take (il + fl) lo = P' @ N" using len k by (subst lo_eq) simp
  have PP: "P = [] \<or> P' = []" using k(3) len by auto
  have lL: "length L = max ih il - k" using len k PP by (auto simp add: L_def max_def)
  obtain YL YM YT tq where Y: "Y = YL @ YM @ YT @ tq" "length YL = length L" "length YM = length M" "length YT = length T"
    using split3 [of "length L" "length M" "length T" Y] b(2) len lL k fr by (auto simp add: max_def)
  define long where "long = (if ih > il then hi else lo)"
  have long: "long = L @ drop (length L) long"
  proof -
    have "P @ drop (length P) hi = hi" "P' @ drop (length P') lo = lo"
      unfolding len by (simp_all add: P_def P'_def)
    moreover have "L = (if ih > il then P else P')" using len k by (auto simp add: L_def)
    ultimately show ?thesis by (simp add: long_def)
  qed
  have dg: "digs P" "digs P'" "digs M" "digs N" "digs T" using digs unfolding tk_hi tk_lo by simp_all
  obtain Z c where
    run: "bindE (copy_down hi (int (length P + length M)) b (int (length E + length L + length M + length T))
        (int (length P + length M + length T))) (\<lambda>(b, buf0, buf1).
      bindE (add_down hi (int (length P)) lo b buf0 buf1 (int (length P' + length N)) 0) (\<lambda>(b, buf0, carry).
      carry_down long 0 b buf0 (int (length L)) carry)) = Inr (E @ Z @ T @ tq, int (length E), c)"
    and Z: "length Z = length L + length M" "digs Z" "c = 0 \<or> c = 1"
      "wval Z + c * DIG_BASE ^ (length L + length M) = wval L * DIG_BASE ^ length M + wval M + wval N"
  proof -
    have "length N = length M" using len by simp
    from copy_then_add [OF hi_eq lo_eq L_def long PP this b(1) [unfolded Y(1)] Y(2-4) dg(1-4)] that
    show thesis by blast
  qed
  have idx: "int (length P + length M) = int (ih + fl)"
    "int (length E + length L + length M + length T) = int (length E + max ih il + fh)"
    "int (length P + length M + length T) = int (ih + fh)"
    "int (length P) = (if ih > il then int ih - int il else 0)" "int (length P' + length N) = int (il + fl)"
    using len lL k fr by (auto simp add: max_def)
  have cd: "carry_down long 0 b buf0 (int (length L)) carry =
      (if ih > il then carry_down hi 0 b buf0 (int ih - int il) carry else carry_down lo 0 b buf0 (int il - int ih) carry)"
    for b buf0 carry using lL by (simp add: long_def max_def k_def min_def)
  note run' = run [unfolded idx cd]
  have top: "c = 0" if top: "(if ih > il then hd hi else if ih < il then hd lo
      else if ih + fl = 0 then 0 else hd hi + hd lo) \<le> DIG_MAX - 1"
  proof (rule add_no_carry [OF _ dg(3,4) _ _ _ Z(4,2,3)])
    show "digs L" using dg by (simp add: L_def)
    show "length N = length M" using len by simp
    show "hd L \<le> DIG_MAX - 1" if "L \<noteq> []"
    proof (cases "ih > il")
      case True
      then have "L = P" using len k by (auto simp add: L_def)
      then have "hd L = hd hi" using that by (simp add: P_def)
      then show ?thesis using top True by simp
    next
      case False
      then have "P = []" using len k by auto
      then have "P' \<noteq> []" using that by (auto simp add: L_def)
      moreover from this have "L = P'" by (simp add: L_def)
      moreover from calculation have "hd L = hd lo" by (simp add: P'_def)
      moreover have "length P' \<noteq> 0" using calculation(1) by simp
      then have "ih < il" using len(2) k(3) False by auto
      ultimately show ?thesis using top by simp
    qed
    show "hd M + hd N \<le> DIG_MAX - 1" if "L = []" "M \<noteq> []"
    proof -
      have "ih = il" using that(1) lL k by simp
      moreover from this have "k = ih" using k(3) by simp
      ultimately show ?thesis using top that(2) len(3) by (simp add: M_def N_def split: if_splits)
    qed
  qed
  have n: "length L + length M + length T = max ih il + fh" "length L + length M = max ih il + fl"
    using len lL k fr by (simp_all add: max_def)
  have "wval (Z @ T) + c * DIG_BASE ^ (max ih il + fh) =
      (wval Z + c * DIG_BASE ^ (length L + length M)) * DIG_BASE ^ length T + wval T"
    unfolding n(1) [symmetric] by (simp add: wval_append power_add algebra_simps)
  also have "\<dots> = wval (L @ M @ T) + wval N * DIG_BASE ^ length T"
    unfolding Z(4) by (simp add: wval_append power_add algebra_simps)
  also have "\<dots> = wval (P @ M @ T) + wval (P' @ N) * DIG_BASE ^ length T"
    using PP by (auto simp add: L_def wval_append power_add len algebra_simps)
  finally have v: "wval (Z @ T) + c * DIG_BASE ^ (max ih il + fh) =
      wval (take (ih + fh) hi) + wval (take (il + fl) lo) * DIG_BASE ^ (fh - fl)"
    unfolding tk_hi tk_lo len(5) .
  show ?thesis
  proof (rule exI [of _ "Z @ T"], rule exI [of _ c], rule exI [of _ tq], intro conjI impI)
    show "?run = Inr (E @ (Z @ T) @ tq, int (length E), c)" unfolding append_assoc by (rule run')
    show "length (Z @ T) = max ih il + fh" using Z(1) n by simp
    show "length (Z @ T) + length tq = length Y" using Z(1) Y by simp
    show "digs (Z @ T)" using Z(2) dg(5) by simp
  qed (fact Z(3) v top)+
qed


subsection \<open>Addition of magnitudes\<close>

definition iw :: "decimal_t \<Rightarrow> nat" where
  "iw d = nat (ROUND_UP (d_intg d))"

definition fw :: "decimal_t \<Rightarrow> nat" where
  "fw d = nat (ROUND_UP (d_frac d))"

definition dec_struct :: "decimal_t \<Rightarrow> bool" where
  "dec_struct d \<longleftrightarrow> 0 \<le> d_intg d \<and> 0 \<le> d_frac d \<and> iw d + fw d \<le> length (d_buf d) \<and> d_buf d \<noteq> [] \<and>
     digs (take (max 1 (iw d + fw d)) (d_buf d))"

lemma ROUND_UP_nonneg: "0 \<le> x \<Longrightarrow> 0 \<le> ROUND_UP x"
  by (simp add: ROUND_UP_def sdiv_nonneg)

lemma dec_struct_words:
  assumes "dec_struct d"
  shows "ROUND_UP (d_intg d) = int (iw d)" "ROUND_UP (d_frac d) = int (fw d)"
    "n \<le> iw d + fw d \<Longrightarrow> digs (take n (d_buf d))" "d_buf d \<noteq> []" "iw d + fw d \<le> length (d_buf d)"
    "0 \<le> hd (d_buf d)" "hd (d_buf d) < DIG_BASE"
proof -
  show "ROUND_UP (d_intg d) = int (iw d)" "ROUND_UP (d_frac d) = int (fw d)"
    using assms ROUND_UP_nonneg by (simp_all add: dec_struct_def iw_def fw_def)
  show "d_buf d \<noteq> []" "iw d + fw d \<le> length (d_buf d)" using assms by (simp_all add: dec_struct_def)
  have "digs (take (max 1 (iw d + fw d)) (d_buf d))" using assms by (simp add: dec_struct_def)
  then have tk: "n \<le> max 1 (iw d + fw d) \<Longrightarrow> digs (take n (d_buf d))" for n
    using digs_take_drop(1) [of "take (max 1 (iw d + fw d)) (d_buf d)" n] by (simp add: min_absorb1)
  show "n \<le> iw d + fw d \<Longrightarrow> digs (take n (d_buf d))" by (rule tk) simp
  have "digs (take 1 (d_buf d))" by (rule tk) simp
  then show "0 \<le> hd (d_buf d)" "hd (d_buf d) < DIG_BASE"
    using \<open>d_buf d \<noteq> []\<close> by (cases "d_buf d"; simp)+
qed

lemma nthZ_0: "xs \<noteq> [] \<Longrightarrow> nthZ xs 0 = Inr (hd xs)"
  by (cases xs) (simp_all add: nthZ_def nthE_def)

lemma max_decimal_words:
  assumes "0 < n" "n \<le> length (d_buf to)"
  shows "max_decimal (int n * DIG_PER_DEC1) 0 to =
    Inr (to\<lparr>d_sign := 0, d_intg := int n * DIG_PER_DEC1, d_frac := 0,
      d_buf := replicate n DIG_MAX @ drop n (d_buf to)\<rparr>)"
proof -
  have "int n * DIG_PER_DEC1 smod DIG_PER_DEC1 = 0" "int n * DIG_PER_DEC1 sdiv DIG_PER_DEC1 = int n"
    by (simp_all add: smod_nonneg sdiv_nonneg)
  then show ?thesis using assms by (simp add: max_decimal_def fill_max_def putZ_def poke_def)
qed

lemma carry_down_none: "carry_down src 0 b buf0 0 c = Inr (b, buf0, c)"
  by (simp add: carry_down.simps)

lemma bindE_case_prod: "bindE (case p of (x, y) \<Rightarrow> F x y) g = (case p of (x, y) \<Rightarrow> bindE (F x y) g)"
  by (cases p) simp

lemma do_add_run:
  assumes a: "dec_struct a" and b: "dec_struct b"
    and len: "0 < d_len to" "d_len to \<le> int (length (d_buf to))"
  shows "\<exists>e \<le> (1 :: nat). let i0 = max (iw a) (iw b) + e; f = max (fw a) (fw b); f0 = min f (nat (d_len to) - i0);
      ok = i0 + f \<le> nat (d_len to)
    in if nat (d_len to) < i0 then (\<exists>to'. do_add a b to = Inr (E_DEC_OVERFLOW, to'))
       else (\<exists>R rest. do_add a b to = Inr (if ok then E_DEC_OK else E_DEC_TRUNCATED,
           to\<lparr>d_sign := d_sign a, d_frac := (if ok then max (d_frac a) (d_frac b) else min (max (d_frac a) (d_frac b)) (int (9 * f0))),
              d_intg := int (9 * i0), d_buf := R @ rest\<rparr>) \<and>
         length R = i0 + f0 \<and> length (R @ rest) = length (d_buf to) \<and> digs R \<and>
         wval R = wval (take (iw a + min (fw a) f0) (d_buf a)) * DIG_BASE ^ (f0 - min (fw a) f0) +
           wval (take (iw b + min (fw b) f0) (d_buf b)) * DIG_BASE ^ (f0 - min (fw b) f0))"
proof -
  note wa = dec_struct_words [OF a] and wb = dec_struct_words [OF b]
  define x where "x = (if iw a > iw b then hd (d_buf a) else if iw b > iw a then hd (d_buf b)
      else hd (d_buf a) + hd (d_buf b))"
  define e :: nat where "e = of_bool (x > DIG_MAX - 1)"
  define i0 where "i0 = max (iw a) (iw b) + e"
  define f where "f = max (fw a) (fw b)"
  define n where "n = nat (d_len to)"
  have n: "d_len to = int n" "0 < n" "n \<le> length (d_buf to)" using len by (simp_all add: n_def)
  have x: "(if int (iw a) > int (iw b) then nthZ (d_buf a) 0
      else if int (iw b) > int (iw a) then nthZ (d_buf b) 0
      else bindE (nthZ (d_buf a) 0) (\<lambda>v. bindE (nthZ (d_buf b) 0) (\<lambda>w. i32 (v + w)))) = Inr x"
    using wa(4,6,7) wb(4,6,7) by (simp add: x_def nthZ_0 i32_in)
  define E :: "int list" where "E = replicate e 0"
  obtain Y where Y: "(if x > DIG_MAX - 1
      then bindE (putZ (d_buf to) 0 [0]) (\<lambda>tb. Inr (max (int (iw a)) (int (iw b)) + 1, tb))
      else Inr (max (int (iw a)) (int (iw b)), d_buf to)) = Inr (int i0, E @ Y)"
    "length (E @ Y) = length (d_buf to)"
  proof (cases "x > DIG_MAX - 1")
    case True
    then show ?thesis using that [of "tl (d_buf to)"] n putZ_mid [of 0 "[]" "hd (d_buf to)" "tl (d_buf to)" 0]
      by (cases "d_buf to") (simp_all add: e_def E_def i0_def max_def)
  next
    case False
    then show ?thesis using that [of "d_buf to"] by (simp add: e_def E_def i0_def max_def)
  qed
  define f0 where "f0 = min f (n - i0)"
  define ok where "ok = (i0 + f \<le> n)"
  show ?thesis
  proof (cases "n < i0")
    case True
    then have "fix_intg_frac_error (d_len to) (int i0) (max (int (fw a)) (int (fw b))) = (int n, 0, E_DEC_OVERFLOW)"
      using n by (simp add: fix_intg_frac_error_def)
    moreover have "\<exists>to'. max_decimal (d_len to * DIG_PER_DEC1) 0 (to\<lparr>d_buf := E @ Y\<rparr>) = Inr to'"
      using max_decimal_words [of n "to\<lparr>d_buf := E @ Y\<rparr>"] n Y(2) by simp
    ultimately have "\<exists>to'. do_add a b to = Inr (E_DEC_OVERFLOW, to')"
      unfolding do_add_def Let_def wa(1,2) wb(1,2) x bindE_simps Y(1) prod.case by auto
    then show ?thesis using True by (intro exI [of _ e]) (simp add: e_def i0_def n_def)
  next
    case False
    have fix': "fix_intg_frac_error (d_len to) (int i0) (max (int (fw a)) (int (fw b))) =
        (int i0, int f0, if ok then E_DEC_OK else E_DEC_TRUNCATED)"
      using n False by (auto simp add: fix_intg_frac_error_def f0_def f_def ok_def)
    define fa where "fa = min (fw a) f0"
    define fb where "fb = min (fw b) f0"
    define fr where "fr = (if ok then max (d_frac a) (d_frac b) else min (max (d_frac a) (d_frac b)) (int (9 * f0)))"
    have clip: "(if (if ok then E_DEC_OK else E_DEC_TRUNCATED) \<noteq> E_DEC_OK
             then (min (max (d_frac a) (d_frac b)) (int f0 * DIG_PER_DEC1), min (int (fw a)) (int f0), min (int (fw b)) (int f0),
                   min (int (iw a)) (int i0), min (int (iw b)) (int i0))
             else (max (d_frac a) (d_frac b), int (fw a), int (fw b), int (iw a), int (iw b))) =
        (fr, int fa, int fb, int (iw a), int (iw b))"
      by (auto simp add: fr_def fa_def fb_def ok_def f0_def f_def i0_def mult.commute)
    have f0: "f0 = max fa fb" by (simp add: f0_def fa_def fb_def f_def min_def max_def)
    have la: "iw a + fa \<le> length (d_buf a)" "digs (take (iw a + fa) (d_buf a))"
      and lb: "iw b + fb \<le> length (d_buf b)" "digs (take (iw b + fb) (d_buf b))"
      using wa(3,5) wb(3,5) by (simp_all add: fa_def fb_def)
    have lE: "length E = e" by (simp add: E_def)
    have room: "max (iw a) (iw b) + f0 \<le> length Y"
      using Y(2) n False lE by (simp add: f0_def i0_def)
    have room': "max (iw b) (iw a) + f0 \<le> length Y" using room by (simp add: max.commute)
    have top: "x \<le> DIG_MAX - 1 \<Longrightarrow> e = 0" "\<not> x \<le> DIG_MAX - 1 \<Longrightarrow> e = 1" by (simp_all add: e_def)
    define run where "run = (let (hi, buf1, stop, lo, buf2, stop2) =
            (if int fa > int fb
             then (d_buf a, int (iw a) + int fa, int (iw a) + int fb, d_buf b, int (iw b) + int fb,
                   if int (iw a) > int (iw b) then int (iw a) - int (iw b) else 0)
             else (d_buf b, int (iw b) + int fb, int (iw b) + int fa, d_buf a, int (iw a) + int fa,
                   if int (iw b) > int (iw a) then int (iw b) - int (iw a) else 0)) in
      bindE (copy_down hi stop (E @ Y) (int i0 + int f0) buf1) (\<lambda>(b', buf0, buf1).
      bindE (add_down hi stop2 lo b' buf0 buf1 buf2 0) (\<lambda>(b', buf0, carry).
      if int (iw a) > int (iw b) then carry_down (d_buf a) 0 b' buf0 (int (iw a) - int (iw b)) carry
      else carry_down (d_buf b) 0 b' buf0 (int (iw b) - int (iw a)) carry)))"
    have "\<exists>R c tq. run = Inr (E @ R @ tq, int e, c) \<and> length R = max (iw a) (iw b) + f0 \<and> length R + length tq = length Y \<and> digs R \<and> (c = 0 \<or> c = 1) \<and>
      wval R + c * DIG_BASE ^ (max (iw a) (iw b) + f0) =
      wval (take (iw a + fa) (d_buf a)) * DIG_BASE ^ (f0 - fa) + wval (take (iw b + fb) (d_buf b)) * DIG_BASE ^ (f0 - fb) \<and>
      (x \<le> DIG_MAX - 1 \<longrightarrow> c = 0)"
    proof (cases "fa > fb")
      case True
      then have m: "f0 = fa" "fb \<le> fa" using f0 by simp_all
      have r: "run = bindE (copy_down (d_buf a) (int (iw a + fb)) (E @ Y) (int (length E + max (iw a) (iw b) + fa)) (int (iw a + fa)))
        (\<lambda>(b', buf0, buf1). bindE (add_down (d_buf a) (if iw a > iw b then int (iw a) - int (iw b) else 0) (d_buf b) b' buf0 buf1
            (int (iw b + fb)) 0) (\<lambda>(b', buf0, carry).
        if iw a > iw b then carry_down (d_buf a) 0 b' buf0 (int (iw a) - int (iw b)) carry
        else carry_down (d_buf b) 0 b' buf0 (int (iw b) - int (iw a)) carry))"
        using True by (simp add: run_def m i0_def lE ac_simps)
      obtain R c tq where "run = Inr (E @ R @ tq, int (length E), c)" "length R = max (iw a) (iw b) + fa" "length R + length tq = length Y" "digs R" "c = 0 \<or> c = 1"
        "wval R + c * DIG_BASE ^ (max (iw a) (iw b) + fa) =
         wval (take (iw a + fa) (d_buf a)) + wval (take (iw b + fb) (d_buf b)) * DIG_BASE ^ (fa - fb)"
        "(if iw a > iw b then hd (d_buf a) else if iw a < iw b then hd (d_buf b)
          else if iw a + fb = 0 then 0 else hd (d_buf a) + hd (d_buf b)) \<le> DIG_MAX - 1 \<longrightarrow> c = 0"
        using add_loops [OF m(2) la(1) lb(1) la(2) lb(2) refl room [unfolded m(1)], of E] unfolding r by blast
      then show ?thesis using m x_def lE wa(6) wb(6)
        by (intro exI [of _ R] exI [of _ c] exI [of _ tq]) (auto split: if_splits)
    next
      case False
      then have m: "f0 = fb" "fa \<le> fb" using f0 by simp_all
      have r: "run = bindE (copy_down (d_buf b) (int (iw b + fa)) (E @ Y) (int (length E + max (iw b) (iw a) + fb)) (int (iw b + fb)))
        (\<lambda>(b', buf0, buf1). bindE (add_down (d_buf b) (if iw b > iw a then int (iw b) - int (iw a) else 0) (d_buf a) b' buf0 buf1
            (int (iw a + fa)) 0) (\<lambda>(b', buf0, carry).
        if iw b > iw a then carry_down (d_buf b) 0 b' buf0 (int (iw b) - int (iw a)) carry
        else carry_down (d_buf a) 0 b' buf0 (int (iw a) - int (iw b)) carry))"
        using False by (cases "iw a = iw b") (auto simp add: run_def m i0_def lE ac_simps carry_down_none)
      obtain R c tq where "run = Inr (E @ R @ tq, int (length E), c)" "length R = max (iw b) (iw a) + fb" "length R + length tq = length Y" "digs R" "c = 0 \<or> c = 1"
        "wval R + c * DIG_BASE ^ (max (iw b) (iw a) + fb) =
         wval (take (iw b + fb) (d_buf b)) + wval (take (iw a + fa) (d_buf a)) * DIG_BASE ^ (fb - fa)"
        "(if iw b > iw a then hd (d_buf b) else if iw b < iw a then hd (d_buf a)
          else if iw b + fa = 0 then 0 else hd (d_buf b) + hd (d_buf a)) \<le> DIG_MAX - 1 \<longrightarrow> c = 0"
        using add_loops [OF m(2) lb(1) la(1) lb(2) la(2) refl room' [unfolded m(1)], of E] unfolding r by blast
      then show ?thesis using m x_def lE wa(6) wb(6)
        by (intro exI [of _ R] exI [of _ c] exI [of _ tq]) (auto simp add: max.commute split: if_splits)
    qed
    then obtain R c tq where R: "run = Inr (E @ R @ tq, int e, c)" "length R = max (iw a) (iw b) + f0" "length R + length tq = length Y" "digs R"
      "c = 0 \<or> c = 1" "wval R + c * DIG_BASE ^ (max (iw a) (iw b) + f0) =
      wval (take (iw a + fa) (d_buf a)) * DIG_BASE ^ (f0 - fa) + wval (take (iw b + fb) (d_buf b)) * DIG_BASE ^ (f0 - fb)"
      "x \<le> DIG_MAX - 1 \<longrightarrow> c = 0" by blast
    define S where "S = (if e = 1 then [c] else []) @ R"
    have fin: "(if c \<noteq> 0 then putZ (E @ R @ tq) (int e - 1) [1] else Inr (E @ R @ tq)) = Inr (S @ tq)"
      using R(5,7) top by (auto simp add: S_def E_def putZ_def poke_def)
    have do: "do_add a b to = bindE run (\<lambda>(b', buf0, carry).
      bindE (if carry \<noteq> 0 then putZ b' (buf0 - 1) [1] else Inr b') (\<lambda>b'.
      Inr (if ok then E_DEC_OK else E_DEC_TRUNCATED, to\<lparr>d_sign := d_sign a, d_frac := fr,
        d_intg := int i0 * DIG_PER_DEC1, d_buf := b'\<rparr>)))"
      unfolding do_add_def Let_def wa(1,2) wb(1,2) x bindE_simps Y(1) prod.case fix' clip run_def
      by (cases "int fa > int fb") (simp_all add: bindE_assoc bindE_case_prod)
    have "wval S = wval R + c * DIG_BASE ^ (max (iw a) (iw b) + f0)"
      using R(2,5,7) top by (cases "x \<le> DIG_MAX - 1") (simp_all add: S_def)
    moreover have "digs S" "length S = i0 + f0" using R(2,4,5) top by (auto simp add: S_def i0_def e_def)
    moreover have "length (S @ tq) = length (d_buf to)" using R(3) Y(2) by (auto simp add: S_def E_def e_def)
    moreover have "do_add a b to = Inr (if ok then E_DEC_OK else E_DEC_TRUNCATED, to\<lparr>d_sign := d_sign a, d_frac := fr,
        d_intg := int i0 * DIG_PER_DEC1, d_buf := S @ tq\<rparr>)"
      unfolding do R(1) bindE_simps prod.case fin ..
    ultimately have "\<exists>R rest. do_add a b to = Inr (if ok then E_DEC_OK else E_DEC_TRUNCATED, to\<lparr>d_sign := d_sign a, d_frac := fr,
        d_intg := int (9 * i0), d_buf := R @ rest\<rparr>) \<and>
         length R = i0 + f0 \<and> length (R @ rest) = length (d_buf to) \<and> digs R \<and>
         wval R = wval (take (iw a + fa) (d_buf a)) * DIG_BASE ^ (f0 - fa) + wval (take (iw b + fb) (d_buf b)) * DIG_BASE ^ (f0 - fb)"
      using R(6) by (intro exI [of _ S] exI [of _ tq]) (simp add: mult.commute)
    moreover have "e \<le> 1" by (simp add: e_def)
    moreover have "\<not> nat (d_len to) < max (iw a) (iw b) + e" using False by (simp add: n_def i0_def)
    ultimately show ?thesis
      unfolding fr_def fa_def fb_def ok_def f0_def f_def i0_def n_def Let_def
      by (intro exI [of _ e] conjI) (assumption, simp only: if_False)
  qed
qed

end
