(* ===== verification/DecimalSub.thy ===== *)
theory DecimalSub
  imports DecimalValue
begin

text \<open>
  The loops of \<open>do_sub\<close>, its comparison of the operands (\<open>sub_order_run\<close>) and the difference of
  two magnitudes (\<open>do_sub_run\<close>).
\<close>

subsection \<open>The loops on aligned words\<close>

lemma zero_down_words:
  "length ys = n \<Longrightarrow> i0 = int (length tp + n) \<Longrightarrow>
   zero_down (tp @ ys @ tq) i0 n = Inr (tp @ replicate n 0 @ tq, int (length tp))"
proof (induction n arbitrary: ys tq i0)
  case (Suc n)
  then obtain ys' y where ys: "ys = ys' @ [y]" by (cases ys rule: rev_exhaust) auto
  have "putZ (tp @ ys @ tq) (i0 - 1) [0] = Inr (tp @ ys' @ 0 # tq)"
    using putZ_mid [of "i0 - 1" "tp @ ys'" y tq 0] Suc.prems by (simp add: ys)
  moreover have "zero_down (tp @ ys' @ 0 # tq) (i0 - 1) n = Inr (tp @ replicate n 0 @ 0 # tq, int (length tp))"
    using Suc.IH [of ys' "i0 - 1" "0 # tq"] Suc.prems by (simp add: ys)
  ultimately show ?case by (simp add: replicate_app_Cons_same)
qed simp

lemma negate_down_words:
  "length ys = length ws \<Longrightarrow> stop = int (length rp) \<Longrightarrow> i0 = int (length tp + length ws) \<Longrightarrow>
    i2 = int (length rp + length ws) \<Longrightarrow> digs ws \<Longrightarrow> c = 0 \<or> c = 1 \<Longrightarrow>
   \<exists>zs c'. negate_down (rp @ ws @ rq) stop (tp @ ys @ tq) i0 i2 c =
       Inr (tp @ zs @ tq, int (length tp), stop, c') \<and>
     length zs = length ws \<and> digs zs \<and> (c' = 0 \<or> c' = 1) \<and>
     wval zs - c' * DIG_BASE ^ length ws = - wval ws - c"
proof (induction ws arbitrary: ys rq tq i0 i2 c rule: rev_induct)
  case Nil
  then show ?case by (intro exI [of _ "[]"] exI [of _ c]) (auto simp add: negate_down.simps)
next
  case (snoc x xs)
  then obtain ys' y where ys: "ys = ys' @ [y]" by (cases ys rule: rev_exhaust) auto
  have r: "nthZ (rp @ (xs @ [x]) @ rq) (i2 - 1) = Inr x"
    using nthZ_mid [of "i2 - 1" "rp @ xs" x rq] snoc.prems by simp
  obtain a c' where a: "SUB 0 x c = Inr (a, c')" "a - c' * DIG_BASE = 0 - x - c" "0 \<le> a" "a < DIG_BASE"
    "c' = 0 \<or> c' = 1" using SUB_words [of 0 x c] snoc.prems by auto
  have wr: "putZ (tp @ ys @ tq) (i0 - 1) [a] = Inr (tp @ ys' @ a # tq)"
    using putZ_mid [of "i0 - 1" "tp @ ys'" y tq a] snoc.prems by (simp add: ys)
  obtain zs c'' where z: "negate_down (rp @ xs @ x # rq) stop (tp @ ys' @ a # tq)
      (i0 - 1) (i2 - 1) c' = Inr (tp @ zs @ a # tq, int (length tp), stop, c'')"
    "length zs = length xs" "digs zs" "c'' = 0 \<or> c'' = 1"
    "wval zs - c'' * DIG_BASE ^ length xs = - wval xs - c'"
    using snoc.IH [of ys' "i0 - 1" "i2 - 1" c' "x # rq" "a # tq"] snoc.prems a(5)
    by (auto simp add: ys)
  have "wval (zs @ [a]) - c'' * DIG_BASE ^ length (xs @ [x]) =
      (wval zs - c'' * DIG_BASE ^ length xs) * DIG_BASE + a"
    by (simp add: wval_append algebra_simps)
  also have "\<dots> = - wval (xs @ [x]) - c"
    unfolding z(5) using a(2) by (simp add: wval_append algebra_simps)
  finally have "wval (zs @ [a]) - c'' * DIG_BASE ^ length (xs @ [x]) = - wval (xs @ [x]) - c" .
  moreover have "negate_down (rp @ (xs @ [x]) @ rq) stop (tp @ ys @ tq) i0 i2 c =
      Inr (tp @ (zs @ [a]) @ tq, int (length tp), stop, c'')"
    using r a(1) wr z(1) snoc.prems by (subst negate_down.simps) simp
  ultimately show ?case using z(2-4) a(3,4) by (intro exI [of _ "zs @ [a]"] exI [of _ c'']) simp
qed

lemma sub_down_words:
  "length xs = length ws \<Longrightarrow> length ys = length ws \<Longrightarrow> start2 = int (length rp) \<Longrightarrow>
    i0 = int (length tp + length ws) \<Longrightarrow> i1 = int (length sp + length ws) \<Longrightarrow>
    i2 = int (length rp + length ws) \<Longrightarrow> digs xs \<Longrightarrow> digs ws \<Longrightarrow> c = 0 \<or> c = 1 \<Longrightarrow>
   \<exists>zs c'. sub_down (sp @ xs @ sq) (rp @ ws @ rq) start2 (tp @ ys @ tq) i0 i1 i2 c =
       Inr (tp @ zs @ tq, int (length tp), int (length sp), c') \<and>
     length zs = length ws \<and> digs zs \<and> (c' = 0 \<or> c' = 1) \<and>
     wval zs - c' * DIG_BASE ^ length ws = wval xs - wval ws - c"
proof (induction ws arbitrary: xs ys sq rq tq i0 i1 i2 c rule: rev_induct)
  case Nil
  then show ?case by (intro exI [of _ "[]"] exI [of _ c]) (auto simp add: sub_down.simps)
next
  case (snoc w ws)
  then obtain ys' y xs' x where ys: "ys = ys' @ [y]" and xs: "xs = xs' @ [x]"
    by (cases ys rule: rev_exhaust; cases xs rule: rev_exhaust) auto
  have r: "nthZ (sp @ xs @ sq) (i1 - 1) = Inr x"
    using nthZ_mid [of "i1 - 1" "sp @ xs'" x sq] snoc.prems by (simp add: xs)
  have r2: "nthZ (rp @ (ws @ [w]) @ rq) (i2 - 1) = Inr w"
    using nthZ_mid [of "i2 - 1" "rp @ ws" w rq] snoc.prems by simp
  obtain a c' where a: "SUB x w c = Inr (a, c')" "a - c' * DIG_BASE = x - w - c" "0 \<le> a" "a < DIG_BASE"
    "c' = 0 \<or> c' = 1" using SUB_words [of x w c] snoc.prems by (auto simp add: xs)
  have wr: "putZ (tp @ ys @ tq) (i0 - 1) [a] = Inr (tp @ ys' @ a # tq)"
    using putZ_mid [of "i0 - 1" "tp @ ys'" y tq a] snoc.prems by (simp add: ys)
  obtain zs c'' where z: "sub_down (sp @ xs' @ x # sq) (rp @ ws @ w # rq) start2 (tp @ ys' @ a # tq)
      (i0 - 1) (i1 - 1) (i2 - 1) c' = Inr (tp @ zs @ a # tq, int (length tp), int (length sp), c'')"
    "length zs = length ws" "digs zs" "c'' = 0 \<or> c'' = 1"
    "wval zs - c'' * DIG_BASE ^ length ws = wval xs' - wval ws - c'"
    using snoc.IH [of xs' ys' "i0 - 1" "i1 - 1" "i2 - 1" c' "x # sq" "w # rq" "a # tq"] snoc.prems a(5)
    by (auto simp add: ys xs)
  have "wval (zs @ [a]) - c'' * DIG_BASE ^ length (ws @ [w]) =
      (wval zs - c'' * DIG_BASE ^ length ws) * DIG_BASE + a"
    by (simp add: wval_append algebra_simps)
  also have "\<dots> = wval xs - wval (ws @ [w]) - c"
    unfolding z(5) using a(2) by (simp add: xs wval_append algebra_simps)
  finally have "wval (zs @ [a]) - c'' * DIG_BASE ^ length (ws @ [w]) = wval xs - wval (ws @ [w]) - c" .
  moreover have "sub_down (sp @ xs @ sq) (rp @ (ws @ [w]) @ rq) start2 (tp @ ys @ tq) i0 i1 i2 c =
      Inr (tp @ (zs @ [a]) @ tq, int (length tp), int (length sp), c'')"
    using r r2 a(1) wr z(1) snoc.prems by (subst sub_down.simps) (simp add: xs)
  ultimately show ?case using z(2-4) a(3,4) by (intro exI [of _ "zs @ [a]"] exI [of _ c'']) simp
qed

lemma borrow_down_words:
  "length ys = length xs \<Longrightarrow> start1 = int (length sp) \<Longrightarrow>
    i0 = int (length tp + length xs) \<Longrightarrow> i1 = int (length sp + length xs) \<Longrightarrow> digs xs \<Longrightarrow> c = 0 \<or> c = 1 \<Longrightarrow>
   \<exists>zs c'. bindE (borrow_down (sp @ xs @ sq) start1 (tp @ ys @ tq) i0 i1 c) (\<lambda>(b, buf0, buf1).
       copy_down (sp @ xs @ sq) start1 b buf0 buf1) = Inr (tp @ zs @ tq, int (length tp), start1) \<and>
     length zs = length xs \<and> digs zs \<and> (c' = 0 \<or> c' = 1) \<and>
     wval zs - c' * DIG_BASE ^ length xs = wval xs - c"
proof (induction xs arbitrary: ys sq tq i0 i1 c rule: rev_induct)
  case Nil
  then show ?case by (intro exI [of _ "[]"] exI [of _ c]) (auto simp add: borrow_down.simps copy_down.simps)
next
  case (snoc x xs)
  show ?case
  proof (cases "c = 0")
    case True
    have "borrow_down (sp @ (xs @ [x]) @ sq) start1 (tp @ ys @ tq) i0 i1 c = Inr (tp @ ys @ tq, i0, i1)"
      using True by (subst borrow_down.simps) simp
    moreover have "copy_down (sp @ (xs @ [x]) @ sq) start1 (tp @ ys @ tq) i0 i1 =
        Inr (tp @ (xs @ [x]) @ tq, int (length tp), start1)"
      using snoc.prems by (intro copy_down_words) simp_all
    ultimately show ?thesis using True snoc.prems(5)
      by (intro exI [of _ "xs @ [x]"] exI [of _ 0]) simp
  next
    case False
    obtain ys' y where ys: "ys = ys' @ [y]" using snoc.prems(1) by (cases ys rule: rev_exhaust) auto
    have r: "nthZ (sp @ (xs @ [x]) @ sq) (i1 - 1) = Inr x"
      using nthZ_mid [of "i1 - 1" "sp @ xs" x sq] snoc.prems by simp
    obtain a c' where a: "SUB x 0 c = Inr (a, c')" "a - c' * DIG_BASE = x - 0 - c" "0 \<le> a" "a < DIG_BASE"
      "c' = 0 \<or> c' = 1" using SUB_words [of x 0 c] snoc.prems by auto
    have wr: "putZ (tp @ ys @ tq) (i0 - 1) [a] = Inr (tp @ ys' @ a # tq)"
      using putZ_mid [of "i0 - 1" "tp @ ys'" y tq a] snoc.prems by (simp add: ys)
    obtain zs c'' where z: "bindE (borrow_down (sp @ xs @ x # sq) start1 (tp @ ys' @ a # tq) (i0 - 1) (i1 - 1) c')
        (\<lambda>(b, buf0, buf1). copy_down (sp @ xs @ x # sq) start1 b buf0 buf1) =
        Inr (tp @ zs @ a # tq, int (length tp), start1)"
      "length zs = length xs" "digs zs" "c'' = 0 \<or> c'' = 1"
      "wval zs - c'' * DIG_BASE ^ length xs = wval xs - c'"
      using snoc.IH [of ys' "i0 - 1" "i1 - 1" c' "x # sq" "a # tq"] snoc.prems a(5)
      by (auto simp add: ys)
    have "wval (zs @ [a]) - c'' * DIG_BASE ^ length (xs @ [x]) =
        (wval zs - c'' * DIG_BASE ^ length xs) * DIG_BASE + a"
      by (simp add: wval_append algebra_simps)
    also have "\<dots> = wval (xs @ [x]) - c"
      unfolding z(5) using a(2) by (simp add: wval_append algebra_simps)
    finally have "wval (zs @ [a]) - c'' * DIG_BASE ^ length (xs @ [x]) = wval (xs @ [x]) - c" .
    moreover have "borrow_down (sp @ (xs @ [x]) @ sq) start1 (tp @ ys @ tq) i0 i1 c =
        borrow_down (sp @ xs @ x # sq) start1 (tp @ ys' @ a # tq) (i0 - 1) (i1 - 1) c'"
      using r a(1) wr snoc.prems False by (subst borrow_down.simps) simp
    ultimately show ?thesis using z a(3,4) by (intro exI [of _ "zs @ [a]"] exI [of _ c'']) simp
  qed
qed


definition sub_chain ::
    "int list \<Rightarrow> int \<Rightarrow> int \<Rightarrow> int \<Rightarrow> int list \<Rightarrow> int \<Rightarrow> int \<Rightarrow> int \<Rightarrow> int \<Rightarrow> int list \<Rightarrow> (int list \<times> int) res"
where
  "sub_chain src1 start1 intg1 frac1 src2 start2 intg2 frac2 frac0 tb =
     bindE (if frac1 > frac2 then
              bindE (zero_down tb (intg1 + frac0) (nat (frac0 - frac1))) (\<lambda>(b, buf0).
              bindE (copy_down src1 (start1 + intg1 + frac2) b buf0 (start1 + intg1 + frac1)) (\<lambda>(b, buf0, buf1).
              Inr (b, buf0, buf1, start2 + intg2 + frac2, 0)))
            else
              bindE (zero_down tb (intg1 + frac0) (nat (frac0 - frac2))) (\<lambda>(b, buf0).
              bindE (negate_down src2 (start2 + intg2 + frac1) b buf0 (start2 + intg2 + frac2) 0)
                (\<lambda>(b, buf0, buf2, carry).
              Inr (b, buf0, start1 + intg1 + frac1, buf2, carry)))) (\<lambda>(b, buf0, buf1, buf2, carry).
     bindE (sub_down src1 src2 start2 b buf0 buf1 buf2 carry) (\<lambda>(b, buf0, buf1, carry).
     bindE (borrow_down src1 start1 b buf0 buf1 carry) (\<lambda>(b, buf0, buf1).
     bindE (copy_down src1 start1 b buf0 buf1) (\<lambda>(b, buf0, buf1).
     zero_down b buf0 (nat buf0)))))"

text \<open>From the point where the fractions are aligned: \<open>P @ M\<close> minus \<open>N\<close>.\<close>

lemma sub_tail:
  assumes "length N = length M" "length YP = length P" "length YM = length M" "digs P" "digs M" "digs N"
    and "c = 0 \<or> c = 1"
  shows "\<exists>Z c'. bindE (sub_down (sp @ (P @ M) @ sq) (rp @ N @ rq) (int (length rp)) (YP @ YM @ tq)
        (int (length P + length M)) (int (length sp + (length P + length M))) (int (length rp + length M)) c)
      (\<lambda>(b, buf0, buf1, carry).
      bindE (borrow_down (sp @ (P @ M) @ sq) (int (length sp)) b buf0 buf1 carry) (\<lambda>(b, buf0, buf1).
      bindE (copy_down (sp @ (P @ M) @ sq) (int (length sp)) b buf0 buf1) (\<lambda>(b, buf0, buf1).
      zero_down b buf0 (nat buf0)))) = Inr (Z @ tq, 0) \<and>
    length Z = length P + length M \<and> digs Z \<and> (c' = 0 \<or> c' = 1) \<and>
    wval Z - c' * DIG_BASE ^ (length P + length M) = wval (P @ M) - wval N - c"
proof -
  obtain zs c1 where 1: "sub_down ((sp @ P) @ M @ sq) (rp @ N @ rq) (int (length rp)) (YP @ YM @ tq)
      (int (length YP + length N)) (int (length (sp @ P) + length N)) (int (length rp + length N)) c =
      Inr (YP @ zs @ tq, int (length YP), int (length (sp @ P)), c1)"
    "length zs = length N" "digs zs" "c1 = 0 \<or> c1 = 1" "wval zs - c1 * DIG_BASE ^ length N = wval M - wval N - c"
    using sub_down_words [of M N YM "int (length rp)" rp "int (length YP + length N)" YP
        "int (length (sp @ P) + length N)" "sp @ P" "int (length rp + length N)" c sq rq tq] assms by auto
  obtain ps c2 where 2: "bindE (borrow_down (sp @ P @ M @ sq) (int (length sp)) ([] @ YP @ zs @ tq)
        (int (length ([] :: int list) + length P)) (int (length sp + length P)) c1) (\<lambda>(b, buf0, buf1).
       copy_down (sp @ P @ M @ sq) (int (length sp)) b buf0 buf1) = Inr ([] @ ps @ zs @ tq, int (length ([] :: int list)), int (length sp))"
    "length ps = length P" "digs ps" "c2 = 0 \<or> c2 = 1" "wval ps - c2 * DIG_BASE ^ length P = wval P - c1"
    using borrow_down_words [of YP P "int (length sp)" sp "int (length ([] :: int list) + length P)" "[]"
        "int (length sp + length P)" c1 "M @ sq" "zs @ tq"] assms 1(4) by auto
  have 3: "bindE (borrow_down (sp @ (P @ M) @ sq) (int (length sp)) (YP @ zs @ tq) (int (length YP)) (int (length (sp @ P))) c1)
      (\<lambda>(b, buf0, buf1). bindE (copy_down (sp @ (P @ M) @ sq) (int (length sp)) b buf0 buf1) (\<lambda>(b, buf0, buf1).
      zero_down b buf0 (nat buf0))) = Inr ((ps @ zs) @ tq, 0)"
  proof -
    have "bindE (bindE (borrow_down (sp @ (P @ M) @ sq) (int (length sp)) (YP @ zs @ tq) (int (length YP)) (int (length (sp @ P))) c1)
      (\<lambda>(b, buf0, buf1). copy_down (sp @ (P @ M) @ sq) (int (length sp)) b buf0 buf1)) (\<lambda>(b, buf0, buf1).
      zero_down b buf0 (nat buf0)) = Inr ((ps @ zs) @ tq, 0)"
      using 2(1) assms(2) by simp
    then show ?thesis unfolding bindE_assoc bindE_case_prod .
  qed
  have "wval (ps @ zs) - c2 * DIG_BASE ^ (length P + length M) =
      (wval ps - c2 * DIG_BASE ^ length P) * DIG_BASE ^ length M + wval zs"
    using 1(2) assms(1) by (simp add: wval_append power_add algebra_simps)
  also have "\<dots> = wval P * DIG_BASE ^ length M + (wval zs - c1 * DIG_BASE ^ length N)"
    unfolding 2(5) using assms(1) by (simp add: algebra_simps)
  also have "\<dots> = wval (P @ M) - wval N - c" unfolding 1(5) by (simp add: wval_append)
  finally have v: "wval (ps @ zs) - c2 * DIG_BASE ^ (length P + length M) = wval (P @ M) - wval N - c" .
  show ?thesis
    using 1(1) 3 v 1(2,3) 2(2-4) assms(1,2) by (intro exI [of _ "ps @ zs"] exI [of _ c2]) (simp add: add.assoc)
qed


lemma split_at_lengths:
  "length xs = a + b \<Longrightarrow> \<exists>as bs. xs = as @ bs \<and> length as = a \<and> length bs = b"
  "length xs = a + b + c \<Longrightarrow> \<exists>as bs cs. xs = as @ bs @ cs \<and> length as = a \<and> length bs = b \<and> length cs = c"
  "length xs = a + b + c + d \<Longrightarrow>
    \<exists>as bs cs ds. xs = as @ bs @ cs @ ds \<and> length as = a \<and> length bs = b \<and> length cs = c \<and> length ds = d"
proof -
  have 2: "\<exists>as bs. ys = as @ bs \<and> length as = m \<and> length bs = n" if "length ys = m + n" for ys :: "'a list" and m n
    using that by (intro exI [of _ "take m ys"] exI [of _ "drop m ys"]) simp
  have 3: "\<exists>as bs cs. ys = as @ bs @ cs \<and> length as = m \<and> length bs = n \<and> length cs = k"
    if l: "length ys = m + n + k" for ys :: "'a list" and m n k
  proof -
    obtain as rs where "ys = as @ rs" "length as = m" "length rs = n + k" using 2 [of ys m "n + k"] l by (auto simp add: add.assoc)
    moreover obtain bs cs where "rs = bs @ cs" "length bs = n" "length cs = k" using 2 [OF calculation(3)] by blast
    ultimately show ?thesis by blast
  qed
  show "length xs = a + b \<Longrightarrow> \<exists>as bs. xs = as @ bs \<and> length as = a \<and> length bs = b" by (rule 2)
  show "length xs = a + b + c \<Longrightarrow> \<exists>as bs cs. xs = as @ bs @ cs \<and> length as = a \<and> length bs = b \<and> length cs = c"
    by (rule 3)
  assume l: "length xs = a + b + c + d"
  then obtain as rs where "xs = as @ rs" "length as = a" "length rs = b + c + d" using 2 [of xs a "b + c + d"] by (auto simp add: add.assoc)
  moreover obtain bs cs ds where "rs = bs @ cs @ ds" "length bs = b" "length cs = c" "length ds = d"
    using 3 [OF calculation(3)] by blast
  ultimately show "\<exists>as bs cs ds. xs = as @ bs @ cs @ ds \<and> length as = a \<and> length bs = b \<and> length cs = c \<and> length ds = d"
    by blast
qed

lemma sub_chain_words:
  assumes lens: "int (length X) = i1 + f1" "int (length W) = i2 + f2" "0 \<le> i2" "i2 \<le> i1"
    and fr: "f1 \<le> f0" "f2 \<le> f0" "0 \<le> f0" "f1 \<le> f2 \<Longrightarrow> 0 \<le> i2 + f1"
    and digs: "digs X" "digs W" and ys: "int (length ys) = i1 + f0"
  shows "\<exists>R c. sub_chain (sp @ X @ sq) (int (length sp)) i1 f1 (rp @ W @ rq) (int (length rp)) i2 f2 f0 (ys @ tq) =
      Inr (R @ tq, 0) \<and> length R = length ys \<and> digs R \<and> (c = 0 \<or> c = 1) \<and>
    wval R - c * DIG_BASE ^ length ys = wval X * DIG_BASE ^ nat (f0 - f1) - wval W * DIG_BASE ^ nat (f0 - f2)"
proof (cases "f1 > f2")
  case True
  define t where "t = nat (f1 - f2)"
  define z where "z = nat (f0 - f1)"
  obtain P M T where X: "X = P @ M @ T" "int (length P) = i1 - i2" "length M = length W" "length T = t"
  proof -
    have "length X = nat (i1 - i2) + length W + t" using lens True by (simp add: t_def)
    from split_at_lengths(2) [OF this] that lens show thesis by auto
  qed
  obtain YP YM YT YZ where Y: "ys = YP @ YM @ YT @ YZ" "length YP = length P" "length YM = length M" "length YT = t"
    "length YZ = z"
  proof -
    have "length ys = length P + length M + t + z" using X lens ys fr True by (simp add: t_def z_def)
    from split_at_lengths(3) [OF this] that show thesis by blast
  qed
  have "zero_down ((YP @ YM @ YT) @ YZ @ tq) (i1 + f0) z = Inr ((YP @ YM @ YT) @ replicate z 0 @ tq, int (length (YP @ YM @ YT)))"
    using Y ys by (intro zero_down_words) simp_all
  then have 1: "zero_down (ys @ tq) (i1 + f0) z = Inr (YP @ YM @ YT @ replicate z 0 @ tq, int (length P + length M + t))"
    using Y by simp
  have "copy_down ((sp @ P @ M) @ T @ sq) (int (length sp) + i1 + f2) ((YP @ YM) @ YT @ replicate z 0 @ tq)
      (int (length P + length M + t)) (int (length sp) + i1 + f1) =
    Inr ((YP @ YM) @ T @ replicate z 0 @ tq, int (length (YP @ YM)), int (length sp) + i1 + f2)"
    using X Y lens by (intro copy_down_words) simp_all
  then have 2: "copy_down (sp @ X @ sq) (int (length sp) + i1 + f2) (YP @ YM @ YT @ replicate z 0 @ tq)
      (int (length P + length M + t)) (int (length sp) + i1 + f1) =
    Inr (YP @ YM @ T @ replicate z 0 @ tq, int (length P + length M), int (length sp) + i1 + f2)"
    using X Y by simp
  have len: "length W = length M" using X by simp
  have dg: "digs P" "digs M" "digs T" using digs(1) unfolding X by simp_all
  from sub_tail [OF len Y(2,3) dg(1,2) digs(2), of 0 sp "T @ sq" rp rq "T @ replicate z 0 @ tq"]
  obtain Z c' where 3: "bindE (sub_down (sp @ X @ sq) (rp @ W @ rq) (int (length rp)) (YP @ YM @ T @ replicate z 0 @ tq)
        (int (length P + length M)) (int (length sp) + i1 + f2) (int (length rp) + i2 + f2) 0)
      (\<lambda>(b, buf0, buf1, carry).
      bindE (borrow_down (sp @ X @ sq) (int (length sp)) b buf0 buf1 carry) (\<lambda>(b, buf0, buf1).
      bindE (copy_down (sp @ X @ sq) (int (length sp)) b buf0 buf1) (\<lambda>(b, buf0, buf1).
      zero_down b buf0 (nat buf0)))) = Inr (Z @ T @ replicate z 0 @ tq, 0)"
    "length Z = length P + length M" "digs Z" "c' = 0 \<or> c' = 1"
    "wval Z - c' * DIG_BASE ^ (length P + length M) = wval (P @ M) - wval W"
  proof -
    have idx: "int (length sp + (length P + length M)) = int (length sp) + i1 + f2"
      "int (length rp + length M) = int (length rp) + i2 + f2"
      "sp @ (P @ M) @ T @ sq = sp @ X @ sq" using X lens by simp_all
    from sub_tail [OF len Y(2,3) dg(1,2) digs(2), of 0 sp "T @ sq" rp rq "T @ replicate z 0 @ tq"] that
    show thesis unfolding idx by auto
  qed
  define R where "R = Z @ T @ replicate z 0"
  have "wval R - c' * DIG_BASE ^ length ys =
      (wval Z - c' * DIG_BASE ^ (length P + length M)) * DIG_BASE ^ (t + z) + wval T * DIG_BASE ^ z"
    using Y X by (simp add: R_def wval_append power_add algebra_simps)
  also have "\<dots> = wval X * DIG_BASE ^ z - wval W * DIG_BASE ^ (t + z)"
    unfolding 3(5) using X by (simp add: wval_append power_add algebra_simps)
  also have "t + z = nat (f0 - f2)" using fr True by (simp add: t_def z_def)
  finally have v: "wval R - c' * DIG_BASE ^ length ys = wval X * DIG_BASE ^ nat (f0 - f1) - wval W * DIG_BASE ^ nat (f0 - f2)"
    by (simp add: z_def)
  have "sub_chain (sp @ X @ sq) (int (length sp)) i1 f1 (rp @ W @ rq) (int (length rp)) i2 f2 f0 (ys @ tq) = Inr (R @ tq, 0)"
    unfolding sub_chain_def using True 1 [unfolded z_def] 2 3(1) by (simp add: z_def R_def)
  then show ?thesis using v 3(2-4) dg(3) Y X by (intro exI [of _ R] exI [of _ c']) (simp add: R_def)
next
  case False
  define t where "t = nat (f2 - f1)"
  define z where "z = nat (f0 - f2)"
  define m where "m = nat (i2 + f1)"
  have m: "int m = i2 + f1" using fr(4) False by (simp add: m_def)
  obtain P M where X: "X = P @ M" "int (length P) = i1 - i2" "length M = m"
  proof -
    have "length X = nat (i1 - i2) + m" using lens m by simp
    from split_at_lengths(1) [OF this] that lens show thesis by auto
  qed
  obtain N T where W: "W = N @ T" "length N = m" "length T = t"
  proof -
    have "length W = m + t" using lens m False by (simp add: t_def)
    from split_at_lengths(1) [OF this] that show thesis by auto
  qed
  obtain YP YM YT YZ where Y: "ys = YP @ YM @ YT @ YZ" "length YP = length P" "length YM = length M" "length YT = t"
    "length YZ = z"
  proof -
    have "length ys = length P + length M + t + z" using X lens ys fr False m by (simp add: t_def z_def)
    from split_at_lengths(3) [OF this] that show thesis by blast
  qed
  have dg: "digs P" "digs M" "digs N" "digs T" using digs unfolding X W by simp_all
  have "zero_down ((YP @ YM @ YT) @ YZ @ tq) (i1 + f0) z = Inr ((YP @ YM @ YT) @ replicate z 0 @ tq, int (length (YP @ YM @ YT)))"
    using Y ys by (intro zero_down_words) simp_all
  then have 1: "zero_down (ys @ tq) (i1 + f0) z = Inr (YP @ YM @ YT @ replicate z 0 @ tq, int (length P + m + t))"
    using Y X by simp
  have "\<exists>zs c'. negate_down ((rp @ N) @ T @ rq) (int (length rp) + i2 + f1) ((YP @ YM) @ YT @ replicate z 0 @ tq)
      (int (length P + m + t)) (int (length rp) + i2 + f2) 0 =
      Inr ((YP @ YM) @ zs @ replicate z 0 @ tq, int (length (YP @ YM)), int (length rp) + i2 + f1, c') \<and>
     length zs = length T \<and> digs zs \<and> (c' = 0 \<or> c' = 1) \<and> wval zs - c' * DIG_BASE ^ length T = - wval T - 0"
    using X Y W lens m dg by (intro negate_down_words) simp_all
  then obtain zs c1 where 2: "negate_down (rp @ W @ rq) (int (length rp) + i2 + f1) (YP @ YM @ YT @ replicate z 0 @ tq)
      (int (length P + m + t)) (int (length rp) + i2 + f2) 0 =
      Inr (YP @ YM @ zs @ replicate z 0 @ tq, int (length P + m), int (length rp) + i2 + f1, c1)"
     "length zs = t" "digs zs" "c1 = 0 \<or> c1 = 1" "wval zs - c1 * DIG_BASE ^ t = - wval T"
    using W X Y by auto
  have len: "length N = length M" using X W by simp
  obtain Z c' where 3: "bindE (sub_down (sp @ X @ sq) (rp @ W @ rq) (int (length rp)) (YP @ YM @ zs @ replicate z 0 @ tq)
        (int (length P + m)) (int (length sp) + i1 + f1) (int (length rp) + i2 + f1) c1)
      (\<lambda>(b, buf0, buf1, carry).
      bindE (borrow_down (sp @ X @ sq) (int (length sp)) b buf0 buf1 carry) (\<lambda>(b, buf0, buf1).
      bindE (copy_down (sp @ X @ sq) (int (length sp)) b buf0 buf1) (\<lambda>(b, buf0, buf1).
      zero_down b buf0 (nat buf0)))) = Inr (Z @ zs @ replicate z 0 @ tq, 0)"
    "length Z = length P + m" "digs Z" "c' = 0 \<or> c' = 1"
    "wval Z - c' * DIG_BASE ^ (length P + m) = wval X - wval N - c1"
  proof -
    have idx: "int (length sp + (length P + m)) = int (length sp) + i1 + f1"
      "int (length rp + m) = int (length rp) + i2 + f1"
      "sp @ (P @ M) @ sq = sp @ X @ sq" "rp @ N @ T @ rq = rp @ W @ rq" using X W lens m by simp_all
    from sub_tail [OF len Y(2,3) dg(1,2,3) 2(4), of sp sq rp "T @ rq" "zs @ replicate z 0 @ tq"] that
    show thesis unfolding idx X(3) X(1) [symmetric] by blast
  qed
  define R where "R = Z @ zs @ replicate z 0"
  have "wval R - c' * DIG_BASE ^ length ys =
      (wval Z - c' * DIG_BASE ^ (length P + m)) * DIG_BASE ^ (t + z) + wval zs * DIG_BASE ^ z"
    using Y X 2(2) by (simp add: R_def wval_append power_add algebra_simps)
  also have "\<dots> = (wval X - wval N) * DIG_BASE ^ (t + z) + (wval zs - c1 * DIG_BASE ^ t) * DIG_BASE ^ z"
    unfolding 3(5) by (simp add: power_add algebra_simps)
  also have "\<dots> = wval X * DIG_BASE ^ (t + z) - wval W * DIG_BASE ^ z"
    unfolding 2(5) using W by (simp add: wval_append power_add algebra_simps)
  also have "t + z = nat (f0 - f1)" using fr False by (simp add: t_def z_def)
  finally have v: "wval R - c' * DIG_BASE ^ length ys = wval X * DIG_BASE ^ nat (f0 - f1) - wval W * DIG_BASE ^ nat (f0 - f2)"
    by (simp add: z_def)
  have "sub_chain (sp @ X @ sq) (int (length sp)) i1 f1 (rp @ W @ rq) (int (length rp)) i2 f2 f0 (ys @ tq) = Inr (R @ tq, 0)"
    unfolding sub_chain_def using False 1 [unfolded z_def] 2(1) 3(1) by (simp add: z_def R_def)
  then show ?thesis using v 3(2-4) 2(2,3) Y X by (intro exI [of _ R] exI [of _ c']) (simp add: R_def)
qed


subsection \<open>The comparison\<close>

lemma skip_zeros_words:
  "n = int (length sp + length xs) \<Longrightarrow> k = int (length sp) \<Longrightarrow>
   skip_zeros (sp @ xs @ sq) n k = Inr (int (length sp + length (takeWhile (\<lambda>w. w = 0) xs)))"
proof (induction xs arbitrary: sp k)
  case Nil
  then show ?case by (simp add: skip_zeros.simps)
next
  case (Cons x xs)
  have r: "nthZ (sp @ (x # xs) @ sq) k = Inr x"
    using nthZ_mid [of k sp x "xs @ sq"] Cons.prems by simp
  have "skip_zeros (sp @ (x # xs) @ sq) n (k + 1) =
      Inr (int (length (sp @ [x]) + length (takeWhile (\<lambda>w. w = 0) xs)))"
    using Cons.IH [of "sp @ [x]" "k + 1"] Cons.prems by simp
  then show ?case using r Cons.prems by (cases "x = 0"; subst skip_zeros.simps) (simp_all add: add.commute)
qed

lemma trim_zeros_words:
  "k = int (length sp) \<Longrightarrow> n = int (length sp + length xs) - 1 \<Longrightarrow>
   \<exists>ys m. trim_zeros (sp @ xs @ sq) k n = Inr (int (length sp + length ys) - 1) \<and>
     xs = ys @ replicate m 0 \<and> (ys = [] \<or> last ys \<noteq> 0)"
proof (induction xs arbitrary: sq n rule: rev_induct)
  case Nil
  then show ?case by (intro exI [of _ "[]"] exI [of _ 0]) (simp add: trim_zeros.simps)
next
  case (snoc x xs)
  have r: "nthZ (sp @ (xs @ [x]) @ sq) n = Inr x"
    using nthZ_mid [of n "sp @ xs" x sq] snoc.prems by simp
  show ?case
  proof (cases "x = 0")
    case True
    have "n - 1 = int (length sp + length xs) - 1" using snoc.prems(2) by simp
    from snoc.IH [OF snoc.prems(1) this, of "x # sq"]
    obtain ys m where "trim_zeros (sp @ xs @ x # sq) k (n - 1) = Inr (int (length sp + length ys) - 1)"
      "xs = ys @ replicate m 0" "ys = [] \<or> last ys \<noteq> 0" by blast
    moreover have "xs @ [x] = ys @ replicate (Suc m) 0"
      using calculation(2) True by (simp add: replicate_append_same)
    ultimately show ?thesis using r snoc.prems True
      by (intro exI [of _ ys] exI [of _ "Suc m"], subst trim_zeros.simps) (simp add: replicate_app_Cons_same)
  next
    case False
    then show ?thesis using r snoc.prems
      by (intro exI [of _ "xs @ [x]"] exI [of _ 0], subst trim_zeros.simps) simp
  qed
qed

lemma skip_equal_words:
  "e1 = int (length sp + length xs) - 1 \<Longrightarrow> e2 = int (length rp + length ws) - 1 \<Longrightarrow>
    k1 = int (length sp) \<Longrightarrow> k2 = int (length rp) \<Longrightarrow>
   \<exists>cs xs' ws'. skip_equal (sp @ xs @ sq) e1 (rp @ ws @ rq) e2 k1 k2 =
       Inr (int (length sp + length cs), int (length rp + length cs)) \<and>
     xs = cs @ xs' \<and> ws = cs @ ws' \<and> (xs' = [] \<or> ws' = [] \<or> hd xs' \<noteq> hd ws')"
proof (induction xs arbitrary: sp rp ws k1 k2)
  case Nil
  then show ?case by (intro exI [of _ "[]"] exI [of _ "[]"] exI [of _ ws]) (simp add: skip_equal.simps)
next
  case (Cons x xs)
  show ?case
  proof (cases ws)
    case Nil
    then show ?thesis using Cons.prems
      by (intro exI [of _ "[]"] exI [of _ "x # xs"] exI [of _ ws]) (simp add: skip_equal.simps)
  next
    case (Cons w ws'')
    have r: "nthZ (sp @ (x # xs) @ sq) k1 = Inr x"
      using nthZ_mid [of k1 sp x "xs @ sq"] Cons.prems by simp
    have r2: "nthZ (rp @ ws @ rq) k2 = Inr w"
      using nthZ_mid [of k2 rp w "ws'' @ rq"] Cons.prems Cons by simp
    show ?thesis
    proof (cases "x = w")
      case True
      obtain cs xs' ws' where "skip_equal ((sp @ [x]) @ xs @ sq) e1 ((rp @ [w]) @ ws'' @ rq) e2 (k1 + 1) (k2 + 1) =
          Inr (int (length (sp @ [x]) + length cs), int (length (rp @ [w]) + length cs))"
        "xs = cs @ xs'" "ws'' = cs @ ws'" "xs' = [] \<or> ws' = [] \<or> hd xs' \<noteq> hd ws'"
      proof -
        have "e1 = int (length (sp @ [x]) + length xs) - 1" "e2 = int (length (rp @ [w]) + length ws'') - 1"
          "k1 + 1 = int (length (sp @ [x]))" "k2 + 1 = int (length (rp @ [w]))" using Cons.prems Cons by simp_all
        from Cons.IH [OF this] that show thesis by blast
      qed
      then show ?thesis using r r2 Cons.prems Cons True
        by (intro exI [of _ "x # cs"] exI [of _ xs'] exI [of _ ws'], subst skip_equal.simps) simp
    next
      case False
      then show ?thesis using r r2 Cons.prems Cons
        by (intro exI [of _ "[]"] exI [of _ "x # xs"] exI [of _ ws], subst skip_equal.simps) simp
    qed
  qed
qed

text \<open>The value of words aligned at their first word, in a frame of \<open>n\<close> words.\<close>

definition lval :: "nat \<Rightarrow> int list \<Rightarrow> int" where
  "lval n ws = wval ws * DIG_BASE ^ (n - length ws)"

lemma lval_append:
  "length xs + length ys \<le> n \<Longrightarrow> lval n (xs @ ys) = wval xs * DIG_BASE ^ (n - length xs) + lval (n - length xs) ys"
proof -
  assume "length xs + length ys \<le> n"
  then have "n - length xs = length ys + (n - length xs - length ys)" by simp
  then have "(DIG_BASE :: int) ^ (n - length xs) = DIG_BASE ^ length ys * DIG_BASE ^ (n - length xs - length ys)"
    by (metis power_add)
  then show ?thesis by (simp add: lval_def wval_append algebra_simps)
qed

lemma lval_bounds: "digs ws \<Longrightarrow> length ws \<le> n \<Longrightarrow> 0 \<le> lval n ws \<and> lval n ws < DIG_BASE ^ n"
proof -
  assume *: "digs ws" "length ws \<le> n"
  then have "wval ws * DIG_BASE ^ (n - length ws) < DIG_BASE ^ length ws * DIG_BASE ^ (n - length ws)"
    using wval_bounds [OF *(1)] by (intro mult_strict_right_mono) simp_all
  then show ?thesis using * wval_bounds [OF *(1)] by (simp add: lval_def flip: power_add)
qed

lemma lval_less:
  assumes "digs xs" "digs ws" "length xs \<le> n" "length ws \<le> n" "ws \<noteq> []" "xs = [] \<or> hd xs < hd ws"
    "last ws \<noteq> 0"
  shows "lval n xs < lval n ws"
proof (cases xs)
  case Nil
  have "\<not> (\<forall>w\<in>set ws. w = 0)" using assms(5,7) last_in_set by blast
  then have "wval ws \<noteq> 0" using wval_0_iff [OF assms(2)] by simp
  then have "0 < wval ws" using wval_bounds [OF assms(2)] by linarith
  then show ?thesis by (simp add: Nil lval_def)
next
  case (Cons x xs')
  obtain w ws' where w: "ws = w # ws'" using assms(5) by (cases ws) auto
  obtain m where n: "n = Suc m" using assms(3) Cons by (cases n) auto
  have "lval n xs = x * DIG_BASE ^ m + lval m xs'"
    using lval_append [of "[x]" xs' n] assms(3) by (simp add: Cons n)
  moreover have "lval n ws = w * DIG_BASE ^ m + lval m ws'"
    using lval_append [of "[w]" ws' n] assms(4) by (simp add: w n)
  moreover have "lval m xs' < DIG_BASE ^ m" "0 \<le> lval m ws'"
    using lval_bounds [of xs' m] lval_bounds [of ws' m] assms(1-4) by (simp_all add: Cons w n)
  moreover have "(x + 1) * DIG_BASE ^ m \<le> w * DIG_BASE ^ m"
    using assms(6) by (intro mult_right_mono) (simp_all add: Cons w)
  ultimately show ?thesis by (simp add: distrib_right)
qed


text \<open>
  \<open>sub_part d s i f X\<close>: the words \<open>X\<close> of \<open>d\<close> start at word \<open>s\<close>, \<open>i\<close> of them before the point,
  and \<open>f\<close> behind it; \<open>f\<close> is negative when \<open>X\<close> ends before the point. What is left out is zero.
\<close>

definition sub_part :: "decimal_t \<Rightarrow> int \<Rightarrow> int \<Rightarrow> int \<Rightarrow> int list \<Rightarrow> bool" where
  "sub_part d s i f X \<longleftrightarrow> digs X \<and> s = int (iw d) - i \<and> 0 \<le> s \<and> 0 \<le> i \<and> f \<le> int (fw d) \<and> int (length X) = i + f \<and>
     take (iw d + fw d) (d_buf d) = replicate (nat s) 0 @ X @ replicate (nat (int (fw d) - f)) 0"

lemma sub_part_source:
  assumes "sub_part d s i f X"
  shows "\<exists>sq. d_buf d = replicate (nat s) 0 @ X @ sq"
proof -
  have "d_buf d = take (iw d + fw d) (d_buf d) @ drop (iw d + fw d) (d_buf d)" by simp
  then show ?thesis using assms unfolding sub_part_def by (metis append_assoc)
qed

text \<open>The magnitude of a decimal in units of \<open>10^(-9 F)\<close>.\<close>

definition mag :: "nat \<Rightarrow> decimal_t \<Rightarrow> int" where
  "mag F d = wval (take (iw d + fw d) (d_buf d)) * DIG_BASE ^ (F - fw d)"

lemma sub_part_mag:
  assumes "sub_part d s i f X" "fw d \<le> F"
  shows "mag F d = wval X * DIG_BASE ^ nat (int F - f)"
proof -
  have "f \<le> int (fw d)" using assms(1) by (simp add: sub_part_def)
  then have "nat (int (fw d) - f) + (F - fw d) = nat (int F - f)" using assms(2) by linarith
  then have "DIG_BASE ^ nat (int F - f) = DIG_BASE ^ nat (int (fw d) - f) * DIG_BASE ^ (F - fw d)"
    by (metis power_add)
  then show ?thesis using assms(1) by (simp add: mag_def sub_part_def wval_append)
qed

lemma sub_part_lval:
  assumes "sub_part d s i f X" "fw d \<le> F"
  shows "mag F d = lval (nat i + F) X"
proof -
  have "nat (int F - f) = nat i + F - length X" using assms by (auto simp add: sub_part_def)
  then show ?thesis unfolding sub_part_mag [OF assms] lval_def by simp
qed

lemma takeWhile_zeros: "xs = replicate (length (takeWhile (\<lambda>w. w = (0 :: int)) xs)) 0 @ dropWhile (\<lambda>w. w = 0) xs"
  by (induction xs) auto

text \<open>The start of an operand.\<close>

lemma sub_start:
  assumes "dec_struct d"
  obtains s X where
    "bindE (nthZ (d_buf d) 0) (\<lambda>v. if v = 0 then skip_zeros (d_buf d) (int (iw d)) 0 else Inr 0) = Inr s"
    "sub_part d s (int (iw d) - s) (int (fw d)) X" "0 < int (iw d) - s \<Longrightarrow> X \<noteq> [] \<and> hd X \<noteq> 0"
proof -
  note w = dec_struct_words [OF assms]
  define xs where "xs = take (iw d) (d_buf d)"
  define fs where "fs = take (fw d) (drop (iw d) (d_buf d))"
  define n where "n = length (takeWhile (\<lambda>w. w = 0) xs)"
  define X where "X = dropWhile (\<lambda>w. w = 0) xs @ fs"
  have buf: "d_buf d = xs @ drop (iw d) (d_buf d)" by (simp add: xs_def)
  have lx: "length xs = iw d" "length fs = fw d" using w(5) by (simp_all add: xs_def fs_def)
  have tk: "take (iw d + fw d) (d_buf d) = xs @ fs" by (simp add: take_add xs_def fs_def)
  have xs: "xs = replicate n 0 @ dropWhile (\<lambda>w. w = 0) xs" unfolding n_def by (rule takeWhile_zeros)
  have n: "n \<le> iw d" using length_takeWhile_le [of "\<lambda>w. w = 0" xs] lx by (simp add: n_def)
  have lX: "length X = iw d - n + fw d" using arg_cong [OF xs, of length] lx by (simp add: X_def)
  have "bindE (nthZ (d_buf d) 0) (\<lambda>v. if v = 0 then skip_zeros (d_buf d) (int (iw d)) 0 else Inr 0) = Inr (int n)"
  proof (cases "hd (d_buf d) = 0")
    case True
    have "skip_zeros ([] @ xs @ drop (iw d) (d_buf d)) (int (iw d)) 0 = Inr (int n)"
      using skip_zeros_words [of "int (iw d)" "[]" xs 0 "drop (iw d) (d_buf d)"] lx by (simp add: n_def)
    then show ?thesis using True w(4) buf by (simp add: nthZ_0)
  next
    case False
    have "n = 0"
    proof (cases xs)
      case (Cons x xs')
      then have "x = hd (d_buf d)" using buf by (metis append_Cons list.sel(1))
      then show ?thesis using False Cons by (simp add: n_def)
    qed (simp add: n_def)
    then show ?thesis using False w(4) by (simp add: nthZ_0)
  qed
  moreover have "sub_part d (int n) (int (iw d) - int n) (int (fw d)) X"
  proof -
    have "digs (xs @ fs)" using w(3) [of "iw d + fw d"] unfolding tk by simp
    then have "digs X" unfolding X_def using xs by (metis digs_simps(3))
    moreover have "take (iw d + fw d) (d_buf d) = replicate n 0 @ X" unfolding tk X_def using xs by (metis append_assoc)
    ultimately show ?thesis using n lX by (simp add: sub_part_def)
  qed
  moreover have "X \<noteq> [] \<and> hd X \<noteq> 0" if "0 < int (iw d) - int n"
  proof -
    have "dropWhile (\<lambda>w. w = 0) xs \<noteq> []" using xs that lx by (metis append_Nil2 length_replicate of_nat_less_0_iff diff_self less_irrefl)
    then show ?thesis using hd_dropWhile [of "\<lambda>w. w = 0" xs] by (auto simp add: X_def)
  qed
  ultimately show ?thesis using that by blast
qed


lemma lval_ge:
  assumes "digs ws" "length ws \<le> n" "ws \<noteq> []" "hd ws \<noteq> 0" "m < n"
  shows "DIG_BASE ^ m \<le> lval n ws"
proof -
  obtain w ws' where w: "ws = w # ws'" using assms(3) by (cases ws) auto
  obtain k where k: "n = Suc k" using assms(5) by (cases n) auto
  have "lval n ws = w * DIG_BASE ^ k + lval k ws'"
    using lval_append [of "[w]" ws' n] assms(2) by (simp add: w k)
  moreover have "0 \<le> lval k ws'" using lval_bounds [of ws' k] assms(1,2) by (simp add: w k)
  moreover have "1 * DIG_BASE ^ k \<le> w * DIG_BASE ^ k"
    using assms(1,4) by (intro mult_right_mono) (auto simp add: w)
  moreover have "(DIG_BASE :: int) ^ m \<le> DIG_BASE ^ k" using assms(5) k by (intro power_increasing) simp_all
  ultimately show ?thesis by linarith
qed

text \<open>Two operands without trailing zeros that start at the same place.\<close>

lemma lval_compare:
  assumes "digs xs" "digs ws" "length xs \<le> n" "length ws \<le> n" "xs = [] \<or> last xs \<noteq> 0" "ws = [] \<or> last ws \<noteq> 0"
    and "xs = cs @ xs'" "ws = cs @ ws'" "xs' = [] \<or> ws' = [] \<or> hd xs' \<noteq> hd ws'"
  shows "xs' = [] \<Longrightarrow> ws' = [] \<Longrightarrow> lval n xs = lval n ws"
    "ws' \<noteq> [] \<Longrightarrow> xs' = [] \<or> hd xs' < hd ws' \<Longrightarrow> lval n xs < lval n ws"
proof -
  show "xs' = [] \<Longrightarrow> ws' = [] \<Longrightarrow> lval n xs = lval n ws" using assms by simp
  assume "ws' \<noteq> []" "xs' = [] \<or> hd xs' < hd ws'"
  then have "lval (n - length cs) xs' < lval (n - length cs) ws'"
    using assms by (intro lval_less) auto
  then show "lval n xs < lval n ws"
    using lval_append [of cs xs' n] lval_append [of cs ws' n] assms(3,4,7,8) by simp
qed

lemma sub_order_run:
  assumes a: "dec_struct a" and b: "dec_struct b" and F: "F = max (fw a) (fw b)"
  obtains c s1 i1 f1 X1 s2 i2 f2 X2 where
    "sub_order a b = Inr (c, (s1, i1, f1), (s2, i2, f2))"
    "sub_part a s1 i1 f1 X1" "sub_part b s2 i2 f2 X2"
    "c = None \<and> mag F a = mag F b \<or>
     c = Some 1 \<and> mag F a < mag F b \<and> i1 \<le> i2 \<and> (i1 = i2 \<or> 0 \<le> f1 \<and> 0 \<le> f2) \<or>
     c = Some 0 \<and> mag F b < mag F a \<and> i2 \<le> i1 \<and> (i1 = i2 \<or> 0 \<le> f1 \<and> 0 \<le> f2)"
proof -
  note wa = dec_struct_words [OF a] and wb = dec_struct_words [OF b]
  have fF: "fw a \<le> F" "fw b \<le> F" using F by simp_all
  obtain s1 A where s1: "bindE (nthZ (d_buf a) 0) (\<lambda>v. if v = 0 then skip_zeros (d_buf a) (int (iw a)) 0 else Inr 0) = Inr s1"
    "sub_part a s1 (int (iw a) - s1) (int (fw a)) A" "0 < int (iw a) - s1 \<Longrightarrow> A \<noteq> [] \<and> hd A \<noteq> 0"
    using sub_start [OF a] by blast
  obtain s2 B where s2: "bindE (nthZ (d_buf b) 0) (\<lambda>v. if v = 0 then skip_zeros (d_buf b) (int (iw b)) 0 else Inr 0) = Inr s2"
    "sub_part b s2 (int (iw b) - s2) (int (fw b)) B" "0 < int (iw b) - s2 \<Longrightarrow> B \<noteq> [] \<and> hd B \<noteq> 0"
    using sub_start [OF b] by blast
  define i1 where "i1 = int (iw a) - s1"
  define i2 where "i2 = int (iw b) - s2"
  define ord :: "(int option \<times> (int \<times> int \<times> int) \<times> int \<times> int \<times> int) res" where "ord = (if i2 > i1 then Inr (Some 1, (s1, i1, int (fw a)), (s2, i2, int (fw b)))
      else if i2 = i1 then
        bindE (trim_zeros (d_buf a) s1 (int (iw a) + (int (fw a) - 1))) (\<lambda>end1.
        bindE (trim_zeros (d_buf b) s2 (int (iw b) + (int (fw b) - 1))) (\<lambda>end2.
        bindE (skip_equal (d_buf a) end1 (d_buf b) end2 s1 s2) (\<lambda>(buf1, buf2).
        bindE (if buf1 \<le> end1 then
                 if buf2 \<le> end2 then
                   bindE (nthZ (d_buf b) buf2) (\<lambda>w. bindE (nthZ (d_buf a) buf1) (\<lambda>v.
                     Inr (Some (of_bool (w > v)))))
                 else Inr (Some 0)
               else if buf2 \<le> end2 then Inr (Some 1)
               else Inr None) (\<lambda>carry.
        Inr (carry, (s1, i1, end1 - int (iw a) + 1), (s2, i2, end2 - int (iw b) + 1))))))
      else Inr (Some 0, (s1, i1, int (fw a)), (s2, i2, int (fw b))))"
  have run: "sub_order a b = ord"
  proof -
    have "sub_order a b = bindE (bindE (nthZ (d_buf a) 0) (\<lambda>v. if v = 0 then skip_zeros (d_buf a) (int (iw a)) 0 else Inr 0)) (\<lambda>start1.
      bindE (bindE (nthZ (d_buf b) 0) (\<lambda>v. if v = 0 then skip_zeros (d_buf b) (int (iw b)) 0 else Inr 0)) (\<lambda>start2.
      let intg1 = int (iw a) - start1; intg2 = int (iw b) - start2 in
      if intg2 > intg1 then Inr (Some 1, (start1, intg1, int (fw a)), (start2, intg2, int (fw b)))
      else if intg2 = intg1 then
        bindE (trim_zeros (d_buf a) start1 (int (iw a) + (int (fw a) - 1))) (\<lambda>end1.
        bindE (trim_zeros (d_buf b) start2 (int (iw b) + (int (fw b) - 1))) (\<lambda>end2.
        bindE (skip_equal (d_buf a) end1 (d_buf b) end2 start1 start2) (\<lambda>(buf1, buf2).
        bindE (if buf1 \<le> end1 then
                 if buf2 \<le> end2 then
                   bindE (nthZ (d_buf b) buf2) (\<lambda>w. bindE (nthZ (d_buf a) buf1) (\<lambda>v.
                     Inr (Some (of_bool (w > v)))))
                 else Inr (Some 0)
               else if buf2 \<le> end2 then Inr (Some 1)
               else Inr None) (\<lambda>carry.
        Inr (carry, (start1, intg1, end1 - int (iw a) + 1), (start2, intg2, end2 - int (iw b) + 1))))))
      else Inr (Some 0, (start1, intg1, int (fw a)), (start2, intg2, int (fw b)))))"
      unfolding sub_order_def Let_def wa(1,2) wb(1,2) bindE_assoc ..
    then show ?thesis unfolding s1(1) s2(1) bindE_simps Let_def ord_def i1_def i2_def .
  qed
  have i: "0 \<le> i1" "0 \<le> i2" using s1(2) s2(2) by (simp_all add: sub_part_def i1_def i2_def)
  have la: "length A = nat i1 + fw a" and lb: "length B = nat i2 + fw b"
    using s1(2) s2(2) i by (auto simp add: sub_part_def i1_def i2_def)
  have dA: "digs A" and dB: "digs B" using s1(2) s2(2) by (simp_all add: sub_part_def)
  have mA: "mag F a = lval (nat i1 + F) A" using sub_part_lval [OF s1(2) fF(1)] by (simp add: i1_def)
  have mB: "mag F b = lval (nat i2 + F) B" using sub_part_lval [OF s2(2) fF(2)] by (simp add: i2_def)
  consider "i1 < i2" | "i2 < i1" | "i1 = i2" by linarith
  then show ?thesis
  proof cases
    case 1
    have "mag F a < DIG_BASE ^ (nat i1 + F)"
      unfolding mA using lval_bounds [OF dA, of "nat i1 + F"] la fF by simp
    moreover have "DIG_BASE ^ (nat i1 + F) \<le> mag F b"
      unfolding mB using s2(3) 1 i lb fF by (intro lval_ge dB) (auto simp add: i2_def)
    ultimately show ?thesis using that [of "Some 1"] run s1(2) s2(2) 1 unfolding ord_def i1_def i2_def by simp
  next
    case 2
    have "mag F b < DIG_BASE ^ (nat i2 + F)"
      unfolding mB using lval_bounds [OF dB, of "nat i2 + F"] lb fF by simp
    moreover have "DIG_BASE ^ (nat i2 + F) \<le> mag F a"
      unfolding mA using s1(3) 2 i la fF by (intro lval_ge dA) (auto simp add: i1_def)
    ultimately show ?thesis using that [of "Some 0"] run s1(2) s2(2) 2 unfolding ord_def i1_def i2_def by simp
  next
    case 3
    obtain sqa where ba: "d_buf a = replicate (nat s1) 0 @ A @ sqa" using sub_part_source [OF s1(2)] by blast
    obtain sqb where bb: "d_buf b = replicate (nat s2) 0 @ B @ sqb" using sub_part_source [OF s2(2)] by blast
    have s: "0 \<le> s1" "0 \<le> s2" "s1 = int (iw a) - i1" "s2 = int (iw b) - i2"
      using s1(2) s2(2) by (simp_all add: sub_part_def i1_def i2_def)
    have ea: "s1 = int (length (replicate (nat s1) (0 :: int)))" "int (iw a) + (int (fw a) - 1) = int (length (replicate (nat s1) (0 :: int)) + length A) - 1"
      using s la i by simp_all
    have eb: "s2 = int (length (replicate (nat s2) (0 :: int)))" "int (iw b) + (int (fw b) - 1) = int (length (replicate (nat s2) (0 :: int)) + length B) - 1"
      using s lb i by simp_all
    obtain A' m where A: "trim_zeros (d_buf a) s1 (int (iw a) + (int (fw a) - 1)) = Inr (s1 + int (length A') - 1)"
      "A = A' @ replicate m 0" "A' = [] \<or> last A' \<noteq> 0"
    proof -
    have "int (length (replicate (nat s1) (0 :: int)) + length ys) - 1 = s1 + int (length ys) - 1" for ys :: "int list"
      using s(1) by simp
    then show thesis using trim_zeros_words [OF ea, of sqa] that unfolding ba by fastforce
  qed
    obtain B' k where B: "trim_zeros (d_buf b) s2 (int (iw b) + (int (fw b) - 1)) = Inr (s2 + int (length B') - 1)"
      "B = B' @ replicate k 0" "B' = [] \<or> last B' \<noteq> 0"
    proof -
    have "int (length (replicate (nat s2) (0 :: int)) + length ys) - 1 = s2 + int (length ys) - 1" for ys :: "int list"
      using s(2) by simp
    then show thesis using trim_zeros_words [OF eb, of sqb] that unfolding bb by fastforce
  qed
    have ba': "d_buf a = replicate (nat s1) 0 @ A' @ replicate m 0 @ sqa" using ba A(2) by simp
    have bb': "d_buf b = replicate (nat s2) 0 @ B' @ replicate k 0 @ sqb" using bb B(2) by simp
    obtain cs xs' ws' where eq: "skip_equal (d_buf a) (s1 + int (length A') - 1) (d_buf b) (s2 + int (length B') - 1) s1 s2 =
        Inr (s1 + int (length cs), s2 + int (length cs))"
      "A' = cs @ xs'" "B' = cs @ ws'" "xs' = [] \<or> ws' = [] \<or> hd xs' \<noteq> hd ws'"
    proof -
      have e: "int (length (replicate (nat s1) (0 :: int)) + n) = s1 + int n" "int (length (replicate (nat s2) (0 :: int)) + n) = s2 + int n"
        for n using s(1,2) by simp_all
      have "s1 = int (length (replicate (nat s1) (0 :: int)))" "s2 = int (length (replicate (nat s2) (0 :: int)))" using s(1,2) by simp_all
      from skip_equal_words [OF _ _ this, of "s1 + int (length A') - 1" A' "s2 + int (length B') - 1" B'
          "replicate m 0 @ sqa" "replicate k 0 @ sqb"] that
      show thesis unfolding e ba' bb' by blast
    qed
    define f1 where "f1 = s1 + int (length A') - 1 - int (iw a) + 1"
    define f2 where "f2 = s2 + int (length B') - 1 - int (iw b) + 1"
    have lA: "length A = length A' + m" "length B = length B' + k" using A(2) B(2) by simp_all
    have pa: "sub_part a s1 i1 f1 A'"
      using s1(2) A(2) s la lA i unfolding sub_part_def f1_def i1_def [symmetric] by auto
    have pb: "sub_part b s2 i2 f2 B'"
      using s2(2) B(2) s lb lA i unfolding sub_part_def f2_def i2_def [symmetric] by auto
    have mA': "mag F a = lval (nat i1 + F) A'" by (rule sub_part_lval [OF pa fF(1)])
    have mB': "mag F b = lval (nat i1 + F) B'" using sub_part_lval [OF pb fF(2)] 3 by simp
    have dg: "digs A'" "digs B'" "length A' \<le> nat i1 + F" "length B' \<le> nat i1 + F"
      using dA dB A(2) B(2) la lb lA fF 3 by auto
    note cmp = lval_compare [OF dg A(3) B(3) eq(2-4)]
      lval_compare [OF dg(2,1,4,3) B(3) A(3) eq(3,2)]
    have ordr: "ord = bindE (if s1 + int (length cs) \<le> s1 + int (length A') - 1 then
                 if s2 + int (length cs) \<le> s2 + int (length B') - 1 then
                   bindE (nthZ (d_buf b) (s2 + int (length cs))) (\<lambda>w. bindE (nthZ (d_buf a) (s1 + int (length cs))) (\<lambda>v.
                     Inr (Some (of_bool (w > v)))))
                 else Inr (Some 0)
               else if s2 + int (length cs) \<le> s2 + int (length B') - 1 then Inr (Some 1)
               else Inr None) (\<lambda>carry.
        Inr (carry, (s1, i1, f1), (s2, i2, f2)))"
      unfolding ord_def using 3 by (simp add: A(1) B(1) eq(1) f1_def f2_def)
    have rd: "nthZ (d_buf a) (s1 + int (length cs)) = Inr (hd xs')" if "xs' \<noteq> []"
      using nthZ_mid [of "s1 + int (length cs)" "replicate (nat s1) 0 @ cs" "hd xs'" "tl xs' @ replicate m 0 @ sqa"] that s(1)
      unfolding ba' eq(2) by (cases xs') simp_all
    have rd2: "nthZ (d_buf b) (s2 + int (length cs)) = Inr (hd ws')" if "ws' \<noteq> []"
      using nthZ_mid [of "s2 + int (length cs)" "replicate (nat s2) 0 @ cs" "hd ws'" "tl ws' @ replicate k 0 @ sqb"] that s(2)
      unfolding bb' eq(3) by (cases ws') simp_all
    have nn: "s1 + int (length cs) \<le> s1 + int (length A') - 1 \<longleftrightarrow> xs' \<noteq> []"
      "s2 + int (length cs) \<le> s2 + int (length B') - 1 \<longleftrightarrow> ws' \<noteq> []"
      unfolding eq(2,3) by (cases xs'; simp) (cases ws'; simp)
    show ?thesis
    proof (cases "xs' = [] \<and> ws' = []")
      case True
      then have "sub_order a b = Inr (None, (s1, i1, f1), (s2, i2, f2))" unfolding run ordr nn by simp
      moreover have "mag F a = mag F b" using cmp(1) True mA' mB' by simp
      ultimately show ?thesis using that pa pb by blast
    next
      case False
      show ?thesis
      proof (cases "ws' \<noteq> [] \<and> (xs' = [] \<or> hd xs' < hd ws')")
        case True
        then have "sub_order a b = Inr (Some 1, (s1, i1, f1), (s2, i2, f2))" unfolding run ordr nn using rd rd2 by auto
        moreover have "mag F a < mag F b" using cmp(2) True mA' mB' by simp
        ultimately show ?thesis using that pa pb 3 by blast
      next
        case F2: False
        then have x: "xs' \<noteq> []" "ws' = [] \<or> hd ws' < hd xs'" using False eq(4) by auto
        then have "sub_order a b = Inr (Some 0, (s1, i1, f1), (s2, i2, f2))" unfolding run ordr nn using rd rd2 by auto
        moreover have "mag F b < mag F a" using cmp(4) x eq(4) mA' mB' by auto
        ultimately show ?thesis using that pa pb 3 by blast
      qed
    qed
  qed
qed


subsection \<open>Subtraction of magnitudes\<close>

lemma sub_chain_parts:
  assumes x: "sub_part x s1 i1 f1 X" and y: "sub_part y s2 i2 f2 Y" and F: "fw x \<le> F" "fw y \<le> F"
    and le: "i2 \<le> i1" "i1 = i2 \<or> 0 \<le> f1 \<and> 0 \<le> f2" and less: "mag F y \<le> mag F x"
    and room: "nat i1 + F \<le> length tb"
  shows "\<exists>R rest. sub_chain (d_buf x) s1 i1 f1 (d_buf y) s2 i2 f2 (int F) tb = Inr (R @ rest, 0) \<and>
    length R = nat i1 + F \<and> length (R @ rest) = length tb \<and> digs R \<and> wval R = mag F x - mag F y"
proof -
  obtain sq where bx: "d_buf x = replicate (nat s1) 0 @ X @ sq" using sub_part_source [OF x] by blast
  obtain rq where bY: "d_buf y = replicate (nat s2) 0 @ Y @ rq" using sub_part_source [OF y] by blast
  have X: "0 \<le> s1" "0 \<le> i1" "int (length X) = i1 + f1" "f1 \<le> int F" "digs X" using x F by (auto simp add: sub_part_def)
  have Y: "0 \<le> s2" "0 \<le> i2" "int (length Y) = i2 + f2" "f2 \<le> int F" "digs Y" using y F by (auto simp add: sub_part_def)
  define ys where "ys = take (nat i1 + F) tb"
  define rest where "rest = drop (nat i1 + F) tb"
  have tb: "tb = ys @ rest" "int (length ys) = i1 + int F" "length ys = nat i1 + F"
    using room X by (simp_all add: ys_def rest_def)
  have s: "int (length (replicate (nat s1) (0 :: int))) = s1" "int (length (replicate (nat s2) (0 :: int))) = s2"
    using X Y by simp_all
  have "0 \<le> i2 + f1" using le X Y by auto
  then obtain R c where R: "sub_chain (d_buf x) s1 i1 f1 (d_buf y) s2 i2 f2 (int F) tb = Inr (R @ rest, 0)"
    "length R = length ys" "digs R" "c = 0 \<or> c = 1"
    "wval R - c * DIG_BASE ^ length ys = wval X * DIG_BASE ^ nat (int F - f1) - wval Y * DIG_BASE ^ nat (int F - f2)"
    using sub_chain_words [OF X(3) Y(3) Y(2) le(1) X(4) Y(4) _ _ X(5) Y(5) tb(2), of "replicate (nat s1) 0" sq
        "replicate (nat s2) 0" rq rest] unfolding s bx [symmetric] bY [symmetric] tb(1) [symmetric] by auto
  have v: "wval R - c * DIG_BASE ^ length ys = mag F x - mag F y"
    unfolding R(5) sub_part_mag [OF x F(1)] sub_part_mag [OF y F(2)] ..
  have "wval R < DIG_BASE ^ length ys" using wval_bounds [OF R(3)] R(2) by simp
  then have "c = 0" using v less R(4) by auto
  then show ?thesis using R(1,2,3) v tb by (intro exI [of _ R] exI [of _ rest]) simp
qed

lemma do_sub_run:
  assumes a: "dec_struct a" and b: "dec_struct b" and F: "F = max (fw a) (fw b)"
    and room: "int (max (iw a) (iw b) + F) \<le> d_len to" "d_len to \<le> int (length (d_buf to))" "0 < d_len to"
  shows "mag F a = mag F b \<Longrightarrow> do_sub a b to = Inr (E_DEC_OK, to\<lparr>d_buf := 0 # tl (d_buf to), d_intg := 1, d_frac := 0, d_sign := 0\<rparr>)"
    and "mag F a \<noteq> mag F b \<Longrightarrow> \<exists>i R rest. do_sub a b to = Inr (E_DEC_OK,
        to\<lparr>d_sign := if mag F b < mag F a then d_sign a else 1 - d_sign a, d_frac := max (d_frac a) (d_frac b),
           d_intg := int (9 * i), d_buf := R @ rest\<rparr>) \<and>
      length R = i + F \<and> length (R @ rest) = length (d_buf to) \<and> digs R \<and> wval R = \<bar>mag F a - mag F b\<bar>"
proof -
  note wa = dec_struct_words [OF a] and wb = dec_struct_words [OF b]
  obtain c s1 i1 f1 X1 s2 i2 f2 X2 where ord: "sub_order a b = Inr (c, (s1, i1, f1), (s2, i2, f2))"
    and X1: "sub_part a s1 i1 f1 X1" and X2: "sub_part b s2 i2 f2 X2"
    and c: "c = None \<and> mag F a = mag F b \<or>
     c = Some 1 \<and> mag F a < mag F b \<and> i1 \<le> i2 \<and> (i1 = i2 \<or> 0 \<le> f1 \<and> 0 \<le> f2) \<or>
     c = Some 0 \<and> mag F b < mag F a \<and> i2 \<le> i1 \<and> (i1 = i2 \<or> 0 \<le> f1 \<and> 0 \<le> f2)"
    by (rule sub_order_run [OF a b F])
  have nz: "d_buf to \<noteq> []" using room by auto
  show "do_sub a b to = Inr (E_DEC_OK, to\<lparr>d_buf := 0 # tl (d_buf to), d_intg := 1, d_frac := 0, d_sign := 0\<rparr>)"
    if "mag F a = mag F b"
  proof -
    have "c = None" using c that by auto
    moreover have "decimal_make_zero to = Inr (to\<lparr>d_buf := 0 # tl (d_buf to), d_intg := 1, d_frac := 0, d_sign := 0\<rparr>)"
      using nz by (cases "d_buf to") (simp_all add: decimal_make_zero_def poke_def)
    ultimately show ?thesis by (simp add: do_sub_def ord)
  qed
  have fF: "fw a \<le> F" "fw b \<le> F" using F by simp_all
  have ii: "0 \<le> i1" "0 \<le> i2" "i1 \<le> int (iw a)" "i2 \<le> int (iw b)" using X1 X2 by (auto simp add: sub_part_def)
  have fit: "fix_intg_frac_error (d_len to) i (int F) = (i, int F, E_DEC_OK)" if "i \<le> int (max (iw a) (iw b))" for i
    using that room(1) by (simp add: fix_intg_frac_error_def)
  have mF: "max (ROUND_UP (d_frac a)) (ROUND_UP (d_frac b)) = int F" unfolding wa(2) wb(2) F by simp
  have chain: "bindE (sub_chain p s i f p' s' i' f' f0 tb) (\<lambda>(b, buf0). Inr (E_DEC_OK, g b)) =
     bindE (if f > f' then
              bindE (zero_down tb (i + f0) (nat (f0 - f))) (\<lambda>(b, buf0).
              bindE (copy_down p (s + i + f') b buf0 (s + i + f)) (\<lambda>(b, buf0, buf1).
              Inr (b, buf0, buf1, s' + i' + f', 0)))
            else
              bindE (zero_down tb (i + f0) (nat (f0 - f'))) (\<lambda>(b, buf0).
              bindE (negate_down p' (s' + i' + f) b buf0 (s' + i' + f') 0)
                (\<lambda>(b, buf0, buf2, carry).
              Inr (b, buf0, s + i + f, buf2, carry)))) (\<lambda>(b, buf0, buf1, buf2, carry).
     bindE (sub_down p p' s' b buf0 buf1 buf2 carry) (\<lambda>(b, buf0, buf1, carry).
     bindE (borrow_down p s b buf0 buf1 carry) (\<lambda>(b, buf0, buf1).
     bindE (copy_down p s b buf0 buf1) (\<lambda>(b, buf0, buf1).
     bindE (zero_down b buf0 (nat buf0)) (\<lambda>(b, buf0). Inr (E_DEC_OK, g b))))))"
    for p s i f p' s' i' f' f0 tb and g :: "int list \<Rightarrow> decimal_t"
    unfolding sub_chain_def by (simp add: bindE_assoc bindE_case_prod)
  show "\<exists>i R rest. do_sub a b to = Inr (E_DEC_OK,
        to\<lparr>d_sign := if mag F b < mag F a then d_sign a else 1 - d_sign a, d_frac := max (d_frac a) (d_frac b),
           d_intg := int (9 * i), d_buf := R @ rest\<rparr>) \<and>
      length R = i + F \<and> length (R @ rest) = length (d_buf to) \<and> digs R \<and> wval R = \<bar>mag F a - mag F b\<bar>"
    if ne: "mag F a \<noteq> mag F b"
  proof (cases "mag F b < mag F a")
    case True
    then have c0: "c = Some 0" "i2 \<le> i1" "i1 = i2 \<or> 0 \<le> f1 \<and> 0 \<le> f2" using c by auto
    have l: "nat i1 + F \<le> length (d_buf to)" using room ii by linarith
    obtain R rest where R: "sub_chain (d_buf a) s1 i1 f1 (d_buf b) s2 i2 f2 (int F) (d_buf to) = Inr (R @ rest, 0)"
      "length R = nat i1 + F" "length (R @ rest) = length (d_buf to)" "digs R" "wval R = mag F a - mag F b"
      using sub_chain_parts [OF X1 X2 fF c0(2,3) less_imp_le [OF True] l] by blast
    have "do_sub a b to = bindE (sub_chain (d_buf a) s1 i1 f1 (d_buf b) s2 i2 f2 (int F) (d_buf to)) (\<lambda>(b', buf0).
        Inr (E_DEC_OK, to\<lparr>d_sign := d_sign a, d_frac := max (d_frac a) (d_frac b), d_intg := i1 * DIG_PER_DEC1, d_buf := b'\<rparr>))"
      unfolding chain do_sub_def ord bindE_simps prod.case c0(1) option.case Let_def mF
      using fit [of i1] ii by (simp add: c0(1))
    then show ?thesis using R True ii(1) by (intro exI [of _ "nat i1"] exI [of _ R] exI [of _ rest]) (simp add: mult.commute)
  next
    case False
    then have c0: "c = Some 1" "i1 \<le> i2" "i2 = i1 \<or> 0 \<le> f2 \<and> 0 \<le> f1" "mag F a \<le> mag F b" using c ne by auto
    have l: "nat i2 + F \<le> length (d_buf to)" using room ii by linarith
    obtain R rest where R: "sub_chain (d_buf b) s2 i2 f2 (d_buf a) s1 i1 f1 (int F) (d_buf to) = Inr (R @ rest, 0)"
      "length R = nat i2 + F" "length (R @ rest) = length (d_buf to)" "digs R" "wval R = mag F b - mag F a"
      using sub_chain_parts [OF X2 X1 fF(2,1) c0(2,3,4) l] by blast
    have "do_sub a b to = bindE (sub_chain (d_buf b) s2 i2 f2 (d_buf a) s1 i1 f1 (int F) (d_buf to)) (\<lambda>(b', buf0).
        Inr (E_DEC_OK, to\<lparr>d_sign := 1 - d_sign a, d_frac := max (d_frac a) (d_frac b), d_intg := i2 * DIG_PER_DEC1, d_buf := b'\<rparr>))"
      unfolding chain do_sub_def ord bindE_simps prod.case c0(1) option.case Let_def mF
      using fit [of i2] ii by (simp add: c0(1))
    then show ?thesis using R False ii(2) c0(4) by (intro exI [of _ "nat i2"] exI [of _ R] exI [of _ rest]) (simp add: mult.commute)
  qed
qed

end
