(* ===== verification/DecimalSum.thy ===== *)
theory DecimalSum
  imports DecimalSub
begin

text \<open>
  Addition, subtraction and comparison are exact. \<open>dval\<close> is the rational number a \<open>decimal_t\<close>
  stands for and \<open>dec_ok\<close> its well-formedness: words below \<open>10^9\<close>, a magnitude of at most
  \<open>intg\<close> digits before and \<open>frac\<close> digits behind the point, and no negative zero.
\<close>

subsection \<open>Well-formed decimals and their value\<close>

definition dmag :: "decimal_t \<Rightarrow> int" where
  "dmag d = wval (take (iw d + fw d) (d_buf d))"

definition dval :: "decimal_t \<Rightarrow> rat" where
  "dval d = (if d_sign d = 0 then 1 else - 1) * (of_int (dmag d) / 10 ^ (9 * fw d))"

definition dec_ok :: "decimal_t \<Rightarrow> bool" where
  "dec_ok d \<longleftrightarrow> dec_struct d \<and> 0 < d_intg d + d_frac d \<and> (d_sign d = 0 \<or> d_sign d = 1) \<and> (dmag d = 0 \<longrightarrow> d_sign d = 0) \<and>
     dmag d < 10 ^ (nat (d_intg d) + 9 * fw d) \<and> 10 ^ (9 * fw d - nat (d_frac d)) dvd dmag d"

lemma base_pow: "DIG_BASE ^ n = 10 ^ (9 * n)" "(1000000000 :: rat) ^ n = 10 ^ (9 * n)"
  by (simp_all add: power_mult)

lemma iw_fw_bounds:
  "0 \<le> d_intg d \<Longrightarrow> d_intg d \<le> int (9 * iw d)" "0 \<le> d_frac d \<Longrightarrow> d_frac d \<le> int (9 * fw d)"
  unfolding iw_def fw_def ROUND_UP_def by (simp_all add: sdiv_nonneg) linarith+

lemma ROUND_UP_9 [simp]: "ROUND_UP (9 * int n) = int n" "ROUND_UP (int (9 * n)) = int n"
  by (simp_all add: ROUND_UP_def sdiv_nonneg)

lemma ROUND_UP_mono: "0 \<le> x \<Longrightarrow> x \<le> y \<Longrightarrow> ROUND_UP x \<le> ROUND_UP y"
  by (simp add: ROUND_UP_def sdiv_nonneg zdiv_mono1)

lemma fw_max: "0 \<le> x \<Longrightarrow> 0 \<le> y \<Longrightarrow> nat (ROUND_UP (max x y)) = max (nat (ROUND_UP x)) (nat (ROUND_UP y))"
  using ROUND_UP_mono [of x y] ROUND_UP_mono [of y x] by (auto simp add: max_def)

lemma dmag_mag: "dec_struct d \<Longrightarrow> dmag d = mag (fw d) d"
  by (simp add: dmag_def mag_def)

lemma dmag_nonneg: "dec_struct d \<Longrightarrow> 0 \<le> dmag d"
  using wval_bounds dec_struct_words(3) [of d "iw d + fw d"] by (simp add: dmag_def)

lemma mag_value:
  assumes "fw d \<le> F"
  shows "of_int (mag F d) / (10 :: rat) ^ (9 * F) = of_int (dmag d) / 10 ^ (9 * fw d)"
proof -
  have "9 * F = 9 * (F - fw d) + 9 * fw d" using assms by simp
  then have "(10 :: rat) ^ (9 * F) = 10 ^ (9 * (F - fw d)) * 10 ^ (9 * fw d)" by (metis power_add)
  then show ?thesis by (simp add: mag_def dmag_def base_pow)
qed

lemma dval_mag:
  "fw d \<le> F \<Longrightarrow> dval d = (if d_sign d = 0 then 1 else - 1) * (of_int (mag F d) / 10 ^ (9 * F))"
  by (simp add: dval_def mag_value)

lemma mag_dvd:
  assumes "dec_ok d" "fw d \<le> F" "d_frac d \<le> fr" "fr \<le> int (9 * F)"
  shows "10 ^ (9 * F - nat fr) dvd mag F d"
proof -
  have "0 \<le> d_frac d" "10 ^ (9 * fw d - nat (d_frac d)) dvd dmag d" using assms by (simp_all add: dec_ok_def dec_struct_def)
  then have "10 ^ (9 * fw d - nat (d_frac d)) * 10 ^ (9 * (F - fw d)) dvd mag F d"
    by (simp add: mag_def dmag_def base_pow mult_dvd_mono)
  moreover have "9 * F - nat fr \<le> (9 * fw d - nat (d_frac d)) + 9 * (F - fw d)"
    using assms iw_fw_bounds(2) [OF \<open>0 \<le> d_frac d\<close>] by linarith
  ultimately show ?thesis by (metis power_add le_imp_power_dvd dvd_trans)
qed

text \<open>A decimal whose words were written by an operation.\<close>

lemma written:
  assumes "d_intg to' = int (9 * i)" "d_frac to' = fr" "d_buf to' = R @ rest" "length R = i + F" "digs R"
    "0 \<le> fr" "nat (ROUND_UP fr) = F" "R \<noteq> []"
  shows "iw to' = i" "fw to' = F" "dmag to' = wval R" "dec_struct to'"
    "dmag to' < 10 ^ (nat (d_intg to') + 9 * fw to')"
proof -
  show i: "iw to' = i" "fw to' = F" using assms by (simp_all add: iw_def fw_def)
  then show m: "dmag to' = wval R" using assms by (simp add: dmag_def)
  have "max 1 (i + F) = i + F" using assms(4,8) by (cases R) auto
  then show "dec_struct to'" using assms i by (simp add: dec_struct_def)
  have "wval R < DIG_BASE ^ (i + F)" using wval_bounds [OF assms(5)] assms(4) by simp
  then show "dmag to' < 10 ^ (nat (d_intg to') + 9 * fw to')"
    unfolding m i assms(1) base_pow nat_int by (simp add: distrib_left)
qed

lemma frac_pos: "0 \<le> fr \<Longrightarrow> nat (ROUND_UP fr) = F \<Longrightarrow> 0 < i + F \<Longrightarrow> 0 < int (9 * i) + fr"
  by (cases "fr = 0") (auto simp add: ROUND_UP_def)

text \<open>What \<open>decimal_make_zero\<close> leaves.\<close>

lemma make_zero_run:
  "d_buf t \<noteq> [] \<Longrightarrow>
   decimal_make_zero t = Inr (t\<lparr>d_buf := 0 # tl (d_buf t), d_intg := 1, d_frac := 0, d_sign := 0\<rparr>)"
  by (cases "d_buf t") (simp_all add: decimal_make_zero_def poke_def)

lemma zero_dec_ok:
  "dec_ok (t\<lparr>d_buf := 0 # bs, d_intg := 1, d_frac := 0, d_sign := 0\<rparr>)"
  "dval (t\<lparr>d_buf := 0 # bs, d_intg := 1, d_frac := 0, d_sign := 0\<rparr>) = 0"
proof -
  let ?t = "t\<lparr>d_buf := 0 # bs, d_intg := 1, d_frac := 0, d_sign := 0\<rparr>"
  have "iw ?t = 1" "fw ?t = 0" by (simp_all add: iw_def fw_def ROUND_UP_def)
  then show "dec_ok ?t" "dval ?t = 0" by (simp_all add: dec_ok_def dec_struct_def dmag_def dval_def)
qed

text \<open>Room for the result of an addition or subtraction.\<close>

definition add_room :: "decimal_t \<Rightarrow> decimal_t \<Rightarrow> decimal_t \<Rightarrow> bool" where
  "add_room a b to \<longleftrightarrow> int (max (iw a) (iw b) + 1 + max (fw a) (fw b)) \<le> d_len to \<and> d_len to \<le> int (length (d_buf to))"

lemma dec_okD:
  assumes "dec_ok d"
  shows "dec_struct d" "0 \<le> d_intg d" "0 \<le> d_frac d" "0 < iw d + fw d" "d_sign d = 0 \<or> d_sign d = 1"
    "dmag d = 0 \<Longrightarrow> d_sign d = 0" "0 \<le> dmag d" "0 \<le> mag F d"
proof -
  show s: "dec_struct d" "d_sign d = 0 \<or> d_sign d = 1" "dmag d = 0 \<Longrightarrow> d_sign d = 0"
    using assms by (simp_all add: dec_ok_def)
  show n: "0 \<le> d_intg d" "0 \<le> d_frac d" using s by (simp_all add: dec_struct_def)
  show "0 < iw d + fw d" using iw_fw_bounds(1) [OF n(1)] iw_fw_bounds(2) [OF n(2)] assms by (auto simp add: dec_ok_def)
  show "0 \<le> dmag d" "0 \<le> mag F d" using dmag_nonneg [OF s(1)] by (simp_all add: mag_def dmag_def)
qed

lemma do_add_exact:
  assumes a: "dec_ok a" and b: "dec_ok b" and room: "add_room a b to" and F: "F = max (fw a) (fw b)"
  shows "\<exists>to'. do_add a b to = Inr (E_DEC_OK, to') \<and> dec_ok to' \<and> d_sign to' = d_sign a \<and>
    d_frac to' = max (d_frac a) (d_frac b) \<and> fw to' = F \<and> dmag to' = mag F a + mag F b"
proof -
  note oa = dec_okD [OF a] and ob = dec_okD [OF b]
  have len: "0 < d_len to" "d_len to \<le> int (length (d_buf to))" using room by (auto simp add: add_room_def)
  obtain e :: nat where e: "e \<le> 1" and run: "let i0 = max (iw a) (iw b) + e; f = max (fw a) (fw b); f0 = min f (nat (d_len to) - i0);
      ok = i0 + f \<le> nat (d_len to)
    in if nat (d_len to) < i0 then (\<exists>to'. do_add a b to = Inr (E_DEC_OVERFLOW, to'))
       else (\<exists>R rest. do_add a b to = Inr (if ok then E_DEC_OK else E_DEC_TRUNCATED,
           to\<lparr>d_sign := d_sign a, d_frac := (if ok then max (d_frac a) (d_frac b) else min (max (d_frac a) (d_frac b)) (int (9 * f0))),
              d_intg := int (9 * i0), d_buf := R @ rest\<rparr>) \<and>
         length R = i0 + f0 \<and> length (R @ rest) = length (d_buf to) \<and> digs R \<and>
         wval R = wval (take (iw a + min (fw a) f0) (d_buf a)) * DIG_BASE ^ (f0 - min (fw a) f0) +
           wval (take (iw b + min (fw b) f0) (d_buf b)) * DIG_BASE ^ (f0 - min (fw b) f0))"
    using do_add_run [OF oa(1) ob(1) len] by blast
  define i0 where "i0 = max (iw a) (iw b) + e"
  have fit: "i0 + F \<le> nat (d_len to)" using room e unfolding add_room_def F i0_def by linarith
  then have f0: "min F (nat (d_len to) - i0) = F" "\<not> nat (d_len to) < i0" by simp_all
  have mm: "min (fw a) F = fw a" "min (fw b) F = fw b" using F by simp_all
  obtain R rest where R: "do_add a b to = Inr (E_DEC_OK, to\<lparr>d_sign := d_sign a, d_frac := max (d_frac a) (d_frac b),
      d_intg := int (9 * i0), d_buf := R @ rest\<rparr>)" "length R = i0 + F" "digs R"
    "wval R = mag F a + mag F b"
    using run fit unfolding Let_def i0_def [symmetric] F [symmetric] f0(1) mm mag_def by (auto simp add: f0(2))
  let ?t = "to\<lparr>d_sign := d_sign a, d_frac := max (d_frac a) (d_frac b), d_intg := int (9 * i0), d_buf := R @ rest\<rparr>"
  have "nat (ROUND_UP (max (d_frac a) (d_frac b))) = F" using fw_max oa(3) ob(3) by (simp add: F fw_def)
  moreover have ne: "0 < i0 + F" using oa(4) F i0_def by auto
  moreover have "R \<noteq> []" using ne R(2) by (cases R) auto
  moreover have "0 \<le> max (d_frac a) (d_frac b)" using oa(3) by simp
  ultimately have w: "iw ?t = i0" "fw ?t = F" "dmag ?t = wval R" "dec_struct ?t" "dmag ?t < 10 ^ (nat (d_intg ?t) + 9 * fw ?t)"
    using written [of ?t i0 "max (d_frac a) (d_frac b)" R rest F] R(2,3) by simp_all
  have fr: "max (d_frac a) (d_frac b) \<le> int (9 * F)"
    using iw_fw_bounds(2) [OF oa(3)] iw_fw_bounds(2) [OF ob(3)] unfolding F by auto
  have "10 ^ (9 * F - nat (max (d_frac a) (d_frac b))) dvd mag F a + mag F b"
    using mag_dvd [OF a _ _ fr] mag_dvd [OF b _ _ fr] F by (intro dvd_add) simp_all
  moreover have "mag F a + mag F b = 0 \<longrightarrow> d_sign a = 0"
  proof
    assume "mag F a + mag F b = 0"
    then have "mag F a = 0" using oa(8) [of F] ob(8) [of F] by linarith
    then show "d_sign a = 0" using oa(6) by (simp add: mag_def dmag_def)
  qed
  moreover have "0 < int (9 * i0) + max (d_frac a) (d_frac b)"
    using frac_pos [of "max (d_frac a) (d_frac b)" F i0] oa(3) ne \<open>nat (ROUND_UP (max (d_frac a) (d_frac b))) = F\<close> by simp
  ultimately have "dec_ok ?t" using w R(4) oa(5) by (simp add: dec_ok_def)
  then show ?thesis using R w by (intro exI [of _ ?t]) simp
qed

lemma do_sub_exact:
  assumes a: "dec_ok a" and b: "dec_ok b" and room: "add_room a b to" and F: "F = max (fw a) (fw b)"
  shows "\<exists>to'. do_sub a b to = Inr (E_DEC_OK, to') \<and> dec_ok to' \<and>
    dval to' = (if d_sign a = 0 then 1 else - 1) * (of_int (mag F a - mag F b) / 10 ^ (9 * F))"
proof -
  note oa = dec_okD [OF a] and ob = dec_okD [OF b]
  have len: "int (max (iw a) (iw b) + F) \<le> d_len to" "d_len to \<le> int (length (d_buf to))" "0 < d_len to"
    using room F by (auto simp add: add_room_def)
  note run = do_sub_run [OF oa(1) ob(1) F len]
  show ?thesis
  proof (cases "mag F a = mag F b")
    case True
    let ?t = "to\<lparr>d_buf := 0 # tl (d_buf to), d_intg := 1, d_frac := 0, d_sign := 0\<rparr>"
    show ?thesis using run(1) [OF True] True zero_dec_ok [of "tl (d_buf to)" to] by (intro exI [of _ ?t]) simp
  next
    case False
    define s where "s = (if mag F b < mag F a then d_sign a else 1 - d_sign a)"
    obtain i R rest where R: "do_sub a b to = Inr (E_DEC_OK, to\<lparr>d_sign := s, d_frac := max (d_frac a) (d_frac b),
           d_intg := int (9 * i), d_buf := R @ rest\<rparr>)" "length R = i + F" "digs R" "wval R = \<bar>mag F a - mag F b\<bar>"
      using run(2) [OF False] unfolding s_def [symmetric] by blast
    let ?t = "to\<lparr>d_sign := s, d_frac := max (d_frac a) (d_frac b), d_intg := int (9 * i), d_buf := R @ rest\<rparr>"
    have "nat (ROUND_UP (max (d_frac a) (d_frac b))) = F" using fw_max oa(3) ob(3) by (simp add: F fw_def)
    moreover have ne: "R \<noteq> []" using R(4) False by auto
    ultimately have w: "iw ?t = i" "fw ?t = F" "dmag ?t = wval R" "dec_struct ?t" "dmag ?t < 10 ^ (nat (d_intg ?t) + 9 * fw ?t)"
      using written [of ?t i "max (d_frac a) (d_frac b)" R rest F] R(2,3) oa(3) by auto
    have fr: "max (d_frac a) (d_frac b) \<le> int (9 * F)"
      using iw_fw_bounds(2) [OF oa(3)] iw_fw_bounds(2) [OF ob(3)] unfolding F by auto
    have "10 ^ (9 * F - nat (max (d_frac a) (d_frac b))) dvd mag F a - mag F b"
      using mag_dvd [OF a _ _ fr] mag_dvd [OF b _ _ fr] F by (intro dvd_diff) simp_all
    moreover have "s = 0 \<or> s = 1" using oa(5) by (auto simp add: s_def)
    moreover have "0 < int (9 * i) + max (d_frac a) (d_frac b)"
    proof -
      have "0 < i + F" using ne R(2) by (cases R) auto
      then show ?thesis using frac_pos [of "max (d_frac a) (d_frac b)" F i] oa(3)
        \<open>nat (ROUND_UP (max (d_frac a) (d_frac b))) = F\<close> by simp
    qed
    ultimately have "dec_ok ?t" using w R(4) False by (simp add: dec_ok_def)
    moreover have "dval ?t = (if d_sign a = 0 then 1 else - 1) * (of_int (mag F a - mag F b) / 10 ^ (9 * F))"
      unfolding dval_def w(2,3) R(4) using oa(5) False by (auto simp add: s_def abs_if)
    ultimately show ?thesis using R(1) by blast
  qed
qed

lemma dval_F:
  assumes "dec_ok a" "dec_ok b" "F = max (fw a) (fw b)"
  shows "dval a = (if d_sign a = 0 then 1 else - 1) * (of_int (mag F a) / 10 ^ (9 * F))"
    "dval b = (if d_sign b = 0 then 1 else - 1) * (of_int (mag F b) / 10 ^ (9 * F))"
proof -
  have "fw a \<le> F" "fw b \<le> F" using assms(3) by simp_all
  note F = this
  show "dval a = (if d_sign a = 0 then 1 else - 1) * (of_int (mag F a) / 10 ^ (9 * F))" by (rule dval_mag [OF F(1)])
  show "dval b = (if d_sign b = 0 then 1 else - 1) * (of_int (mag F b) / 10 ^ (9 * F))" by (rule dval_mag [OF F(2)])
qed

lemma takeWhile_shorter: "length (takeWhile P xs) < length xs \<longleftrightarrow> \<not> (\<forall>x\<in>set xs. P x)"
  by (induction xs) auto

text \<open>C20: addition of exact decimals. For well-formed operands of any signs and sizes and a
  destination with room for the longer operand and one carry word, \<open>decimal_add\<close>
  returns \<open>E_DEC_OK\<close>, leaves a well-formed decimal (words below ten to the nine,
  digits within \<open>intg\<close> and \<open>frac\<close>, no negative zero), and its value
  is the sum of the two rational numbers.\<close>

theorem decimal_add_exact:
  assumes "dec_ok a" "dec_ok b" "add_room a b to"
  shows "\<exists>to'. decimal_add a b to = Inr (E_DEC_OK, to') \<and> dec_ok to' \<and> dval to' = dval a + dval b"
proof -
  define F where "F = max (fw a) (fw b)"
  note v = dval_F [OF assms(1,2) F_def]
  show ?thesis
  proof (cases "d_sign a = d_sign b")
    case True
    obtain to' where t: "do_add a b to = Inr (E_DEC_OK, to')" "dec_ok to'" "d_sign to' = d_sign a" "fw to' = F"
      "dmag to' = mag F a + mag F b" using do_add_exact [OF assms F_def] by blast
    have "dval to' = dval a + dval b" unfolding v unfolding dval_def t(3,4,5) True
      by (simp add: add_divide_distrib)
    then show ?thesis using t(1,2) True by (simp add: decimal_add_def)
  next
    case False
    obtain to' where t: "do_sub a b to = Inr (E_DEC_OK, to')" "dec_ok to'"
      "dval to' = (if d_sign a = 0 then 1 else - 1) * (of_int (mag F a - mag F b) / 10 ^ (9 * F))"
      using do_sub_exact [OF assms F_def] by blast
    have "dval to' = dval a + dval b" unfolding v t(3)
      using False dec_okD(5) [OF assms(1)] dec_okD(5) [OF assms(2)] by (auto simp add: diff_divide_distrib)
    then show ?thesis using t(1,2) False by (simp add: decimal_add_def)
  qed
qed

text \<open>C24: subtraction of exact decimals: for well-formed operands and room in the destination,
  \<open>decimal_sub\<close> returns \<open>E_DEC_OK\<close> and leaves a well-formed decimal,
  zero never negative, whose value is the difference of the two rational numbers.\<close>

theorem decimal_sub_exact:
  assumes "dec_ok a" "dec_ok b" "add_room a b to"
  shows "\<exists>to'. decimal_sub a b to = Inr (E_DEC_OK, to') \<and> dec_ok to' \<and> dval to' = dval a - dval b"
proof -
  define F where "F = max (fw a) (fw b)"
  note v = dval_F [OF assms(1,2) F_def]
  show ?thesis
  proof (cases "d_sign a = d_sign b")
    case False
    obtain to' where t: "do_add a b to = Inr (E_DEC_OK, to')" "dec_ok to'" "d_sign to' = d_sign a" "fw to' = F"
      "dmag to' = mag F a + mag F b" using do_add_exact [OF assms F_def] by blast
    have "dval to' = dval a - dval b" unfolding v unfolding dval_def t(3,4,5)
      using False dec_okD(5) [OF assms(1)] dec_okD(5) [OF assms(2)] by (auto simp add: add_divide_distrib)
    then show ?thesis using t(1,2) False by (simp add: decimal_sub_def)
  next
    case True
    obtain to' where t: "do_sub a b to = Inr (E_DEC_OK, to')" "dec_ok to'"
      "dval to' = (if d_sign a = 0 then 1 else - 1) * (of_int (mag F a - mag F b) / 10 ^ (9 * F))"
      using do_sub_exact [OF assms F_def] by blast
    have "dval to' = dval a - dval b" unfolding v t(3) using True
      by (auto simp add: diff_divide_distrib)
    then show ?thesis using t(1,2) True by (simp add: decimal_sub_def)
  qed
qed

subsection \<open>Comparison\<close>

lemma do_sub_cmp_run:
  assumes "dec_struct a" "dec_struct b" "F = max (fw a) (fw b)"
  shows "do_sub_cmp a b = Inr (if mag F a = mag F b then 0
      else if (mag F a < mag F b) = (d_sign a = 1) \<and> (d_sign a = 0 \<or> d_sign a = 1) then 1 else - 1)"
proof -
  obtain c s1 i1 f1 X1 s2 i2 f2 X2 where "sub_order a b = Inr (c, (s1, i1, f1), (s2, i2, f2))"
    "c = None \<and> mag F a = mag F b \<or> c = Some 1 \<and> mag F a < mag F b \<or> c = Some 0 \<and> mag F b < mag F a"
    using sub_order_run [OF assms] by (metis (no_types))
  then show ?thesis by (auto simp add: do_sub_cmp_def)
qed

lemma dval_sign:
  assumes "dec_ok d"
  shows "d_sign d = 0 \<Longrightarrow> 0 \<le> dval d" "d_sign d = 1 \<Longrightarrow> dval d < 0"
proof -
  have "0 \<le> dmag d" "d_sign d = 1 \<Longrightarrow> dmag d \<noteq> 0" using dec_okD(6,7) [OF assms] by auto
  then show "d_sign d = 0 \<Longrightarrow> 0 \<le> dval d" "d_sign d = 1 \<Longrightarrow> dval d < 0"
    by (simp_all add: dval_def)
qed

text \<open>C25: comparison of exact decimals agrees with the order of the rational numbers, however
  many leading or trailing zero words the operands have.\<close>

theorem decimal_cmp_sgn:
  assumes "dec_ok a" "dec_ok b"
  shows "decimal_cmp a b = Inr (if dval a < dval b then - 1 else if dval a = dval b then 0 else 1)"
proof (cases "d_sign a = d_sign b")
  case True
  define F where "F = max (fw a) (fw b)"
  note v = dval_F [OF assms F_def]
  have c: "of_int x / (10 :: rat) ^ n < of_int y / 10 ^ n \<longleftrightarrow> x < y" for x y :: int and n :: nat
    by (simp add: divide_less_cancel)
  show ?thesis
    using do_sub_cmp_run [OF dec_okD(1) [OF assms(1)] dec_okD(1) [OF assms(2)] F_def]
      dec_okD(5) [OF assms(1)] True unfolding decimal_cmp_def v by (auto simp add: c)
next
  case False
  then show ?thesis
    using dec_okD(5) [OF assms(1)] dec_okD(5) [OF assms(2)] dval_sign [OF assms(1)] dval_sign [OF assms(2)]
    by (auto simp add: decimal_cmp_def)
qed

lemma decimal_is_zero_iff:
  assumes "dec_ok a"
  shows "decimal_is_zero a = Inr (dval a = 0)"
proof -
  note s = dec_okD(1) [OF assms]
  define xs where "xs = take (iw a + fw a) (d_buf a)"
  have b: "d_buf a = [] @ xs @ drop (iw a + fw a) (d_buf a)" and l: "length xs = iw a + fw a" and d: "digs xs"
    using dec_struct_words(3,5) [OF s] by (simp_all add: xs_def)
  have "skip_zeros (d_buf a) (int (iw a) + int (fw a)) 0 = Inr (int (length (takeWhile (\<lambda>w. w = 0) xs)))"
    using skip_zeros_words [of "int (iw a) + int (fw a)" "[]" xs 0 "drop (iw a + fw a) (d_buf a)"] l b by simp
  moreover have "int (length (takeWhile (\<lambda>w. w = 0) xs)) < int (iw a) + int (fw a) \<longleftrightarrow> wval xs \<noteq> 0"
    using wval_0_iff [OF d] takeWhile_shorter [of "\<lambda>w. w = 0" xs] l by auto
  ultimately show ?thesis using dec_struct_words(1,2) [OF s]
    by (simp add: decimal_is_zero_def dval_def dmag_def flip: xs_def)
qed

subsection \<open>Concrete decimals\<close>

text \<open>1.5, -2.75 and a destination of three words.\<close>

definition dec_a :: decimal_t where
  "dec_a = \<lparr>d_intg = 1, d_frac = 1, d_len = 2, d_sign = 0, d_buf = [1, 500000000]\<rparr>"

definition dec_b :: decimal_t where
  "dec_b = \<lparr>d_intg = 1, d_frac = 2, d_len = 2, d_sign = 1, d_buf = [2, 750000000]\<rparr>"

definition dec_to :: decimal_t where
  "dec_to = \<lparr>d_intg = 0, d_frac = 0, d_len = 3, d_sign = 0, d_buf = [7, 7, 7]\<rparr>"

lemma dec_words: "iw dec_a = 1" "fw dec_a = 1" "iw dec_b = 1" "fw dec_b = 1"
  by (simp_all add: iw_def fw_def dec_a_def dec_b_def ROUND_UP_def sdiv_nonneg)

lemma dmag_ab: "dmag dec_a = 1500000000" "dmag dec_b = 2750000000"
  by (simp_all add: dmag_def dec_words) (simp_all add: dec_a_def dec_b_def)

lemma dec_struct_ab: "dec_struct dec_a" "dec_struct dec_b"
  by (simp_all add: dec_struct_def dec_words) (simp_all add: dec_a_def dec_b_def)

lemma dec_ok_a: "dec_ok dec_a"
  unfolding dec_ok_def dmag_ab dec_words using dec_struct_ab(1) by (simp add: dec_a_def)

lemma dec_ok_b: "dec_ok dec_b"
  unfolding dec_ok_def dmag_ab dec_words using dec_struct_ab(2) by (simp add: dec_b_def)

lemma dec_room: "add_room dec_a dec_b dec_to"
  unfolding add_room_def dec_words by (simp add: dec_to_def)

lemma dval_a: "dval dec_a = 3 / 2" and dval_b: "dval dec_b = - 11 / 4"
  unfolding dval_def dmag_ab dec_words by (simp_all add: dec_a_def dec_b_def)

lemma decimal_add_exact_witness:
  "\<exists>to'. decimal_add dec_a dec_b dec_to = Inr (E_DEC_OK, to') \<and> dec_ok to' \<and> dval to' = - 5 / 4"
  using decimal_add_exact [OF dec_ok_a dec_ok_b dec_room] by (simp add: dval_a dval_b)

lemma decimal_sub_exact_witness:
  "\<exists>to'. decimal_sub dec_a dec_b dec_to = Inr (E_DEC_OK, to') \<and> dec_ok to' \<and> dval to' = 17 / 4"
  using decimal_sub_exact [OF dec_ok_a dec_ok_b dec_room] by (simp add: dval_a dval_b)

lemma decimal_cmp_sgn_witness: "decimal_cmp dec_b dec_a = Inr (- 1)"
  using decimal_cmp_sgn [OF dec_ok_b dec_ok_a] by (simp add: dval_a dval_b)

lemma decimal_is_zero_example: "decimal_is_zero dec_b = Inr False"
  using decimal_is_zero_iff [OF dec_ok_b] by (simp add: dval_b)

end
