(* ===== verification/DecimalProduct.thy ===== *)
theory DecimalProduct
  imports DecimalMul DecimalSum
begin

text \<open>
  The product of two decimals is exact and well formed: the schoolbook loops
  (\<open>mul_rows_words\<close>) and the clean-up behind them (\<open>mul_finish_zero\<close>, \<open>mul_finish_shift\<close>).
\<close>

declare mul_row.simps [simp del] mul_ripple.simps [simp del] mul_rows.simps [simp del]
  all_zero_words.simps [simp del] drop_lead_words.simps [simp del]

lemma dec1_of_small: "0 \<le> x \<Longrightarrow> x < 2147483648 \<Longrightarrow> dec1_of x = x"
  by (simp add: dec1_of_def signed_take_bit_int_eq_self)

lemma ADD2_words:
  assumes "0 \<le> v" "v < DIG_BASE" "0 \<le> w" "w < DIG_BASE" "0 \<le> c" "c < DIG_BASE"
  obtains a c' where "ADD2 v w c = (a, c')" "a + c' * DIG_BASE = v + w + c" "0 \<le> a" "a < DIG_BASE" "0 \<le> c'"
proof -
  define s where "s = v + w + c"
  have s: "0 \<le> s" "s < 3 * DIG_BASE" using assms by (simp_all add: s_def)
  consider "s < DIG_BASE" | "DIG_BASE \<le> s" "s < 2 * DIG_BASE" | "2 * DIG_BASE \<le> s" by linarith
  then show ?thesis
  proof cases
    case 1
    then have "ADD2 v w c = (s, 0)" using s by (simp add: ADD2_def Let_def dec1_of_small flip: s_def)
    then show ?thesis using that 1 s unfolding s_def by force
  next
    case 2
    then have "ADD2 v w c = (s - DIG_BASE, 1)" using s by (simp add: ADD2_def Let_def dec1_of_small flip: s_def)
    then show ?thesis using that [of "s - DIG_BASE" 1] 2 s unfolding s_def by simp
  next
    case 3
    then have "ADD2 v w c = (s - 2 * DIG_BASE, 2)" using s by (simp add: ADD2_def Let_def dec1_of_small flip: s_def)
    then show ?thesis using that [of "s - 2 * DIG_BASE" 2] 3 s unfolding s_def by simp
  qed
qed

lemma word_product:
  assumes x: "0 \<le> x" "x < DIG_BASE" and w: "0 \<le> w" "w < DIG_BASE"
  defines "hi \<equiv> dec1_of (x * w sdiv DIG_BASE)"
  shows "dec1_of (x * w - hi * DIG_BASE) = x * w - hi * DIG_BASE" "0 \<le> hi" "hi < DIG_BASE - 1"
    "0 \<le> x * w - hi * DIG_BASE" "x * w - hi * DIG_BASE < DIG_BASE"
proof -
  have p: "0 \<le> x * w" using x w by simp
  have "x * w \<le> (DIG_BASE - 1) * (DIG_BASE - 1)" using x w by (intro mult_mono) simp_all
  then have q: "x * w div DIG_BASE < DIG_BASE - 1" by (simp add: zdiv_int flip: div_less_iff_less_mult)
  have d: "x * w sdiv DIG_BASE = x * w div DIG_BASE" using p by (simp add: sdiv_nonneg)
  have h: "hi = x * w div DIG_BASE" unfolding hi_def d using p q by (intro dec1_of_small) simp_all
  have m: "x * w - hi * DIG_BASE = x * w mod DIG_BASE" unfolding h by (simp add: minus_div_mult_eq_mod)
  have "0 \<le> x * w mod DIG_BASE" "x * w mod DIG_BASE < DIG_BASE" by simp_all
  then show "dec1_of (x * w - hi * DIG_BASE) = x * w - hi * DIG_BASE" "0 \<le> x * w - hi * DIG_BASE"
    "x * w - hi * DIG_BASE < DIG_BASE" unfolding m by (simp_all add: dec1_of_small)
  show "0 \<le> hi" "hi < DIG_BASE - 1" using p q by (simp_all add: h)
qed

lemma mul_row_words:
  "length ys = length ws \<Longrightarrow> stop = int (length rp) \<Longrightarrow> i0 = int (length tp + length ws) - 1 \<Longrightarrow>
    i2 = int (length rp + length ws) - 1 \<Longrightarrow> digs ws \<Longrightarrow> digs ys \<Longrightarrow> 0 \<le> x \<Longrightarrow> x < DIG_BASE \<Longrightarrow>
    0 \<le> c \<Longrightarrow> c < DIG_BASE \<Longrightarrow>
   \<exists>zs c'. mul_row x (rp @ ws @ rq) stop (tp @ ys @ tq) i0 i2 c = Inr (tp @ zs @ tq, int (length tp) - 1, c') \<and>
     length zs = length ws \<and> digs zs \<and> 0 \<le> c' \<and> c' < DIG_BASE \<and>
     wval zs + c' * DIG_BASE ^ length ws = wval ys + x * wval ws + c"
proof (induction ws arbitrary: ys rq tq i0 i2 c rule: rev_induct)
  case Nil
  then show ?case by (intro exI [of _ "[]"] exI [of _ c]) (auto simp add: mul_row.simps)
next
  case (snoc w ws)
  then obtain ys' y where ys: "ys = ys' @ [y]" by (cases ys rule: rev_exhaust) auto
  define hi where "hi = dec1_of (x * w sdiv DIG_BASE)"
  define lo where "lo = x * w - hi * DIG_BASE"
  have w: "0 \<le> w" "w < DIG_BASE" "0 \<le> y" "y < DIG_BASE" using snoc.prems by (simp_all add: ys)
  note pr = word_product [OF snoc.prems(7,8) w(1,2), folded hi_def, folded lo_def]
  have r: "nthZ (rp @ (ws @ [w]) @ rq) i2 = Inr w"
    using nthZ_mid [of i2 "rp @ ws" w rq] snoc.prems by simp
  have r0: "nthZ (tp @ ys @ tq) i0 = Inr y"
    using nthZ_mid [of i0 "tp @ ys'" y tq] snoc.prems by (simp add: ys)
  obtain a c1 where a: "ADD2 y lo c = (a, c1)" "a + c1 * DIG_BASE = y + lo + c" "0 \<le> a" "a < DIG_BASE" "0 \<le> c1"
    using ADD2_words [of y lo c] pr w snoc.prems by metis
  have wr: "putZ (tp @ ys @ tq) i0 [a] = Inr (tp @ ys' @ a # tq)"
    using putZ_mid [of i0 "tp @ ys'" y tq a] snoc.prems by (simp add: ys)
  have sum: "a + (c1 + hi) * DIG_BASE = y + x * w + c" using a(2) by (simp add: lo_def algebra_simps)
  have "x * w \<le> (DIG_BASE - 1) * (DIG_BASE - 1)" using w snoc.prems by (intro mult_mono) simp_all
  moreover have "y \<le> DIG_BASE - 1" "c \<le> DIG_BASE - 1" using w snoc.prems by simp_all
  ultimately have "(c1 + hi) * DIG_BASE \<le> (DIG_BASE - 1) * (DIG_BASE - 1) + (DIG_BASE - 1) + (DIG_BASE - 1)"
    using sum a(3) by linarith
  then have c2: "0 \<le> c1 + hi" "c1 + hi < DIG_BASE" using a(5) pr(2) by simp_all
  have i32: "i32 (c1 + hi) = Inr (c1 + hi)" using c2 by (intro i32_in) linarith+
  obtain zs c' where z: "mul_row x (rp @ ws @ w # rq) stop (tp @ ys' @ a # tq) (i0 - 1) (i2 - 1) (c1 + hi) =
      Inr (tp @ zs @ a # tq, int (length tp) - 1, c')" "length zs = length ws" "digs zs" "0 \<le> c'" "c' < DIG_BASE"
    "wval zs + c' * DIG_BASE ^ length ws = wval ys' + x * wval ws + (c1 + hi)"
    using snoc.IH [of ys' "i0 - 1" "i2 - 1" "c1 + hi" "w # rq" "a # tq"] snoc.prems c2
    by (auto simp add: ys)
  have "wval (zs @ [a]) + c' * DIG_BASE ^ length (ws @ [w]) =
      (wval zs + c' * DIG_BASE ^ length ws) * DIG_BASE + a"
    by (simp add: wval_append algebra_simps)
  also have "\<dots> = wval ys' * DIG_BASE + x * wval ws * DIG_BASE + (a + (c1 + hi) * DIG_BASE)"
    unfolding z(6) by (simp add: algebra_simps)
  also have "\<dots> = wval ys + x * wval (ws @ [w]) + c"
    unfolding sum by (simp add: ys wval_append algebra_simps)
  finally have v: "wval (zs @ [a]) + c' * DIG_BASE ^ length (ws @ [w]) = wval ys + x * wval (ws @ [w]) + c" .
  have "mul_row x (rp @ (ws @ [w]) @ rq) stop (tp @ ys @ tq) i0 i2 c = Inr (tp @ (zs @ [a]) @ tq, int (length tp) - 1, c')"
  proof -
    have "stop \<le> i2" using snoc.prems by simp
    then show ?thesis using z(1)
      by (subst mul_row.simps, simp add: r r0 hi_def [symmetric] lo_def [symmetric] pr(1) a(1) wr i32 Let_def del: append_assoc, simp)
  qed
  then show ?case using v z(2-5) a(3,4) by (intro exI [of _ "zs @ [a]"] exI [of _ c']) simp
qed

lemma mul_ripple_0 [simp]: "mul_ripple to i 0 = Inr (True, to)"
  by (simp add: mul_ripple.simps)

lemma replicate_snoc: "replicate (Suc n) x = replicate n x @ [x]"
  by (induction n) simp_all

lemma mul_rows_words:
  "length ys = length ws \<Longrightarrow> ws \<noteq> [] \<Longrightarrow> stop1 = int (length sp) \<Longrightarrow> stop2 = int (length rp) \<Longrightarrow>
    start0 = int (k + length ws) - 1 \<Longrightarrow> start2 = int (length rp + length ws) - 1 \<Longrightarrow>
    i1 = int (length sp + length xs) - 1 \<Longrightarrow> length xs \<le> k + 1 \<Longrightarrow> digs xs \<Longrightarrow> digs ws \<Longrightarrow> digs ys \<Longrightarrow>
    wval ys + wval xs * wval ws < DIG_BASE ^ (k + length ws) \<Longrightarrow>
   \<exists>R. mul_rows (sp @ xs @ sq) stop1 (rp @ ws @ rq) stop2 start2 (replicate k 0 @ ys @ tq) start0 i1 = Inr (True, R @ tq) \<and>
     length R = k + length ws \<and> digs R \<and> wval R = wval ys + wval xs * wval ws"
proof (induction xs arbitrary: ys sq tq k start0 i1 rule: rev_induct)
  case Nil
  then show ?case
    by (intro exI [of _ "replicate k 0 @ ys"]) (simp add: mul_rows.simps wval_append)
next
  case (snoc x xs)
  let ?B = "length ws"
  have x: "0 \<le> x" "x < DIG_BASE" "digs xs" using snoc.prems by simp_all
  have B: "0 < ?B" using snoc.prems(2) by simp
  have r: "nthZ (sp @ (xs @ [x]) @ sq) i1 = Inr x"
    using nthZ_mid [of i1 "sp @ xs" x sq] snoc.prems by simp
  obtain zs c where z: "mul_row x (rp @ ws @ rq) stop2 (replicate k 0 @ ys @ tq) start0 start2 0 =
      Inr (replicate k 0 @ zs @ tq, int k - 1, c)" "length zs = ?B" "digs zs" "0 \<le> c" "c < DIG_BASE"
    "wval zs + c * DIG_BASE ^ ?B = wval ys + x * wval ws"
    using mul_row_words [of ys ws stop2 rp start0 "replicate k 0" start2 x 0 rq tq] snoc.prems by auto
  have ge: "start2 \<ge> stop2" "i1 \<ge> stop1" using snoc.prems B by simp_all
  have step: "mul_rows (sp @ (xs @ [x]) @ sq) stop1 (rp @ ws @ rq) stop2 start2 (replicate k 0 @ ys @ tq) start0 i1 =
      bindE (mul_carry (replicate k 0 @ zs @ tq) (int k - 1) c) (\<lambda>(fits, to).
        if fits then mul_rows (sp @ (xs @ [x]) @ sq) stop1 (rp @ ws @ rq) stop2 start2 to (start0 - 1) (i1 - 1)
        else Inr (False, to))"
    using ge by (subst mul_rows.simps) (simp add: r z(1) del: append_assoc)
  have wx: "0 \<le> wval xs * wval ws" "0 \<le> wval ys" "0 \<le> wval zs"
    using wval_bounds [OF x(3)] wval_bounds [OF snoc.prems(10)] wval_bounds [OF snoc.prems(11)] wval_bounds [OF z(3)] by simp_all
  have total: "wval ys + wval (xs @ [x]) * wval ws = wval zs + c * DIG_BASE ^ ?B + wval xs * wval ws * DIG_BASE"
    unfolding z(6) by (simp add: wval_append algebra_simps)
  show ?case
  proof (cases k)
    case 0
    then have xs: "xs = []" using snoc.prems(8) by simp
    have "c = 0"
    proof (rule ccontr)
      assume "c \<noteq> 0"
      then have "1 * DIG_BASE ^ ?B \<le> c * DIG_BASE ^ ?B" using z(4) by (intro mult_right_mono) simp_all
      then show False using snoc.prems(12) wx unfolding total 0 add_0 mult_1 by linarith
    qed
    then have "mul_rows (sp @ (xs @ [x]) @ sq) stop1 (rp @ ws @ rq) stop2 start2 (replicate k 0 @ ys @ tq) start0 i1 = Inr (True, zs @ tq)"
      unfolding step using 0 xs snoc.prems(3,7) by (simp add: mul_carry_def mul_rows.simps)
    then show ?thesis using z(2,3) total \<open>c = 0\<close> xs 0 by (intro exI [of _ zs]) simp
  next
    case (Suc m)
    have carry: "mul_carry (replicate k 0 @ zs @ tq) (int k - 1) c = Inr (True, replicate m 0 @ (c # zs) @ tq)"
    proof (cases "c = 0")
      case True
      then show ?thesis unfolding Suc replicate_snoc by (simp add: mul_carry_def)
    next
      case False
      have "ADD2 0 0 c = (c, 0)" using z(4,5) by (simp add: ADD2_def dec1_of_small)
      then show ?thesis using False nthZ_mid [of "int m" "replicate m 0" 0 "zs @ tq"]
          putZ_mid [of "int m" "replicate m 0" 0 "zs @ tq" c]
        unfolding Suc replicate_snoc by (simp add: mul_carry_def)
    qed
    obtain zs' l where zs: "zs = zs' @ [l]" using z(2) B by (cases zs rule: rev_exhaust) auto
    define R1 where "R1 = c # zs'"
    have R1: "length R1 = ?B" "digs R1" "c # zs = R1 @ [l]" "0 \<le> l" "l < DIG_BASE"
      using z(2-5) by (simp_all add: R1_def zs)
    have v1: "wval R1 * DIG_BASE + l = wval zs + c * DIG_BASE ^ ?B"
    proof -
      have "wval (R1 @ [l]) = wval (c # zs)" using R1(3) by simp
      then show ?thesis using z(2) by (simp add: wval_append)
    qed
    have sum: "(wval R1 + wval xs * wval ws) * DIG_BASE + l = wval ys + wval (xs @ [x]) * wval ws"
      unfolding total using v1 by (simp add: algebra_simps)
    have "(wval R1 + wval xs * wval ws) * DIG_BASE < DIG_BASE ^ (m + ?B) * DIG_BASE"
      using snoc.prems(12) sum R1(4) unfolding Suc by simp
    then have less: "wval R1 + wval xs * wval ws < DIG_BASE ^ (m + ?B)" by simp
    obtain R where R: "mul_rows (sp @ xs @ x # sq) stop1 (rp @ ws @ rq) stop2 start2 (replicate m 0 @ R1 @ l # tq) (start0 - 1) (i1 - 1) =
        Inr (True, R @ l # tq)" "length R = m + ?B" "digs R" "wval R = wval R1 + wval xs * wval ws"
      using snoc.IH [OF R1(1) snoc.prems(2,3,4), of "start0 - 1" m "i1 - 1" "x # sq" "l # tq"] snoc.prems R1(2) less Suc
      by auto
    have "mul_rows (sp @ (xs @ [x]) @ sq) stop1 (rp @ ws @ rq) stop2 start2 (replicate k 0 @ ys @ tq) start0 i1 =
        Inr (True, (R @ [l]) @ tq)"
      unfolding step carry using R(1) R1(3) by simp
    moreover have "wval (R @ [l]) = wval ys + wval (xs @ [x]) * wval ws"
      unfolding sum [symmetric] by (simp add: wval_append R(4))
    ultimately show ?thesis using R(2,3) R1(4,5) Suc by (intro exI [of _ "R @ [l]"]) simp
  qed
qed


subsection \<open>The clean-up of the result\<close>

lemma all_zero_words_all:
  "W \<noteq> [] \<Longrightarrow> buf = int (length p) \<Longrightarrow> stop = int (length p + length W) \<Longrightarrow>
   all_zero_words (p @ W @ q) buf stop = Inr (\<forall>w\<in>set W. w = 0)"
proof (induction W arbitrary: p buf)
  case (Cons w W)
  have in_b: "0 \<le> buf" "buf < int (length (p @ (w # W) @ q))" "(p @ (w # W) @ q) ! nat buf = w"
    using Cons.prems by simp_all
  show ?case
  proof (cases "W = []")
    case True
    then show ?thesis using in_b Cons.prems by (subst all_zero_words.simps) simp
  next
    case False
    have "all_zero_words (p @ (w # W) @ q) (buf + 1) stop = Inr (\<forall>w\<in>set W. w = 0)"
      using Cons.IH [of "buf + 1" "p @ [w]"] False Cons.prems by simp
    moreover have "buf + 1 \<noteq> stop" using False Cons.prems by simp
    ultimately show ?thesis using in_b by (cases "w = 0"; subst all_zero_words.simps) simp_all
  qed
qed simp

lemma drop_lead_words_zeros:
  "W \<noteq> [] \<Longrightarrow> buf1 = int (length p) \<Longrightarrow> i \<le> length W \<Longrightarrow>
   \<exists>k. drop_lead_words (p @ W @ q) buf1 (int i * DIG_PER_DEC1) d =
       Inr (buf1 + int k, int (i - k) * DIG_PER_DEC1, d - int k) \<and>
     k \<le> i \<and> (0 < i \<longrightarrow> k < i) \<and> W = replicate k 0 @ drop k W"
proof (induction i arbitrary: p W buf1 d)
  case 0
  then show ?case using nthZ_mid [of buf1 p "hd W" "tl W @ q"]
    by (intro exI [of _ 0], subst drop_lead_words.simps) (cases W; simp)
next
  case (Suc i)
  obtain w W' where W: "W = w # W'" using Suc.prems by (cases W) auto
  have r: "nthZ (p @ W @ q) buf1 = Inr w" using nthZ_mid [of buf1 p w "W' @ q"] Suc.prems by (simp add: W)
  show ?case
  proof (cases "0 < i \<and> w = 0")
    case True
    then have W': "W' \<noteq> []" "i \<le> length W'" using Suc.prems W by auto
    obtain k where k: "drop_lead_words (p @ W @ q) (buf1 + 1) (int i * DIG_PER_DEC1) (d - 1) =
       Inr (buf1 + 1 + int k, int (i - k) * DIG_PER_DEC1, d - 1 - int k)" "k \<le> i" "0 < i \<longrightarrow> k < i" "W' = replicate k 0 @ drop k W'"
      using Suc.IH [OF W'(1) _ W'(2), of "buf1 + 1" "p @ [0]" "d - 1"] Suc.prems True by (auto simp add: W)
    have "drop_lead_words (p @ W @ q) buf1 (int (Suc i) * DIG_PER_DEC1) d =
        Inr (buf1 + int (Suc k), int (Suc i - Suc k) * DIG_PER_DEC1, d - int (Suc k))"
      using k(1) True r by (subst drop_lead_words.simps) (simp add: algebra_simps)
    moreover have "W = replicate (Suc k) 0 @ drop (Suc k) W" using k(4) True W by simp
    ultimately show ?thesis using k(2,3) True by (intro exI [of _ "Suc k"]) simp
  next
    case False
    then have "drop_lead_words (p @ W @ q) buf1 (int (Suc i) * DIG_PER_DEC1) d = Inr (buf1, int (Suc i) * DIG_PER_DEC1, d)"
      using r by (subst drop_lead_words.simps) auto
    then show ?thesis by (intro exI [of _ 0]) simp
  qed
qed

lemma copy_up_words:
  "M \<noteq> [] \<Longrightarrow> cur = int (length P) \<Longrightarrow> i1 = int (length P + length M) \<Longrightarrow>
   \<exists>q'. copy_up (P @ M @ xs @ q) cur i1 (length xs) = Inr (P @ xs @ q') \<and> length q' = length M + length q"
proof (induction xs arbitrary: P M cur i1)
  case (Cons x xs)
  obtain m M' where M: "M = m # M'" using Cons.prems by (cases M) auto
  have r: "nthZ (P @ M @ (x # xs) @ q) i1 = Inr x"
    using nthZ_mid [of i1 "P @ M" x "xs @ q"] Cons.prems by simp
  have w: "putZ (P @ M @ (x # xs) @ q) cur [x] = Inr ((P @ [x]) @ (M' @ [x]) @ xs @ q)"
    using putZ_mid [of cur P m "M' @ (x # xs) @ q" x] Cons.prems by (simp add: M)
  obtain q' where "copy_up ((P @ [x]) @ (M' @ [x]) @ xs @ q) (cur + 1) (i1 + 1) (length xs) = Inr ((P @ [x]) @ xs @ q')"
    "length q' = length (M' @ [x]) + length q"
    using Cons.IH [of "M' @ [x]" "cur + 1" "P @ [x]" "i1 + 1"] Cons.prems M by auto
  then show ?case using r w M by (intro exI [of _ q']) simp
qed simp

subsection \<open>The product\<close>

definition mul_room :: "decimal_t \<Rightarrow> decimal_t \<Rightarrow> decimal_t \<Rightarrow> bool" where
  "mul_room a b to \<longleftrightarrow> ROUND_UP (d_intg a + d_intg b) + ROUND_UP (d_frac a) + ROUND_UP (d_frac b) \<le> d_len to \<and>
     d_len to \<le> int (length (d_buf to))"

lemma wval_tail_zero:
  assumes "digs (xs @ ys)" "DIG_BASE ^ length ys dvd wval (xs @ ys)"
  shows "wval ys = 0"
proof -
  have "DIG_BASE ^ length ys dvd wval ys"
    using assms(2) unfolding wval_append by (simp add: dvd_add_right_iff)
  moreover have "0 \<le> wval ys" "wval ys < DIG_BASE ^ length ys" using wval_bounds [of ys] assms(1) by simp_all
  ultimately show ?thesis using zdvd_not_zless [of "wval ys" "DIG_BASE ^ length ys"] by linarith
qed

lemma ROUND_UP_add:
  assumes "0 \<le> x" "0 \<le> y"
  shows "ROUND_UP x + ROUND_UP y \<le> ROUND_UP (x + y) + 1" "ROUND_UP y \<le> ROUND_UP (x + y)"
    "0 < x + y \<Longrightarrow> 0 < ROUND_UP (x + y)"
  using assms unfolding ROUND_UP_def by (simp_all add: sdiv_nonneg, linarith?)

lemma mul_words:
  assumes a: "dec_ok a" and b: "dec_ok b" and N: "N = nat (ROUND_UP (d_intg a + d_intg b)) + fw a + fw b"
    and len: "N \<le> length tb"
  shows "\<exists>R. bindE (putZ tb 0 (replicate N 0)) (\<lambda>tb. mul_rows (d_buf a) 0 (d_buf b) 0 (int (iw b) + int (fw b) - 1) tb
      (int N - 1) (int (iw a) + int (fw a) - 1)) = Inr (True, R @ drop N tb) \<and>
    length R = N \<and> digs R \<and> wval R = dmag a * dmag b"
proof -
  note oa = dec_okD [OF a] and ob = dec_okD [OF b]
  note wa = dec_struct_words [OF oa(1)] and wb = dec_struct_words [OF ob(1)]
  define xs where "xs = take (iw a + fw a) (d_buf a)"
  define ws where "ws = take (iw b + fw b) (d_buf b)"
  have src: "d_buf a = [] @ xs @ drop (iw a + fw a) (d_buf a)" "d_buf b = [] @ ws @ drop (iw b + fw b) (d_buf b)"
    by (simp_all add: xs_def ws_def)
  have l: "length xs = iw a + fw a" "length ws = iw b + fw b" "digs xs" "digs ws"
    using wa wb by (simp_all add: xs_def ws_def)
  have "int (iw a) + int (iw b) \<le> ROUND_UP (d_intg a + d_intg b) + 1" "int (iw b) \<le> ROUND_UP (d_intg a + d_intg b)"
    using ROUND_UP_add [of "d_intg a" "d_intg b"] oa(2) ob(2) wa(1) wb(1) by simp_all
  then have n: "iw a + iw b \<le> nat (ROUND_UP (d_intg a + d_intg b)) + 1" "iw b \<le> nat (ROUND_UP (d_intg a + d_intg b))" by linarith+
  define k where "k = N - length ws"
  have k: "N = k + length ws" "length xs \<le> k + 1" using n l N by (simp_all add: k_def)
  have "dmag a * dmag b < 10 ^ (nat (d_intg a) + 9 * fw a) * 10 ^ (nat (d_intg b) + 9 * fw b)"
    using a b oa(7) ob(7) by (intro mult_strict_mono) (simp_all add: dec_ok_def)
  also have "\<dots> \<le> DIG_BASE ^ N"
  proof -
    have "d_intg a + d_intg b \<le> 9 * ROUND_UP (d_intg a + d_intg b)"
      using oa(2) ob(2) unfolding ROUND_UP_def by (simp add: sdiv_nonneg)
    then have "nat (d_intg a) + 9 * fw a + (nat (d_intg b) + 9 * fw b) \<le> 9 * N" using N oa(2) ob(2) by linarith
    then show ?thesis unfolding base_pow by (simp flip: power_add) 
  qed
  finally have less: "wval xs * wval ws < DIG_BASE ^ (k + length ws)" by (simp add: dmag_def xs_def ws_def k(1))
  define ys :: "int list" where "ys = replicate (length ws) 0"
  have rep: "replicate N 0 @ drop N tb = replicate k 0 @ ys @ drop N tb" by (simp add: ys_def k(1) replicate_add)
  have put: "putZ tb 0 (replicate N 0) = Inr (replicate N 0 @ drop N tb)" using len by (simp add: putZ_def poke_def)
  have idx: "int (iw b) + int (fw b) - 1 = int (length ([] :: int list) + length ws) - 1" "int N - 1 = int (k + length ws) - 1"
    "int (iw a) + int (fw a) - 1 = int (length ([] :: int list) + length xs) - 1" "(0 :: int) = int (length ([] :: int list))"
    using l k(1) by simp_all
  have ne: "ws \<noteq> []" using ob(4) l(2) by auto
  have "length ys = length ws" "digs ys" "wval ys + wval xs * wval ws < DIG_BASE ^ (k + length ws)"
    using less by (simp_all add: ys_def)
  then obtain R where "mul_rows ([] @ xs @ drop (iw a + fw a) (d_buf a)) 0 ([] @ ws @ drop (iw b + fw b) (d_buf b)) 0
      (int (iw b) + int (fw b) - 1) (replicate k 0 @ ys @ drop N tb) (int N - 1) (int (iw a) + int (fw a) - 1) = Inr (True, R @ drop N tb)"
      "length R = k + length ws" "digs R" "wval R = wval ys + wval xs * wval ws"
    using mul_rows_words [OF _ ne idx(4) idx(4) idx(2) idx(1) idx(3) k(2) l(3,4)] by blast
  then show ?thesis unfolding put bindE_simps rep src [symmetric] using k(1)
    by (intro exI [of _ R]) (simp add: ys_def dmag_def xs_def ws_def)
qed


text \<open>The words of the product without leading zero words and without the words behind the scale.\<close>

lemma product_words:
  assumes R: "length R = i0 + f0" "digs R" "R = replicate k 0 @ drop k R" "k \<le> i0"
    and f: "f \<le> f0" "10 ^ (9 * f0 - fr) dvd wval R" "fr \<le> 9 * f"
    and w: "d_intg to' = int (9 * (i0 - k))" "d_frac to' = int fr" "d_buf to' = take (i0 - k + f) (drop k R) @ rest"
      "nat (ROUND_UP (int fr)) = f" "0 < i0 - k + f"
  shows "iw to' = i0 - k" "fw to' = f" "dec_struct to'" "dmag to' < 10 ^ (nat (d_intg to') + 9 * f)"
    "dmag to' * 10 ^ (9 * (f0 - f)) = wval R" "10 ^ (9 * f - fr) dvd dmag to'"
proof -
  define X where "X = take (i0 - k + f) (drop k R)"
  define Y where "Y = drop (i0 - k + f) (drop k R)"
  have XY: "drop k R = X @ Y" "length X = i0 - k + f" "length Y = f0 - f" "digs (X @ Y)"
  proof -
    show a: "drop k R = X @ Y" unfolding X_def Y_def by (rule append_take_drop_id [symmetric])
    show "length X = i0 - k + f" "length Y = f0 - f" using R(1,4) f(1) by (simp_all add: X_def Y_def)
    show "digs (X @ Y)" unfolding a [symmetric] by (rule digs_take_drop(2) [OF R(2)])
  qed
  have "X \<noteq> []" using XY(2) w(5) by (cases X) auto
  note wr = written [OF w(1,2) w(3) [folded X_def] XY(2) _ _ w(4) this]
  show 1: "iw to' = i0 - k" "fw to' = f" "dec_struct to'" "dmag to' < 10 ^ (nat (d_intg to') + 9 * f)"
    using wr XY(4) by simp_all
  have v: "wval R = wval (X @ Y)" by (subst R(3)) (simp add: wval_append XY(1))
  have e: "9 * f0 - fr = 9 * f - fr + 9 * (f0 - f)" using f by simp
  have "DIG_BASE ^ length Y dvd wval (X @ Y)"
    using f(2) unfolding v XY(3) base_pow e power_add by (rule dvd_mult_right)
  from wval_tail_zero [OF XY(4) this] have "wval R = dmag to' * 10 ^ (9 * (f0 - f))"
    unfolding v using wr(3) XY(4) w(4) by (simp add: wval_append XY(3) base_pow)
  then show "dmag to' * 10 ^ (9 * (f0 - f)) = wval R" ..
  with f(2) show "10 ^ (9 * f - fr) dvd dmag to'" unfolding e power_add by (metis dvd_mult_cancel_right power_eq_0_iff zero_neq_numeral)
qed


lemma drop_lead_words_none:
  "b \<noteq> [] \<Longrightarrow> intg \<le> DIG_PER_DEC1 \<Longrightarrow> drop_lead_words b 0 intg d = Inr (0, intg, d)"
  by (subst drop_lead_words.simps) (simp add: nthZ_0)

lemma dval_product:
  assumes a: "dec_ok a" and b: "dec_ok b" and s: "d_sign to' = of_bool (d_sign a \<noteq> d_sign b)"
    and m: "dmag to' * 10 ^ (9 * (fw a + fw b - fw to')) = dmag a * dmag b" "fw to' \<le> fw a + fw b"
  shows "dval to' = dval a * dval b"
proof -
  have "9 * (fw a + fw b) = 9 * (fw a + fw b - fw to') + 9 * fw to'" using m(2) by simp
  then have p: "(10 :: rat) ^ (9 * (fw a + fw b)) = 10 ^ (9 * (fw a + fw b - fw to')) * 10 ^ (9 * fw to')"
    by (metis power_add)
  have "of_int (dmag a) / 10 ^ (9 * fw a) * (of_int (dmag b) / 10 ^ (9 * fw b)) =
      of_int (dmag a * dmag b) / (10 :: rat) ^ (9 * (fw a + fw b))"
    by (simp add: power_add distrib_left)
  also have "\<dots> = of_int (dmag to') / 10 ^ (9 * fw to')" unfolding m(1) [symmetric] p by simp
  finally show ?thesis using dec_okD(5) [OF a] dec_okD(5) [OF b] unfolding dval_def s by auto
qed

text \<open>The word and digit counts of a product.\<close>

lemma mul_counts:
  assumes a: "dec_ok a" and b: "dec_ok b"
    and i0: "i0 = nat (ROUND_UP (d_intg a + d_intg b))" and f0: "f0 = fw a + fw b"
    and f: "f = nat (ROUND_UP (d_frac a + d_frac b))" and fr: "fr = nat (d_frac a + d_frac b)"
  shows "ROUND_UP (d_intg a + d_intg b) = int i0" "ROUND_UP (d_frac a + d_frac b) = int f" "f \<le> f0" "fr \<le> 9 * f"
    "d_frac a + d_frac b = int fr" "0 < i0 \<or> 0 < f" "10 ^ (9 * f0 - fr) dvd dmag a * dmag b"
proof -
  note oa = dec_okD [OF a] and ob = dec_okD [OF b]
  show i: "ROUND_UP (d_intg a + d_intg b) = int i0"
    using ROUND_UP_nonneg [of "d_intg a + d_intg b"] oa(2) ob(2) by (simp add: i0)
  show fi: "ROUND_UP (d_frac a + d_frac b) = int f"
    using ROUND_UP_nonneg [of "d_frac a + d_frac b"] oa(3) ob(3) by (simp add: f)
  show e: "d_frac a + d_frac b = int fr" using oa(3) ob(3) by (simp add: fr)
  have "d_frac a + d_frac b \<le> int (9 * f0)" using iw_fw_bounds(2) [OF oa(3)] iw_fw_bounds(2) [OF ob(3)] by (simp add: f0)
  then have "ROUND_UP (d_frac a + d_frac b) \<le> ROUND_UP (int (9 * f0))" using oa(3) ob(3) by (intro ROUND_UP_mono) simp_all
  then show "f \<le> f0" using fi by simp
  show "fr \<le> 9 * f" using fi unfolding e ROUND_UP_def by (simp add: sdiv_nonneg)
  have "0 < d_intg a + d_intg b \<or> 0 < d_frac a + d_frac b" using a b oa(2,3) ob(2,3) by (auto simp add: dec_ok_def)
  then show "0 < i0 \<or> 0 < f"
    using ROUND_UP_add(3) [OF oa(2) ob(2)] ROUND_UP_add(3) [OF oa(3) ob(3)] i fi by auto
  have d: "10 ^ (9 * fw a - nat (d_frac a)) * 10 ^ (9 * fw b - nat (d_frac b)) dvd dmag a * dmag b"
    using a b by (intro mult_dvd_mono) (simp_all add: dec_ok_def)
  have "9 * f0 - fr = (9 * fw a - nat (d_frac a)) + (9 * fw b - nat (d_frac b))"
    using iw_fw_bounds(2) [OF oa(3)] iw_fw_bounds(2) [OF ob(3)] oa(3) ob(3) by (simp add: f0 fr)
  then show "10 ^ (9 * f0 - fr) dvd dmag a * dmag b" using d by (simp only: power_add)
qed

text \<open>\<open>mul_finish\<close> on the words \<open>R\<close> of a product.\<close>

lemma mul_finish_zero:
  assumes "R \<noteq> []" "digs R" "wval R = 0" "d_sign t \<noteq> 0" "d_buf t = R @ rest" "int (length R) = i + f"
  shows "\<exists>to'. mul_finish e i f t = Inr (e, to') \<and> dec_ok to' \<and> dval to' = 0"
proof -
  let ?t = "t\<lparr>d_buf := 0 # tl (R @ rest), d_intg := 1, d_frac := 0, d_sign := 0\<rparr>"
  have "all_zero_words (R @ rest) 0 (i + f) = Inr True"
    using all_zero_words_all [OF assms(1), of 0 "[]" "i + f" rest] assms(6) wval_0_iff [OF assms(2)] assms(3) by simp
  moreover have "decimal_make_zero t = Inr ?t" using make_zero_run [of t] assms(1,5) by simp
  ultimately have "mul_finish e i f t = Inr (e, ?t)"
    using assms(4,5) by (simp add: mul_finish_def drop_lead_words_none)
  then show ?thesis using zero_dec_ok by blast
qed

lemma mul_finish_shift:
  assumes R: "length R = i0 + f0" "R \<noteq> []" "digs R" and s: "d_sign t = 0 \<or> wval R \<noteq> 0"
    and t: "d_buf t = R @ rest" "d_intg t = int i0 * DIG_PER_DEC1" "ROUND_UP (d_frac t) = int f" and f: "f \<le> f0"
  shows "\<exists>k q. mul_finish e (int i0) (int f0) t =
      Inr (e, t\<lparr>d_intg := int (i0 - k) * DIG_PER_DEC1, d_buf := take (i0 - k + f) (drop k R) @ q\<rparr>) \<and>
    k \<le> i0 \<and> (0 < i0 \<longrightarrow> k < i0) \<and> R = replicate k 0 @ drop k R"
proof -
  have sg: "(if d_sign t \<noteq> 0 then
              bindE (all_zero_words (d_buf t) 0 (int i0 + int f0)) (\<lambda>z. if z then decimal_make_zero t else Inr t)
            else Inr t) = Inr t"
    using all_zero_words_all [OF R(2), of 0 "[]" "int i0 + int f0" rest] R(1) wval_0_iff [OF R(3)] s t(1) by auto
  obtain k where k: "drop_lead_words (R @ rest) 0 (int i0 * DIG_PER_DEC1) (int i0 + int f) =
     Inr (int k, int (i0 - k) * DIG_PER_DEC1, int i0 + int f - int k)" "k \<le> i0" "0 < i0 \<longrightarrow> k < i0"
    "R = replicate k 0 @ drop k R"
    using drop_lead_words_zeros [OF R(2), of 0 "[]" i0 rest "int i0 + int f"] R(1) by auto
  define n where "n = i0 - k + f"
  have kn: "k + n \<le> length R" using R(1) k(2) f by (simp add: n_def)
  obtain q' where q': "(if 0 < int k then if int i0 + int f - int k < 0 then Inl OutOfBounds
             else copy_up (R @ rest) 0 (int k) (nat (int i0 + int f - int k))
           else Inr (R @ rest)) = Inr (take n (drop k R) @ q')"
  proof (cases "k = 0")
    case True
    then show ?thesis using that [of "drop n R @ rest"] by simp
  next
    case kpos: False
    have e: "R @ rest = [] @ replicate k 0 @ take n (drop k R) @ (drop n (drop k R) @ rest)"
      using k(4) by (metis append.left_neutral append_assoc append_take_drop_id)
    have "length (take n (drop k R)) = n" using kn by simp
    moreover have "nat (int i0 + int f - int k) = n" "\<not> int i0 + int f - int k < 0" using k(2) by (simp_all add: n_def)
    moreover have "replicate k (0 :: int) \<noteq> []" using kpos by simp
    ultimately show ?thesis
      using copy_up_words [of "replicate k 0" 0 "[]" "int k" "take n (drop k R)" "drop n (drop k R) @ rest"] that kpos
      unfolding e [symmetric] by auto
  qed
  have "mul_finish e (int i0) (int f0) t =
      Inr (e, t\<lparr>d_intg := int (i0 - k) * DIG_PER_DEC1, d_buf := take n (drop k R) @ q'\<rparr>)"
    unfolding mul_finish_def sg unfolding bindE_simps t k(1) prod.case q' ..
  then show ?thesis using k(2-4) unfolding n_def by blast
qed

lemma decimal_mul_run:
  assumes a: "dec_ok a" and b: "dec_ok b" and room: "mul_room a b to"
    and i0: "i0 = nat (ROUND_UP (d_intg a + d_intg b))" and f0: "f0 = fw a + fw b"
  shows "\<exists>R rest. decimal_mul a b to = mul_finish E_DEC_OK (int i0) (int f0)
      (to\<lparr>d_sign := of_bool (d_sign a \<noteq> d_sign b), d_frac := d_frac a + d_frac b, d_intg := int i0 * DIG_PER_DEC1, d_buf := R @ rest\<rparr>) \<and>
    length R = i0 + f0 \<and> digs R \<and> wval R = dmag a * dmag b"
proof -
  note wa = dec_struct_words [OF dec_okD(1) [OF a]] and wb = dec_struct_words [OF dec_okD(1) [OF b]]
  define N where "N = i0 + fw a + fw b"
  define sg :: int where "sg = of_bool (d_sign a \<noteq> d_sign b)"
  have i: "ROUND_UP (d_intg a + d_intg b) = int i0" using mul_counts(1) [OF a b i0] by blast
  have len: "int N \<le> d_len to" "d_len to \<le> int (length (d_buf to))" using room i wa(2) wb(2)
    by (simp_all add: mul_room_def N_def)
  have Ni: "N = nat (ROUND_UP (d_intg a + d_intg b)) + fw a + fw b" by (simp add: N_def i0)
  have "N \<le> length (d_buf to)" using len by simp
  from mul_words [OF a b Ni this] obtain R where
    R: "bindE (putZ (d_buf to) 0 (replicate N 0)) (\<lambda>tb. mul_rows (d_buf a) 0 (d_buf b) 0 (int (iw b) + int (fw b) - 1) tb
      (int N - 1) (int (iw a) + int (fw a) - 1)) = Inr (True, R @ drop N (d_buf to))"
    "length R = N" "digs R" "wval R = dmag a * dmag b" by blast
  obtain tb where tb: "putZ (d_buf to) 0 (replicate N 0) = Inr tb"
    "mul_rows (d_buf a) 0 (d_buf b) 0 (int (iw b) + int (fw b) - 1) tb (int N - 1) (int (iw a) + int (fw a) - 1) =
     Inr (True, R @ drop N (d_buf to))"
    using R(1) by (cases "putZ (d_buf to) 0 (replicate N 0)") auto
  have fix': "fix_intg_frac_error (d_len to) (int i0) (int f0) = (int i0, int f0, E_DEC_OK)"
    using len by (simp add: fix_intg_frac_error_def N_def f0)
  have s: "int i0 + int f0 = int N" "int (fw a) + int (fw b) = int f0" by (simp_all add: N_def f0)
  have n: "\<not> int N < 0" "nat (int N) = N" by simp_all
  have "decimal_mul a b to = mul_finish E_DEC_OK (int i0) (int f0)
      (to\<lparr>d_sign := of_bool (d_sign a \<noteq> d_sign b), d_frac := d_frac a + d_frac b, d_intg := int i0 * DIG_PER_DEC1,
          d_buf := R @ drop N (d_buf to)\<rparr>)"
    unfolding decimal_mul_def Let_def i wa(1,2) wb(1,2) fix' prod.case simp_thms if_False s n
      diff_self sg_def [symmetric] by (simp add: tb)
  then show ?thesis using R(2-4) by (auto simp add: N_def f0)
qed

text \<open>C21: multiplication of exact decimals. For well-formed operands and a destination with room
  for the product, \<open>decimal_mul\<close> returns \<open>E_DEC_OK\<close> and leaves a
  well-formed decimal whose value is the product of the two rational numbers, also when
  leading zero words are dropped, when the words behind the scale are cut, and when one factor
  is zero.\<close>

theorem decimal_mul_exact:
  assumes a: "dec_ok a" and b: "dec_ok b" and room: "mul_room a b to"
  shows "\<exists>to'. decimal_mul a b to = Inr (E_DEC_OK, to') \<and> dec_ok to' \<and> dval to' = dval a * dval b"
proof -
  define i0 where "i0 = nat (ROUND_UP (d_intg a + d_intg b))"
  define f0 where "f0 = fw a + fw b"
  define f where "f = nat (ROUND_UP (d_frac a + d_frac b))"
  define fr where "fr = nat (d_frac a + d_frac b)"
  note c = mul_counts [OF a b i0_def f0_def f_def fr_def]
  define sg :: int where "sg = of_bool (d_sign a \<noteq> d_sign b)"
  obtain R rest where run: "decimal_mul a b to = mul_finish E_DEC_OK (int i0) (int f0)
      (to\<lparr>d_sign := sg, d_frac := int fr, d_intg := int i0 * DIG_PER_DEC1, d_buf := R @ rest\<rparr>)"
    and R: "length R = i0 + f0" "digs R" "wval R = dmag a * dmag b"
    using decimal_mul_run [OF a b room i0_def f0_def] unfolding sg_def [symmetric] c(5) by blast
  define t0 where "t0 = to\<lparr>d_sign := sg, d_frac := int fr, d_intg := int i0 * DIG_PER_DEC1, d_buf := R @ rest\<rparr>"
  have t0: "d_sign t0 = sg" "d_frac t0 = int fr" "d_intg t0 = int i0 * DIG_PER_DEC1" "d_buf t0 = R @ rest"
    "ROUND_UP (d_frac t0) = int f" using c(2,5) by (simp_all add: t0_def)
  have nR: "R \<noteq> []" using R(1) c(3,6) by auto
  show ?thesis
  proof (cases "sg \<noteq> 0 \<and> wval R = 0")
    case True
    then have z: "dval a * dval b = 0" using R(3) by (auto simp add: dval_def)
    show ?thesis unfolding run t0_def [symmetric] z
      using True R(1) t0 by (intro mul_finish_zero [OF nR R(2)]) simp_all
  next
    case False
    then have s: "d_sign t0 = 0 \<or> wval R \<noteq> 0" using t0 by simp
    obtain k q where k: "decimal_mul a b to = Inr (E_DEC_OK, t0\<lparr>d_intg := int (i0 - k) * DIG_PER_DEC1, d_buf := take (i0 - k + f) (drop k R) @ q\<rparr>)"
      "k \<le> i0" "0 < i0 \<longrightarrow> k < i0" "R = replicate k 0 @ drop k R"
      using mul_finish_shift [OF R(1) nR R(2) s t0(4,3,5) c(3), of E_DEC_OK] unfolding run t0_def [symmetric] by blast
    define t where "t = t0\<lparr>d_intg := int (i0 - k) * DIG_PER_DEC1, d_buf := take (i0 - k + f) (drop k R) @ q\<rparr>"
    have t: "d_sign t = sg" "d_frac t = int fr" "d_intg t = int (9 * (i0 - k))" "d_buf t = take (i0 - k + f) (drop k R) @ q"
      using t0 by (simp_all add: t_def)
    have n: "nat (ROUND_UP (int fr)) = f" "0 < i0 - k + f" using c(2,5,6) k(3) by auto
    note w = product_words [OF R(1,2) k(4,2) c(3) c(7) [folded R(3)] c(4) t(3,2,4) n]
    have "dval t = dval a * dval b"
      using w(2,5) c(3) R(3) t(1) by (intro dval_product [OF a b]) (simp_all add: sg_def f0_def)
    moreover have "0 < d_intg t + d_frac t" using frac_pos [of "int fr" f "i0 - k"] n t by simp
    moreover have "dmag t = 0 \<longrightarrow> sg = 0" "sg = 0 \<or> sg = 1" using w(5) False by (auto simp add: sg_def)
    ultimately show ?thesis using k(1) w t unfolding t_def [symmetric] by (intro exI [of _ t]) (simp add: dec_ok_def)
  qed
qed

lemma mul_room_ab: "mul_room dec_a dec_b dec_to"
  by (simp add: mul_room_def dec_a_def dec_b_def dec_to_def ROUND_UP_def sdiv_nonneg)

lemma decimal_mul_exact_witness:
  "\<exists>to'. decimal_mul dec_a dec_b dec_to = Inr (E_DEC_OK, to') \<and> dec_ok to' \<and> dval to' = - 33 / 8"
  using decimal_mul_exact [OF dec_ok_a dec_ok_b mul_room_ab] by (simp add: dval_a dval_b)

end
