(* ===== verification/DecimalDiv.thy ===== *)
theory DecimalDiv
  imports DecimalArith
begin

text \<open>
  Division and modulus of decimals (\<open>do_div_mod\<close> of \<open>src/src/decimal.c\<close>), Knuth's algorithm D
  without a copy of the divisor. \<open>tmp1\<close> is the copy of the dividend that the loop reduces, and
  \<open>alloc\<close> tells whether its \<open>malloc\<close> succeeds. 64-bit sums and products (\<open>dec2\<close>) that
  leave the range are the fault \<open>IntOverflow\<close>.
\<close>

definition i64 :: "int \<Rightarrow> int res" where
  "i64 x = (if - (2 ^ 63) \<le> x \<and> x < 2 ^ 63 then Inr x else Inl IntOverflow)"

text \<open>The macro \<open>SUB2\<close>: the word stored and the new carry.\<close>

definition SUB2 :: "int \<Rightarrow> int \<Rightarrow> int \<Rightarrow> (int \<times> int) res" where
  "SUB2 from1 from2 carry =
     bindE (i32 (from1 - from2)) (\<lambda>a. bindE (i32 (a - carry)) (\<lambda>a.
       let (a, carry) = (if a < 0 then (a + DIG_BASE, 1) else (a, 0));
           (a, carry) = (if a < 0 then (a + DIG_BASE, carry + 1) else (a, carry))
       in Inr (a, carry)))"

text \<open>The start of an operand without leading zeros: its first word and its count of digits.\<close>

definition div_strip :: "int list \<Rightarrow> int \<Rightarrow> (nat \<times> int) res" where
  "div_strip b prec =
     bindE (skip_zero_words b prec ((prec - 1) smod DIG_PER_DEC1 + 1) 0) (\<lambda>(buf, prec).
     if prec \<le> 0 then Inr (buf, 0)
     else
       bindE (nthE b buf) (\<lambda>w.
       bindE (skip_zero_digits w (nat ((prec - 1) smod DIG_PER_DEC1)) prec) (\<lambda>prec.
       Inr (buf, prec))))"

text \<open>\<open>while (*stop2 == 0 && stop2 >= start2) stop2--\<close>\<close>

function trim_last :: "int list \<Rightarrow> int \<Rightarrow> int \<Rightarrow> int res" where
  "trim_last b start2 stop2 =
     (if stop2 \<ge> start2 then
        bindE (nthZ b stop2) (\<lambda>w. if w = 0 then trim_last b start2 (stop2 - 1) else Inr stop2)
      else bindE (nthZ b stop2) (\<lambda>w. Inr stop2))"
  by pat_completeness auto

termination
  by (relation "measure (\<lambda>(b, start2, stop2). nat (stop2 + 1 - start2))") auto

subsection \<open>One step of the main loop\<close>

text \<open>D3: the guess of a quotient word; \<open>ds\<close> is the divisor from \<open>start2\<close> up to \<open>stop2\<close>.\<close>

definition guess_high :: "int \<Rightarrow> int \<Rightarrow> int \<Rightarrow> int \<Rightarrow> int list \<Rightarrow> bool res" where
  "guess_high guess x y d0 ds =
     bindE (nthZ ds 1) (\<lambda>d1.
     bindE (i64 (d1 * guess)) (\<lambda>l.
     bindE (i64 (guess * d0)) (\<lambda>g.
     bindE (i64 ((x - g) * DIG_BASE)) (\<lambda>r.
     bindE (i64 (r + y)) (\<lambda>r. Inr (l > r))))))"

definition div_guess ::
    "int \<Rightarrow> int \<Rightarrow> int list \<Rightarrow> int list \<Rightarrow> int \<Rightarrow> int \<Rightarrow> int res"
where
  "div_guess norm_factor norm2 ds tmp start1 dcarry =
     bindE (nthZ tmp start1) (\<lambda>v. bindE (nthZ ds 0) (\<lambda>d0.
     bindE (nthZ tmp (start1 + 1)) (\<lambda>y.
     let x = v + dcarry * DIG_BASE in
     bindE (i64 (norm_factor * x)) (\<lambda>nx.
     bindE (i64 (nx + norm_factor * y sdiv DIG_BASE)) (\<lambda>n.
     let guess = n sdiv norm2;
         guess = (if guess \<ge> DIG_BASE then DIG_BASE - 1 else guess)
     in
     if length ds > 1 then
       bindE (guess_high guess x y d0 ds) (\<lambda>h.
       let guess = (if h then guess - 1 else guess) in
       bindE (guess_high guess x y d0 ds) (\<lambda>h.
       Inr (if h then guess - 1 else guess)))
     else Inr guess)))))"

text \<open>D4: \<open>guess\<close> times the divisor is subtracted, from the last word upwards.\<close>

fun div_sub :: "int list \<Rightarrow> nat \<Rightarrow> int \<Rightarrow> int list \<Rightarrow> int \<Rightarrow> int \<Rightarrow> (int list \<times> int) res" where
  "div_sub ds 0 guess tmp buf1 carry = Inr (tmp, carry)"
| "div_sub ds (Suc n) guess tmp buf1 carry =
     bindE (nthE ds n) (\<lambda>d.
     let x = guess * d; hi = dec1_of (x sdiv DIG_BASE); lo = dec1_of (x - hi * DIG_BASE) in
     bindE (nthZ tmp buf1) (\<lambda>v.
     bindE (SUB2 v lo carry) (\<lambda>(a, carry).
     bindE (putZ tmp buf1 [a]) (\<lambda>tmp.
     bindE (i32 (carry + hi)) (\<lambda>carry.
     div_sub ds n guess tmp (buf1 - 1) carry)))))"

text \<open>D6: the divisor is added back.\<close>

fun div_add :: "int list \<Rightarrow> nat \<Rightarrow> int list \<Rightarrow> int \<Rightarrow> int \<Rightarrow> int list res" where
  "div_add ds 0 tmp buf1 carry = Inr tmp"
| "div_add ds (Suc n) tmp buf1 carry =
     bindE (nthZ tmp buf1) (\<lambda>v. bindE (nthE ds n) (\<lambda>d.
     bindE (ADD v d carry) (\<lambda>(a, carry).
     bindE (putZ tmp buf1 [a]) (\<lambda>tmp. div_add ds n tmp (buf1 - 1) carry))))"

definition div_step ::
    "int \<Rightarrow> int \<Rightarrow> int list \<Rightarrow> int list \<Rightarrow> int \<Rightarrow> int \<Rightarrow> (int \<times> int list) res"
where
  "div_step norm_factor norm2 ds tmp start1 dcarry =
     bindE (nthZ tmp start1) (\<lambda>v. bindE (nthZ ds 0) (\<lambda>d0.
     if dcarry = 0 \<and> v < d0 then Inr (0, tmp)
     else
       bindE (div_guess norm_factor norm2 ds tmp start1 dcarry) (\<lambda>guess.
       let last' = start1 + (int (length ds) - 1) in
       bindE (div_sub ds (length ds) guess tmp last' 0) (\<lambda>(tmp, carry).
       if dcarry < carry
       then bindE (div_add ds (length ds) tmp last' 0) (\<lambda>tmp. Inr (guess - 1, tmp))
       else Inr (guess, tmp)))))"

text \<open>\<open>for (; buf0 < stop0; buf0++)\<close>; \<open>store\<close> is the code's \<open>div_mod\<close>.\<close>

function div_loop ::
    "bool \<Rightarrow> int \<Rightarrow> int \<Rightarrow> int list \<Rightarrow> int \<Rightarrow> int list \<Rightarrow> int list \<Rightarrow> int \<Rightarrow> int \<Rightarrow> int \<Rightarrow>
      (int list \<times> int list \<times> int \<times> int) res"
where
  "div_loop store norm_factor norm2 ds stop0 b tmp buf0 start1 dcarry =
     (if buf0 < stop0 then
        bindE (div_step norm_factor norm2 ds tmp start1 dcarry) (\<lambda>(guess, tmp).
        bindE (if store then putZ b buf0 [dec1_of guess] else Inr b) (\<lambda>b.
        bindE (nthZ tmp start1) (\<lambda>dcarry.
        div_loop store norm_factor norm2 ds stop0 b tmp (buf0 + 1) (start1 + 1) dcarry)))
      else Inr (b, tmp, start1, dcarry))"
  by pat_completeness auto

termination
  by (relation "measure (\<lambda>(store, nf, n2, ds, stop0, b, tmp, buf0, start1, dcarry). nat (stop0 - buf0))") auto

subsection \<open>The modulus\<close>

text \<open>\<open>while (start1 < stop1) *buf0++ = *start1++\<close>\<close>

function copy_tmp :: "int list \<Rightarrow> int \<Rightarrow> int \<Rightarrow> int list \<Rightarrow> int \<Rightarrow> int list res" where
  "copy_tmp tmp start1 stop1 b buf0 =
     (if start1 < stop1 then
        bindE (nthZ tmp start1) (\<lambda>w.
        bindE (putZ b buf0 [w]) (\<lambda>b. copy_tmp tmp (start1 + 1) stop1 b (buf0 + 1)))
      else Inr b)"
  by pat_completeness auto

termination
  by (relation "measure (\<lambda>(tmp, start1, stop1, b, buf0). nat (stop1 - start1))") auto

text \<open>
  The remainder is taken from \<open>tmp1\<close>. \<open>while (intg0++ < 0)\<close> leaves \<open>intg0\<close> at one, which
  the test of the length after it reads.
\<close>

definition mod_result ::
    "decimal_t \<Rightarrow> decimal_t \<Rightarrow> int list \<Rightarrow> int \<Rightarrow> int \<Rightarrow> int \<Rightarrow> (dec_error \<times> decimal_t) res"
where
  "mod_result from2 to tmp start1 dcarry prec =
     bindE (if dcarry \<noteq> 0
            then bindE (putZ tmp (start1 - 1) [dcarry]) (\<lambda>tmp. Inr (tmp, start1 - 1))
            else Inr (tmp, start1)) (\<lambda>(tmp, start1).
     let intg0 = ROUND_UP prec - start1; frac0 = ROUND_UP (d_frac to) in
     if frac0 = 0 \<and> intg0 = 0 then bindE (decimal_make_zero to) (\<lambda>to. Inr (E_DEC_OK, to))
     else if intg0 \<le> 0 \<and> - intg0 \<ge> d_len to then
       bindE (decimal_make_zero to) (\<lambda>to. Inr (E_DEC_TRUNCATED, to))
     else if \<not> intg0 \<le> 0 \<and> intg0 > d_len to then Inr (E_DEC_OVERFLOW, to)
     else
       bindE (if intg0 \<le> 0
              then bindE (putZ (d_buf to) 0 (replicate (nat (- intg0)) 0)) (\<lambda>b.
                   Inr (b, start1 + frac0, frac0 + intg0, 0, 1, - intg0))
              else Inr (d_buf to, start1 + frac0 + intg0, frac0, min (intg0 * DIG_PER_DEC1) (d_intg from2), intg0, 0))
         (\<lambda>(b, stop1, frac0, intg, intg0, buf0).
       let (stop1, frac, error) =
         (if intg0 + frac0 > d_len to
          then (stop1 - (frac0 + intg0 - d_len to), (d_len to - intg0) * DIG_PER_DEC1, E_DEC_TRUNCATED)
          else (stop1, d_frac to, E_DEC_OK))
       in
       bindE (copy_tmp tmp start1 stop1 b buf0) (\<lambda>b.
       Inr (error, to\<lparr>d_intg := intg, d_frac := frac, d_buf := b\<rparr>))))"

subsection \<open>Division\<close>

text \<open>The main part, for operands that are not zero: \<open>buf1\<close>, \<open>buf2\<close> are their first words.\<close>

definition div_main ::
    "bool \<Rightarrow> bool \<Rightarrow> decimal_t \<Rightarrow> decimal_t \<Rightarrow> decimal_t \<Rightarrow> nat \<Rightarrow> int \<Rightarrow> nat \<Rightarrow> int \<Rightarrow> int \<Rightarrow> (dec_error \<times> decimal_t) res"
where
  "div_main alloc is_mod from1 from2 to buf1 prec1 buf2 prec2 scale_incr =
     (let frac1 = ROUND_UP (d_frac from1) * DIG_PER_DEC1; frac2 = ROUND_UP (d_frac from2) * DIG_PER_DEC1;
          scale_incr = scale_incr - (frac1 - d_frac from1 + frac2 - d_frac from2);
          scale_incr = (if scale_incr < 0 then 0 else scale_incr)
      in
      bindE (nthE (d_buf from1) buf1) (\<lambda>v. bindE (nthE (d_buf from2) buf2) (\<lambda>w.
      let dintg = (prec1 - frac1) - (prec2 - frac2) + of_bool (v \<ge> w);
          (dintg, intg0) = (if dintg < 0 then (dintg sdiv DIG_PER_DEC1, 0) else (dintg, ROUND_UP dintg));
          (intg0, frac0, error, to) =
            (if is_mod
             then (intg0, 0, E_DEC_OK, to\<lparr>d_sign := d_sign from1, d_frac := max (d_frac from1) (d_frac from2)\<rparr>)
             else
               let (intg0, frac0, error) =
                 fix_intg_frac_error (d_len to) intg0 (ROUND_UP (frac1 + frac2 + scale_incr))
               in (intg0, frac0, error,
                   to\<lparr>d_sign := of_bool (d_sign from1 \<noteq> d_sign from2), d_intg := intg0 * DIG_PER_DEC1,
                      d_frac := frac0 * DIG_PER_DEC1\<rparr>));
          lead = (if \<not> is_mod \<and> dintg < 0 then nat (- dintg) else 0)
      in
      bindE (putZ (d_buf to) 0 (replicate lead 0)) (\<lambda>b.
      if \<not> alloc then Inr (E_DEC_OOM, to\<lparr>d_buf := b\<rparr>)
      else
      let i = ROUND_UP prec1; len1 = max 3 (i + ROUND_UP (2 * frac2 + scale_incr + 1) + 1) in
      if i < 0 \<or> int buf1 + i > int (length (d_buf from1)) then Inl OutOfBounds
      else
      let tmp = take (nat i) (drop buf1 (d_buf from1)) @ replicate (nat (len1 - i)) 0 in
      bindE (trim_last (d_buf from2) (int buf2) (int buf2 + ROUND_UP prec2 - 1)) (\<lambda>stop2.
      let ds = take (nat (stop2 + 1) - buf2) (drop buf2 (d_buf from2));
          norm_factor = DIG_BASE sdiv (w + 1)
      in
      bindE (if length ds > 1
             then bindE (nthZ ds 1) (\<lambda>w2. Inr (dec1_of (norm_factor * w2 sdiv DIG_BASE))) else Inr 0) (\<lambda>n.
      bindE (i32 (dec1_of (norm_factor * w) + n)) (\<lambda>norm2.
      let (start1, dcarry) = (if v < w then (1, v) else (0, 0)) in
      bindE (div_loop (\<not> is_mod) norm_factor norm2 ds (intg0 + frac0) b tmp (int lead) start1 dcarry)
        (\<lambda>(b, tmp, start1, dcarry).
      if is_mod then mod_result from2 (to\<lparr>d_buf := b\<rparr>) tmp start1 dcarry (prec1 - frac1)
      else Inr (error, to\<lparr>d_buf := b\<rparr>)))))))))"

definition do_div_mod ::
    "bool \<Rightarrow> bool \<Rightarrow> decimal_t \<Rightarrow> decimal_t \<Rightarrow> decimal_t \<Rightarrow> int \<Rightarrow> (dec_error \<times> decimal_t) res"
where
  "do_div_mod alloc is_mod from1 from2 to scale_incr =
     bindE (div_strip (d_buf from2) (d_intg from2 + ROUND_UP (d_frac from2) * DIG_PER_DEC1)) (\<lambda>(buf2, prec2).
     if prec2 \<le> 0 then Inr (E_DEC_DIV_ZERO, to)
     else
       bindE (div_strip (d_buf from1) (d_intg from1 + ROUND_UP (d_frac from1) * DIG_PER_DEC1)) (\<lambda>(buf1, prec1).
       if prec1 \<le> 0 then bindE (decimal_make_zero to) (\<lambda>to. Inr (E_DEC_OK, to))
       else div_main alloc is_mod from1 from2 to buf1 prec1 buf2 prec2 scale_incr))"

definition decimal_div ::
    "bool \<Rightarrow> decimal_t \<Rightarrow> decimal_t \<Rightarrow> decimal_t \<Rightarrow> int \<Rightarrow> (dec_error \<times> decimal_t) res"
where
  "decimal_div alloc from1 from2 to scale_incr = do_div_mod alloc False from1 from2 to scale_incr"

definition decimal_mod :: "bool \<Rightarrow> decimal_t \<Rightarrow> decimal_t \<Rightarrow> decimal_t \<Rightarrow> (dec_error \<times> decimal_t) res" where
  "decimal_mod alloc from1 from2 to = do_div_mod alloc True from1 from2 to 0"

end
