(* ===== verification/DecimalQuotient.thy ===== *)
theory DecimalQuotient
  imports DecimalSum DecimalDiv
begin

text \<open>
  Division and modulus by zero and of zero, and a modulus that overflows its destination.
\<close>

subsection \<open>Division by zero\<close>

lemma skip_zero_words_strip:
  "int (9 * length W) - 9 < prec \<Longrightarrow> prec \<le> int (9 * length W) \<Longrightarrow> i = prec - (int (9 * length W) - 9) \<Longrightarrow>
   skip_zero_words (W @ rest) prec i k =
     (let z = length (takeWhile (\<lambda>w. w = 0) W)
      in Inr (k + z, if z = 0 then prec else int (9 * (length W - z))))"
proof (induction W arbitrary: prec i k)
  case Nil
  then show ?case by (cases rest) (simp_all add: Let_def)
next
  case (Cons w W)
  then have p: "0 < prec" "prec - i = int (9 * length W)" by simp_all
  show ?case
  proof (cases "w = 0")
    case False
    then show ?thesis using p by (simp add: Let_def)
  next
    case True
    have "skip_zero_words ((w # W) @ rest) prec i k = skip_zero_words (W @ rest) (int (9 * length W)) DIG_PER_DEC1 (Suc k)"
      using True p by (simp only: append_Cons skip_zero_words.simps) simp
    also have "\<dots> = (let z = length (takeWhile (\<lambda>w. w = 0) W)
      in Inr (Suc k + z, if z = 0 then int (9 * length W) else int (9 * (length W - z))))"
      by (rule Cons.IH) simp_all
    finally show ?thesis using True by (simp add: Let_def)
  qed
qed

lemma skip_zero_digits_some: "1 \<le> w \<Longrightarrow> i \<le> 9 \<Longrightarrow> \<exists>n. skip_zero_digits w i D = Inr n \<and> D - int i \<le> n"
proof (induction i arbitrary: D)
  case (Suc i)
  obtain n where "skip_zero_digits w i (D - 1) = Inr n" "D - 1 - int i \<le> n" using Suc.IH [of "D - 1"] Suc.prems by auto
  then show ?case using powers10_nth [of "Suc i"] Suc.prems by auto
qed simp

lemma div_strip_words:
  assumes "dec_ok d"
  shows "dval d = 0 \<Longrightarrow> \<exists>k. div_strip (d_buf d) (d_intg d + ROUND_UP (d_frac d) * DIG_PER_DEC1) = Inr (k, 0)"
    and "dval d \<noteq> 0 \<Longrightarrow> \<exists>k p. div_strip (d_buf d) (d_intg d + ROUND_UP (d_frac d) * DIG_PER_DEC1) = Inr (k, p) \<and> 0 < p"
proof -
  note o = dec_okD [OF assms]
  note w = dec_struct_words [OF o(1)]
  define W where "W = take (iw d + fw d) (d_buf d)"
  define rest where "rest = drop (iw d + fw d) (d_buf d)"
  define prec where "prec = d_intg d + int (fw d) * DIG_PER_DEC1"
  define z where "z = length (takeWhile (\<lambda>w. w = 0) W)"
  have b: "d_buf d = W @ rest" and l: "length W = iw d + fw d" and dg: "digs W" using w(3,5) by (simp_all add: W_def rest_def)
  have p: "int (9 * length W) - 9 < prec" "prec \<le> int (9 * length W)"
    using w(1) o(2) unfolding l prec_def ROUND_UP_def by (simp_all add: sdiv_nonneg)
  have p0: "0 < prec" using p(1) o(4) l by linarith
  have m: "(prec - 1) smod DIG_PER_DEC1 + 1 = prec - (int (9 * length W) - 9)"
  proof -
    define r where "r = prec - (int (9 * length W) - 9) - 1"
    have r: "0 \<le> r" "r < 9" "prec - 1 = r + 9 * (int (length W) - 1)" using p by (simp_all add: r_def)
    have "(prec - 1) mod 9 = r" unfolding r(3) mod_mult_self2 using r(1,2) by (rule mod_pos_pos_trivial)
    then show ?thesis using p0 by (simp add: smod_nonneg r_def)
  qed
  define q where "q = (if z = 0 then prec else int (9 * (length W - z)))"
  have skip: "skip_zero_words (d_buf d) prec ((prec - 1) smod DIG_PER_DEC1 + 1) 0 = Inr (z, q)"
    using skip_zero_words_strip [OF p m, of rest 0] p0 unfolding b by (simp add: Let_def z_def q_def)
  have zero: "dval d = 0 \<longleftrightarrow> z = length W"
    using wval_0_iff [OF dg] takeWhile_shorter [of "\<lambda>w. w = 0" W] length_takeWhile_le [of "\<lambda>w. w = 0" W]
    unfolding z_def [symmetric] by (auto simp add: dval_def dmag_def W_def [symmetric])
  have P: "d_intg d + ROUND_UP (d_frac d) * DIG_PER_DEC1 = prec" by (simp add: prec_def w(2))
  show "\<exists>k. div_strip (d_buf d) (d_intg d + ROUND_UP (d_frac d) * DIG_PER_DEC1) = Inr (k, 0)" if "dval d = 0"
    unfolding P div_strip_def skip using that zero o(4) l by (auto simp add: q_def)
  show "\<exists>k p. div_strip (d_buf d) (d_intg d + ROUND_UP (d_frac d) * DIG_PER_DEC1) = Inr (k, p) \<and> 0 < p" if "dval d \<noteq> 0"
  proof -
    have z: "z < length W" using that zero length_takeWhile_le [of "\<lambda>w. w = 0" W] by (simp add: z_def)
    then have q: "0 < q" using p0 by (simp add: q_def)
    have nz: "W ! z \<noteq> 0" using nth_length_takeWhile [of "\<lambda>w. w = 0" W] z by (simp add: z_def)
    have "0 \<le> W ! z" using dg z by (simp add: digs_def)
    then have w1: "1 \<le> W ! z" using nz by simp
    have r: "nthE (d_buf d) z = Inr (W ! z)" using z by (simp add: nthE_def b nth_append)
    define j where "j = nat ((q - 1) smod DIG_PER_DEC1)"
    have j: "j \<le> 9" "int j < q"
      using q zmod_le_nonneg_dividend [of "q - 1" 9] pos_mod_bound [of 9 "q - 1"] pos_mod_sign [of 9 "q - 1"]
      by (simp_all add: smod_nonneg j_def nat_le_iff)
    obtain n where "skip_zero_digits (W ! z) j q = Inr n" "q - int j \<le> n"
      using skip_zero_digits_some [OF w1 j(1), of q] by blast
    moreover from this have "0 < n" using j(2) by linarith
    ultimately show ?thesis unfolding P div_strip_def skip j_def using q r by (intro exI [of _ z] exI [of _ n]) simp
  qed
qed

text \<open>C26: division and modulus by zero. When the divisor is zero, in whatever number of zero
  words, \<open>decimal_div\<close> and \<open>decimal_mod\<close> return
  \<open>E_DEC_DIV_ZERO\<close> and leave the destination alone; when only the dividend is
  zero, both return \<open>E_DEC_OK\<close> and leave a well-formed zero.\<close>

theorem decimal_div_zero:
  assumes "dec_ok a" "dec_ok b" "d_buf to \<noteq> []"
  shows "if dval b = 0
    then decimal_div alloc a b to n = Inr (E_DEC_DIV_ZERO, to) \<and> decimal_mod alloc a b to = Inr (E_DEC_DIV_ZERO, to)
    else dval a = 0 \<longrightarrow>
      (\<exists>to'. decimal_div alloc a b to n = Inr (E_DEC_OK, to') \<and> decimal_mod alloc a b to = Inr (E_DEC_OK, to') \<and>
         dec_ok to' \<and> dval to' = 0)"
proof (cases "dval b = 0")
  case True
  then show ?thesis using div_strip_words(1) [OF assms(2)] by (auto simp add: decimal_div_def decimal_mod_def do_div_mod_def)
next
  case False
  let ?t = "to\<lparr>d_buf := 0 # tl (d_buf to), d_intg := 1, d_frac := 0, d_sign := 0\<rparr>"
  note z = make_zero_run [OF assms(3)] and t = zero_dec_ok [of "tl (d_buf to)" to]
  show ?thesis
  proof (cases "dval a = 0")
    case True
    then have "do_div_mod alloc m a b to k = Inr (E_DEC_OK, ?t)" for m k
      using div_strip_words(1) [OF assms(1)] div_strip_words(2) [OF assms(2) False] z by (auto simp add: do_div_mod_def)
    then show ?thesis using t False unfolding decimal_div_def decimal_mod_def by auto
  qed (use False in simp)
qed

text \<open>Zero as the parser makes it.\<close>

definition dec_zero :: decimal_t where
  "dec_zero = \<lparr>d_intg = 1, d_frac = 0, d_len = 1, d_sign = 0, d_buf = [0]\<rparr>"

lemma dec_zero: "dec_ok dec_zero" "dval dec_zero = 0"
proof -
  have "iw dec_zero = 1" "fw dec_zero = 0" by (simp_all add: iw_def fw_def dec_zero_def ROUND_UP_def)
  then show "dec_ok dec_zero" "dval dec_zero = 0"
    by (simp_all add: dec_ok_def dec_struct_def dmag_def dval_def) (simp_all add: dec_zero_def)
qed

lemma decimal_div_zero_witness:
  "decimal_div True dec_a dec_zero dec_to 4 = Inr (E_DEC_DIV_ZERO, dec_to) \<and>
   (\<exists>to'. decimal_mod True dec_zero dec_b dec_to = Inr (E_DEC_OK, to') \<and> dval to' = 0)"
proof -
  have "d_buf dec_to \<noteq> []" by (simp add: dec_to_def)
  from decimal_div_zero [OF dec_ok_a dec_zero(1) this, of True 4] decimal_div_zero [OF dec_zero(1) dec_ok_b this, of True 0]
  show ?thesis by (auto simp add: dec_zero(2) dval_b)
qed

text \<open>
  A small remainder of numbers with many zeros behind the point is copied together with the zeros
  in front of it, past the end of a destination that has room for it.
\<close>

lemma decimal_mod_overflow_example:
  "decimal_mod True
     \<lparr>d_intg = 0, d_frac = 27, d_len = 3, d_sign = 0, d_buf = [0, 0, 1]\<rparr>
     \<lparr>d_intg = 0, d_frac = 27, d_len = 3, d_sign = 0, d_buf = [0, 0, 2]\<rparr>
     \<lparr>d_intg = 0, d_frac = 0, d_len = 3, d_sign = 0, d_buf = [7, 7, 7]\<rparr> = Inl BufferOverflow"
  by code_simp
end
