(* ===== verification/DecimalRound.thy ===== *)
theory DecimalRound
  imports DecimalArith
begin

text \<open>
  Rounding and the position of digits (\<open>src/src/decimal.c\<close>): \<open>decimal_actual_fraction\<close>,
  \<open>digits_bounds\<close> and \<open>decimal_round\<close>. \<open>decimal_round\<close> may be called with \<open>from == to\<close>;
  the flag \<open>same\<close> says that the caller does, and then both records are the same one.
\<close>

datatype decimal_round_mode = TRUNCATE | HALF_EVEN | HALF_UP | CEILING | FLOOR

subsection \<open>The position of digits\<close>

text \<open>\<open>for (...; w % powers10[i++] == 0; n--)\<close> on a word \<open>w\<close>.\<close>

function trail_digits :: "int \<Rightarrow> int \<Rightarrow> int \<Rightarrow> int res" where
  "trail_digits w i n =
     (if 0 \<le> i \<and> i \<le> 9 then
        if w smod powers10 ! nat i = 0 then trail_digits w (i + 1) (n - 1) else Inr n
      else Inl OutOfBounds)"
  by pat_completeness auto

termination
  by (relation "measure (\<lambda>(w, i, n). nat (10 - i))") auto

text \<open>\<open>for (; w < powers10[i--]; n++)\<close> on a word \<open>w\<close>.\<close>

function lead_digits :: "int \<Rightarrow> int \<Rightarrow> int \<Rightarrow> int res" where
  "lead_digits w i n =
     (if 0 \<le> i \<and> i \<le> 9 then
        if w < powers10 ! nat i then lead_digits w (i - 1) (n + 1) else Inr n
      else Inl OutOfBounds)"
  by pat_completeness auto

termination
  by (relation "measure (\<lambda>(w, i, n). nat (i + 1))") auto

text \<open>\<open>while (frac > 0 && *buf0 == 0)\<close> downwards; \<open>i\<close> digits of the word belong to the fraction.\<close>

function skip_frac_words :: "int list \<Rightarrow> int \<Rightarrow> int \<Rightarrow> int \<Rightarrow> (int \<times> int) res" where
  "skip_frac_words b buf0 frac i =
     (if frac > 0 then
        if buf0 < 0 then Inl OutOfBounds
        else bindE (nthZ b buf0) (\<lambda>w.
          if w = 0 then skip_frac_words b (buf0 - 1) (frac - i) DIG_PER_DEC1 else Inr (buf0, frac))
      else Inr (buf0, frac))"
  by pat_completeness auto

termination
  by (relation "measure (\<lambda>(b, buf0, frac, i). nat (buf0 + 1))") auto

definition decimal_actual_fraction :: "decimal_t \<Rightarrow> int res" where
  "decimal_actual_fraction from =
     (let frac = d_frac from; buf0 = ROUND_UP (d_intg from) + ROUND_UP frac - 1 in
      if frac = 0 then Inr 0
      else
      bindE (skip_frac_words (d_buf from) buf0 frac ((frac - 1) smod DIG_PER_DEC1 + 1)) (\<lambda>(buf0, frac).
      if frac > 0 then
        bindE (nthZ (d_buf from) buf0) (\<lambda>w.
        trail_digits w (DIG_PER_DEC1 - (frac - 1) smod DIG_PER_DEC1) frac)
      else Inr frac))"

definition digits_bounds :: "decimal_t \<Rightarrow> (int \<times> int) res" where
  "digits_bounds from =
     (let b = d_buf from; stop = ROUND_UP (d_intg from) + ROUND_UP (d_frac from) in
      bindE (skip_zeros b stop 0) (\<lambda>buf_beg.
      if buf_beg \<ge> stop then Inr (0, 0)
      else
      let (start, i) =
        (if buf_beg = 0 \<and> d_intg from \<noteq> 0 then
           let i = (d_intg from - 1) smod DIG_PER_DEC1 + 1 in (DIG_PER_DEC1 - i, i - 1)
         else (buf_beg * DIG_PER_DEC1, DIG_PER_DEC1 - 1))
      in
      bindE (nthZ b buf_beg) (\<lambda>w.
      bindE (lead_digits w i start) (\<lambda>start.
      bindE (trim_zeros b (buf_beg + 1) (stop - 1)) (\<lambda>buf_end.
      let (last', i) =
        (if buf_end = stop - 1 \<and> d_frac from \<noteq> 0 then
           let i = (d_frac from - 1) smod DIG_PER_DEC1 + 1
           in (buf_end * DIG_PER_DEC1 + i, DIG_PER_DEC1 - i + 1)
         else ((buf_end + 1) * DIG_PER_DEC1, 1))
      in
      bindE (nthZ b buf_end) (\<lambda>w.
      bindE (trail_digits w i last') (\<lambda>last'.
      Inr (start, last'))))))))"

subsection \<open>Rounding\<close>

definition round_digit :: "decimal_round_mode \<Rightarrow> int \<Rightarrow> int" where
  "round_digit mode sign =
     (case mode of HALF_UP \<Rightarrow> 5 | HALF_EVEN \<Rightarrow> 5
      | CEILING \<Rightarrow> (if sign \<noteq> 0 then 10 else 0)
      | FLOOR \<Rightarrow> (if sign \<noteq> 0 then 0 else 10)
      | TRUNCATE \<Rightarrow> 10)"

text \<open>\<open>while (buf0 < p0) *(--p1) = *(--p0)\<close> with \<open>buf0\<close> at the start of the source.\<close>

fun round_copy :: "bool \<Rightarrow> int list \<Rightarrow> int list \<Rightarrow> int \<Rightarrow> nat \<Rightarrow> int list res" where
  "round_copy same src b p1 0 = Inr b"
| "round_copy same src b p1 (Suc p0) =
     bindE (nthE (if same then b else src) p0) (\<lambda>w.
     bindE (putZ b (p1 - 1) [w]) (\<lambda>b. round_copy same src b (p1 - 1) p0))"

text \<open>\<open>while (buf < end) *buf++ = 0\<close>\<close>

definition zero_words :: "int list \<Rightarrow> int \<Rightarrow> int \<Rightarrow> int list res" where
  "zero_words b lo hi = (if lo < hi then putZ b lo (replicate (nat (hi - lo)) 0) else Inr b)"

text \<open>\<open>for (; p0 > buf0; p0--) if (*p0)\<close>: is one of the words behind \<open>buf0\<close> not zero?\<close>

function rest_nonzero :: "int list \<Rightarrow> int \<Rightarrow> int \<Rightarrow> bool res" where
  "rest_nonzero b p0 buf0 =
     (if p0 > buf0 then bindE (nthZ b p0) (\<lambda>w. if w \<noteq> 0 then Inr True else rest_nonzero b (p0 - 1) buf0)
      else Inr False)"
  by pat_completeness auto

termination
  by (relation "measure (\<lambda>(b, p0, buf0). nat (p0 - buf0))") auto

text \<open>\<open>while (carry && --buf1 >= to->buf) ADD(*buf1, *buf1, 0, carry)\<close>\<close>

function round_carry :: "int list \<Rightarrow> int \<Rightarrow> int \<Rightarrow> (int list \<times> int \<times> int) res" where
  "round_carry b buf1 carry =
     (if carry \<noteq> 0 then
        if buf1 - 1 \<ge> 0 then
          bindE (nthZ b (buf1 - 1)) (\<lambda>v.
          bindE (ADD v 0 carry) (\<lambda>(a, carry).
          bindE (putZ b (buf1 - 1) [a]) (\<lambda>b. round_carry b (buf1 - 1) carry)))
        else Inr (b, buf1 - 1, carry)
      else Inr (b, buf1, carry))"
  by pat_completeness auto

termination
  by (relation "measure (\<lambda>(b, buf1, carry). nat buf1)") auto

text \<open>\<open>for (buf1 = ...; buf1 > to->buf; buf1--) buf1[0] = buf1[-1]\<close>\<close>

fun shift_up :: "int list \<Rightarrow> nat \<Rightarrow> int list res" where
  "shift_up b 0 = Inr b"
| "shift_up b (Suc n) =
     bindE (nthE b n) (\<lambda>w. bindE (poke b (Suc n) [w]) (\<lambda>b. shift_up b n))"

text \<open>\<open>for (;;) { if (*buf1) break; if (buf1-- == to->buf) ... }\<close>: \<open>None\<close> when all words are zero.\<close>

function last_nonzero :: "int list \<Rightarrow> int \<Rightarrow> int option res" where
  "last_nonzero b buf1 =
     (if 0 \<le> buf1 then
        bindE (nthZ b buf1) (\<lambda>w.
          if w \<noteq> 0 then Inr (Some buf1)
          else if buf1 = 0 then Inr None else last_nonzero b (buf1 - 1))
      else Inl OutOfBounds)"
  by pat_completeness auto

termination
  by (relation "measure (\<lambda>(b, buf1). nat (buf1 + 1))") auto

text \<open>
  The rounding of the word \<open>k\<close>, the last one kept. The result is \<open>None\<close> where the code returns
  zero, and otherwise the buffer with the position of \<open>buf1\<close>.
\<close>

definition round_word ::
    "decimal_round_mode \<Rightarrow> int \<Rightarrow> int list \<Rightarrow> int \<Rightarrow> int \<Rightarrow> int \<Rightarrow> int \<Rightarrow> (int list \<times> int) option res"
where
  "round_word mode rd b frac0 frac1 intg0 scale =
     (let k = intg0 + frac0 - 1 in
      if scale = frac0 * DIG_PER_DEC1 then
        bindE (if rd = 0 then rest_nonzero b (k + (frac1 - frac0)) k
               else if rd = 5 then
                 bindE (nthZ b (k + 1)) (\<lambda>w.
                 let x = w sdiv DIG_MASK in
                 if x > 5 then Inr True
                 else if x = 5 then
                   if mode = HALF_UP then Inr True
                   else if frac0 + intg0 > 0 then bindE (nthZ b k) (\<lambda>v. Inr (odd v))
                   else Inr False
                 else Inr False)
               else Inr False) (\<lambda>do_inc.
        if do_inc then
          if frac0 + intg0 > 0 then
            bindE (nthZ b k) (\<lambda>v. bindE (i32 (v + 1)) (\<lambda>v. bindE (putZ b k [v]) (\<lambda>b. Inr (Some (b, k)))))
          else bindE (putZ b (k + 1) [DIG_BASE]) (\<lambda>b. Inr (Some (b, k + 1)))
        else if frac0 + intg0 = 0 then Inr None
        else Inr (Some (b, k)))
      else
        let pos = frac0 * DIG_PER_DEC1 - scale - 1 in
        bindE (nthZ b k) (\<lambda>v.
        bindE (nthZ powers10 pos) (\<lambda>p.
        let x = v sdiv p; y = x smod 10;
            x = (if y > rd \<or> (rd = 5 \<and> y = 5 \<and> (mode = HALF_UP \<or> odd (x sdiv 10))) then x + 10 else x)
        in
        bindE (i32 (p * (x - y))) (\<lambda>v.
        bindE (putZ b k [v]) (\<lambda>b. Inr (Some (b, k)))))))"

text \<open>
  The carry of the rounded word and the check of the digit count. \<open>to\<close> holds the result with its
  buffer \<open>b\<close>, and \<open>k\<close> is the position of \<open>buf1\<close>.
\<close>

definition round_finish ::
    "decimal_t \<Rightarrow> int list \<Rightarrow> int \<Rightarrow> int \<Rightarrow> int \<Rightarrow> int \<Rightarrow> dec_error \<Rightarrow> (dec_error \<times> decimal_t) res"
where
  "round_finish to b k frac0 intg0 scale error =
     (let finish = (\<lambda>b k intg scale error.
        bindE (nthZ b k) (\<lambda>w.
        let first_dig = intg smod DIG_PER_DEC1 in
        bindE (if first_dig \<noteq> 0 then bindE (nthZ powers10 first_dig) (\<lambda>p. Inr (if w \<ge> p then intg + 1 else intg))
               else Inr intg) (\<lambda>intg.
        Inr (error, to\<lparr>d_intg := intg, d_frac := (if scale < 0 then 0 else scale), d_buf := b\<rparr>))))
      in
      bindE (nthZ b k) (\<lambda>w.
      if w \<ge> DIG_BASE then
        bindE (putZ b k [w - DIG_BASE]) (\<lambda>b.
        bindE (round_carry b k 1) (\<lambda>(b, k, carry).
        if carry \<noteq> 0 then
          let (frac0, scale, error) =
            (if frac0 + intg0 \<ge> d_len to then (frac0 - 1, (frac0 - 1) * DIG_PER_DEC1, E_DEC_TRUNCATED)
             else (frac0, scale, error))
          in
          bindE (shift_up b (nat (intg0 + max frac0 0))) (\<lambda>b.
          bindE (putZ b 0 [1]) (\<lambda>b. finish b 0 (d_intg to + 1) scale error))
        else finish b k (d_intg to) scale error))
      else
        bindE (last_nonzero b k) (\<lambda>r.
        case r of
          None \<Rightarrow> bindE (zero_words b 0 (frac0 + 1)) (\<lambda>b.
            Inr (E_DEC_OK, to\<lparr>d_intg := 1, d_frac := max scale 0, d_sign := 0, d_buf := b\<rparr>))
        | Some k \<Rightarrow> finish b k (d_intg to) scale error)))"

text \<open>The copy to the destination, or the extra word for a carry. The result holds the new \<open>intg0\<close>.\<close>

definition round_start ::
    "bool \<Rightarrow> decimal_t \<Rightarrow> decimal_t \<Rightarrow> int \<Rightarrow> int \<Rightarrow> int \<Rightarrow> int \<Rightarrow> (decimal_t \<times> int) res"
where
  "round_start same from to intg0 intg1 frac0 frac1 =
     (if \<not> same \<or> intg1 > intg0 then
        bindE (round_copy same (d_buf from) (d_buf to) (intg1 + max frac1 frac0) (nat (intg0 + max frac1 frac0)))
          (\<lambda>b.
        bindE (if intg1 > intg0 then putZ b 0 [0] else Inr b) (\<lambda>b.
        Inr (to\<lparr>d_sign := d_sign from, d_intg := min intg1 (d_len to) * DIG_PER_DEC1, d_buf := b\<rparr>, intg1)))
      else Inr (to, intg0))"

definition decimal_round ::
    "bool \<Rightarrow> decimal_t \<Rightarrow> decimal_t \<Rightarrow> int \<Rightarrow> decimal_round_mode \<Rightarrow> (dec_error \<times> decimal_t) res"
where
  "decimal_round same from to scale mode =
     (let frac0 = (if scale > 0 then ROUND_UP scale else scale sdiv DIG_PER_DEC1);
          frac1 = ROUND_UP (d_frac from); intg0 = ROUND_UP (d_intg from)
      in
      bindE (if intg0 + frac0 > 0 then bindE (nthZ (d_buf from) 0) (\<lambda>w. Inr (of_bool (w = DIG_MAX)))
             else Inr 0) (\<lambda>extra.
      let intg1 = ROUND_UP (d_intg from + extra);
          rd = round_digit mode (d_sign from);
          (frac0, scale, error) =
            (if frac0 + intg0 > d_len to
             then (d_len to - intg0, (d_len to - intg0) * DIG_PER_DEC1, E_DEC_TRUNCATED)
             else (frac0, scale, E_DEC_OK))
      in
      if scale + d_intg from < 0 then bindE (decimal_make_zero to) (\<lambda>to. Inr (E_DEC_OK, to))
      else
      bindE (round_start same from to intg0 intg1 frac0 frac1) (\<lambda>(to, intg0).
      if frac0 > frac1 then
        bindE (zero_words (d_buf to) (intg0 + frac1) (intg0 + frac0)) (\<lambda>b.
        Inr (error, to\<lparr>d_frac := scale, d_buf := b\<rparr>))
      else if scale \<ge> d_frac from then Inr (error, to\<lparr>d_frac := scale\<rparr>)
      else
      bindE (round_word mode rd (d_buf to) frac0 frac1 intg0 scale) (\<lambda>r.
      case r of
        None \<Rightarrow> bindE (decimal_make_zero to) (\<lambda>to. Inr (E_DEC_OK, to))
      | Some (b, k) \<Rightarrow>
          bindE (if frac0 < frac1
                 then zero_words b (if scale = 0 \<and> intg0 = 0 then 1 else intg0 + frac0) (d_len to)
                 else Inr b) (\<lambda>b.
          round_finish to b k frac0 intg0 scale error)))))"

end
