(* ===== verification/DecimalShift.thy ===== *)
theory DecimalShift
  imports DecimalRound
begin

text \<open>
  \<open>decimal_shift\<close> of \<open>src/src/decimal.c\<close>: multiplication by a power of ten in place. The digits
  are first aligned within the words (the two mini shifts), then whole words are moved, then the gap
  between the digits and the point is filled with zeros.
\<close>

subsection \<open>Shifts of less than a word\<close>

function mini_left_loop :: "int list \<Rightarrow> int \<Rightarrow> int \<Rightarrow> int \<Rightarrow> int \<Rightarrow> (int list \<times> int) res" where
  "mini_left_loop b from stop ps pc =
     (if from < stop then
        bindE (nthZ b from) (\<lambda>v.
        bindE (nthZ b (from + 1)) (\<lambda>w.
        bindE (i32 (v smod pc * ps)) (\<lambda>x.
        bindE (i32 (x + w sdiv pc)) (\<lambda>x.
        bindE (putZ b from [x]) (\<lambda>b. mini_left_loop b (from + 1) stop ps pc)))))
      else Inr (b, from))"
  by pat_completeness auto

termination
  by (relation "measure (\<lambda>(b, from, stop, ps, pc). nat (stop - from))") auto

definition do_mini_left_shift :: "decimal_t \<Rightarrow> int \<Rightarrow> int \<Rightarrow> int \<Rightarrow> decimal_t res" where
  "do_mini_left_shift dec shift beg last' =
     (let from = ROUND_UP (beg + 1) - 1; stop = ROUND_UP last' - 1; c_shift = DIG_PER_DEC1 - shift in
      bindE (nthZ powers10 shift) (\<lambda>ps.
      bindE (nthZ powers10 c_shift) (\<lambda>pc.
      bindE (if beg smod DIG_PER_DEC1 < shift
             then bindE (nthZ (d_buf dec) from) (\<lambda>v. putZ (d_buf dec) (from - 1) [v sdiv pc])
             else Inr (d_buf dec)) (\<lambda>b.
      bindE (mini_left_loop b from stop ps pc) (\<lambda>(b, from).
      bindE (nthZ b from) (\<lambda>v.
      bindE (i32 (v smod pc * ps)) (\<lambda>x.
      bindE (putZ b from [x]) (\<lambda>b. Inr (dec\<lparr>d_buf := b\<rparr>)))))))))"

function mini_right_loop :: "int list \<Rightarrow> int \<Rightarrow> int \<Rightarrow> int \<Rightarrow> int \<Rightarrow> (int list \<times> int) res" where
  "mini_right_loop b from stop ps pc =
     (if from > stop then
        bindE (nthZ b from) (\<lambda>v.
        bindE (nthZ b (from - 1)) (\<lambda>w.
        bindE (i32 (w smod ps * pc)) (\<lambda>x.
        bindE (i32 (v sdiv ps + x)) (\<lambda>x.
        bindE (putZ b from [x]) (\<lambda>b. mini_right_loop b (from - 1) stop ps pc)))))
      else Inr (b, from))"
  by pat_completeness auto

termination
  by (relation "measure (\<lambda>(b, from, stop, ps, pc). nat (from - stop))") auto

definition do_mini_right_shift :: "decimal_t \<Rightarrow> int \<Rightarrow> int \<Rightarrow> int \<Rightarrow> decimal_t res" where
  "do_mini_right_shift dec shift beg last' =
     (let from = ROUND_UP last' - 1; stop = ROUND_UP (beg + 1) - 1; c_shift = DIG_PER_DEC1 - shift in
      bindE (nthZ powers10 shift) (\<lambda>ps.
      bindE (nthZ powers10 c_shift) (\<lambda>pc.
      bindE (if DIG_PER_DEC1 - ((last' - 1) smod DIG_PER_DEC1 + 1) < shift
             then bindE (nthZ (d_buf dec) from) (\<lambda>v.
                  bindE (i32 (v smod ps * pc)) (\<lambda>x. putZ (d_buf dec) (from + 1) [x]))
             else Inr (d_buf dec)) (\<lambda>b.
      bindE (mini_right_loop b from stop ps pc) (\<lambda>(b, from).
      bindE (nthZ b from) (\<lambda>v.
      bindE (putZ b from [v sdiv ps]) (\<lambda>b. Inr (dec\<lparr>d_buf := b\<rparr>))))))))"

subsection \<open>The steps of decimal_shift\<close>

text \<open>
  The code's \<open>beg\<close>, \<open>end\<close>, \<open>new_point\<close>, \<open>digits_int\<close>, \<open>digits_frac\<close>, \<open>err\<close> and
  \<open>shift\<close> between the steps, with the number itself.
\<close>

record shift_state =
  sh_dec :: decimal_t
  sh_beg :: int
  sh_end :: int
  sh_point :: int
  sh_int :: int
  sh_frac :: int
  sh_err :: dec_error
  sh_shift :: int

text \<open>A step returns from the function (\<open>Inl\<close>) or goes on (\<open>Inr\<close>).\<close>

type_synonym shift_step = "(dec_error \<times> decimal_t) + shift_state"

definition sh_return :: "shift_state \<Rightarrow> dec_error \<times> decimal_t" where
  "sh_return s = (sh_err s, (sh_dec s)\<lparr>d_intg := sh_int s, d_frac := sh_frac s\<rparr>)"

text \<open>The fraction is cut, with rounding, when the digits do not fit.\<close>

definition shift_fit :: "int \<Rightarrow> shift_state \<Rightarrow> shift_step res" where
  "shift_fit point s =
     (let dec = sh_dec s; new_frac_len = ROUND_UP (sh_frac s);
          new_len = ROUND_UP (sh_int s) + new_frac_len
      in
      if new_len > d_len dec then
        let lack = new_len - d_len dec in
        if new_frac_len < lack then Inr (Inl (E_DEC_OVERFLOW, dec))
        else
          let new_frac_len = new_frac_len - lack;
              diff = sh_frac s - new_frac_len * DIG_PER_DEC1 in
          bindE (decimal_round True dec dec (sh_end s - point - diff) HALF_UP) (\<lambda>(_, dec).
          if sh_end s - diff \<le> sh_beg s
          then bindE (decimal_make_zero dec) (\<lambda>dec. Inr (Inl (E_DEC_TRUNCATED, dec)))
          else Inr (Inr (s\<lparr>sh_dec := dec, sh_end := sh_end s - diff,
                  sh_frac := new_frac_len * DIG_PER_DEC1, sh_err := E_DEC_TRUNCATED\<rparr>)))
      else Inr (Inr s))"

text \<open>The digits are aligned in their words, to the left or to the right.\<close>

definition shift_align :: "shift_state \<Rightarrow> shift_step res" where
  "shift_align s =
     (let dec = sh_dec s; shift = sh_shift s in
      if shift smod DIG_PER_DEC1 \<noteq> 0 then
        let (l_mini_shift, r_mini_shift, do_left) =
          (if shift > 0 then
             let l = shift smod DIG_PER_DEC1 in (l, DIG_PER_DEC1 - l, l \<le> sh_beg s)
           else
             let r = (- shift) smod DIG_PER_DEC1
             in (DIG_PER_DEC1 - r, r, \<not> d_len dec * DIG_PER_DEC1 - sh_end s \<ge> r))
        in
        bindE (if do_left
               then bindE (do_mini_left_shift dec l_mini_shift (sh_beg s) (sh_end s)) (\<lambda>d. Inr (d, - l_mini_shift))
               else bindE (do_mini_right_shift dec r_mini_shift (sh_beg s) (sh_end s)) (\<lambda>d. Inr (d, r_mini_shift)))
          (\<lambda>(dec, mini_shift).
        let s = s\<lparr>sh_dec := dec, sh_point := sh_point s + mini_shift, sh_shift := shift + mini_shift\<rparr> in
        if sh_shift s = 0 \<and> sh_point s - sh_int s < DIG_PER_DEC1 then Inr (Inl (sh_return s))
        else Inr (Inr (s\<lparr>sh_beg := sh_beg s + mini_shift, sh_end := sh_end s + mini_shift\<rparr>)))
      else Inr (Inr s))"

text \<open>\<open>for (; to <= barier; to++) *to = *(to + d_shift)\<close>, and the same downwards.\<close>

function move_left :: "int list \<Rightarrow> int \<Rightarrow> int \<Rightarrow> int \<Rightarrow> (int list \<times> int) res" where
  "move_left b to barier d_shift =
     (if to \<le> barier then
        bindE (nthZ b (to + d_shift)) (\<lambda>w.
        bindE (putZ b to [w]) (\<lambda>b. move_left b (to + 1) barier d_shift))
      else Inr (b, to))"
  by pat_completeness auto

termination
  by (relation "measure (\<lambda>(b, to, barier, d_shift). nat (barier + 1 - to))") auto

function move_right :: "int list \<Rightarrow> int \<Rightarrow> int \<Rightarrow> int \<Rightarrow> (int list \<times> int) res" where
  "move_right b to barier d_shift =
     (if to \<ge> barier then
        bindE (nthZ b (to - d_shift)) (\<lambda>w.
        bindE (putZ b to [w]) (\<lambda>b. move_right b (to - 1) barier d_shift))
      else Inr (b, to))"
  by pat_completeness auto

termination
  by (relation "measure (\<lambda>(b, to, barier, d_shift). nat (to + 1 - barier))") auto

definition shift_move :: "shift_state \<Rightarrow> shift_state res" where
  "shift_move s =
     (let new_front = sh_point s - sh_int s; b = d_buf (sh_dec s);
          first = ROUND_UP (sh_beg s + 1) - 1; last' = ROUND_UP (sh_end s) - 1
      in
      if new_front \<ge> DIG_PER_DEC1 \<or> new_front < 0 then
        bindE (if new_front > 0 then
                 let d = new_front sdiv DIG_PER_DEC1 in
                 bindE (move_left b (first - d) (last' - d) d) (\<lambda>(b, to).
                 bindE (zero_words b to (last' + 1)) (\<lambda>b. Inr (b, - d)))
               else
                 let d = (1 - new_front) sdiv DIG_PER_DEC1 in
                 bindE (move_right b (last' + d) (first + d) d) (\<lambda>(b, to).
                 bindE (zero_words b first (to + 1)) (\<lambda>b. Inr (b, d)))) (\<lambda>(b, d).
        let d_shift = d * DIG_PER_DEC1 in
        Inr (s\<lparr>sh_dec := (sh_dec s)\<lparr>d_buf := b\<rparr>, sh_beg := sh_beg s + d_shift, sh_end := sh_end s + d_shift,
              sh_point := sh_point s + d_shift\<rparr>))
      else Inr s)"

definition shift_fill :: "shift_state \<Rightarrow> decimal_t res" where
  "shift_fill s =
     (let beg = ROUND_UP (sh_beg s + 1) - 1; last' = ROUND_UP (sh_end s) - 1;
          point = (if sh_point s \<noteq> 0 then ROUND_UP (sh_point s) - 1 else sh_point s)
      in bindE (if point > last' then zero_words (d_buf (sh_dec s)) (last' + 1) (point + 1)
                else zero_words (d_buf (sh_dec s)) point beg) (\<lambda>b.
         Inr ((sh_dec s)\<lparr>d_buf := b\<rparr>)))"

definition decimal_shift :: "decimal_t \<Rightarrow> int \<Rightarrow> (dec_error \<times> decimal_t) res" where
  "decimal_shift dec shift =
     (let point = ROUND_UP (d_intg dec) * DIG_PER_DEC1; new_point = point + shift in
      if shift = 0 then Inr (E_DEC_OK, dec)
      else
      bindE (digits_bounds dec) (\<lambda>(beg, last').
      if beg = last' then bindE (decimal_make_zero dec) (\<lambda>dec. Inr (E_DEC_OK, dec))
      else
      bindE (shift_fit point \<lparr>sh_dec = dec, sh_beg = beg, sh_end = last', sh_point = new_point,
          sh_int = max 0 (new_point - beg), sh_frac = max 0 (last' - new_point), sh_err = E_DEC_OK,
          sh_shift = shift\<rparr>) (\<lambda>r.
      case r of Inl ret \<Rightarrow> Inr ret | Inr s \<Rightarrow>
      bindE (shift_align s) (\<lambda>r.
      case r of Inl ret \<Rightarrow> Inr ret | Inr s \<Rightarrow>
      bindE (shift_move s) (\<lambda>s.
      bindE (shift_fill s) (\<lambda>dec.
      Inr (sh_return (s\<lparr>sh_dec := dec\<rparr>))))))))"

end
