(* ===== verification/DecimalRounding.thy ===== *)
theory DecimalRounding
  imports DecimalRound DecimalSum
begin

text \<open>
  Correctness of \<open>decimal_round\<close> for the modes \<open>HALF_UP\<close> and \<open>TRUNCATE\<close> at a scale that is
  not negative: the result is the rational number \<open>rounded mode s\<close> of the operand. The lemmas
  follow the function: the copy, the word in which the number is cut (\<open>round_word_aligned\<close>,
  \<open>round_word_unaligned\<close>), the carry and the end (\<open>round_finish_words\<close>). The last part
  shows where the function goes wrong.
\<close>

declare round_carry.simps [simp del] last_nonzero.simps [simp del] rest_nonzero.simps [simp del]

subsection \<open>The value of a rounding\<close>

text \<open>Rounding half away from zero, and truncation, at \<open>s\<close> digits behind the point.\<close>

definition rounded :: "decimal_round_mode \<Rightarrow> nat \<Rightarrow> rat \<Rightarrow> rat" where
  "rounded mode s x =
     (if x < 0 then - 1 else 1) * of_int \<lfloor>\<bar>x\<bar> * 10 ^ s + (if mode = HALF_UP then 1 / 2 else 0)\<rfloor> / 10 ^ s"

text \<open>The rounding of a magnitude \<open>m\<close> to multiples of \<open>u\<close>.\<close>

definition round_mag :: "decimal_round_mode \<Rightarrow> int \<Rightarrow> int \<Rightarrow> int" where
  "round_mag mode m u = (if mode = HALF_UP then (2 * m + u) div (2 * u) else m div u)"

lemma round_mag_split:
  assumes "0 \<le> t" "t < b"
  shows "round_mag mode (k * b + t) b = k + of_bool (mode = HALF_UP \<and> b \<le> 2 * t)"
proof -
  have "(2 * t + b) div (2 * b) = of_bool (b \<le> 2 * t)"
  proof (cases "b \<le> 2 * t")
    case True
    have "2 * t + b = (2 * t - b) + 1 * (2 * b)" by simp
    then have "(2 * t + b) div (2 * b) = 1 + (2 * t - b) div (2 * b)" using assms by (metis div_mult_self1 mult_eq_0_iff less_le_not_le order_trans zero_neq_numeral)
    then show ?thesis using True assms by (simp add: div_pos_pos_trivial)
  next
    case False
    then show ?thesis using assms by (simp add: div_pos_pos_trivial)
  qed
  moreover have "(2 * (k * b + t) + b) div (2 * b) = k + (2 * t + b) div (2 * b)"
  proof -
    have "2 * (k * b + t) + b = (2 * t + b) + k * (2 * b)" by (simp add: algebra_simps)
    moreover have "2 * b \<noteq> 0" using assms by simp
    ultimately show ?thesis by (metis div_mult_self1)
  qed
  ultimately show ?thesis using assms by (simp add: round_mag_def)
qed

lemma half_test:
  assumes "even (u :: int)" "0 \<le> r" "r < b"
  shows "u * b \<le> 2 * (v * b + r) \<longleftrightarrow> u \<le> 2 * v"
proof
  assume "u \<le> 2 * v"
  then have "u * b \<le> 2 * v * b" using assms by (intro mult_right_mono) simp_all
  also have "\<dots> \<le> 2 * (v * b + r)" using assms by (simp add: algebra_simps)
  finally show "u * b \<le> 2 * (v * b + r)" .
next
  assume h: "u * b \<le> 2 * (v * b + r)"
  show "u \<le> 2 * v"
  proof (rule ccontr)
    assume "\<not> u \<le> 2 * v"
    then have "2 * v + 2 \<le> u" using assms(1) by presburger
    then have "(2 * v + 2) * b \<le> u * b" using assms by (intro mult_right_mono) simp_all
    then show False using h assms by (simp add: algebra_simps)
  qed
qed

lemma rounded_mag:
  assumes "0 \<le> m" "s \<le> d" "x = (if sg then - 1 else 1) * (of_int m / 10 ^ d)"
  shows "rounded mode s x = (if sg then - 1 else 1) * (of_int (round_mag mode m (10 ^ (d - s))) / 10 ^ s)"
proof -
  define u :: int where "u = 10 ^ (d - s)"
  have u: "0 < u" by (simp add: u_def)
  have p: "(10 :: rat) ^ d = of_int u * 10 ^ s" using assms(2) by (simp add: u_def flip: power_add)
  have a: "\<bar>x\<bar> * 10 ^ s = of_int m / of_int u" using assms(1) u unfolding assms(3) p by (simp add: abs_mult)
  have "of_int m / of_int u + 1 / 2 = of_int (2 * m + u) / (of_int (2 * u) :: rat)"
    using u by (simp add: field_simps)
  then have h: "\<lfloor>of_int m / of_int u + 1 / 2 :: rat\<rfloor> = (2 * m + u) div (2 * u)"
    by (simp only: floor_divide_of_int_eq)
  have f: "\<lfloor>\<bar>x\<bar> * 10 ^ s + (if mode = HALF_UP then 1 / 2 else 0)\<rfloor> = round_mag mode m u"
    unfolding a using h by (simp add: round_mag_def floor_divide_of_int_eq)
  show ?thesis
  proof (cases "x < 0")
    case True
    moreover have "0 \<le> (of_int m :: rat) / 10 ^ d" using assms(1) by simp
    moreover have "x = of_int m / 10 ^ d" if "\<not> sg" using assms(3) that by simp
    ultimately have "sg" by (cases sg) simp_all
    then show ?thesis using True unfolding rounded_def f u_def by simp
  next
    case False
    have "\<not> sg \<or> m = 0"
    proof (rule ccontr)
      assume "\<not> (\<not> sg \<or> m = 0)"
      then have "x < 0" using assms(1) unfolding assms(3) by simp
      then show False using False by simp
    qed
    moreover have "round_mag mode 0 u = 0" using u by (simp add: round_mag_def div_pos_pos_trivial)
    ultimately show ?thesis using False unfolding rounded_def f u_def by auto
  qed
qed

subsection \<open>The loops\<close>

lemma round_copy_words:
  "p0 \<le> length src \<Longrightarrow> length ys = p0 \<Longrightarrow> p1 = int (length E + p0) \<Longrightarrow>
   round_copy False src (E @ ys @ rest) p1 p0 = Inr (E @ take p0 src @ rest)"
proof (induction p0 arbitrary: p1 ys rest)
  case (Suc n)
  then obtain ys' y where ys: "ys = ys' @ [y]" by (cases ys rule: rev_exhaust) auto
  have "putZ (E @ ys @ rest) (p1 - 1) [src ! n] = Inr (E @ ys' @ src ! n # rest)"
    using putZ_mid [of "p1 - 1" "E @ ys'" y rest "src ! n"] Suc.prems by (simp add: ys)
  moreover have "round_copy False src (E @ ys' @ src ! n # rest) (p1 - 1) n = Inr (E @ take n src @ src ! n # rest)"
    using Suc.prems by (intro Suc.IH) (simp_all add: ys)
  ultimately show ?case using Suc.prems by (simp add: nthE_def take_Suc_conv_app_nth)
qed simp

lemma round_carry_words:
  "digs P \<Longrightarrow> k = int (length P) \<Longrightarrow>
   if wval P + 1 < DIG_BASE ^ length P
   then \<exists>P' j. round_carry (P @ q) k 1 = Inr (P' @ q, int j, 0) \<and> length P' = length P \<and> digs P' \<and>
     wval P' = wval P + 1 \<and> j < length P
   else round_carry (P @ q) k 1 = Inr (replicate (length P) 0 @ q, - 1, 1)"
proof (induction P arbitrary: k q rule: rev_induct)
  case Nil
  then show ?case by (simp add: round_carry.simps)
next
  case (snoc x P)
  have x: "0 \<le> x" "x < DIG_BASE" "digs P" using snoc.prems by simp_all
  have r: "nthZ ((P @ [x]) @ q) (k - 1) = Inr x" using nthZ_mid [of "k - 1" P x q] snoc.prems by simp
  have w: "putZ ((P @ [x]) @ q) (k - 1) [y] = Inr (P @ y # q)" for y
    using putZ_mid [of "k - 1" P x q y] snoc.prems by simp
  have k: "k - 1 \<ge> 0" using snoc.prems by simp
  have b: "0 \<le> wval P" "wval P < DIG_BASE ^ length P" using wval_bounds [OF x(3)] by simp_all
  show ?case
  proof (cases "x = DIG_MAX")
    case False
    then have "ADD x 0 1 = Inr (x + 1, 0)" using x by (simp add: ADD_def i32_in)
    then have run: "round_carry ((P @ [x]) @ q) k 1 = Inr ((P @ [x + 1]) @ q, int (length P), 0)"
      using r w k snoc.prems by (subst round_carry.simps) (simp add: round_carry.simps)
    have "(wval P + 1) * DIG_BASE \<le> DIG_BASE ^ length P * DIG_BASE" using b by (intro mult_right_mono) simp_all
    then have less: "wval (P @ [x]) + 1 < DIG_BASE ^ length (P @ [x])" using False x by (simp add: wval_append distrib_right)
    show ?thesis unfolding if_P [OF less] using run False x
      by (intro exI [of _ "P @ [x + 1]"] exI [of _ "length P"]) (simp add: wval_append)
  next
    case True
    then have add: "ADD x 0 1 = Inr (0, 1)" by (simp add: ADD_def i32_in)
    have run: "round_carry ((P @ [x]) @ q) k 1 = round_carry (P @ 0 # q) (k - 1) 1"
      using r w k add by (subst round_carry.simps) simp
    have iff: "wval (P @ [x]) + 1 < DIG_BASE ^ length (P @ [x]) \<longleftrightarrow> wval P + 1 < DIG_BASE ^ length P"
    proof -
      have "wval (P @ [x]) + 1 = (wval P + 1) * DIG_BASE" using True by (simp add: wval_append)
      moreover have "DIG_BASE ^ length (P @ [x]) = DIG_BASE ^ length P * DIG_BASE" by simp
      ultimately show ?thesis by (simp only: mult_less_cancel_right_pos [of DIG_BASE] zero_less_numeral)
    qed
    show ?thesis
    proof (cases "wval P + 1 < DIG_BASE ^ length P")
      case less: True
      then obtain P' j where "round_carry (P @ 0 # q) (k - 1) 1 = Inr (P' @ 0 # q, int j, 0)" "length P' = length P" "digs P'"
        "wval P' = wval P + 1" "j < length P"
        using snoc.IH [OF x(3), of "k - 1" "0 # q"] snoc.prems by auto
      then show ?thesis unfolding iff run if_P [OF less] using True
        by (intro exI [of _ "P' @ [0]"] exI [of _ j]) (simp add: wval_append)
    next
      case False
      then have "round_carry (P @ 0 # q) (k - 1) 1 = Inr (replicate (length P) 0 @ 0 # q, - 1, 1)"
        using snoc.IH [OF x(3), of "k - 1" "0 # q"] snoc.prems by simp
      then show ?thesis unfolding iff run if_not_P [OF False] by (simp add: replicate_app_Cons_same)
    qed
  qed
qed

lemma last_nonzero_words:
  "K \<noteq> [] \<Longrightarrow> k = int (length K) - 1 \<Longrightarrow>
   if \<forall>w\<in>set K. w = 0 then last_nonzero (K @ r) k = Inr None
   else \<exists>j < length K. last_nonzero (K @ r) k = Inr (Some (int j))"
proof (induction K arbitrary: k r rule: rev_induct)
  case (snoc x K)
  have rd: "nthZ ((K @ [x]) @ r) k = Inr x" using nthZ_mid [of k K x r] snoc.prems by simp
  show ?case
  proof (cases "x = 0")
    case False
    then show ?thesis using rd snoc.prems by (subst last_nonzero.simps) auto
  next
    case True
    show ?thesis
    proof (cases "K = []")
      case True
      then show ?thesis using rd \<open>x = 0\<close> snoc.prems by (subst last_nonzero.simps) simp
    next
      case False
      have "last_nonzero ((K @ [x]) @ r) k = last_nonzero (K @ 0 # r) (k - 1)"
        using rd True False snoc.prems by (subst last_nonzero.simps) simp
      then show ?thesis using snoc.IH [OF False, of "k - 1" "0 # r"] True snoc.prems
        by (cases "\<forall>w\<in>set K. w = 0") (simp_all, meson less_SucI)
    qed
  qed
qed simp

lemma shift_up_words: "r \<noteq> [] \<Longrightarrow> n = length xs \<Longrightarrow> \<exists>y. shift_up (xs @ r) n = Inr (y # xs @ tl r)"
proof (induction xs arbitrary: n r rule: rev_induct)
  case Nil
  then show ?case by (cases r) simp_all
next
  case (snoc x xs)
  obtain y r' where r: "r = y # r'" using snoc.prems by (cases r) auto
  have "nthE ((xs @ [x]) @ r) (length xs) = Inr x" by (simp add: nthE_def)
  moreover have "poke ((xs @ [x]) @ r) (Suc (length xs)) [x] = Inr ((xs @ [x]) @ x # r')"
    by (simp add: poke_def r)
  moreover have "\<exists>y. shift_up (xs @ x # x # r') (length xs) = Inr (y # xs @ x # r')"
    using snoc.IH [of "x # x # r'" "length xs"] by simp
  ultimately show ?case using snoc.prems by (simp add: r)
qed


subsection \<open>The end of a rounding\<close>

lemma written_words:
  assumes "iw d = i" "fw d = f" "d_buf d = R @ rest" "length R = i + f" "digs R" "R \<noteq> []" "0 \<le> d_intg d" "0 \<le> d_frac d"
  shows "dmag d = wval R" "dec_struct d"
proof -
  show "dmag d = wval R" using assms by (simp add: dmag_def)
  have "max 1 (i + f) = i + f" using assms(4,6) by (cases R) auto
  then show "dec_struct d" using assms by (simp add: dec_struct_def)
qed

text \<open>The result of a rounding to the magnitude \<open>X\<close>, in units of the word \<open>f0\<close>.\<close>

definition round_result :: "decimal_t \<Rightarrow> int \<Rightarrow> nat \<Rightarrow> nat \<Rightarrow> decimal_t \<Rightarrow> bool" where
  "round_result t X f0 s to' \<longleftrightarrow>
     dec_struct to' \<and> 0 < d_intg to' + d_frac to' \<and> fw to' = f0 \<and> dmag to' = X \<and>
     X < 10 ^ (nat (d_intg to') + 9 * f0) \<and> d_frac to' = int s \<and> d_sign to' = (if X = 0 then 0 else d_sign t)"

lemma round_result_words:
  assumes "nat (ROUND_UP (int s)) = f0" "length R = I + f0" "digs R" "wval R \<noteq> 0"
  shows "round_result t (wval R) f0 s (t\<lparr>d_intg := int I * DIG_PER_DEC1, d_frac := int s, d_buf := R @ rest\<rparr>)"
proof -
  let ?t = "t\<lparr>d_intg := int I * DIG_PER_DEC1, d_frac := int s, d_buf := R @ rest\<rparr>"
  have R: "R \<noteq> []" using assms(4) by auto
  note w = written [of ?t I "int s" R rest f0, OF _ _ _ assms(2,3) _ assms(1) R]
  have "0 < I + f0" using assms(2) R by (cases R) auto
  then have "0 < int (9 * I) + int s" using frac_pos [OF _ assms(1), of I] by simp
  then show ?thesis using w assms(4) by (simp add: round_result_def mult.commute)
qed

lemma round_result_zero:
  assumes "nat (ROUND_UP (int s)) = f0"
  shows "round_result t 0 f0 s (t\<lparr>d_intg := 1, d_frac := int s, d_sign := 0, d_buf := replicate (Suc f0) 0 @ rest\<rparr>)"
proof -
  let ?t = "t\<lparr>d_intg := 1, d_frac := int s, d_sign := 0, d_buf := replicate (Suc f0) 0 @ rest\<rparr>"
  have "iw ?t = 1" "fw ?t = f0" using assms by (simp_all add: iw_def fw_def ROUND_UP_def)
  note w = written_words [OF this, of "replicate (Suc f0) 0" rest]
  show ?thesis using w \<open>fw ?t = f0\<close> by (simp add: round_result_def)
qed

lemma round_result_carry:
  assumes "nat (ROUND_UP (int s)) = f0"
  shows "round_result t (DIG_BASE ^ (I + f0)) f0 s
    (t\<lparr>d_intg := int I * DIG_PER_DEC1 + 1, d_frac := int s, d_buf := (1 # replicate (I + f0) 0) @ rest\<rparr>)"
proof -
  let ?t = "t\<lparr>d_intg := int I * DIG_PER_DEC1 + 1, d_frac := int s, d_buf := (1 # replicate (I + f0) 0) @ rest\<rparr>"
  have i: "iw ?t = Suc I" "fw ?t = f0" using assms by (simp_all add: iw_def fw_def ROUND_UP_def sdiv_nonneg)
  have "dmag ?t = wval (1 # replicate (I + f0) 0)" "dec_struct ?t"
    using written_words [OF i, of "1 # replicate (I + f0) 0" rest] by simp_all
  moreover have "DIG_BASE ^ (I + f0) < 10 ^ (nat (int I * DIG_PER_DEC1 + 1) + 9 * f0)"
  proof -
    have "nat (int I * DIG_PER_DEC1 + 1) = 9 * I + 1" by simp
    then show ?thesis unfolding base_pow by (simp add: distrib_left)
  qed
  ultimately show ?thesis using i by (simp add: round_result_def)
qed

lemma round_finish_words:
  assumes t: "d_intg t = int I * DIG_PER_DEC1" and s: "nat (ROUND_UP (int s)) = f0"
    and K: "length K0 + 1 = I + f0" "digs K0" "0 \<le> v" "v \<le> DIG_BASE" and r: "r \<noteq> []" and room: "int (I + f0) < d_len t"
  shows "\<exists>to'. round_finish t (K0 @ [v] @ r) (int (length K0)) (int f0) (int I) (int s) E_DEC_OK = Inr (E_DEC_OK, to') \<and>
    round_result t (wval (K0 @ [v])) f0 s to'"
proof -
  have m: "int I * DIG_PER_DEC1 smod DIG_PER_DEC1 = 0" "(int I * DIG_PER_DEC1 + 1) smod DIG_PER_DEC1 = 1"
    by (simp_all add: smod_nonneg)
  have v: "nthZ (K0 @ [v] @ r) (int (length K0)) = Inr v" using nthZ_mid [of _ K0 v r] by simp
  have nth: "\<exists>w. nthZ (R @ r) (int j) = Inr w" if "j < length R" for R j
    using that by (simp add: nthZ_def nthE_def)
  show ?thesis
  proof (cases "v = DIG_BASE")
    case False
    then have dg: "digs (K0 @ [v])" using K by simp
    show ?thesis
    proof (cases "wval (K0 @ [v]) = 0")
      case True
      then have "last_nonzero ((K0 @ [v]) @ r) (int (length K0)) = Inr None"
        using last_nonzero_words [of "K0 @ [v]" "int (length K0)" r] wval_0_iff [OF dg] by simp
      moreover have "zero_words ((K0 @ [v]) @ r) 0 (int f0 + 1) = Inr (replicate (Suc f0) 0 @ drop (Suc f0) ((K0 @ [v]) @ r))"
      proof -
        have "Suc f0 \<le> length ((K0 @ [v]) @ r)" using K(1) r by (cases r) auto
        moreover have "nat (int f0 + 1) = Suc f0" by simp
        ultimately show ?thesis by (simp add: zero_words_def putZ_def poke_def)
      qed
      ultimately show ?thesis
        using round_result_zero [OF s, of t "drop (Suc f0) ((K0 @ [v]) @ r)"] True v False K(4)
        by (intro exI conjI) (auto simp add: round_finish_def Let_def)
    next
      case nz: False
      then obtain j where j: "j < length (K0 @ [v])" "last_nonzero ((K0 @ [v]) @ r) (int (length K0)) = Inr (Some (int j))"
        using last_nonzero_words [of "K0 @ [v]" "int (length K0)" r] wval_0_iff [OF dg] by (auto split: if_splits)
      obtain w where "nthZ ((K0 @ [v]) @ r) (int j) = Inr w" using nth [OF j(1)] by blast
      then have "round_finish t (K0 @ [v] @ r) (int (length K0)) (int f0) (int I) (int s) E_DEC_OK =
          Inr (E_DEC_OK, t\<lparr>d_intg := int I * DIG_PER_DEC1, d_frac := int s, d_buf := (K0 @ [v]) @ r\<rparr>)"
        using v False K(4) j(2) t m by (simp add: round_finish_def Let_def)
      then show ?thesis using round_result_words [OF s _ dg nz, of I t r] K(1) by auto
    qed
  next
    case True
    have put: "putZ (K0 @ [v] @ r) (int (length K0)) [v - DIG_BASE] = Inr (K0 @ [0] @ r)"
      using putZ_mid [of _ K0 v r "v - DIG_BASE"] True by simp
    have val: "wval (K0 @ [v]) = (wval K0 + 1) * DIG_BASE" using True by (simp add: wval_append)
    show ?thesis
    proof (cases "wval K0 + 1 < DIG_BASE ^ length K0")
      case less: True
      then obtain P' j where P: "round_carry (K0 @ [0] @ r) (int (length K0)) 1 = Inr (P' @ [0] @ r, int j, 0)"
        "length P' = length K0" "digs P'" "wval P' = wval K0 + 1" "j < length K0"
        using round_carry_words [OF K(2) refl, of "[0] @ r"] by auto
      have R: "length (P' @ [0]) = I + f0" "digs (P' @ [0])" "wval (P' @ [0]) = wval (K0 @ [v])"
        using P(2,3,4) K(1) val by (simp_all add: wval_append)
      have nz: "wval (P' @ [0]) \<noteq> 0" using val wval_bounds [OF K(2)] unfolding R(3) by auto
      obtain w where "nthZ ((P' @ [0]) @ r) (int j) = Inr w" using nth [of j "P' @ [0]"] P(2,5) by auto
      then have "round_finish t (K0 @ [v] @ r) (int (length K0)) (int f0) (int I) (int s) E_DEC_OK =
          Inr (E_DEC_OK, t\<lparr>d_intg := int I * DIG_PER_DEC1, d_frac := int s, d_buf := (P' @ [0]) @ r\<rparr>)"
        using v True put P(1) t m by (simp add: round_finish_def Let_def)
      then show ?thesis using round_result_words [OF s R(1,2) nz, of t r] unfolding R(3) by blast
    next
      case False
      then have c: "round_carry (K0 @ [0] @ r) (int (length K0)) 1 = Inr (replicate (length K0) 0 @ [0] @ r, - 1, 1)"
        using round_carry_words [OF K(2) refl, of "[0] @ r"] by auto
      have "wval K0 + 1 = DIG_BASE ^ length K0" using False wval_bounds [OF K(2)] by simp
      then have X: "wval (K0 @ [v]) = DIG_BASE ^ (I + f0)" unfolding val K(1) [symmetric] by simp
      have z: "replicate (length K0) 0 @ [0] @ r = replicate (I + f0) 0 @ r"
        unfolding K(1) [symmetric] by (simp add: replicate_app_Cons_same)
      obtain y where sh: "shift_up (replicate (I + f0) 0 @ r) (I + f0) = Inr (y # replicate (I + f0) 0 @ tl r)"
        using shift_up_words [OF r, of "I + f0" "replicate (I + f0) 0"] by auto
      have "round_finish t (K0 @ [v] @ r) (int (length K0)) (int f0) (int I) (int s) E_DEC_OK =
          Inr (E_DEC_OK, t\<lparr>d_intg := int I * DIG_PER_DEC1 + 1, d_frac := int s, d_buf := (1 # replicate (I + f0) 0) @ tl r\<rparr>)"
      proof -
        have n: "nat (int I + max (int f0) 0) = I + f0" by simp
        have p: "putZ (y # q) 0 [1] = Inr (1 # q)" "nthZ (1 # q) 0 = Inr 1" for q
          by (simp_all add: putZ_def poke_def nthZ_def nthE_def)
        have ten: "nthZ powers10 1 = Inr 10" by (simp add: nthZ_def nthE_def powers10_def)
        show ?thesis using v True put room t m c [unfolded z] sh n p ten by (simp add: round_finish_def Let_def)
      qed
      then show ?thesis using round_result_carry [OF s, of t I "tl r"] unfolding X by blast
    qed
  qed
qed


lemma round_finish_one:
  assumes "d_intg t = 0" "0 < d_len t" "b = DIG_BASE # r"
  shows "\<exists>to'. round_finish t b 0 0 0 0 E_DEC_OK = Inr (E_DEC_OK, to') \<and> round_result t 1 0 0 to'"
proof -
  have p: "nthZ (y # q) 0 = Inr y" "putZ (y # q) 0 [w] = Inr (w # q)" for y w :: int and q
    by (simp_all add: putZ_def poke_def nthZ_def nthE_def)
  have ten: "nthZ powers10 1 = Inr 10" by (simp add: nthZ_def nthE_def powers10_def)
  have c: "round_carry (0 # r) 0 1 = Inr (0 # r, - 1, 1)" by (simp add: round_carry.simps)
  have m: "1 smod DIG_PER_DEC1 = 1" by (simp add: smod_nonneg)
  have "round_finish t b 0 0 0 0 E_DEC_OK = Inr (E_DEC_OK, t\<lparr>d_intg := 1, d_frac := 0, d_buf := 1 # r\<rparr>)"
    using assms by (simp add: round_finish_def Let_def p c ten m)
  then show ?thesis using round_result_carry [of 0 0 t 0 r] by (simp add: ROUND_UP_def)
qed

subsection \<open>The last word kept\<close>

lemma int_div_less:
  assumes "0 < (c :: int)"
  shows "a div c < b \<longleftrightarrow> a < b * c"
proof -
  have e: "a div c * c + a mod c = a" "0 \<le> a mod c" "a mod c < c" using assms by simp_all
  show ?thesis
  proof
    assume "a div c < b"
    then have "(a div c + 1) * c \<le> b * c" using assms by (intro mult_right_mono) simp_all
    then have "a div c * c + c \<le> b * c" by (simp add: distrib_right)
    then show "a < b * c" using e by linarith
  next
    assume l: "a < b * c"
    show "a div c < b"
    proof (rule ccontr)
      assume "\<not> a div c < b"
      then have "b * c \<le> a div c * c" using assms by (intro mult_right_mono) simp_all
      then show False using l e by linarith
    qed
  qed
qed

lemma tail_half:
  assumes "digs T" "T \<noteq> []"
  shows "DIG_BASE ^ length T \<le> 2 * wval T \<longleftrightarrow> 500000000 \<le> hd T"
proof (cases T)
  case (Cons x T')
  have b: "0 \<le> wval T'" "wval T' < DIG_BASE ^ length T'" using wval_bounds [of T'] assms(1) by (simp_all add: Cons)
  have "DIG_BASE * DIG_BASE ^ length T' \<le> 2 * (x * DIG_BASE ^ length T' + wval T') \<longleftrightarrow> DIG_BASE \<le> 2 * x"
    by (rule half_test) (use b in simp_all)
  then show ?thesis unfolding Cons by simp
qed (use assms in simp)

lemma round_word_aligned:
  assumes mode: "mode = HALF_UP \<or> mode = TRUNCATE" and T: "digs T" "T \<noteq> []" and K: "length K = I + f0" "digs K"
    and b: "b = K @ T @ rest" and inc: "inc = (mode = HALF_UP \<and> DIG_BASE ^ length T \<le> 2 * wval T)"
  shows "round_word mode (round_digit mode sg) b (int f0) f1 (int I) (int f0 * DIG_PER_DEC1) =
    Inr (if K \<noteq> [] then Some (butlast K @ [last K + of_bool inc] @ T @ rest, int (length K) - 1)
         else if inc then Some (DIG_BASE # tl T @ rest, 0) else None)"
proof -
  have rT: "nthZ b (int I + int f0 - 1 + 1) = Inr (hd T)"
    using nthZ_mid [of "int I + int f0" K "hd T" "tl T @ rest"] T K(1) unfolding b by (cases T) simp_all
  have hT: "0 \<le> hd T" using T by (cases T) simp_all
  have x: "hd T sdiv DIG_MASK > 5 \<or> hd T sdiv DIG_MASK = 5 \<longleftrightarrow> 500000000 \<le> hd T"
  proof -
    have "hd T div DIG_MASK < 5 \<longleftrightarrow> hd T < 5 * DIG_MASK" by (rule int_div_less) simp
    then show ?thesis using hT by (simp add: sdiv_nonneg) linarith
  qed
  have dec: "(if round_digit mode sg = 0 then rest_nonzero b (int I + int f0 - 1 + (f1 - int f0)) (int I + int f0 - 1)
      else if round_digit mode sg = 5 then
        bindE (nthZ b (int I + int f0 - 1 + 1)) (\<lambda>w.
        let x = w sdiv DIG_MASK in
        if x > 5 then Inr True
        else if x = 5 then
          if mode = HALF_UP then Inr True
          else if int f0 + int I > 0 then bindE (nthZ b (int I + int f0 - 1)) (\<lambda>v. Inr (odd v))
          else Inr False
        else Inr False)
      else Inr False) = Inr inc"
    using mode x rT unfolding inc tail_half [OF T] by (auto simp add: round_digit_def Let_def)
  show ?thesis
  proof (cases K rule: rev_exhaust)
    case Nil
    then have z: "I = 0" "f0 = 0" using K(1) by simp_all
    have "putZ b 0 [DIG_BASE] = Inr (DIG_BASE # tl T @ rest)"
      using T unfolding b Nil by (cases T) (simp_all add: putZ_def poke_def)
    then show ?thesis unfolding round_word_def Let_def unfolding dec [unfolded Let_def]
      using Nil z by (cases inc) simp_all
  next
    case (snoc K0 v)
    have k: "int I + int f0 - 1 = int (length K0)" "int f0 + int I > 0" using K(1) snoc by simp_all
    have v: "nthZ b (int (length K0)) = Inr v" "putZ b (int (length K0)) [w] = Inr (K0 @ [w] @ T @ rest)" for w
      using nthZ_mid [of _ K0 v "T @ rest"] putZ_mid [of _ K0 v "T @ rest"] by (simp_all add: b snoc)
    have "i32 (v + 1) = Inr (v + 1)" using K(2) snoc by (intro i32_in) simp_all
    then show ?thesis unfolding round_word_def Let_def unfolding dec [unfolded Let_def] unfolding k(1)
      using k(2) v snoc K(1) by (cases inc) (simp_all add: b)
  qed
qed

lemma round_word_unaligned:
  assumes mode: "mode = HALF_UP \<or> mode = TRUNCATE" and s: "s < 9 * f0" "9 * f0 < s + 9"
    and K: "length K0 + 1 = I + f0" "0 \<le> v" "v < DIG_BASE" and b: "b = K0 @ [v] @ r" and u: "u = 10 ^ (9 * f0 - s)"
  shows "round_word mode (round_digit mode sg) b (int f0) f1 (int I) (int s) =
    Inr (Some (K0 @ [(v div u + of_bool (mode = HALF_UP \<and> u \<le> 2 * (v mod u))) * u] @ r, int (length K0)))"
    and "(v div u + of_bool (mode = HALF_UP \<and> u \<le> 2 * (v mod u))) * u \<le> DIG_BASE"
proof -
  define p where "p = 9 * f0 - s - 1"
  have p: "9 * f0 - s = Suc p" "p \<le> 7" "int f0 * DIG_PER_DEC1 - int s - 1 = int p" using s by (simp_all add: p_def)
  define w :: int where "w = 10 ^ p"
  have uw: "u = w * 10" "0 < w" by (simp_all add: u p(1) w_def)
  define y where "y = v div w mod 10"
  have q: "v div u = v div w div 10" "v mod u = w * y + v mod w"
    unfolding uw(1) y_def using uw(2) by (simp_all add: zdiv_zmult2_eq zmod_zmult2_eq)
  have h: "u \<le> 2 * (v mod u) \<longleftrightarrow> 5 \<le> y"
  proof -
    have "u \<le> 2 * (v mod u) \<longleftrightarrow> 10 * w \<le> 2 * (y * w + v mod w)"
      unfolding q(2) unfolding uw(1) by (simp add: mult.commute)
    also have "\<dots> \<longleftrightarrow> 10 \<le> 2 * y" by (rule half_test) (use uw(2) in simp_all)
    finally show ?thesis by simp
  qed
  define inc where "inc = (mode = HALF_UP \<and> 5 \<le> y)"
  let ?v = "(v div u + of_bool inc) * u"
  have le: "?v \<le> DIG_BASE"
  proof -
    have base: "DIG_BASE = 10 ^ (9 - Suc p) * u" using p(2) unfolding u p(1) by (simp flip: power_add)
    have "v div u < 10 ^ (9 - Suc p)" using K(3) uw unfolding base by (simp add: int_div_less)
    then have "v div u + of_bool inc \<le> 10 ^ (9 - Suc p)" by simp
    then show ?thesis by (subst base, intro mult_right_mono) (use uw in simp_all)
  qed
  then show "(v div u + of_bool (mode = HALF_UP \<and> u \<le> 2 * (v mod u))) * u \<le> DIG_BASE" unfolding h inc_def .
  have pw: "nthZ powers10 (int p) = Inr w" using powers10_nth [of p] p(2) by (simp add: nthZ_def w_def)
  have sx: "v sdiv w = v div w" "v div w smod 10 = y" using K(2) uw(2) by (simp_all add: sdiv_nonneg smod_nonneg y_def pos_imp_zdiv_nonneg_iff)
  have xy: "w * (v div w - y + c * 10) = (v div u + c) * u" for c
  proof -
    have "v div w - y = 10 * (v div w div 10)" unfolding y_def by (simp add: minus_mod_eq_mult_div)
    then have "v div w - y + c * 10 = 10 * (v div w div 10 + c)" by simp
    then show ?thesis unfolding q(1) unfolding uw(1) by (simp only: ac_simps)
  qed
  have nn: "0 \<le> ?v" using K(2) uw by (simp add: pos_imp_zdiv_nonneg_iff)
  have i: "i32 ?v = Inr ?v" using le nn by (intro i32_in) simp_all
  have k: "int I + int f0 - 1 = int (length K0)" using K(1) by simp
  have rd: "nthZ b (int (length K0)) = Inr v" "putZ b (int (length K0)) [x] = Inr (K0 @ [x] @ r)" for x
    using nthZ_mid [of _ K0 v r] putZ_mid [of _ K0 v r] by (simp_all add: b)
  have ne: "int s \<noteq> int f0 * DIG_PER_DEC1" using s(1) by simp
  have y9: "y \<le> 9" by (simp add: y_def)
  have "w * ((if round_digit mode sg < y \<or> round_digit mode sg = 5 \<and> y = 5 \<and> (mode = HALF_UP \<or> odd (v div w sdiv 10))
      then v div w + 10 else v div w) - y) = ?v"
    using mode y9 xy [of 0] xy [of 1] by (auto simp add: inc_def round_digit_def algebra_simps)
  then show "round_word mode (round_digit mode sg) b (int f0) f1 (int I) (int s) =
    Inr (Some (K0 @ [(v div u + of_bool (mode = HALF_UP \<and> u \<le> 2 * (v mod u))) * u] @ r, int (length K0)))"
    unfolding h inc_def [symmetric] round_word_def Let_def k p(3) rd(1) bindE_simps pw sx if_not_P [OF ne]
    by (simp add: i rd(2))
qed


subsection \<open>decimal_round\<close>

definition round_room :: "decimal_t \<Rightarrow> nat \<Rightarrow> decimal_t \<Rightarrow> bool" where
  "round_room a s to \<longleftrightarrow>
     int (iw a + 2 + max (fw a) (nat (ROUND_UP (int s)))) \<le> d_len to \<and> d_len to \<le> int (length (d_buf to)) \<and>
     iw a + max (fw a) (nat (ROUND_UP (int s))) \<le> length (d_buf a)"

text \<open>A first word of nines fills its digits, so the carry needs another word.\<close>

lemma top_word_full:
  assumes "dec_ok a" "hd (d_buf a) = DIG_MAX"
  shows "d_intg a = int (9 * iw a)"
proof -
  note o = dec_okD [OF assms(1)]
  note w = dec_struct_words [OF o(1)]
  define n where "n = iw a + fw a"
  have n: "0 < n" using o(4) by (simp add: n_def)
  obtain x xs where x: "take n (d_buf a) = x # xs" "length xs = n - 1" "x = DIG_MAX"
    using n w(4,5) assms(2) unfolding n_def by (cases "d_buf a") (auto simp add: take_Cons' split: if_splits)
  have "DIG_MAX * DIG_BASE ^ (n - 1) \<le> dmag a"
    using wval_bounds [of xs] w(3) [of n] x by (simp add: dmag_def n_def)
  moreover have "dmag a < 10 ^ (nat (d_intg a) + 9 * fw a)" using assms(1) by (simp add: dec_ok_def)
  moreover have "10 ^ (8 + 9 * (n - 1)) \<le> DIG_MAX * DIG_BASE ^ (n - 1)"
    unfolding base_pow power_add by (intro mult_right_mono) simp_all
  ultimately have less: "(10 :: int) ^ (8 + 9 * (n - 1)) < 10 ^ (nat (d_intg a) + 9 * fw a)" by linarith
  then have "8 + 9 * (n - 1) < nat (d_intg a) + 9 * fw a" by (simp add: power_strict_increasing_iff)
  then show ?thesis using iw_fw_bounds(1) [OF o(2)] o(2) n unfolding n_def by linarith
qed

lemma round_start_words:
  assumes a: "dec_ok a" and room: "round_room a s to" and f0: "f0 = nat (ROUND_UP (int s))"
    and ex: "extra = (if 0 < iw a + f0 then of_bool (hd (d_buf a) = DIG_MAX) else 0)"
  shows "\<exists>e :: nat. \<exists>A rest. ROUND_UP (d_intg a + extra) = int (iw a + e) \<and> e \<le> 1 \<and>
    round_start False a to (int (iw a)) (int (iw a + e)) (int f0) (int (fw a)) =
      Inr (to\<lparr>d_sign := d_sign a, d_intg := int (iw a + e) * DIG_PER_DEC1, d_buf := A @ rest\<rparr>, int (iw a + e)) \<and>
    length A = iw a + e + fw a \<and> digs A \<and> wval A = dmag a \<and> (0 < iw a + e + f0 \<longrightarrow> hd A \<noteq> DIG_MAX) \<and>
    int (iw a + e + max (fw a) f0) < d_len to \<and> length (A @ rest) = length (d_buf to)"
proof -
  note o = dec_okD [OF a]
  note w = dec_struct_words [OF o(1)]
  define e :: nat where "e = nat extra"
  have e: "extra = int e" "e \<le> 1" by (simp_all add: e_def ex)
  have i: "ROUND_UP (d_intg a + extra) = int (iw a + e)"
  proof (cases "e = 0")
    case False
    then have "hd (d_buf a) = DIG_MAX" using e ex by (cases "hd (d_buf a) = DIG_MAX") (auto split: if_splits)
    then have "d_intg a + extra = int (9 * iw a) + 1" using top_word_full [OF a] e False by simp
    then show ?thesis using e False by (simp add: ROUND_UP_def sdiv_nonneg)
  qed (use e w(1) in simp)
  define n where "n = iw a + max (fw a) f0"
  have len: "int (n + 2) \<le> d_len to" "d_len to \<le> int (length (d_buf to))" "n \<le> length (d_buf a)"
    using room unfolding round_room_def n_def f0 by simp_all
  define E where "E = take e (d_buf to)"
  define ys where "ys = take n (drop e (d_buf to))"
  define q where "q = drop (e + n) (d_buf to)"
  have to: "d_buf to = E @ ys @ q" "length E = e" "length ys = n"
    using len e drop_take_split [of e n "d_buf to"] by (simp_all add: E_def ys_def q_def)
  have cp: "round_copy False (d_buf a) (d_buf to) (int (iw a + e) + max (int (fw a)) (int f0)) (nat (int (iw a) + max (int (fw a)) (int f0))) =
      Inr (E @ take n (d_buf a) @ q)"
  proof -
    have "nat (int (iw a) + max (int (fw a)) (int f0)) = n" "int (iw a + e) + max (int (fw a)) (int f0) = int (length E + n)"
      using to(2) by (simp_all add: n_def)
    then show ?thesis using round_copy_words [OF len(3) to(3), of "int (length E + n)" E q] to(1) by simp
  qed
  define A where "A = replicate e 0 @ take (iw a + fw a) (d_buf a)"
  define rest where "rest = take (n - (iw a + fw a)) (drop (iw a + fw a) (d_buf a)) @ q"
  have tk: "take n (d_buf a) = take (iw a + fw a) (d_buf a) @ take (n - (iw a + fw a)) (drop (iw a + fw a) (d_buf a))"
    using take_add [of "iw a + fw a" "n - (iw a + fw a)" "d_buf a"] by (simp add: n_def)
  have z: "(if int (iw a + e) > int (iw a) then putZ (E @ take n (d_buf a) @ q) 0 [0] else Inr (E @ take n (d_buf a) @ q)) =
      Inr (A @ rest)"
  proof (cases "e = 0")
    case False
    then have "e = 1" using e(2) by simp
    then show ?thesis using to(2) tk by (cases E) (simp_all add: A_def rest_def putZ_def poke_def)
  qed (use to(2) tk in \<open>simp add: A_def rest_def\<close>)
  have mn: "min (int (iw a + e)) (d_len to) = int (iw a + e)" using len(1) e(2) by (simp add: n_def)
  have st: "round_start False a to (int (iw a)) (int (iw a + e)) (int f0) (int (fw a)) =
      Inr (to\<lparr>d_sign := d_sign a, d_intg := int (iw a + e) * DIG_PER_DEC1, d_buf := A @ rest\<rparr>, int (iw a + e))"
    unfolding round_start_def cp bindE_simps z mn by simp
  have hdA: "hd A \<noteq> DIG_MAX" if "0 < iw a + e + f0"
  proof (cases "e = 0")
    case True
    then have h: "hd (d_buf a) \<noteq> DIG_MAX" using that e ex by (auto split: if_splits)
    have "A = take (iw a + fw a) (d_buf a)" using True by (simp add: A_def)
    then show ?thesis using h o(4) w(4) by (cases "d_buf a") (auto simp add: take_Cons')
  next
    case False
    then show ?thesis by (cases e) (simp_all add: A_def)
  qed
  have lA: "length A = iw a + e + fw a" using w(5) by (simp add: A_def)
  have lr: "length (A @ rest) = length (d_buf to)"
    using to len(3) lA unfolding rest_def n_def by simp
  have "digs A" "wval A = dmag a" using w(3) by (simp_all add: A_def wval_append dmag_def)
  moreover have "int (iw a + e + max (fw a) f0) < d_len to" using len(1) e(2) n_def by simp
  ultimately show ?thesis using i e(2) st lA lr hdA
    by (intro exI [of _ e] exI [of _ A] exI [of _ rest] conjI impI) assumption+
qed

lemma round_result_value:
  assumes a: "dec_ok a" and r: "round_result t X f0 s to'" and t: "d_sign t = d_sign a" and s: "s \<le> 9 * f0"
    and X: "X = round_mag mode m (10 ^ (d - s)) * 10 ^ (9 * f0 - s)" and m: "0 \<le> m" "s \<le> d"
    and v: "dval a = (if d_sign a = 0 then 1 else - 1) * (of_int m / 10 ^ d)"
  shows "dec_ok to' \<and> dval to' = rounded mode s (dval a)"
proof
  define q where "q = round_mag mode m (10 ^ (d - s))"
  have Xq: "X = q * 10 ^ (9 * f0 - s)" unfolding X q_def ..
  have "0 \<le> d_frac to'" "d_frac to' = int s" using r by (simp_all add: round_result_def)
  then show "dec_ok to'" using r t dec_okD(5) [OF a] Xq by (auto simp add: dec_ok_def round_result_def)
  have e: "(10 :: rat) ^ (9 * f0) = 10 ^ (9 * f0 - s) * 10 ^ s" using s by (simp flip: power_add)
  have "of_int X / (10 :: rat) ^ (9 * f0) = of_int q / 10 ^ s" unfolding Xq e by simp
  then have "dval to' = (if d_sign a = 0 then 1 else - 1) * (of_int q / 10 ^ s)"
    using r t unfolding dval_def round_result_def by auto
  moreover have "rounded mode s (dval a) = (if d_sign a \<noteq> 0 then - 1 else 1) * (of_int q / 10 ^ s)"
    unfolding q_def by (rule rounded_mag [OF m]) (use v in simp)
  ultimately show "dval to' = rounded mode s (dval a)" by simp
qed

lemma round_keep:
  assumes a: "dec_ok a" and R: "R = A @ replicate (f0 - f) 0" "length A = I + f" "digs A" "wval A = dmag a" "f \<le> f0" "f = fw a" "A \<noteq> []"
    and s: "nat (ROUND_UP (int s)) = f0" "d_frac a \<le> int s" and t: "d_sign t = d_sign a" "d_intg t = int I * DIG_PER_DEC1"
  shows "dec_ok (t\<lparr>d_frac := int s, d_buf := R @ rest\<rparr>) \<and> dval (t\<lparr>d_frac := int s, d_buf := R @ rest\<rparr>) = rounded mode s (dval a)"
proof -
  let ?t = "t\<lparr>d_frac := int s, d_buf := R @ rest\<rparr>"
  note o = dec_okD [OF a]
  have sf: "s \<le> 9 * f0" using s(1) iw_fw_bounds(2) [of ?t] by (simp add: fw_def)
  have len: "length R = I + f0" "digs R" "R \<noteq> []" using R by auto
  have m: "wval R = mag f0 a" unfolding R(1) mag_def wval_append using R(4,6) by (simp add: dmag_def)
  have w: "iw ?t = I" "fw ?t = f0" "dmag ?t = wval R" "dec_struct ?t" "dmag ?t < 10 ^ (nat (d_intg ?t) + 9 * fw ?t)"
    using written [of ?t I "int s" R rest f0] len s t by (simp_all add: mult.commute)
  have dv: "10 ^ (9 * f0 - s) dvd mag f0 a" using mag_dvd [OF a _ s(2), of f0] R(5,6) sf by simp
  have "dval a = (if d_sign a = 0 then 1 else - 1) * (of_int (mag f0 a) / 10 ^ (9 * f0))" using R(5,6) by (intro dval_mag) simp
  then have "dval ?t = dval a" using w(2,3) m t(1) by (simp add: dval_def)
  moreover have "dec_ok ?t"
  proof -
    have "0 < I + f0" using len(1,3) by (cases R) auto
    then have "0 < d_intg ?t + d_frac ?t" using frac_pos [OF _ s(1), of I] t(2) by (simp add: mult.commute)
    moreover have "dmag ?t = 0 \<longrightarrow> d_sign a = 0" using o(6) unfolding w(3) m by (simp add: mag_def dmag_def)
    ultimately show ?thesis using w dv o(5) t(1) by (simp add: dec_ok_def m)
  qed
  moreover have "rounded mode s (dval a) = dval a"
  proof -
    define u :: int where "u = 10 ^ (9 * f0 - s)"
    obtain q where q: "mag f0 a = q * u + 0" using dv by (auto simp add: u_def dvd_def mult.commute)
    have u: "0 < u" by (simp add: u_def)
    have "round_mag mode (mag f0 a) u = q" unfolding q using round_mag_split [of 0 u mode q] u by simp
    moreover have "rounded mode s (dval a) = (if d_sign a \<noteq> 0 then - 1 else 1) * (of_int (round_mag mode (mag f0 a) u) / 10 ^ s)"
      unfolding u_def using sf o(8) \<open>dval a = _ * (of_int (mag f0 a) / _)\<close> by (intro rounded_mag) simp_all
    moreover have "(10 :: rat) ^ (9 * f0) = of_int u * 10 ^ s" using sf by (simp add: u_def flip: power_add)
    ultimately show ?thesis using \<open>dval a = _ * (of_int (mag f0 a) / _)\<close> u unfolding q by simp
  qed
  ultimately show ?thesis by simp
qed

lemma zero_words_tail:
  assumes "X \<noteq> []" "lo = int (length X)" "lo \<le> hi" "hi \<le> int (length (X @ Y))" "Y \<noteq> []"
  shows "\<exists>Y'. zero_words (X @ Y) lo hi = Inr (X @ Y') \<and> Y' \<noteq> []"
proof (cases "lo < hi")
  case True
  then have "nat (hi - lo) \<le> length Y" "0 < nat (hi - lo)" using assms by simp_all
  then show ?thesis using True assms by (simp add: zero_words_def putZ_def poke_def)
qed (use assms in \<open>auto simp add: zero_words_def\<close>)

text \<open>The rounded last word gives the rounded magnitude.\<close>

lemma round_mag_word:
  assumes w: "w = 10 ^ e" "0 < e" "e < 9" and T: "digs T"
    and c: "c = v div w + of_bool (mode = HALF_UP \<and> w \<le> 2 * (v mod w))"
  shows "round_mag mode (wval (K0 @ [v] @ T)) (w * DIG_BASE ^ length T) * w = wval (K0 @ [c * w])"
proof -
  define b where "b = 10 ^ (9 - e) * wval K0"
  have tb: "0 \<le> wval T" "wval T < DIG_BASE ^ length T" using wval_bounds [OF T] by simp_all
  have w0: "0 < w" "even w" using w by simp_all
  have "DIG_BASE = 10 ^ (9 - e) * w" unfolding w(1) using w(3) by (simp flip: power_add)
  then have wb: "wval K0 * DIG_BASE = b * w" by (simp add: b_def)
  have "b * w + v = (b + v div w) * w + v mod w" by (simp add: distrib_right)
  then have "(b * w + v) * DIG_BASE ^ length T + wval T =
      (b + v div w) * (w * DIG_BASE ^ length T) + ((v mod w) * DIG_BASE ^ length T + wval T)"
    by (simp add: distrib_right ac_simps)
  moreover have "wval (K0 @ [v] @ T) = (wval K0 * DIG_BASE + v) * DIG_BASE ^ length T + wval T"
    by (simp add: wval_append algebra_simps)
  ultimately have wA: "wval (K0 @ [v] @ T) = (b + v div w) * (w * DIG_BASE ^ length T) + ((v mod w) * DIG_BASE ^ length T + wval T)"
    unfolding wb by simp
  have m: "0 \<le> v mod w" "v mod w \<le> w - 1" using w0 by simp_all
  have bd: "0 \<le> (v mod w) * DIG_BASE ^ length T + wval T"
    "(v mod w) * DIG_BASE ^ length T + wval T < w * DIG_BASE ^ length T"
  proof -
    show "0 \<le> (v mod w) * DIG_BASE ^ length T + wval T" using m tb by simp
    have "(v mod w) * DIG_BASE ^ length T \<le> (w - 1) * DIG_BASE ^ length T" using m by (intro mult_right_mono) simp_all
    then show "(v mod w) * DIG_BASE ^ length T + wval T < w * DIG_BASE ^ length T" using tb by (simp add: left_diff_distrib)
  qed
  from half_test [OF w0(2) tb]
  have h: "(w * DIG_BASE ^ length T \<le> 2 * (v mod w * DIG_BASE ^ length T + wval T)) = (w \<le> 2 * (v mod w))" .
  have "round_mag mode (wval (K0 @ [v] @ T)) (w * DIG_BASE ^ length T) = b + c"
    unfolding wA round_mag_split [OF bd] h c by simp
  then show ?thesis by (simp add: wval_append wb distrib_right)
qed

text \<open>The rounding of \<open>A\<close>, the words of the magnitude, to \<open>s\<close> digits, fewer than \<open>A\<close> has.\<close>

lemma round_cut:
  assumes mode: "mode = HALF_UP \<or> mode = TRUNCATE"
    and A: "length A = I + f" "digs A" "0 < I + f0 \<longrightarrow> hd A \<noteq> DIG_MAX" and s: "s < 9 * f" "nat (ROUND_UP (int s)) = f0"
    and t: "d_intg t = int I * DIG_PER_DEC1" "d_buf t = A @ rest"
    and room: "int (I + max f f0) < d_len t" "d_len t \<le> int (length (A @ rest))"
    and M: "X = round_mag mode (wval A) (10 ^ (9 * f - s)) * 10 ^ (9 * f0 - s)"
  shows "\<exists>to'. bindE (round_word mode (round_digit mode sg) (d_buf t) (int f0) (int f) (int I) (int s)) (\<lambda>r.
      case r of
        None \<Rightarrow> bindE (decimal_make_zero t) (\<lambda>t. Inr (E_DEC_OK, t))
      | Some (b, k) \<Rightarrow>
          bindE (if int f0 < int f
                 then zero_words b (if int s = 0 \<and> int I = 0 then 1 else int I + int f0) (d_len t)
                 else Inr b) (\<lambda>b.
          round_finish t b k (int f0) (int I) (int s) E_DEC_OK)) = Inr (E_DEC_OK, to') \<and>
    (round_result t X f0 s to' \<or> X = 0 \<and> dec_ok to' \<and> dval to' = 0)"
proof -
  have f0: "f0 \<le> f" "s \<le> 9 * f0" "9 * f0 < s + 9"
    using s by (auto simp add: ROUND_UP_def sdiv_nonneg)
  define K where "K = take (I + f0) A"
  define T where "T = drop (I + f0) A"
  have KT: "A = K @ T" "length K = I + f0" "length T = f - f0" "digs K" "digs T"
    using A f0(1) digs_take_drop [OF A(2)] by (simp_all add: K_def T_def)
  have tb: "0 \<le> wval T" "wval T < DIG_BASE ^ length T" using wval_bounds [OF KT(5)] by simp_all
  have rest: "rest \<noteq> []" using room A(1) by auto
  have lT: "length (T @ rest) + (I + f0) = length (A @ rest)" using KT by simp
  have fin: "\<exists>to'. bindE (if int f0 < int f
                 then zero_words (K0 @ [v] @ T @ rest) (if int s = 0 \<and> int I = 0 then 1 else int I + int f0) (d_len t)
                 else Inr (K0 @ [v] @ T @ rest)) (\<lambda>b.
          round_finish t b (int (length K0)) (int f0) (int I) (int s) E_DEC_OK) = Inr (E_DEC_OK, to') \<and>
      round_result t (wval (K0 @ [v])) f0 s to'"
    if K0: "length K0 + 1 = I + f0" "digs K0" "0 \<le> v" "v \<le> DIG_BASE" for K0 v
  proof -
    obtain Y where Y: "(if int f0 < int f
                 then zero_words (K0 @ [v] @ T @ rest) (if int s = 0 \<and> int I = 0 then 1 else int I + int f0) (d_len t)
                 else Inr (K0 @ [v] @ T @ rest)) = Inr (K0 @ [v] @ Y)" "Y \<noteq> []"
    proof (cases "f0 < f")
      case True
      have lo: "(if int s = 0 \<and> int I = 0 then 1 else int I + int f0) = int (length (K0 @ [v]))"
        using K0(1) s(2) by (auto simp add: ROUND_UP_def)
      have "int (length (K0 @ [v])) \<le> d_len t" using room(1) K0(1) f0(1) by simp
      moreover have "d_len t \<le> int (length ((K0 @ [v]) @ T @ rest))" using room(2) lT K0(1) by simp
      ultimately show ?thesis using zero_words_tail [of "K0 @ [v]" _ "d_len t" "T @ rest"] rest True that unfolding lo by auto
    next
      case False
      then show ?thesis using that [of "T @ rest"] rest by simp
    qed
    have "int (I + f0) < d_len t" using room(1) f0(1) by simp
    from round_finish_words [OF t(1) s(2) K0 Y(2) this] show ?thesis unfolding Y(1) by simp
  qed
  define inc where "inc = (mode = HALF_UP \<and> DIG_BASE ^ length T \<le> 2 * wval T)"
  show ?thesis
  proof (cases "s = 9 * f0")
    case True
    have e: "9 * f - s = 9 * length T" "9 * f0 - s = 0" "int s = int f0 * DIG_PER_DEC1" using True f0(1) KT(3) by simp_all
    have X: "X = wval K + of_bool inc"
      unfolding M e(1,2) KT(1) wval_append inc_def base_pow(1) [symmetric] round_mag_split [OF tb] by simp
    have T: "T \<noteq> []" using True s(1) KT(3) by auto
    note rw = round_word_aligned [OF mode KT(5) T KT(2,4) _ inc_def, of _ rest sg "int f"]
    show ?thesis
    proof (cases K rule: rev_exhaust)
      case Nil
      then have z: "I = 0" "f0 = 0" "s = 0" using KT(2) True by simp_all
      show ?thesis
      proof (cases inc)
        case False
        have nb: "d_buf t \<noteq> []" using t(2) T KT(1) by simp
        let ?t = "t\<lparr>d_buf := 0 # tl (d_buf t), d_intg := 1, d_frac := 0, d_sign := 0\<rparr>"
        show ?thesis using rw make_zero_run [OF nb] zero_dec_ok [of "tl (d_buf t)" t] X False Nil KT(1) t(2) e(3)
          by (intro exI [of _ ?t]) simp
      next
        case inc: True
        obtain Y where Y: "zero_words ([DIG_BASE] @ tl T @ rest) 1 (d_len t) = Inr ([DIG_BASE] @ Y)"
          using zero_words_tail [of "[DIG_BASE]" 1 "d_len t" "tl T @ rest"] rest room KT(1) Nil T z(1) by (cases T) auto
        have "d_intg t = 0" "0 < d_len t" using t(1) z room(1) by simp_all
        from round_finish_one [OF this, of "DIG_BASE # Y" Y] obtain to' where
          "round_finish t (DIG_BASE # Y) 0 0 0 0 E_DEC_OK = Inr (E_DEC_OK, to')" "round_result t 1 0 0 to'" by auto
        then show ?thesis using rw X inc Nil KT(1) t(2) e(3) z Y s(1) by (intro exI [of _ to']) simp
      qed
    next
      case (snoc K0 v)
      have K0: "length K0 + 1 = I + f0" "digs K0" "0 \<le> v + of_bool inc" "v + of_bool inc \<le> DIG_BASE"
        using KT(2,4) snoc by auto
      have "wval (K0 @ [v + of_bool inc]) = X" unfolding X snoc by (simp add: wval_append)
      then obtain to' where "bindE (if int f0 < int f
                 then zero_words (K0 @ [v + of_bool inc] @ T @ rest) (if int s = 0 \<and> int I = 0 then 1 else int I + int f0) (d_len t)
                 else Inr (K0 @ [v + of_bool inc] @ T @ rest)) (\<lambda>b.
          round_finish t b (int (length K0)) (int f0) (int I) (int s) E_DEC_OK) = Inr (E_DEC_OK, to')"
          "round_result t X f0 s to'" using fin [OF K0] by auto
      moreover have word: "round_word mode (round_digit mode sg) (d_buf t) (int f0) (int f) (int I) (int s) =
          Inr (Some (K0 @ [v + of_bool inc] @ T @ rest, int (length K0)))"
        using rw snoc t(2) KT(1) e(3) by simp
      ultimately show ?thesis unfolding word bindE_simps option.case prod.case by blast
    qed
  next
    case False
    then have u: "s < 9 * f0" using f0(2) by simp
    define w :: int where "w = 10 ^ (9 * f0 - s)"
    obtain K0 v where K: "K = K0 @ [v]" using KT(2) u by (cases K rule: rev_exhaust) auto
    have K0: "length K0 + 1 = I + f0" "digs K0" "0 \<le> v" "v < DIG_BASE" using KT(2,4) K by simp_all
    define c where "c = v div w + of_bool (mode = HALF_UP \<and> w \<le> 2 * (v mod w))"
    have w0: "0 < w" by (simp add: w_def)
    have buf: "d_buf t = K0 @ [v] @ T @ rest" using t(2) KT(1) K by simp
    note rw = round_word_unaligned(1) [OF mode u f0(3) K0(1,3,4) buf w_def, of sg "int f", folded c_def]
      round_word_unaligned(2) [OF mode u f0(3) K0(1,3,4) buf w_def, folded c_def]
    have c: "0 \<le> c * w" using K0(3) w0 by (simp add: c_def pos_imp_zdiv_nonneg_iff)
    have val: "wval (K0 @ [c * w]) = X"
    proof -
      have "9 * f - s = 9 * f0 - s + 9 * length T" using KT(3) u f0(1) by simp
      then have "(10 :: int) ^ (9 * f - s) = w * DIG_BASE ^ length T" by (simp add: w_def base_pow power_add)
      then show ?thesis
        using round_mag_word [OF w_def _ _ KT(5) c_def, of K0] u f0(3) unfolding M KT(1) K w_def [symmetric] by simp
    qed
    obtain to' where "bindE (if int f0 < int f
                 then zero_words (K0 @ [c * w] @ T @ rest) (if int s = 0 \<and> int I = 0 then 1 else int I + int f0) (d_len t)
                 else Inr (K0 @ [c * w] @ T @ rest)) (\<lambda>b.
          round_finish t b (int (length K0)) (int f0) (int I) (int s) E_DEC_OK) = Inr (E_DEC_OK, to')"
          "round_result t X f0 s to'" using fin [OF K0(1,2) c rw(2)] unfolding val by blast
    then show ?thesis unfolding rw(1) bindE_simps option.case prod.case by blast
  qed
qed

text \<open>C22: rounding of exact decimals. For a well-formed operand, any scale that is not negative
  and the modes \<open>HALF_UP\<close> and \<open>TRUNCATE\<close>,
  \<open>decimal_round\<close> into another decimal with room, from a buffer that has as many
  words as the scale asks for, leaves a well-formed decimal whose value is the operand rounded
  half away from zero, or towards zero, to that many digits: the cut inside a word, at a word
  and in front of the first word, the carry through words of nines and the carry into a new
  first word included.\<close>

theorem decimal_round_rounds:
  assumes a: "dec_ok a" and mode: "mode = HALF_UP \<or> mode = TRUNCATE" and room: "round_room a s to"
  shows "\<exists>to'. decimal_round False a to (int s) mode = Inr (E_DEC_OK, to') \<and> dec_ok to' \<and>
    dval to' = rounded mode s (dval a)"
proof -
  note o = dec_okD [OF a]
  note w = dec_struct_words [OF o(1)]
  define f0 where "f0 = nat (ROUND_UP (int s))"
  have f0: "ROUND_UP (int s) = int f0" "s \<le> 9 * f0" by (simp_all add: f0_def ROUND_UP_def sdiv_nonneg)
  have frac0: "(if int s > 0 then ROUND_UP (int s) else int s sdiv DIG_PER_DEC1) = int f0"
    using f0(1) by (cases "s = 0") (simp_all add: f0_def ROUND_UP_def)
  define extra :: int where "extra = (if 0 < iw a + f0 then of_bool (hd (d_buf a) = DIG_MAX) else 0)"
  have ex: "(if int (iw a) + int f0 > 0 then bindE (nthZ (d_buf a) 0) (\<lambda>w. Inr (of_bool (w = DIG_MAX))) else Inr 0) = Inr extra"
    using nthZ_0 [OF w(4)] by (simp add: extra_def)
  obtain e A rest where st: "ROUND_UP (d_intg a + extra) = int (iw a + e)"
      "round_start False a to (int (iw a)) (int (iw a + e)) (int f0) (int (fw a)) =
        Inr (to\<lparr>d_sign := d_sign a, d_intg := int (iw a + e) * DIG_PER_DEC1, d_buf := A @ rest\<rparr>, int (iw a + e))"
    and A: "length A = iw a + e + fw a" "digs A" "wval A = dmag a" "0 < iw a + e + f0 \<longrightarrow> hd A \<noteq> DIG_MAX"
      "int (iw a + e + max (fw a) f0) < d_len to" "length (A @ rest) = length (d_buf to)"
    using round_start_words [OF a room f0_def extra_def] by (elim exE conjE) (rule that; assumption)
  define I where "I = iw a + e"
  define t where "t = to\<lparr>d_sign := d_sign a, d_intg := int I * DIG_PER_DEC1, d_buf := A @ rest\<rparr>"
  have t: "d_sign t = d_sign a" "d_intg t = int I * DIG_PER_DEC1" "d_buf t = A @ rest" "d_len t = d_len to" by (simp_all add: t_def)
  have room': "int (I + max (fw a) f0) < d_len t" "d_len t \<le> int (length (A @ rest))"
    using A(5,6) room unfolding I_def t(4) by (simp_all add: round_room_def)
  have fit: "\<not> int f0 + int (iw a) > d_len to" using A(5) by simp
  have neg: "\<not> int s + d_intg a < 0" using o(2) by simp
  have run: "decimal_round False a to (int s) mode =
      (if int f0 > int (fw a) then
        bindE (zero_words (d_buf t) (int I + int (fw a)) (int I + int f0)) (\<lambda>b.
        Inr (E_DEC_OK, t\<lparr>d_frac := int s, d_buf := b\<rparr>))
      else if int s \<ge> d_frac a then Inr (E_DEC_OK, t\<lparr>d_frac := int s\<rparr>)
      else bindE (round_word mode (round_digit mode (d_sign a)) (d_buf t) (int f0) (int (fw a)) (int I) (int s)) (\<lambda>r.
      case r of
        None \<Rightarrow> bindE (decimal_make_zero t) (\<lambda>t. Inr (E_DEC_OK, t))
      | Some (b, k) \<Rightarrow>
          bindE (if int f0 < int (fw a)
                 then zero_words b (if int s = 0 \<and> int I = 0 then 1 else int I + int f0) (d_len t)
                 else Inr b) (\<lambda>b.
          round_finish t b k (int f0) (int I) (int s) E_DEC_OK)))"
    unfolding decimal_round_def Let_def frac0 w(1,2) ex bindE_simps if_not_P [OF fit] prod.case st(1) [folded I_def] if_not_P [OF neg]
      st(2) [folded I_def, folded t_def] ..
  have sf: "nat (ROUND_UP (int s)) = f0" by (simp add: f0_def)
  have nA: "A \<noteq> []" using A(1) o(4) by auto
  show ?thesis
  proof (cases "fw a < f0 \<or> d_frac a \<le> int s")
    case True
    have le: "fw a \<le> f0"
    proof (cases "fw a < f0")
      case False
      then have "ROUND_UP (d_frac a) \<le> ROUND_UP (int s)" using True o(3) by (intro ROUND_UP_mono) simp_all
      then show ?thesis unfolding w(2) f0(1) by simp
    qed simp
    have fr: "d_frac a \<le> int s"
    proof (cases "d_frac a \<le> int s")
      case False
      then have "ROUND_UP (int s) \<le> ROUND_UP (d_frac a)" by (intro ROUND_UP_mono) simp_all
      then show ?thesis using True False unfolding w(2) f0(1) by simp
    qed
    define r where "r = drop (f0 - fw a) rest"
    have l: "f0 - fw a \<le> length rest" using room' A(1) le unfolding I_def by (simp add: max_def)
    have "decimal_round False a to (int s) mode = Inr (E_DEC_OK, t\<lparr>d_frac := int s, d_buf := (A @ replicate (f0 - fw a) 0) @ r\<rparr>)"
    proof (cases "fw a < f0")
      case True
      have "nat (int I + int f0 - (int I + int (fw a))) = f0 - fw a" "nat (int I + int (fw a)) = length A"
        using True A(1) I_def by simp_all
      then have "zero_words (A @ rest) (int I + int (fw a)) (int I + int f0) = Inr ((A @ replicate (f0 - fw a) 0) @ r)"
        using True l by (simp add: zero_words_def putZ_def poke_def r_def)
      then show ?thesis unfolding run t(3) using True by simp
    next
      case False
      then show ?thesis unfolding run using fr le by (simp add: r_def t_def)
    qed
    moreover have "length A = I + fw a" using A(1) by (simp add: I_def)
    from round_keep [OF a refl this A(2,3) le refl nA sf fr t(1,2)]
    have "dec_ok (t\<lparr>d_frac := int s, d_buf := (A @ replicate (f0 - fw a) 0) @ r\<rparr>) \<and>
      dval (t\<lparr>d_frac := int s, d_buf := (A @ replicate (f0 - fw a) 0) @ r\<rparr>) = rounded mode s (dval a)" .
    ultimately show ?thesis by blast
  next
    case False
    then have s9: "s < 9 * fw a" using iw_fw_bounds(2) [OF o(3)] by simp
    have v: "dval a = (if d_sign a = 0 then 1 else - 1) * (of_int (wval A) / 10 ^ (9 * fw a))" by (simp add: dval_def A(3))
    define X where "X = round_mag mode (wval A) (10 ^ (9 * fw a - s)) * 10 ^ (9 * f0 - s)"
    have lA: "length A = I + fw a" "0 < I + f0 \<longrightarrow> hd A \<noteq> DIG_MAX" using A(1,4) by (simp_all add: I_def)
    have n: "\<not> int f0 > int (fw a)" "\<not> int s \<ge> d_frac a" using False by simp_all
    obtain to' where res: "decimal_round False a to (int s) mode = Inr (E_DEC_OK, to')"
      "round_result t X f0 s to' \<or> X = 0 \<and> dec_ok to' \<and> dval to' = 0"
      using round_cut [OF mode lA(1) A(2) lA(2) s9 sf t(2,3) room' X_def, of "d_sign a"] unfolding run if_not_P [OF n(1)] if_not_P [OF n(2)] by blast
    have pos: "0 \<le> wval A" "s \<le> 9 * fw a" using wval_bounds [OF A(2)] s9 by simp_all
    from res(2) have "dec_ok to' \<and> dval to' = rounded mode s (dval a)"
    proof
      assume "round_result t X f0 s to'"
      from round_result_value [OF a this t(1) f0(2) X_def pos v] show ?thesis .
    next
      assume z: "X = 0 \<and> dec_ok to' \<and> dval to' = 0"
      then have "round_mag mode (wval A) (10 ^ (9 * fw a - s)) = 0" unfolding X_def by simp
      moreover have "rounded mode s (dval a) = (if d_sign a \<noteq> 0 then - 1 else 1) * (of_int (round_mag mode (wval A) (10 ^ (9 * fw a - s))) / 10 ^ s)"
        by (rule rounded_mag [OF pos]) (use v in simp)
      ultimately show ?thesis using z by simp
    qed
    then show ?thesis using res(1) by blast
  qed
qed

text \<open>2.75 rounded to one digit.\<close>

lemma decimal_round_rounds_witness:
  "\<exists>to'. decimal_round False dec_b \<lparr>d_intg = 0, d_frac = 0, d_len = 4, d_sign = 0, d_buf = [7, 7, 7, 7]\<rparr> 1 HALF_UP =
      Inr (E_DEC_OK, to') \<and> dec_ok to' \<and> dval to' = - 14 / 5"
proof -
  have "round_room dec_b 1 \<lparr>d_intg = 0, d_frac = 0, d_len = 4, d_sign = 0, d_buf = [7, 7, 7, 7]\<rparr>"
    unfolding round_room_def dec_words by (simp add: dec_b_def ROUND_UP_def)
  moreover have "rounded HALF_UP 1 (dval dec_b) = - 14 / 5"
    unfolding rounded_def dval_b by simp
  ultimately show ?thesis using decimal_round_rounds [OF dec_ok_b, of HALF_UP 1] by simp
qed

subsection \<open>A carry past the front at a negative scale\<close>

text \<open>C27: rounding at a negative scale loses the number. An integer of nine digits that rounds up
  to ten to the nine at scale \<open>- 9\<close> becomes zero: the word the carry was put into
  is among the words that are cleared before it is looked at.\<close>

theorem decimal_round_loses_carry:
  assumes a: "dec_ok a" "d_intg a = 9" "d_frac a = 0" "5 * 10 ^ 8 \<le> \<bar>dval a\<bar>"
    and to: "0 < d_len to" "d_len to \<le> int (length (d_buf to))"
  shows "\<exists>to'. decimal_round False a to (- 9) HALF_UP = Inr (E_DEC_OK, to') \<and> dec_ok to' \<and> dval to' = 0"
proof -
  note o = dec_okD [OF a(1)]
  note w = dec_struct_words [OF o(1)]
  have i: "iw a = 1" "fw a = 0" using a(2,3) by (simp_all add: iw_def fw_def ROUND_UP_def)
  obtain x xs where x: "d_buf a = x # xs" using w(4) by (cases "d_buf a") auto
  have "dmag a = x" by (simp add: dmag_def i x)
  then have x5: "0 \<le> x" "500000000 \<le> x"
    using a(4) w(6) by (auto simp add: dval_def i x abs_if split: if_splits)
  have digit: "x sdiv DIG_MASK > 5 \<or> x sdiv DIG_MASK = 5"
    using x5 int_div_less [of DIG_MASK x 5] by (simp add: sdiv_nonneg) linarith
  obtain y q where y: "d_buf to = y # q" using to by (cases "d_buf to") auto
  define t where "t = to\<lparr>d_sign := d_sign a, d_intg := 9, d_buf := x # q\<rparr>"
  have st: "round_start False a to 1 1 (- 1) 0 = Inr (t, 1)"
  proof -
    have "round_copy False (d_buf a) (d_buf to) 1 1 = Inr (x # q)"
      using round_copy_words [of 1 "d_buf a" "[y]" 1 "[]" q] by (simp add: x y)
    moreover have "min 1 (d_len to) = 1" using to by simp
    ultimately show ?thesis by (simp add: round_start_def t_def)
  qed
  have t: "d_buf t = x # q" "d_intg t = 9" "d_len t = d_len to" by (simp_all add: t_def)
  have word: "round_word HALF_UP 5 (x # q) (- 1) 0 1 (- 9) = Inr (Some (DIG_BASE # q, 0))"
    using digit by (auto simp add: round_word_def Let_def nthZ_def nthE_def putZ_def poke_def)
  obtain m where m: "nat (d_len to) = Suc m" using to(1) by (cases "nat (d_len to)") auto
  have z: "zero_words (DIG_BASE # q) 0 (d_len t) = Inr (0 # replicate m 0 @ drop m q)"
    using to m y unfolding t(3) by (simp add: zero_words_def putZ_def poke_def)
  let ?t = "t\<lparr>d_buf := 0 # replicate m 0 @ drop m q, d_intg := 1, d_frac := 0, d_sign := 0\<rparr>"
  have fin: "round_finish t (0 # replicate m 0 @ drop m q) 0 (- 1) 1 (- 9) E_DEC_OK = Inr (E_DEC_OK, ?t)"
  proof -
    have r: "nthZ (0 # ws) 0 = Inr 0" for ws :: "int list" by (simp add: nthZ_def nthE_def)
    then have "last_nonzero (0 # replicate m 0 @ drop m q) 0 = Inr None" by (subst last_nonzero.simps) simp
    then show ?thesis using r by (simp add: round_finish_def Let_def zero_words_def)
  qed
  have fit: "\<not> - 1 + 1 > d_len to" using to(1) by simp
  have "decimal_round False a to (- 9) HALF_UP = Inr (E_DEC_OK, ?t)"
  proof -
    have c: "ROUND_UP 9 = 1" "ROUND_UP 0 = 0" by (simp_all add: ROUND_UP_def sdiv_nonneg)
    have d: "- 9 sdiv DIG_PER_DEC1 = (- 1 :: int)" by code_simp
    show ?thesis
      unfolding decimal_round_def Let_def a(2,3) using fit
      by (simp add: c d st word t(1) z fin round_digit_def)
  qed
  then show ?thesis using zero_dec_ok by blast
qed

definition dec_nines :: decimal_t where
  "dec_nines = \<lparr>d_intg = 9, d_frac = 0, d_len = 1, d_sign = 0, d_buf = [999999999]\<rparr>"

lemma decimal_round_loses_carry_witness:
  "rounded HALF_UP 0 (dval dec_nines / 10 ^ 9) = 1 \<and>
   (\<exists>to'. decimal_round False dec_nines dec_to (- 9) HALF_UP = Inr (E_DEC_OK, to') \<and> dec_ok to' \<and> dval to' = 0)"
proof -
  have w: "iw dec_nines = 1" "fw dec_nines = 0" by (simp_all add: iw_def fw_def dec_nines_def ROUND_UP_def sdiv_nonneg)
  have m: "dmag dec_nines = 999999999" by (simp add: dmag_def w) (simp add: dec_nines_def)
  have "dec_struct dec_nines" by (simp add: dec_struct_def w) (simp add: dec_nines_def)
  then have ok: "dec_ok dec_nines" unfolding dec_ok_def m w by (simp add: dec_nines_def)
  have v: "dval dec_nines = 999999999" unfolding dval_def m w by (simp add: dec_nines_def)
  have "\<exists>to'. decimal_round False dec_nines dec_to (- 9) HALF_UP = Inr (E_DEC_OK, to') \<and> dec_ok to' \<and> dval to' = 0"
    by (rule decimal_round_loses_carry [OF ok]) (simp_all add: v, simp_all add: dec_nines_def dec_to_def)
  then show ?thesis by (simp add: rounded_def v floor_eq_iff)
qed

subsection \<open>Other behaviour of decimal_round\<close>

text \<open>\<open>HALF_EVEN\<close> looks at one digit only: 2.51 becomes 2.\<close>

lemma decimal_round_half_even_example:
  "map_sum id fst (decimal_round False \<lparr>d_intg = 1, d_frac = 2, d_len = 2, d_sign = 0, d_buf = [2, 510000000]\<rparr>
     \<lparr>d_intg = 0, d_frac = 0, d_len = 3, d_sign = 0, d_buf = [7, 7, 7]\<rparr> 0 HALF_EVEN) = Inr E_DEC_OK"
  "map_sum id (d_buf \<circ> snd) (decimal_round False \<lparr>d_intg = 1, d_frac = 2, d_len = 2, d_sign = 0, d_buf = [2, 510000000]\<rparr>
     \<lparr>d_intg = 0, d_frac = 0, d_len = 3, d_sign = 0, d_buf = [7, 7, 7]\<rparr> 0 HALF_EVEN) = Inr [2, 0, 0]"
  by code_simp+

text \<open>A scale beyond the words of the source reads past its buffer.\<close>

lemma decimal_round_reads_past_example:
  "decimal_round False \<lparr>d_intg = 1, d_frac = 1, d_len = 2, d_sign = 0, d_buf = [1, 500000000]\<rparr>
     \<lparr>d_intg = 0, d_frac = 0, d_len = 5, d_sign = 0, d_buf = [7, 7, 7, 7, 7]\<rparr> 30 HALF_UP = Inl OutOfBounds"
  by code_simp

text \<open>A fraction longer than the destination is copied past its end before it is cut.\<close>

lemma decimal_round_writes_past_example:
  "decimal_round False \<lparr>d_intg = 1, d_frac = 27, d_len = 4, d_sign = 0, d_buf = [1, 500000000, 0, 7]\<rparr>
     \<lparr>d_intg = 0, d_frac = 0, d_len = 2, d_sign = 0, d_buf = [7, 7]\<rparr> 1 HALF_UP = Inl BufferOverflow"
  by code_simp

text \<open>
  The digit count is compared with the word where the search for a word that is not zero stopped,
  not with the first word: 1.1234567895 rounded in place to nine digits has two digits before the
  point.
\<close>

lemma decimal_round_extra_digit_example:
  "map_sum id (d_intg \<circ> snd) (let a = \<lparr>d_intg = 1, d_frac = 10, d_len = 3, d_sign = 0, d_buf = [1, 123456789, 500000000]\<rparr>
     in decimal_round True a a 9 HALF_UP) = Inr 2"
  by code_simp

end
