(* ===== verification/DecimalAlign.thy ===== *)
theory DecimalAlign
  imports DecimalShift DecimalRounding
begin

text \<open>
  The parts of \<open>decimal_shift\<close>, over lists of words. \<open>placed b n beg last' m\<close> says that the
  first \<open>n\<close> words of a buffer hold the digits of \<open>m\<close> at the positions from \<open>beg\<close> to
  \<open>last'\<close>, and zeros elsewhere. A shift by less than a word, to either side, leaves the words
  \<open>shifted\<close>: those of the number times a power of ten, in one word more. The moves and the
  filling with zeros keep \<open>placed\<close> too, at the new positions.
\<close>

declare mini_left_loop.simps [simp del] mini_right_loop.simps [simp del] move_left.simps [simp del]
  move_right.simps [simp del]

subsection \<open>The shifted words\<close>

fun shifted :: "int \<Rightarrow> int \<Rightarrow> int \<Rightarrow> int list \<Rightarrow> int list" where
  "shifted P Q c [] = [c * Q]"
| "shifted P Q c (v # vs) = (c * Q + v div P) # shifted P Q (v mod P) vs"

lemma length_shifted [simp]: "length (shifted P Q c W) = Suc (length W)"
  by (induction W arbitrary: c) simp_all

lemma shifted_nonempty [simp]: "shifted P Q c W \<noteq> []"
  by (cases W) simp_all

lemma last_shifted: "W \<noteq> [] \<Longrightarrow> List.last (shifted P Q c W) = (List.last W mod P) * Q"
  by (induction W arbitrary: c) auto

lemma shifted_snoc:
  "shifted P Q c (W @ [w]) = butlast (shifted P Q c W) @ [List.last (shifted P Q c W) + w div P, (w mod P) * Q]"
  by (induction W arbitrary: c) simp_all

lemma wval_shifted:
  assumes "P * Q = DIG_BASE"
  shows "wval (shifted P Q c W) = (c * DIG_BASE ^ length W + wval W) * Q"
proof (induction W arbitrary: c)
  case (Cons v vs)
  have v: "v * y = v div P * (P * y) + v mod P * y" for y
    by (simp add: mult.assoc [symmetric] distrib_right [symmetric])
  have "wval (shifted P Q c (v # vs)) =
      (c * Q + v div P) * (P * Q) * DIG_BASE ^ length vs + ((v mod P) * DIG_BASE ^ length vs + wval vs) * Q"
    by (simp add: Cons.IH assms)
  also have "\<dots> = (c * (P * Q * DIG_BASE ^ length vs) + v * DIG_BASE ^ length vs + wval vs) * Q"
    by (simp add: v [of "DIG_BASE ^ length vs"] algebra_simps)
  finally show ?case by (simp add: assms algebra_simps)
qed simp

lemma digs_shifted:
  assumes "P * Q = DIG_BASE" "0 < P" "0 < Q" "0 \<le> c" "c < P" "digs W"
  shows "digs (shifted P Q c W)"
  using assms(4-6)
proof (induction W arbitrary: c)
  case Nil
  have "c * Q < P * Q" using Nil(2) assms(3) by simp
  then show ?case using Nil assms(1,3) by simp
next
  case (Cons v vs)
  have v: "0 \<le> v" "v < P * Q" "digs vs" using Cons.prems(3) assms(1) by simp_all
  then have "v div P < Q" using assms(2) by (simp add: int_div_less mult.commute)
  moreover have "c * Q + Q \<le> P * Q"
    using Cons.prems(2) assms(3) mult_right_mono [of "c + 1" P Q] by (simp add: distrib_right)
  ultimately have "c * Q + v div P < DIG_BASE" using assms(1) by linarith
  moreover have "0 \<le> c * Q + v div P" using Cons.prems(1) assms(2,3) v(1) by (simp add: pos_imp_zdiv_nonneg_iff)
  moreover have "digs (shifted P Q (v mod P) vs)" using assms(2) v(3) by (intro Cons.IH) simp_all
  ultimately show ?case by simp
qed


subsection \<open>The loops of the two shifts\<close>

lemma ROUND_UP_eq: "0 \<le> x \<Longrightarrow> ROUND_UP x = (x + 8) div 9"
  by (simp add: ROUND_UP_def sdiv_nonneg)

lemma ROUND_UP_word:
  "ROUND_UP (int (9 * f + a) + 1) - 1 = int f" if "a \<le> 8"
  using that by (simp add: ROUND_UP_eq)

lemma word_pow:
  assumes "0 < l" "l < 9" "0 \<le> v" "v < DIG_BASE" "0 \<le> w" "w < DIG_BASE"
  shows "i32 (v mod 10 ^ (9 - l) * 10 ^ l) = Inr (v mod 10 ^ (9 - l) * 10 ^ l)"
    "i32 (v mod 10 ^ (9 - l) * 10 ^ l + w div 10 ^ (9 - l)) = Inr (v mod 10 ^ (9 - l) * 10 ^ l + w div 10 ^ (9 - l))"
proof -
  have p: "(10 :: int) ^ (9 - l) * 10 ^ l = DIG_BASE" using assms(2) by (simp flip: power_add)
  define m where "m = v mod 10 ^ (9 - l)"
  have m: "0 \<le> m" "m < 10 ^ (9 - l)" by (simp_all add: m_def)
  have "(m + 1) * 10 ^ l \<le> 10 ^ (9 - l) * 10 ^ l" using m(2) by (intro mult_right_mono) simp_all
  then have b: "m * 10 ^ l + 10 ^ l \<le> DIG_BASE" unfolding p by (simp add: distrib_right)
  have d: "0 \<le> w div 10 ^ (9 - l)" "w div 10 ^ (9 - l) < 10 ^ l"
    using assms(5,6) p by (simp_all add: int_div_less pos_imp_zdiv_nonneg_iff mult.commute)
  have "0 \<le> m * 10 ^ l" using m(1) by simp
  moreover have "(0 :: int) < 10 ^ l" by simp
  ultimately show "i32 (v mod 10 ^ (9 - l) * 10 ^ l) = Inr (v mod 10 ^ (9 - l) * 10 ^ l)"
    "i32 (v mod 10 ^ (9 - l) * 10 ^ l + w div 10 ^ (9 - l)) = Inr (v mod 10 ^ (9 - l) * 10 ^ l + w div 10 ^ (9 - l))"
    unfolding m_def [symmetric] using b d by (intro i32_in; linarith)+
qed

lemma powers10_Z: "i = int k \<Longrightarrow> k \<le> 9 \<Longrightarrow> nthZ powers10 i = Inr (10 ^ k)"
  using powers10_nth [of k] by (simp add: nthZ_def)

lemma mini_left_loop_words:
  assumes "0 < l" "l < 9" "digs (v # ws)"
  shows "mini_left_loop (p @ (v # ws) @ R) (int (length p)) (int (length p + length ws)) (10 ^ l) (10 ^ (9 - l)) =
    Inr (p @ butlast (shifted (10 ^ (9 - l)) (10 ^ l) (v mod 10 ^ (9 - l)) ws) @ List.last (v # ws) # R,
         int (length p + length ws))"
  using assms(3)
proof (induction ws arbitrary: v p)
  case Nil
  then show ?case by (simp add: mini_left_loop.simps)
next
  case (Cons w ws)
  define P Q :: int where "P = 10 ^ (9 - l)" and "Q = 10 ^ l"
  have dg: "0 \<le> v" "v < DIG_BASE" "0 \<le> w" "w < DIG_BASE" "digs (w # ws)" using Cons.prems by simp_all
  define x where "x = v mod P * Q + w div P"
  have r: "nthZ (p @ (v # w # ws) @ R) (int (length p)) = Inr v"
    "nthZ (p @ (v # w # ws) @ R) (int (length p) + 1) = Inr w"
    using nthZ_mid [of "int (length p)" p v "(w # ws) @ R"] nthZ_mid [of "int (length p) + 1" "p @ [v]" w "ws @ R"]
    by simp_all
  have i: "i32 (v smod P * Q) = Inr (v mod P * Q)" "i32 (v mod P * Q + w sdiv P) = Inr x"
    using word_pow [OF assms(1,2) dg(1-4)] dg by (simp_all add: P_def Q_def x_def smod_nonneg sdiv_nonneg)
  have u: "putZ (p @ (v # w # ws) @ R) (int (length p)) [x] = Inr ((p @ [x]) @ (w # ws) @ R)"
    using putZ_mid [of "int (length p)" p v "(w # ws) @ R" x] by simp
  have n: "int (length p) < int (length p + length (w # ws))" by simp
  have "mini_left_loop ((p @ [x]) @ (w # ws) @ R) (int (length p) + 1) (int (length p + length (w # ws))) Q P =
      Inr ((p @ [x]) @ butlast (shifted P Q (w mod P) ws) @ List.last (w # ws) # R, int (length p + length (w # ws)))"
    using Cons.IH [OF dg(5), of "p @ [x]"] by (simp add: P_def Q_def add.commute)
  then show ?case
    unfolding P_def [symmetric] Q_def [symmetric]
    by (subst mini_left_loop.simps) (simp only: if_P [OF n] r i u bindE_simps, simp add: x_def)
qed

lemma mini_right_loop_words:
  assumes "0 < l" "l < 9" "digs (v # ws)"
  shows "mini_right_loop (p @ (v # ws) @ R) (int (length p + length ws)) (int (length p)) (10 ^ (9 - l)) (10 ^ l) =
    Inr (p @ v # butlast (shifted (10 ^ (9 - l)) (10 ^ l) (v mod 10 ^ (9 - l)) ws) @ R, int (length p))"
  using assms(3)
proof (induction ws arbitrary: R rule: rev_induct)
  case Nil
  then show ?case by (simp add: mini_right_loop.simps)
next
  case (snoc w ws)
  define P Q :: int where "P = 10 ^ (9 - l)" and "Q = 10 ^ l"
  define u where "u = List.last (v # ws)"
  obtain us where us: "v # ws = us @ [u]" by (metis append_butlast_last_id list.distinct(1) u_def)
  have dg: "0 \<le> u" "u < DIG_BASE" "0 \<le> w" "w < DIG_BASE" "digs (v # ws)"
    using snoc.prems us by (simp_all, metis digs_simps(2,3) us)+
  define x where "x = u mod P * Q + w div P"
  have b: "p @ (v # ws @ [w]) @ R = (p @ us @ [u]) @ w # R" using us by (metis append.assoc append_Cons append_Nil)
  have lu: "length us = length ws" using us by (metis length_Cons length_append_singleton nat.inject)
  have r: "nthZ (p @ (v # ws @ [w]) @ R) (int (length p + length (ws @ [w]))) = Inr w"
    "nthZ (p @ (v # ws @ [w]) @ R) (int (length p + length (ws @ [w])) - 1) = Inr u"
    unfolding b using nthZ_mid [of "int (length p + length (ws @ [w]))" "p @ us @ [u]" w R]
      nthZ_mid [of "int (length p + length ws)" "p @ us" u "w # R"] lu by simp_all
  have i: "i32 (u smod P * Q) = Inr (u mod P * Q)" "i32 (w sdiv P + u mod P * Q) = Inr x"
    using word_pow [OF assms(1,2) dg(1-4)] dg
    by (simp_all add: P_def Q_def x_def smod_nonneg sdiv_nonneg add.commute)
  have pu: "putZ (p @ (v # ws @ [w]) @ R) (int (length p + length (ws @ [w]))) [x] = Inr (p @ (v # ws) @ x # R)"
    unfolding b using putZ_mid [of "int (length p + length (ws @ [w]))" "p @ us @ [u]" w R x] lu us by simp
  have n: "int (length p + length (ws @ [w])) > int (length p)" by simp
  have s: "List.last (shifted P Q (v mod P) ws) = u mod P * Q"
    by (cases "ws = []") (simp_all add: u_def last_shifted)
  have "int (length p + length (ws @ [w])) - 1 = int (length p + length ws)" by simp
  then have "mini_right_loop (p @ (v # ws) @ x # R) (int (length p + length (ws @ [w])) - 1) (int (length p)) P Q =
      Inr (p @ v # butlast (shifted P Q (v mod P) ws) @ x # R, int (length p))"
    using snoc.IH [OF dg(5), of "x # R"] by (simp only: P_def Q_def)
  then show ?case
    unfolding P_def [symmetric] Q_def [symmetric]
    by (subst mini_right_loop.simps) (simp only: if_P [OF n] r i pu bindE_simps, simp add: x_def shifted_snoc s butlast_append)
qed

subsection \<open>Where the digits stand\<close>

lemma nth_word:
  "ROUND_UP (int n + 1) - 1 = int (n div 9)" "ROUND_UP (int n) = int ((n + 8) div 9)"
  by (simp_all add: ROUND_UP_eq zdiv_int)

lemma wval_front_zero:
  assumes "digs (X @ Y)" "wval (X @ Y) < DIG_BASE ^ length Y"
  shows "X = replicate (length X) 0"
proof -
  have d: "digs X" "digs Y" using assms(1) by simp_all
  note b = wval_bounds [OF d(1)] wval_bounds [OF d(2)]
  have "wval X * DIG_BASE ^ length Y < 1 * DIG_BASE ^ length Y" using assms(2) b unfolding wval_append mult_1_left by linarith
  then have "wval X < 1" by (rule mult_right_less_imp_less) simp
  then have "\<forall>w\<in>set X. w = 0" using b wval_0_iff [OF d(1)] by simp
  then show ?thesis by (simp add: replicate_length_same)
qed

lemma wval_back_zero:
  assumes "digs Y" "DIG_BASE ^ length Y dvd wval (X @ Y)"
  shows "Y = replicate (length Y) 0"
proof -
  have "DIG_BASE ^ length Y dvd wval Y" using assms(2) by (simp add: wval_append dvd_add_right_iff)
  then have "wval Y = 0" using wval_bounds [OF assms(1)] zdvd_imp_le by fastforce
  then have "\<forall>w\<in>set Y. w = 0" using wval_0_iff [OF assms(1)] by simp
  then show ?thesis by (simp add: replicate_length_same)
qed

definition placed :: "int list \<Rightarrow> nat \<Rightarrow> nat \<Rightarrow> nat \<Rightarrow> int \<Rightarrow> bool" where
  "placed b n beg last' m \<longleftrightarrow>
     n \<le> length b \<and> digs (take n b) \<and> beg < last' \<and> last' \<le> 9 * n \<and> 0 < m \<and> m < 10 ^ (last' - beg) \<and>
     wval (take n b) = m * 10 ^ (9 * n - last')"

lemma placedI:
  assumes "b = replicate f 0 @ V @ replicate k 0 @ G" "digs V" "n = f + length V + k"
    and "beg < last'" "last' \<le> 9 * (f + length V)" "0 < m" "m < 10 ^ (last' - beg)"
    and "wval V = m * 10 ^ (9 * (f + length V) - last')"
  shows "placed b n beg last' m"
proof -
  have t: "take n b = replicate f 0 @ V @ replicate k 0" using assms(1,3) by simp
  have "9 * n - last' = (9 * (f + length V) - last') + 9 * k" using assms(3,5) by simp
  then have "wval (take n b) = m * 10 ^ (9 * n - last')"
    unfolding t using assms(8) by (simp add: wval_append base_pow power_add)
  moreover have "digs (take n b)" unfolding t using assms(2) by simp
  ultimately show ?thesis using assms by (simp add: placed_def)
qed

lemma placedE:
  assumes "placed b n beg last' m"
  obtains W R where "b = replicate (beg div 9) 0 @ W @ R" "digs W" "beg div 9 + length W = (last' + 8) div 9"
    "W \<noteq> []" "wval W = m * 10 ^ (9 * ((last' + 8) div 9) - last')" "(last' + 8) div 9 \<le> n" "n \<le> length b"
    "take (n - (last' + 8) div 9) R = replicate (n - (last' + 8) div 9) 0"
proof -
  note p = assms [unfolded placed_def]
  define f g where "f = beg div 9" and "g = (last' + 8) div 9"
  have fg: "f < g" "g \<le> n" "9 * f \<le> beg" "last' \<le> 9 * g" using p unfolding f_def g_def by linarith+
  define A X W Y where "A = take n b" and "X = take f A" and "W = take (g - f) (drop f A)" and "Y = drop (g - f) (drop f A)"
  have "length A = n" using p by (simp add: A_def)
  then have len: "length X = f" "length W = g - f" "length Y = n - g"
    using fg by (simp_all add: X_def W_def Y_def)
  have "A = X @ W @ Y" unfolding X_def W_def Y_def by (simp only: append_take_drop_id)
  note A = this len
  have dg: "digs X" "digs W" "digs Y" using p A(1) by (simp_all add: A_def [symmetric])
  have v: "wval A = m * 10 ^ (9 * n - last')" using p by (simp add: A_def)
  have "wval (X @ W @ Y) < 10 ^ (last' - beg) * 10 ^ (9 * n - last')" using p v A(1) by simp
  also have "\<dots> = 10 ^ (9 * n - beg)" using p by (simp flip: power_add)
  also have "\<dots> \<le> 10 ^ (9 * (n - f))" using fg by (intro power_increasing) simp_all
  finally have "wval (X @ W @ Y) < DIG_BASE ^ length (W @ Y)" using A fg by (simp add: base_pow)
  then have X: "X = replicate f 0" using wval_front_zero [of X "W @ Y"] dg A(2) by simp
  have e: "9 * n - last' = (9 * g - last') + 9 * (n - g)" using fg by simp
  have "DIG_BASE ^ length Y dvd wval ((X @ W) @ Y)" unfolding base_pow A(4) using v A(1) e by (simp add: power_add)
  then have Y: "Y = replicate (n - g) 0" using wval_back_zero [OF dg(3)] A(4) by metis
  have "wval W * 10 ^ (9 * (n - g)) = m * 10 ^ (9 * g - last') * 10 ^ (9 * (n - g))"
    using v A(1) X Y e by (simp add: wval_append base_pow power_add)
  then have w: "wval W = m * 10 ^ (9 * g - last')" by simp
  have b: "b = replicate f 0 @ W @ Y @ drop n b"
    using A(1) X by (metis A_def append.assoc append_take_drop_id)
  show thesis
    by (rule that [of W "Y @ drop n b"]) (use b w dg A Y fg p in \<open>auto simp add: f_def [symmetric] g_def [symmetric]\<close>)
qed

subsection \<open>The two shifts\<close>

lemma mini_left_run:
  assumes l: "0 < l" "l < 9" and W: "digs W" "W \<noteq> []" and Z: "length Z = beg div 9"
    and e: "beg div 9 + length W = (last' + 8) div 9" and b: "d_buf d = Z @ W @ R" and a: "beg mod 9 < l \<Longrightarrow> Z \<noteq> []"
  shows "do_mini_left_shift d (int l) (int beg) (int last') = Inr (d\<lparr>d_buf :=
    (if beg mod 9 < l then butlast Z @ shifted (10 ^ (9 - l)) (10 ^ l) 0 W
     else Z @ tl (shifted (10 ^ (9 - l)) (10 ^ l) 0 W)) @ R\<rparr>)"
proof -
  define P Q :: int where "P = 10 ^ (9 - l)" and "Q = 10 ^ l"
  define f where "f = beg div 9"
  obtain v ws where W': "W = v # ws" using W by (cases W) auto
  have dg: "0 \<le> v" "v < DIG_BASE" using W(1) W' by simp_all
  define Z' where "Z' = (if beg mod 9 < l then butlast Z @ [v div P] else Z)"
  have lZ: "length Z' = f" using a by (auto simp add: Z'_def f_def Z [symmetric])
  have idx: "ROUND_UP (int beg + 1) - 1 = int f" "ROUND_UP (int last') - 1 = int (f + length ws)"
    using e W' unfolding nth_word f_def by simp_all
  have bm: "int beg smod 9 < int l \<longleftrightarrow> beg mod 9 < l" by (simp add: smod_int_numeral)
  have pre: "(if int beg smod 9 < int l then bindE (nthZ (d_buf d) (int f)) (\<lambda>v. putZ (d_buf d) (int f - 1) [v sdiv P])
      else Inr (d_buf d)) = Inr (Z' @ (v # ws) @ R)"
  proof (cases "beg mod 9 < l")
    case True
    then obtain Z0 z where Z0: "Z = Z0 @ [z]" using a by (cases Z rule: rev_exhaust) auto
    have "nthZ (d_buf d) (int f) = Inr v"
      using nthZ_mid [of "int f" Z v "ws @ R"] Z b W' by (simp add: f_def)
    moreover have "putZ (d_buf d) (int f - 1) [v sdiv P] = Inr (Z0 @ (v sdiv P) # W @ R)"
      using putZ_mid [of "int f - 1" Z0 z "W @ R" "v sdiv P"] Z b Z0 by (simp add: f_def flip: Z)
    moreover have "v sdiv P = v div P" using dg by (simp add: sdiv_nonneg P_def)
    ultimately show ?thesis using True by (simp add: bm Z'_def Z0 W')
  qed (use b W' in \<open>simp add: bm Z'_def\<close>)
  have lp: "mini_left_loop (Z' @ (v # ws) @ R) (int f) (int (f + length ws)) Q P =
      Inr (Z' @ butlast (shifted P Q (v mod P) ws) @ List.last (v # ws) # R, int (f + length ws))"
    using mini_left_loop_words [of l v ws Z' R] l W(1) W' lZ by (simp only: P_def Q_def)
  define u where "u = List.last (v # ws)"
  have u: "0 \<le> u" "u < DIG_BASE"
    using W(1) last_in_set [of "v # ws"] unfolding W' u_def digs_def by blast+
  define B where "B = butlast (shifted P Q (v mod P) ws)"
  have B: "length (Z' @ B) = f + length ws" using lZ by (simp add: B_def)
  have r: "nthZ (Z' @ B @ u # R) (int (f + length ws)) = Inr u"
    using nthZ_mid [of "int (f + length ws)" "Z' @ B" u R] unfolding B by simp
  have i: "i32 (u smod P * Q) = Inr (u mod P * Q)"
    using word_pow(1) [OF l u u] u by (simp add: P_def Q_def smod_nonneg)
  have lst: "List.last (shifted P Q (v mod P) ws) = u mod P * Q"
    by (cases "ws = []") (simp_all add: u_def last_shifted)
  have sh: "B @ [u mod P * Q] = shifted P Q (v mod P) ws"
    unfolding lst [symmetric] B_def by (rule append_butlast_last_id) simp
  have w: "putZ (Z' @ B @ u # R) (int (f + length ws)) [u mod P * Q] = Inr ((Z' @ shifted P Q (v mod P) ws) @ R)"
    using putZ_mid [of "int (f + length ws)" "Z' @ B" u R "u mod P * Q"] unfolding B by (simp flip: sh)
  have res: "Z' @ shifted P Q (v mod P) ws =
      (if beg mod 9 < l then butlast Z @ shifted P Q 0 W else Z @ tl (shifted P Q 0 W))"
    by (simp add: Z'_def W')
  have pw: "nthZ powers10 (int l) = Inr Q" "nthZ powers10 (9 - int l) = Inr P"
    using powers10_Z [of "int l" l] powers10_Z [of "9 - int l" "9 - l"] l by (simp_all add: Q_def P_def)
  show ?thesis
    unfolding do_mini_left_shift_def Let_def idx pw bindE_simps pre lp u_def [symmetric] B_def [symmetric] prod.case r i w
      P_def [symmetric] Q_def [symmetric] res by simp
qed

lemma mini_right_run:
  assumes l: "0 < l" "l < 9" and W: "digs W" "W \<noteq> []" and Z: "length Z = beg div 9" and be: "0 < last'"
    and e: "beg div 9 + length W = (last' + 8) div 9" and b: "d_buf d = Z @ W @ R"
    and c: "cross \<longleftrightarrow> (last' - 1) mod 9 + 1 > l" "cross \<Longrightarrow> R \<noteq> []"
  shows "do_mini_right_shift d (9 - int l) (int beg) (int last') = Inr (d\<lparr>d_buf :=
    Z @ (if cross then shifted (10 ^ (9 - l)) (10 ^ l) 0 W @ tl R
         else butlast (shifted (10 ^ (9 - l)) (10 ^ l) 0 W) @ R)\<rparr>)"
proof -
  define P Q :: int where "P = 10 ^ (9 - l)" and "Q = 10 ^ l"
  define f where "f = beg div 9"
  obtain v ws where W': "W = v # ws" using W by (cases W) auto
  have dg: "0 \<le> v" "v < DIG_BASE" using W(1) W' by simp_all
  define u where "u = List.last (v # ws)"
  have u: "0 \<le> u" "u < DIG_BASE"
    using W(1) last_in_set [of "v # ws"] unfolding W' u_def digs_def by blast+
  have lst: "List.last (shifted P Q (v mod P) ws) = u mod P * Q"
    by (cases "ws = []") (simp_all add: u_def last_shifted)
  define R' where "R' = (if cross then (u mod P * Q) # tl R else R)"
  have idx: "ROUND_UP (int beg + 1) - 1 = int f" "ROUND_UP (int last') - 1 = int (f + length ws)"
    using e W' unfolding nth_word f_def by simp_all
  have "int last' - 1 = int (last' - 1)" using be by simp
  then have bm: "9 - ((int last' - 1) smod 9 + 1) < 9 - int l \<longleftrightarrow> cross"
    unfolding c(1) by (simp only: smod_int_numeral) linarith
  have i: "i32 (u smod P * Q) = Inr (u mod P * Q)"
    using word_pow(1) [OF l u u] u by (simp add: P_def Q_def smod_nonneg)
  have pre: "(if 9 - ((int last' - 1) smod 9 + 1) < 9 - int l
      then bindE (nthZ (d_buf d) (int (f + length ws))) (\<lambda>v.
           bindE (i32 (v smod P * Q)) (\<lambda>x. putZ (d_buf d) (int (f + length ws) + 1) [x]))
      else Inr (d_buf d)) = Inr (Z @ (v # ws) @ R')"
  proof (cases cross)
    case True
    then obtain y R0 where R: "R = y # R0" using c(2) by (cases R) auto
    obtain us where us: "v # ws = us @ [u]" by (metis append_butlast_last_id list.distinct(1) u_def)
    then have lu: "length us = length ws" by (metis length_Cons length_append_singleton nat.inject)
    have "nthZ (d_buf d) (int (f + length ws)) = Inr u"
      using nthZ_mid [of "int (f + length ws)" "Z @ us" u R] Z b W' us lu by (simp add: f_def)
    moreover have "putZ (d_buf d) (int (f + length ws) + 1) [u mod P * Q] = Inr (Z @ W @ (u mod P * Q) # R0)"
      using putZ_mid [of "int (f + length ws) + 1" "Z @ W" y R0 "u mod P * Q"] Z b R W' by (simp add: f_def add.commute)
    ultimately show ?thesis using True i unfolding bm by (simp add: R'_def R W')
  next
    case False
    then show ?thesis unfolding if_not_P [OF False [folded bm]] using b W' by (simp add: R'_def)
  qed
  define B where "B = butlast (shifted P Q (v mod P) ws)"
  have lp: "mini_right_loop (Z @ (v # ws) @ R') (int (f + length ws)) (int f) P Q = Inr (Z @ v # B @ R', int f)"
    using mini_right_loop_words [of l v ws Z R'] l W(1) W' Z by (simp only: P_def Q_def B_def f_def)
  have r: "nthZ (Z @ v # B @ R') (int f) = Inr v" using nthZ_mid [of "int f" Z v "B @ R'"] Z by (simp add: f_def)
  have "v sdiv P = v div P" using dg by (simp add: sdiv_nonneg P_def)
  then have w: "putZ (Z @ v # B @ R') (int f) [v sdiv P] = Inr (Z @ (v div P) # B @ R')"
    using putZ_mid [of "int f" Z v "B @ R'" "v div P"] Z by (simp add: f_def)
  have sh: "B @ [u mod P * Q] = shifted P Q (v mod P) ws"
    unfolding lst [symmetric] B_def by (rule append_butlast_last_id) simp
  have res: "(v div P) # B @ R' = (if cross then shifted P Q 0 W @ tl R else butlast (shifted P Q 0 W) @ R)"
    by (simp add: R'_def W' B_def [symmetric]) (simp flip: sh)
  have pw: "nthZ powers10 (9 - int l) = Inr P" "nthZ powers10 (9 - (9 - int l)) = Inr Q"
    using powers10_Z [of "int l" l] powers10_Z [of "9 - int l" "9 - l"] l by (simp_all add: Q_def P_def)
  show ?thesis
    unfolding do_mini_right_shift_def Let_def idx pw bindE_simps pre lp B_def [symmetric] prod.case r w
      P_def [symmetric] Q_def [symmetric] res by simp
qed

lemma pow_split: "i = j + k \<Longrightarrow> (10 :: int) ^ i = 10 ^ j * 10 ^ k"
  by (simp add: power_add)

lemma shift_Q:
  assumes "l < 9"
  shows "(10 :: int) ^ (9 - l) * 10 ^ l = DIG_BASE"
  using assms by (simp flip: power_add)

lemma shifted_words:
  assumes "l < 9" "digs W"
  shows "digs (shifted (10 ^ (9 - l)) (10 ^ l) 0 W)" "wval (shifted (10 ^ (9 - l)) (10 ^ l) 0 W) = wval W * 10 ^ l"
  using digs_shifted [OF shift_Q [OF assms(1)] _ _ _ _ assms(2), of 0] wval_shifted [OF shift_Q [OF assms(1)], of 0 W] by simp_all

lemma zero_head:
  assumes "digs S" "S \<noteq> []" "wval S < DIG_BASE ^ (length S - 1)"
  shows "S = 0 # tl S"
  using wval_front_zero [of "[hd S]" "tl S"] assms by (cases S) simp_all

lemma zero_last:
  assumes "digs S" "S \<noteq> []" "DIG_BASE dvd wval S"
  shows "S = butlast S @ [0]"
proof -
  obtain S' x where S: "S = S' @ [x]" using assms(2) by (cases S rule: rev_exhaust) auto
  then have "[x] = replicate (length [x]) 0" using assms by (intro wval_back_zero [of _ S']) simp_all
  then show ?thesis using S by simp
qed

lemma zeros_prefix: "k \<le> length R \<Longrightarrow> take k R = replicate k 0 \<Longrightarrow> R = replicate k 0 @ drop k R"
  by (metis append_take_drop_id)

lemma placed_left:
  assumes p: "placed (d_buf d) n beg last' m" and l: "0 < l" "l < 9" "l \<le> beg"
  shows "\<exists>b. do_mini_left_shift d (int l) (int beg) (int last') = Inr (d\<lparr>d_buf := b\<rparr>) \<and>
    length b = length (d_buf d) \<and> placed b n (beg - l) (last' - l) m"
proof -
  define f g k where "f = beg div 9" and "g = (last' + 8) div 9" and "k = n - g"
  obtain W R where b: "d_buf d = replicate f 0 @ W @ R" "digs W" "f + length W = g" "W \<noteq> []"
    "wval W = m * 10 ^ (9 * g - last')" "g \<le> n" "n \<le> length (d_buf d)" "take k R = replicate k 0"
    using placedE [OF p] unfolding f_def g_def k_def by metis
  have fg: "9 * f \<le> beg" "last' \<le> 9 * g" unfolding f_def g_def by linarith+
  have m: "beg < last'" "0 < m" "m < 10 ^ (last' - beg)" using p by (simp_all add: placed_def)
  have R: "R = replicate k 0 @ drop k R" using b by (intro zeros_prefix) (simp_all add: k_def)
  define S where "S = shifted (10 ^ (9 - l)) (10 ^ l) 0 W"
  have S: "digs S" "wval S = m * 10 ^ (9 * g - (last' - l))" "length S = Suc (length W)" "S \<noteq> []"
    using shifted_words [OF l(2) b(2)] b(5) pow_split [of "9 * g - (last' - l)" "9 * g - last'" l] fg l m by (simp_all add: S_def)
  have mod: "l \<le> beg mod 9 \<or> 0 < f" using l(3) by (cases "beg < 9") (simp_all add: f_def div_greater_zero_iff)
  define b' where "b' = (if beg mod 9 < l then butlast (replicate f 0) @ S else replicate f 0 @ tl S) @ R"
  have run: "do_mini_left_shift d (int l) (int beg) (int last') = Inr (d\<lparr>d_buf := b'\<rparr>)"
    unfolding b'_def S_def by (rule mini_left_run [OF l(1,2) b(2,4)]) (use b mod in \<open>auto simp add: f_def g_def\<close>)
  have "placed b' n (beg - l) (last' - l) m"
  proof (cases "beg mod 9 < l")
    case True
    then obtain f' where f': "f = Suc f'" using mod by (cases f) auto
    have "butlast (replicate f 0) = replicate f' (0 :: int)" unfolding f' by (simp only: replicate_Suc replicate_append_same [symmetric] butlast_snoc)
    then have "b' = replicate f' 0 @ S @ replicate k 0 @ drop k R" using True R by (simp add: b'_def)
    then show ?thesis by (rule placedI) (use S b m fg l f' in \<open>simp_all add: k_def\<close>)
  next
    case False
    have bl: "9 * f + l \<le> beg" using False div_mult_mod_eq [of beg 9] unfolding f_def by linarith
    have "wval S < 10 ^ (last' - beg) * 10 ^ (9 * g - (last' - l))" using m S(2) by simp
    also have "\<dots> = 10 ^ (9 * g - (beg - l))" using fg m l by (intro pow_split [symmetric]) linarith
    also have "\<dots> \<le> 10 ^ (9 * length W)" using bl b(3) by (intro power_increasing) simp_all
    finally have t: "S = 0 # tl S" using S by (intro zero_head) (simp_all add: base_pow)
    then have "digs (tl S)" "wval (tl S) = wval S" using S(1) by (metis digs_simps(2), metis add_0 mult_zero_left wval.simps(2))
    moreover have "b' = replicate f 0 @ tl S @ replicate k 0 @ drop k R" using False R by (simp add: b'_def)
    ultimately show ?thesis by (intro placedI [of b' f "tl S" k "drop k R"]) (use S b m fg l in \<open>simp_all add: k_def\<close>)
  qed
  moreover have "length b' = length (d_buf d)" using mod b(1) S(3) by (auto simp add: b'_def)
  ultimately show ?thesis using run by blast
qed

lemma placed_right:
  assumes p: "placed (d_buf d) n beg last' m" and l: "0 < l" "l < 9"
    and room: "last' + 9 - l \<le> 9 * length (d_buf d)"
  shows "\<exists>b n'. do_mini_right_shift d (9 - int l) (int beg) (int last') = Inr (d\<lparr>d_buf := b\<rparr>) \<and>
    length b = length (d_buf d) \<and> n \<le> n' \<and> placed b n' (beg + 9 - l) (last' + 9 - l) m"
proof -
  define f g k where "f = beg div 9" and "g = (last' + 8) div 9" and "k = n - g"
  obtain W R where b: "d_buf d = replicate f 0 @ W @ R" "digs W" "f + length W = g" "W \<noteq> []"
    "wval W = m * 10 ^ (9 * g - last')" "g \<le> n" "n \<le> length (d_buf d)" "take k R = replicate k 0"
    using placedE [OF p] unfolding f_def g_def k_def by metis
  have fg: "9 * f \<le> beg" "last' \<le> 9 * g" unfolding f_def g_def by linarith+
  have m: "beg < last'" "0 < m" "m < 10 ^ (last' - beg)" using p by (simp_all add: placed_def)
  have R: "R = replicate k 0 @ drop k R" using b by (intro zeros_prefix) (simp_all add: k_def)
  define S where "S = shifted (10 ^ (9 - l)) (10 ^ l) 0 W"
  have S: "digs S" "wval S = m * 10 ^ (9 * g - last' + l)" "length S = Suc (length W)" "S \<noteq> []"
    using shifted_words [OF l(2) b(2)] b(5) by (simp_all add: S_def power_add)
  define cross where "cross \<longleftrightarrow> (last' - 1) mod 9 + 1 > l"
  have cr: "cross \<longleftrightarrow> 9 * g < last' + 9 - l" 
  proof -
    obtain x where x: "last' = Suc x" using m by (cases last') auto
    define q y where "q = x div 9" and "y = x mod 9"
    have q: "x = 9 * q + y" "y < 9" by (simp_all add: q_def y_def)
    have "(last' + 8) div 9 = Suc q" "(last' - 1) mod 9 = y" by (simp_all add: x q_def y_def)
    then show ?thesis unfolding cross_def g_def x using l q by auto
  qed
  have R0: "R \<noteq> []" if cross using that room b(1,3) unfolding cr by auto
  define b' where "b' = replicate f 0 @ (if cross then S @ tl R else butlast S @ R)"
  have run: "do_mini_right_shift d (9 - int l) (int beg) (int last') = Inr (d\<lparr>d_buf := b'\<rparr>)"
    unfolding b'_def S_def by (rule mini_right_run [OF l b(2,4) _ _ _ b(1) _ R0])
      (use m b(3) in \<open>simp_all add: f_def g_def cross_def\<close>)
  have pl: "\<exists>n' \<ge> n. placed b' n' (beg + 9 - l) (last' + 9 - l) m"
  proof (cases cross)
    case True
    have "tl R = replicate (k - 1) 0 @ drop (Suc (k - 1)) R"
      using R by (cases k) (simp_all add: drop_Suc, metis list.sel(3))
    then have "b' = replicate f 0 @ S @ replicate (k - 1) 0 @ drop (Suc (k - 1)) R" using True by (simp add: b'_def)
    moreover have "10 ^ (9 * g - last' + l) = (10 :: int) ^ (9 * (f + length S) - (last' + 9 - l))"
      using fg S(3) b(3) l by (intro arg_cong2 [where f = power]) simp_all
    moreover have "last' + 9 - l - (beg + 9 - l) = last' - beg" using l m by simp
    ultimately have "placed b' (f + length S + (k - 1)) (beg + 9 - l) (last' + 9 - l) m"
      using S m fg l b(3) by (intro placedI [of b' f S "k - 1" "drop (Suc (k - 1)) R"]) simp_all
    then show ?thesis using S(3) b(3) by (intro exI [of _ "f + length S + (k - 1)"]) (simp add: k_def)
  next
    case False
    then have e: "9 * g - last' + l = 9 + (9 * g - (last' + 9 - l))" using fg l unfolding cr by simp
    have w: "wval S = DIG_BASE * (m * 10 ^ (9 * g - (last' + 9 - l)))" unfolding S(2) e by (simp add: power_add)
    have "DIG_BASE dvd wval S" unfolding w by (rule dvd_triv_left)
    then have t: "S = butlast S @ [0]" by (rule zero_last [OF S(1,4)])
    then have "wval (butlast S) * DIG_BASE = wval S" using wval_append [of "butlast S" "[0]"] by simp
    then have v: "wval (butlast S) = m * 10 ^ (9 * g - (last' + 9 - l))" using w by simp
    have "digs (butlast S)" using S(1) t by (metis digs_simps(3))
    moreover have "b' = replicate f 0 @ butlast S @ replicate k 0 @ drop k R" using False R by (simp add: b'_def)
    moreover have "last' + 9 - l - (beg + 9 - l) = last' - beg" using l m by simp
    ultimately have "placed b' n (beg + 9 - l) (last' + 9 - l) m"
      using S m fg l b v False cr by (intro placedI [of b' f "butlast S" k "drop k R"]) (simp_all add: k_def)
    then show ?thesis by blast
  qed
  moreover have "length b' = length (d_buf d)" using b(1) S(3) R0 by (cases R) (auto simp add: b'_def)
  ultimately show ?thesis using run by blast
qed

subsection \<open>Moving whole words\<close>

lemma move_left_words:
  "0 < length D \<Longrightarrow> to = int (length X) \<Longrightarrow> bar = int (length X + length V) - 1 \<Longrightarrow>
   \<exists>D'. move_left (X @ D @ V @ Y) to bar (int (length D)) = Inr (X @ V @ D' @ Y, int (length X + length V)) \<and>
     length D' = length D"
proof (induction V arbitrary: X D to)
  case Nil
  then show ?case by (simp add: move_left.simps)
next
  case (Cons v V)
  obtain x D0 where D: "D = x # D0" using Cons.prems(1) by (cases D) auto
  have r: "nthZ (X @ D @ (v # V) @ Y) (to + int (length D)) = Inr v"
    using nthZ_mid [of "to + int (length D)" "X @ D" v "V @ Y"] Cons.prems by simp
  have w: "putZ (X @ D @ (v # V) @ Y) to [v] = Inr ((X @ [v]) @ (D0 @ [v]) @ V @ Y)"
    using putZ_mid [of to X x "D0 @ (v # V) @ Y" v] Cons.prems by (simp add: D)
  have n: "to \<le> bar" using Cons.prems by simp
  obtain D' where "move_left ((X @ [v]) @ (D0 @ [v]) @ V @ Y) (to + 1) bar (int (length (D0 @ [v]))) =
      Inr ((X @ [v]) @ V @ D' @ Y, int (length (X @ [v]) + length V))" "length D' = length D"
    using Cons.IH [of "D0 @ [v]" "to + 1" "X @ [v]"] Cons.prems by (auto simp add: D)
  then show ?case using n r w by (subst move_left.simps) (simp add: D)
qed

lemma move_right_words:
  "0 < length D \<Longrightarrow> to = int (length X + length V + length D) - 1 \<Longrightarrow> bar = int (length X + length D) \<Longrightarrow>
   \<exists>D'. move_right (X @ V @ D @ Y) to bar (int (length D)) = Inr (X @ D' @ V @ Y, int (length X + length D) - 1) \<and>
     length D' = length D"
proof (induction V arbitrary: D Y to rule: rev_induct)
  case Nil
  then show ?case by (simp add: move_right.simps)
next
  case (snoc v V)
  obtain D0 x where D: "D = D0 @ [x]" using snoc.prems(1) by (cases D rule: rev_exhaust) auto
  have r: "nthZ (X @ (V @ [v]) @ D @ Y) (to - int (length D)) = Inr v"
    using nthZ_mid [of "to - int (length D)" "X @ V" v "D @ Y"] snoc.prems by simp
  have w: "putZ (X @ (V @ [v]) @ D @ Y) to [v] = Inr (X @ V @ (v # D0) @ v # Y)"
    using putZ_mid [of to "X @ V @ [v] @ D0" x Y v] snoc.prems by (simp add: D)
  have n: "to \<ge> bar" using snoc.prems by simp
  obtain D' where "move_right (X @ V @ (v # D0) @ v # Y) (to - 1) bar (int (length (v # D0))) =
      Inr (X @ D' @ V @ v # Y, int (length X + length (v # D0)) - 1)" "length D' = length D"
    using snoc.IH [of "v # D0" "to - 1" "v # Y"] snoc.prems by (auto simp add: D)
  then show ?case using n r w by (subst move_right.simps) (simp add: D)
qed

lemma zero_words_mid:
  assumes "lo = int (length X)" "hi = int (length X + length D)"
  shows "zero_words (X @ D @ Y) lo hi = Inr (X @ replicate (length D) 0 @ Y)"
proof (cases "D = []")
  case False
  then have "nat (hi - lo) = length D" "lo < hi" using assms by simp_all
  then show ?thesis using assms(1) putZ_over [of lo X "replicate (length D) 0" D Y] by (simp add: zero_words_def)
qed (use assms in \<open>simp add: zero_words_def\<close>)

lemma placed_move_left:
  assumes p: "placed b n beg last' m" and d: "0 < d" "d \<le> beg div 9"
  shows "\<exists>b1 t b2. move_left b (int (beg div 9) - int d) (int ((last' + 8) div 9) - 1 - int d) (int d) = Inr (b1, t) \<and>
    zero_words b1 t (int ((last' + 8) div 9)) = Inr b2 \<and> length b2 = length b \<and> placed b2 n (beg - 9 * d) (last' - 9 * d) m"
proof -
  define f g k where "f = beg div 9" and "g = (last' + 8) div 9" and "k = n - g"
  obtain W R where b: "b = replicate f 0 @ W @ R" "digs W" "f + length W = g" "W \<noteq> []"
    "wval W = m * 10 ^ (9 * g - last')" "g \<le> n" "n \<le> length b" "take k R = replicate k 0"
    using placedE [OF p] unfolding f_def g_def k_def by metis
  have fg: "9 * f \<le> beg" "last' \<le> 9 * g" unfolding f_def g_def by linarith+
  have m: "beg < last'" "0 < m" "m < 10 ^ (last' - beg)" using p by (simp_all add: placed_def)
  obtain G where R: "R = replicate k 0 @ G" using b(8) by (metis append_take_drop_id)
  have df: "d \<le> f" using d by (simp add: f_def)
  have "replicate (f - d) 0 @ replicate d 0 @ W @ R = b"
    using df b(1) by (simp add: replicate_add [symmetric] flip: append_assoc)
  then obtain D' where mv: "move_left b (int f - int d) (int g - 1 - int d) (int d) =
      Inr (replicate (f - d) 0 @ W @ D' @ R, int (f - d + length W))" "length D' = d"
    using move_left_words [of "replicate d 0" "int f - int d" "replicate (f - d) 0" "int g - 1 - int d" W R] d df b(3) by auto
  define b2 where "b2 = replicate (f - d) 0 @ W @ replicate (d + k) 0 @ G"
  have "int g = int (length (replicate (f - d) (0 :: int) @ W) + length D')" using mv(2) df b(3) by simp
  then have "zero_words ((replicate (f - d) 0 @ W) @ D' @ R) (int (f - d + length W)) (int g) =
      Inr ((replicate (f - d) 0 @ W) @ replicate d 0 @ R)"
    using zero_words_mid [of _ "replicate (f - d) 0 @ W" "int g" D' R] mv(2) by simp
  then have "zero_words (replicate (f - d) 0 @ W @ D' @ R) (int (f - d + length W)) (int g) = Inr b2"
    unfolding b2_def R replicate_add append_assoc .
  moreover have "length b2 = length b" unfolding b2_def b(1) using R df by simp
  moreover have "placed b2 n (beg - 9 * d) (last' - 9 * d) m"
  proof (rule placedI [OF b2_def b(2)])
    have "9 * (f - d + length W) - (last' - 9 * d) = 9 * g - last'" using df fg m b(3) by simp
    then show "wval W = m * 10 ^ (9 * (f - d + length W) - (last' - 9 * d))" using b(5) by simp
  qed (use m df fg b in \<open>simp_all add: k_def\<close>)
  ultimately show ?thesis using mv(1) unfolding f_def g_def by blast
qed

lemma placed_move_right:
  assumes p: "placed b n beg last' m" and d: "0 < d" "(last' + 8) div 9 + d \<le> length b"
  shows "\<exists>b1 t b2. move_right b (int ((last' + 8) div 9) - 1 + int d) (int (beg div 9) + int d) (int d) = Inr (b1, t) \<and>
    zero_words b1 (int (beg div 9)) (t + 1) = Inr b2 \<and> length b2 = length b \<and>
    placed b2 ((last' + 8) div 9 + d) (beg + 9 * d) (last' + 9 * d) m"
proof -
  define f g where "f = beg div 9" and "g = (last' + 8) div 9"
  obtain W R where b: "b = replicate f 0 @ W @ R" "digs W" "f + length W = g" "W \<noteq> []"
    "wval W = m * 10 ^ (9 * g - last')" "g \<le> n" "n \<le> length b"
    using placedE [OF p] unfolding f_def g_def by metis
  have fg: "9 * f \<le> beg" "last' \<le> 9 * g" unfolding f_def g_def by linarith+
  have m: "beg < last'" "0 < m" "m < 10 ^ (last' - beg)" using p by (simp_all add: placed_def)
  have "d \<le> length R" using d(2) b(1,3) unfolding g_def [symmetric] by simp
  then obtain D R' where R: "R = D @ R'" "length D = d" by (metis append_take_drop_id length_take min_absorb2)
  obtain D' where mv: "move_right b (int g - 1 + int d) (int f + int d) (int d) =
      Inr (replicate f 0 @ D' @ W @ R', int (f + d) - 1)" "length D' = d"
    using move_right_words [of D "int g - 1 + int d" "replicate f 0" W "int f + int d" "R'"] d(1) R b(1,3)
    by auto
  define b2 where "b2 = replicate (f + d) 0 @ W @ replicate 0 0 @ R'"
  have "zero_words (replicate f 0 @ D' @ W @ R') (int f) (int (f + d) - 1 + 1) = Inr b2"
    using zero_words_mid [of "int f" "replicate f 0" "int (f + d)" D' "W @ R'"] mv(2)
    by (simp add: b2_def replicate_add)
  moreover have "length b2 = length b" unfolding b2_def b(1) using R by simp
  moreover have "placed b2 (g + d) (beg + 9 * d) (last' + 9 * d) m"
  proof (rule placedI [OF b2_def b(2)])
    have "9 * (f + d + length W) - (last' + 9 * d) = 9 * g - last'" using fg m b(3) by simp
    then show "wval W = m * 10 ^ (9 * (f + d + length W) - (last' + 9 * d))" using b(5) by simp
  qed (use m fg b in simp_all)
  ultimately show ?thesis using mv(1) unfolding f_def g_def by blast
qed

lemma zero_words_zeros:
  assumes "b = replicate f 0 @ Y" "lo = int i" "i \<le> f"
  shows "zero_words b lo (int f) = Inr b"
proof -
  have "replicate i 0 @ replicate (f - i) 0 @ Y = b"
    using assms by (simp add: replicate_add [symmetric] flip: append_assoc)
  then show ?thesis
    using zero_words_mid [of "int i" "replicate i 0" "int f" "replicate (f - i) 0" Y] assms(2,3) by simp
qed

text \<open>Zeros from the last digit up to the point, or from the point to the first digit.\<close>

lemma placed_fill:
  assumes p: "placed (d_buf d) n beg last' m" and room: "q \<le> length (d_buf d)"
    and s: "sh_dec s = d" "sh_beg s = int beg" "sh_end s = int last'" "sh_point s = 9 * int q"
  shows "\<exists>b n'. shift_fill s = Inr (d\<lparr>d_buf := b\<rparr>) \<and> length b = length (d_buf d) \<and> q \<le> n' \<and> placed b n' beg last' m"
proof -
  define f g k where "f = beg div 9" and "g = (last' + 8) div 9" and "k = n - g"
  obtain W R where b: "d_buf d = replicate f 0 @ W @ R" "digs W" "f + length W = g" "W \<noteq> []"
    "wval W = m * 10 ^ (9 * g - last')" "g \<le> n" "n \<le> length (d_buf d)"
    using placedE [OF p] unfolding f_def g_def by metis
  have fg: "9 * f \<le> beg" "last' \<le> 9 * g" unfolding f_def g_def by linarith+
  have m: "beg < last'" "0 < m" "m < 10 ^ (last' - beg)" using p by (simp_all add: placed_def)
  have "sh_point s \<noteq> 0 \<longleftrightarrow> q \<noteq> 0" using s by simp
  then have pt: "(if sh_point s \<noteq> 0 then ROUND_UP (sh_point s) - 1 else sh_point s) = int (q - 1)"
    unfolding s(4) by (cases "q = 0") (simp_all add: of_nat_diff)
  have run: "shift_fill s = bindE (if int (q - 1) > int g - 1 then zero_words (d_buf d) (int g - 1 + 1) (int (q - 1) + 1)
      else zero_words (d_buf d) (int (q - 1)) (int f)) (\<lambda>b. Inr (d\<lparr>d_buf := b\<rparr>))"
    unfolding shift_fill_def Let_def pt s(1-3) nth_word f_def g_def by simp
  show ?thesis
  proof (cases "g < q")
    case True
    define D R' where "D = take (q - g) R" and "R' = drop (q - g) R"
    define b' where "b' = replicate f 0 @ W @ replicate (q - g) 0 @ R'"
    have "q - g \<le> length R" using True room b(1,3) by simp
    then have R: "R = D @ R'" "length D = q - g" by (simp_all add: D_def R'_def)
    have "zero_words (d_buf d) (int g) (int q) = Inr b'"
      using zero_words_mid [of "int g" "replicate f 0 @ W" "int q" D R'] R True b(1,3)
      by (simp add: b'_def)
    then have "shift_fill s = Inr (d\<lparr>d_buf := b'\<rparr>)" using True by (simp add: run)
    moreover have "placed b' q beg last' m"
      using m fg b True by (intro placedI [OF b'_def b(2)]) simp_all
    moreover have "length b' = length (d_buf d)" using R b(1) by (simp add: b'_def)
    ultimately show ?thesis by blast
  next
    case False
    have "zero_words (d_buf d) (int (q - 1)) (int f) = Inr (d_buf d)"
    proof (cases "q - 1 \<le> f")
      case True
      then show ?thesis using zero_words_zeros [OF b(1) refl] by blast
    next
      case False
      then have "\<not> int (q - 1) < int f" by simp
      then show ?thesis unfolding zero_words_def by (rule if_not_P)
    qed
    moreover have "\<not> int (q - 1) > int g - 1" using False b(3,4) by (cases W) auto
    ultimately have "shift_fill s = Inr (d\<lparr>d_buf := d_buf d\<rparr>)" unfolding run by simp
    then show ?thesis using p False b(6) by (intro exI [of _ "d_buf d"] exI [of _ n]) simp
  qed
qed

end
