(* ===== verification/DecimalShifting.thy ===== *)
theory DecimalShifting
  imports DecimalAlign
begin

text \<open>
  Correctness of \<open>decimal_shift\<close>: with room for the result the value is multiplied by the power of
  ten. \<open>digits_bounds\<close> finds the digits (\<open>digits_bounds_words\<close>); \<open>sh_ok\<close> is the invariant
  of the steps behind it, which \<open>shift_align_ok\<close>, \<open>shift_move_ok\<close> and \<open>placed_fill\<close> keep; from
  it \<open>sh_ok_return\<close> reads off the value.
\<close>

declare lead_digits.simps [simp del] trail_digits.simps [simp del] skip_zeros.simps [simp del] trim_zeros.simps [simp del]

subsection \<open>The bounds of the digits\<close>

lemma powers10_at: "k \<le> 9 \<Longrightarrow> powers10 ! k = 10 ^ k"
  using powers10_nth [of k] by (simp add: nthE_def split: if_splits)

lemma lead_digits_word:
  "0 < w \<Longrightarrow> w < 10 ^ Suc k \<Longrightarrow> k \<le> 9 \<Longrightarrow>
   \<exists>j \<le> k. lead_digits w (int k) n = Inr (n + int j) \<and> w < 10 ^ (Suc k - j)"
proof (induction k arbitrary: n)
  case 0
  then show ?case by (subst lead_digits.simps) (simp add: powers10_def)
next
  case (Suc k)
  show ?case
  proof (cases "w < 10 ^ Suc k")
    case True
    then obtain j where "j \<le> k" "lead_digits w (int k) (n + 1) = Inr (n + 1 + int j)" "w < 10 ^ (Suc k - j)"
      using Suc by force
    then show ?thesis using True Suc.prems powers10_at [of "Suc k"]
      by (intro exI [of _ "Suc j"], subst lead_digits.simps) (simp add: nat_add_distrib)
  next
    case False
    then show ?thesis using Suc.prems powers10_at [of "Suc k"]
      by (intro exI [of _ 0], subst lead_digits.simps) (simp add: nat_add_distrib)
  qed
qed

lemma trail_digits_word:
  assumes "0 < w" "w < DIG_BASE"
  shows "10 ^ t dvd w \<Longrightarrow> t \<le> 8 \<Longrightarrow> \<exists>t' \<ge> t. t' \<le> 8 \<and> trail_digits w (int t + 1) n = Inr (n - int (t' - t)) \<and> 10 ^ t' dvd w"
proof (induction "8 - t" arbitrary: t n)
  case 0
  then have t: "t = 8" by simp
  have "\<not> DIG_BASE dvd w" using assms zdvd_imp_le [of DIG_BASE w] by auto
  then have "w smod powers10 ! nat (int t + 1) \<noteq> 0"
    using assms powers10_at [of 9] by (simp add: t smod_nonneg dvd_eq_mod_eq_0)
  then show ?case using 0 t by (intro exI [of _ 8], subst trail_digits.simps) simp
next
  case (Suc x)
  have n: "nat (int t + 1) = Suc t" by simp
  have z: "w smod powers10 ! nat (int t + 1) = 0 \<longleftrightarrow> 10 ^ Suc t dvd w"
    unfolding n using Suc assms powers10_at [of "Suc t"] by (simp add: smod_nonneg dvd_eq_mod_eq_0)
  show ?case
  proof (cases "10 ^ Suc t dvd w")
    case True
    have t: "x = 8 - Suc t" "Suc t \<le> 8" using Suc.hyps(2) by simp_all
    obtain t' where "Suc t \<le> t'" "t' \<le> 8" "trail_digits w (int (Suc t) + 1) (n - 1) = Inr (n - 1 - int (t' - Suc t))" "10 ^ t' dvd w"
      using Suc.hyps(1) [OF t(1) True t(2), of "n - 1"] by blast
    then show ?thesis using True z Suc.prems by (intro exI [of _ t'], subst trail_digits.simps) (simp add: of_nat_diff)
  next
    case False
    then show ?thesis using z Suc.prems by (intro exI [of _ t], subst trail_digits.simps) simp
  qed
qed

lemma placed_bounds:
  assumes "n \<le> length b" "digs (take n b)" "0 < wval (take n b)" "wval (take n b) < 10 ^ (9 * n - beg)"
    and "beg \<le> 9 * n" "last' \<le> 9 * n" "10 ^ (9 * n - last') dvd wval (take n b)"
  shows "\<exists>m. placed b n beg last' m"
proof -
  obtain m where m: "wval (take n b) = m * 10 ^ (9 * n - last')" using assms(7) by (metis dvd_def mult.commute)
  then have pos: "0 < m" using assms(3) by (metis zero_less_mult_pos2 zero_less_power zero_less_numeral)
  then have "1 * 10 ^ (9 * n - last') \<le> wval (take n b)" unfolding m by (intro mult_right_mono) simp_all
  then have "(10 :: int) ^ (9 * n - last') < 10 ^ (9 * n - beg)" using assms(4) by linarith
  then have lt: "beg < last'" using assms(5,6) by simp
  have "m * 10 ^ (9 * n - last') < 10 ^ (last' - beg) * 10 ^ (9 * n - last')"
    using assms(4) m pow_split [of "9 * n - beg" "last' - beg" "9 * n - last'"] lt assms(6) by simp
  then have "m < 10 ^ (last' - beg)" by (rule mult_right_less_imp_less) simp
  then show ?thesis using assms m pos lt unfolding placed_def by blast
qed

lemma words_of_digits:
  assumes "0 < x"
  shows "nat (ROUND_UP x) = Suc (nat (x - 1) div 9)" "nat x = 9 * (nat (x - 1) div 9) + nat (x - 1) mod 9 + 1"
proof -
  obtain y where y: "x = int (Suc y)" using assms by (metis pos_int_cases gr0_conv_Suc)
  then have "nat (x - 1) = y" by simp
  then show "nat (ROUND_UP x) = Suc (nat (x - 1) div 9)" "nat x = 9 * (nat (x - 1) div 9) + nat (x - 1) mod 9 + 1"
    unfolding y nth_word by simp_all
qed

text \<open>The first digit, in the word \<open>z\<close>, and the last one, in the word \<open>p\<close>.\<close>

lemma first_digit:
  assumes d: "dec_ok d" and n: "n = iw d + fw d" and zn: "z < n" and v: "0 < v" "v < DIG_BASE"
    and wA: "dmag d = v * DIG_BASE ^ (n - Suc z) + r" and V: "0 \<le> r" "r < DIG_BASE ^ (n - Suc z)"
  shows "\<exists>start i beg. (if int z = 0 \<and> d_intg d \<noteq> 0 then
      let i = (d_intg d - 1) smod DIG_PER_DEC1 + 1 in (DIG_PER_DEC1 - i, i - 1)
      else (int z * DIG_PER_DEC1, DIG_PER_DEC1 - 1)) = (start, i) \<and>
    lead_digits v i start = Inr (int beg) \<and> dmag d < 10 ^ (9 * n - beg) \<and> beg \<le> 9 * n \<and> int (9 * iw d) \<le> int beg + d_intg d"
proof -
  note o = dec_okD [OF d]
  define k :: nat where "k = (if z = 0 \<and> d_intg d \<noteq> 0 then nat (d_intg d - 1) mod 9 else 8)"
  have first: "(if int z = 0 \<and> d_intg d \<noteq> 0 then
      let i = (d_intg d - 1) smod DIG_PER_DEC1 + 1 in (DIG_PER_DEC1 - i, i - 1)
      else (int z * DIG_PER_DEC1, DIG_PER_DEC1 - 1)) = (int (9 * z + 8 - k), int k)"
  proof -
    have "(d_intg d - 1) smod 9 = int (nat (d_intg d - 1) mod 9)" if "d_intg d \<noteq> 0"
      using that o(2) smod_int_numeral [of "nat (d_intg d - 1)"] by simp
    then show ?thesis by (auto simp add: k_def Let_def of_nat_diff less_Suc_eq_le [symmetric])
  qed
  have k: "k \<le> 8" unfolding k_def using mod_less_divisor [of 9 "nat (d_intg d - 1)"] by (split if_split) linarith
  have "v < 10 ^ Suc k"
  proof (cases "z = 0 \<and> d_intg d \<noteq> 0")
    case True
    have "nat (d_intg d) + 9 * fw d = Suc k + 9 * (n - Suc z)"
    proof -
      note nd = words_of_digits [of "d_intg d", folded iw_def]
      have "nat (d_intg d - 1) mod 9 = k" using True by (simp add: k_def)
      then show ?thesis using nd True zn n o(2) by simp
    qed
    moreover have "dmag d < 10 ^ (nat (d_intg d) + 9 * fw d)" using d by (simp add: dec_ok_def)
    ultimately have "v * DIG_BASE ^ (n - Suc z) + r < 10 ^ Suc k * DIG_BASE ^ (n - Suc z)"
      unfolding wA by (simp add: base_pow power_add)
    then have "v * DIG_BASE ^ (n - Suc z) < 10 ^ Suc k * DIG_BASE ^ (n - Suc z)" using V(1) by linarith
    then show ?thesis by (rule mult_right_less_imp_less) simp
  next
    case False
    then have "k = 8" unfolding k_def by (rule if_not_P)
    then show ?thesis using v(2) by simp
  qed
  then obtain j where j: "j \<le> k" "lead_digits v (int k) (int (9 * z + 8 - k)) = Inr (int (9 * z + 8 - k) + int j)" "v < 10 ^ (Suc k - j)"
    using lead_digits_word [of v k "int (9 * z + 8 - k)"] v(1) k by auto
  define beg where "beg = 9 * z + 8 - k + j"
  have beg: "dmag d < 10 ^ (9 * n - beg)" "beg \<le> 9 * n"
  proof -
    have "v * DIG_BASE ^ (n - Suc z) + r < (v + 1) * DIG_BASE ^ (n - Suc z)" using V by (simp add: distrib_right)
    also have "\<dots> \<le> 10 ^ (Suc k - j) * DIG_BASE ^ (n - Suc z)" using j(3) by (intro mult_right_mono) simp_all
    also have "\<dots> = 10 ^ (9 * n - beg)" unfolding base_pow using zn k j(1)
      by (intro pow_split [symmetric]) (simp add: beg_def)
    finally show "dmag d < 10 ^ (9 * n - beg)" unfolding wA .
    show "beg \<le> 9 * n" using zn k j(1) by (simp add: beg_def)
  qed
  have "lead_digits v (int k) (int (9 * z + 8 - k)) = Inr (int beg)" unfolding j(2) beg_def by simp
  moreover have "int (9 * iw d) \<le> int beg + d_intg d"
  proof (cases "z = 0 \<and> d_intg d \<noteq> 0")
    case True
    then have "nat (d_intg d - 1) mod 9 = k" by (simp add: k_def)
    then show ?thesis using words_of_digits(2) [of "d_intg d"] words_of_digits(1) [of "d_intg d", folded iw_def] True o(2)
      by (simp add: beg_def)
  next
    case False
    then have "k = 8" unfolding k_def by (rule if_not_P)
    then show ?thesis using False words_of_digits(1) [of "d_intg d", folded iw_def] o(2)
      by (cases "d_intg d = 0") (simp_all add: beg_def iw_def ROUND_UP_eq)
  qed
  ultimately show ?thesis using first beg by blast
qed

lemma last_digit:
  assumes d: "dec_ok d" and n: "n = iw d + fw d" and nx: "n = p + 1 + x" and u: "0 < u" "u < DIG_BASE"
    and wu: "dmag d = (h * DIG_BASE + u) * 10 ^ (9 * x)"
  shows "\<exists>last' i e. (if int p = int n - 1 \<and> d_frac d \<noteq> 0 then
      let i = (d_frac d - 1) smod DIG_PER_DEC1 + 1 in (int p * DIG_PER_DEC1 + i, DIG_PER_DEC1 - i + 1)
      else ((int p + 1) * DIG_PER_DEC1, 1)) = (last', i) \<and>
    trail_digits u i last' = Inr (int e) \<and> e \<le> 9 * n \<and> 10 ^ (9 * n - e) dvd dmag d \<and> int e \<le> int (9 * iw d) + d_frac d"
proof -
  note o = dec_okD [OF d]
  define t where "t = (if p = n - 1 \<and> d_frac d \<noteq> 0 then 8 - nat (d_frac d - 1) mod 9 else 0)"
  have lastw: "(if int p = int n - 1 \<and> d_frac d \<noteq> 0 then
      let i = (d_frac d - 1) smod DIG_PER_DEC1 + 1 in (int p * DIG_PER_DEC1 + i, DIG_PER_DEC1 - i + 1)
      else ((int p + 1) * DIG_PER_DEC1, 1)) = (int (9 * (p + 1) - t), int t + 1)"
  proof -
    have "(d_frac d - 1) smod 9 = int (nat (d_frac d - 1) mod 9)" if "d_frac d \<noteq> 0"
      using that o(3) smod_int_numeral [of "nat (d_frac d - 1)"] by simp
    moreover have "int p = int n - 1 \<longleftrightarrow> p = n - 1" using nx by auto
    ultimately show ?thesis by (auto simp add: t_def Let_def of_nat_diff less_Suc_eq_le [symmetric])
  qed
  have t: "t \<le> 8" by (simp add: t_def)
  have "10 ^ t dvd u"
  proof (cases "p = n - 1 \<and> d_frac d \<noteq> 0")
    case True
    have "9 * fw d - nat (d_frac d) = t"
    proof -
      have "0 < d_frac d" using True o(3) by simp
      note nd = words_of_digits [OF this, folded fw_def]
      have "t = 8 - nat (d_frac d - 1) mod 9" using True by (simp add: t_def)
      moreover have "9 * Suc q - (9 * q + r + 1) = 8 - r" for q r :: nat by simp
      ultimately show ?thesis unfolding nd by (simp only:)
    qed
    then have "10 ^ t dvd dmag d" using d unfolding dec_ok_def by simp
    moreover have "x = 0" using True nx by simp
    moreover have "10 ^ t dvd DIG_BASE" using t le_imp_power_dvd [of t 9 "10 :: int"] by simp
    ultimately show ?thesis unfolding wu by (simp add: dvd_add_right_iff)
  next
    case False
    then show ?thesis by (auto simp add: t_def)
  qed
  then obtain t' where t': "t \<le> t'" "t' \<le> 8" "10 ^ t' dvd u"
    "trail_digits u (int t + 1) (int (9 * (p + 1) - t)) = Inr (int (9 * (p + 1) - t) - int (t' - t))"
    using trail_digits_word [OF u _ t, of "int (9 * (p + 1) - t)"] by blast
  define e where "e = 9 * (p + 1) - t'"
  have "10 ^ (9 * n - e) dvd dmag d"
  proof -
    have "10 ^ t' dvd DIG_BASE" using t'(2) le_imp_power_dvd [of t' 9 "10 :: int"] by simp
    then have "10 ^ t' dvd h * DIG_BASE + u" using t'(3) by simp
    moreover have "9 * n - e = t' + 9 * x" using nx t'(2) by (simp add: e_def)
    ultimately show ?thesis unfolding wu by (simp only: power_add) (rule mult_dvd_mono, simp_all)
  qed
  moreover have "e \<le> 9 * n" using nx by (simp add: e_def)
  moreover have "trail_digits u (int t + 1) (int (9 * (p + 1) - t)) = Inr (int e)"
    unfolding t'(4) using t'(1,2) by (simp add: e_def)
  moreover have "int e \<le> int (9 * iw d) + d_frac d"
  proof (cases "d_frac d = 0")
    case True
    then have "fw d = 0" by (simp add: fw_def ROUND_UP_def)
    then show ?thesis using nx n True by (simp add: e_def)
  next
    case False
    then have "0 < d_frac d" using o(3) by simp
    note nd = words_of_digits [OF this, folded fw_def]
    define q r where "q = nat (d_frac d - 1) div 9" and "r = nat (d_frac d - 1) mod 9"
    have fr: "d_frac d = int (9 * q + r + 1)" "fw d = Suc q" "r < 9" using nd o(3) by (simp_all add: q_def r_def)
    have "e \<le> 9 * (iw d + q) + r + 1"
    proof (cases "p = n - 1")
      case True
      then have "t = 8 - r" using False by (simp add: t_def r_def)
      then show ?thesis using nx n fr(2,3) t'(1) by (simp add: e_def)
    next
      case F: False
      then have "p + 1 \<le> iw d + q" using nx n fr(2) by simp
      then show ?thesis by (simp add: e_def)
    qed
    then show ?thesis unfolding fr(1) by simp
  qed
  ultimately show ?thesis using lastw by blast
qed

text \<open>The words behind the leading zeros.\<close>

lemma leading_zeros:
  assumes "digs A" "wval A \<noteq> 0"
  obtains v V where "A = replicate (length (takeWhile (\<lambda>w. w = 0) A)) 0 @ v # V" "0 < v" "v < DIG_BASE" "digs V"
proof -
  define z where "z = length (takeWhile (\<lambda>w. w = 0) A)"
  have zn: "z < length A"
  proof (rule ccontr)
    assume "\<not> z < length A"
    then have "takeWhile (\<lambda>w. w = 0) A = A" using takeWhile_eq_take [of "\<lambda>w. w = 0" A] unfolding z_def by simp
    then have "\<forall>w\<in>set A. w = 0" by (simp only: takeWhile_eq_all_conv)
    then show False using assms wval_0_iff [OF assms(1)] by simp
  qed
  have tz: "take z A = replicate z 0"
  proof -
    have "take z A = takeWhile (\<lambda>w. w = 0) A" unfolding z_def by (rule takeWhile_eq_take [symmetric])
    moreover have "\<forall>x\<in>set (takeWhile (\<lambda>w. w = 0) A). x = 0" by (auto dest: set_takeWhileD)
    ultimately show ?thesis unfolding z_def by (metis replicate_length_same)
  qed
  define v V where "v = A ! z" and "V = drop (Suc z) A"
  have Az: "A = replicate z 0 @ v # V" using zn tz id_take_nth_drop [of z A] by (simp add: v_def V_def)
  have "digs (replicate z 0 @ v # V)" using assms(1) unfolding Az [symmetric] .
  moreover have "v \<noteq> 0" using nth_length_takeWhile [of "\<lambda>w. w = 0" A] zn by (simp add: v_def z_def)
  ultimately have "0 < v" "v < DIG_BASE" "digs V" by simp_all
  then show thesis by (rule that [OF Az [unfolded z_def]])
qed

text \<open>\<open>digits_bounds\<close> finds digits before and behind which there are zeros only.\<close>

lemma digits_bounds_words:
  assumes d: "dec_ok d" and n: "n = iw d + fw d"
  shows "dmag d = 0 \<Longrightarrow> digits_bounds d = Inr (0, 0)"
    "dmag d \<noteq> 0 \<Longrightarrow> \<exists>beg last' m. digits_bounds d = Inr (int beg, int last') \<and> placed (d_buf d) n beg last' m \<and>
      int (9 * iw d) \<le> int beg + d_intg d \<and> int last' \<le> int (9 * iw d) + d_frac d"
proof -
  note o = dec_okD [OF d]
  note w = dec_struct_words [OF o(1)]
  define A sq where "A = take n (d_buf d)" and "sq = drop n (d_buf d)"
  have lA: "length A = n" using w(5) n by (simp add: A_def)
  have A: "digs A" "wval A = dmag d" "d_buf d = A @ sq"
    using w(3) n by (simp_all add: A_def sq_def dmag_def)
  define z where "z = length (takeWhile (\<lambda>w. w = 0) A)"
  have skip: "skip_zeros (d_buf d) (int n) 0 = Inr (int z)"
    using skip_zeros_words [of "int n" "[]" A 0 sq] lA by (simp add: z_def flip: A(3))
  have stop: "ROUND_UP (d_intg d) + ROUND_UP (d_frac d) = int n" unfolding w(1,2) n by simp
  show "digits_bounds d = Inr (0, 0)" if "dmag d = 0"
  proof -
    have "\<forall>w\<in>set A. w = 0" using that A wval_0_iff [OF A(1)] by simp
    then have "takeWhile (\<lambda>w. w = 0) A = A" by (simp only: takeWhile_eq_all_conv)
    then have "z = length A" unfolding z_def by (rule arg_cong)
    then have "z = n" unfolding lA .
    then show ?thesis unfolding digits_bounds_def Let_def stop skip by simp
  qed
  assume nz: "dmag d \<noteq> 0"
  then have "wval A \<noteq> 0" using A(2) by simp
  from leading_zeros [OF A(1) this, folded z_def] obtain v V where
    Az: "A = replicate z 0 @ v # V" and v: "0 < v" "v < DIG_BASE" "digs V" by blast
  have zn: "z < n" "length V = n - Suc z" using arg_cong [OF Az, of length] lA by simp_all
  have rd: "nthZ (d_buf d) (int z) = Inr v"
    using nthZ_mid [of "int z" "replicate z 0" v "V @ sq"] unfolding A(3) Az by simp
  have wA: "dmag d = v * DIG_BASE ^ (n - Suc z) + wval V"
    using A(2) unfolding Az by (simp add: wval_append zn(2))
  have V: "0 \<le> wval V" "wval V < DIG_BASE ^ (n - Suc z)" using wval_bounds [OF v(3)] zn(2) by simp_all
  from first_digit [OF d n zn(1) v(1,2) wA V] obtain start i beg where
    F: "(if int z = 0 \<and> d_intg d \<noteq> 0 then
      let i = (d_intg d - 1) smod DIG_PER_DEC1 + 1 in (DIG_PER_DEC1 - i, i - 1)
      else (int z * DIG_PER_DEC1, DIG_PER_DEC1 - 1)) = (start, i)"
    "lead_digits v i start = Inr (int beg)" and beg: "dmag d < 10 ^ (9 * n - beg)" "beg \<le> 9 * n"
      "int (9 * iw d) \<le> int beg + d_intg d" by blast
  have bf: "d_buf d = (replicate z 0 @ [v]) @ V @ sq" using A(3) Az by simp
  have idx: "int z + 1 = int (length (replicate z 0 @ [v]))" "int n - 1 = int (length (replicate z 0 @ [v]) + length V) - 1"
    using zn by simp_all
  obtain ys x where tr: "trim_zeros (d_buf d) (int z + 1) (int n - 1) = Inr (int (length (replicate z 0 @ [v]) + length ys) - 1)"
      and ys: "V = ys @ replicate x 0" "ys = [] \<or> List.last ys \<noteq> 0"
    using trim_zeros_words [OF idx, of sq, folded bf] by blast
  have tr: "trim_zeros (d_buf d) (int z + 1) (int n - 1) = Inr (int (z + length ys))" unfolding tr by simp
  define u us where "u = List.last (v # ys)" and "us = butlast (v # ys)"
  have us: "v # ys = us @ [u]" "length us = length ys" by (simp_all add: u_def us_def)
  have "digs (us @ [u])" using v ys(1) unfolding us(1) [symmetric] by simp
  moreover have "u \<noteq> 0" using ys(2) v(1) by (auto simp add: u_def)
  ultimately have u: "0 < u" "u < DIG_BASE" by simp_all
  have bu: "d_buf d = (replicate z 0 @ us) @ u # replicate x 0 @ sq"
    unfolding bf ys(1) using us(1) by simp
  have ru: "nthZ (d_buf d) (int (z + length ys)) = Inr u"
    unfolding bu using us(2) by (intro nthZ_mid) simp
  have nx: "n = z + length ys + 1 + x" using zn ys(1) by simp
  have wu: "dmag d = (wval us * DIG_BASE + u) * 10 ^ (9 * x)"
  proof -
    have "A = replicate z 0 @ us @ [u] @ replicate x 0" unfolding Az ys(1) using us(1) by simp
    then show ?thesis unfolding A(2) [symmetric] by (simp add: wval_append base_pow distrib_right)
  qed
  from last_digit [OF d n nx u wu] obtain last' i' e where
    E: "(if int (z + length ys) = int n - 1 \<and> d_frac d \<noteq> 0 then
      let i = (d_frac d - 1) smod DIG_PER_DEC1 + 1 in (int (z + length ys) * DIG_PER_DEC1 + i, DIG_PER_DEC1 - i + 1)
      else ((int (z + length ys) + 1) * DIG_PER_DEC1, 1)) = (last', i')"
    "trail_digits u i' last' = Inr (int e)" and e: "e \<le> 9 * n" "10 ^ (9 * n - e) dvd dmag d"
      "int e \<le> int (9 * iw d) + d_frac d" by blast
  have "0 < dmag d" using nz o(7) by simp
  then have "\<exists>m. placed (d_buf d) n beg e m"
    using w(5) n A(1,2) beg e unfolding A_def by (intro placed_bounds) simp_all
  moreover have "digits_bounds d = Inr (int beg, int e)"
  proof -
    have "\<not> int z \<ge> int n" using zn by simp
    then show ?thesis
      unfolding digits_bounds_def Let_def stop skip bindE_simps
      using F rd tr ru E by (simp only: if_not_P if_False bindE_simps prod.case Let_def)
  qed
  ultimately show "\<exists>beg last' m. digits_bounds d = Inr (int beg, int last') \<and> placed (d_buf d) n beg last' m \<and>
      int (9 * iw d) \<le> int beg + d_intg d \<and> int last' \<le> int (9 * iw d) + d_frac d" using beg(3) e(3) by blast
qed

subsection \<open>The invariant of the steps\<close>

lemma placed_less:
  assumes "placed b n beg last' m" "k \<le> n" "last' \<le> 9 * k"
  shows "placed b k beg last' m"
proof -
  define f g where "f = beg div 9" and "g = (last' + 8) div 9"
  obtain W R where b: "b = replicate f 0 @ W @ R" "digs W" "f + length W = g" "W \<noteq> []"
    "wval W = m * 10 ^ (9 * g - last')" "take (n - g) R = replicate (n - g) 0"
    using placedE [OF assms(1)] unfolding f_def g_def by metis
  have g: "g \<le> k" "last' \<le> 9 * g" using assms(3) unfolding g_def by linarith+
  have m: "beg < last'" "0 < m" "m < 10 ^ (last' - beg)" using assms(1) by (simp_all add: placed_def)
  have "take (k - g) R = take (k - g) (take (n - g) R)" using assms(2) by (simp add: min_absorb1 diff_le_mono)
  then have "take (k - g) R = replicate (k - g) 0" unfolding b(6) using assms(2) by (simp add: min_absorb1 diff_le_mono)
  then have "R = replicate (k - g) 0 @ drop (k - g) R" by (metis append_take_drop_id)
  then have "b = replicate f 0 @ W @ replicate (k - g) 0 @ drop (k - g) R" using b(1) by metis
  then show ?thesis by (rule placedI [OF _ b(2)]) (use b g m in simp_all)
qed

text \<open>The number that stands in a buffer, with the point at a word.\<close>

lemma placed_value:
  assumes "placed (d_buf d) (iw d + fw d) beg last' m"
  shows "dmag d = m * 10 ^ (9 * (iw d + fw d) - last')"
    "dval d = (if d_sign d = 0 then 1 else - 1) * of_int m * 10 powi (9 * int (iw d) - int last')"
proof -
  note p = assms [unfolded placed_def]
  define n where "n = iw d + fw d"
  show m: "dmag d = m * 10 ^ (9 * (iw d + fw d) - last')" using p by (simp add: dmag_def)
  have "(10 :: rat) ^ (9 * n - last') * 10 ^ last' = 10 ^ (9 * iw d) * 10 ^ (9 * fw d)"
    using p by (simp add: n_def flip: power_add)
  then have "(10 :: rat) ^ (9 * n - last') / 10 ^ (9 * fw d) = 10 ^ (9 * iw d) / 10 ^ last'"
    by (simp add: field_simps)
  also have "\<dots> = 10 powi (int (9 * iw d) - int last')"
    using power_int_diff [of "10 :: rat" "int (9 * iw d)" "int last'"] by (simp only: power_int_of_nat) simp
  finally show "dval d = (if d_sign d = 0 then 1 else - 1) * of_int m * 10 powi (9 * int (iw d) - int last')"
    unfolding dval_def m n_def [symmetric] by (simp flip: times_divide_eq_right)
qed

definition sh_ok :: "decimal_t \<Rightarrow> int \<Rightarrow> int \<Rightarrow> nat \<Rightarrow> shift_state \<Rightarrow> bool" where
  "sh_ok d m c n s \<longleftrightarrow>
     (\<exists>beg last'. sh_beg s = int beg \<and> sh_end s = int last' \<and> placed (d_buf (sh_dec s)) n beg last' m) \<and>
     sh_dec s = d\<lparr>d_buf := d_buf (sh_dec s)\<rparr> \<and> length (d_buf (sh_dec s)) = length (d_buf d) \<and>
     sh_int s = max 0 (sh_point s - sh_beg s) \<and> sh_frac s = max 0 (sh_end s - sh_point s) \<and>
     ROUND_UP (sh_int s) + ROUND_UP (sh_frac s) \<le> d_len d \<and> sh_err s = E_DEC_OK \<and> sh_point s - sh_end s = c"

lemma ROUND_UP_le: "0 \<le> x \<Longrightarrow> x \<le> 9 * ROUND_UP x"
  by (simp add: ROUND_UP_eq)

lemma sh_ok_return:
  assumes s: "sh_ok d m c n s" and q: "sh_point s = 9 * int q" "q \<le> n" "sh_point s - sh_int s < 9"
    and sg: "d_sign d = 0 \<or> d_sign d = 1"
  shows "\<exists>d'. sh_return s = (E_DEC_OK, d') \<and> dec_ok d' \<and>
    dval d' = (if d_sign d = 0 then 1 else - 1) * of_int m * 10 powi c"
proof -
  obtain beg e where be: "sh_beg s = int beg" "sh_end s = int e" "placed (d_buf (sh_dec s)) n beg e m"
    using s by (auto simp add: sh_ok_def)
  note p = be(3) [unfolded placed_def]
  define d' where "d' = snd (sh_return s)"
  have d': "d_buf d' = d_buf (sh_dec s)" "d_sign d' = d_sign d" "d_intg d' = int (9 * q - beg)" "d_frac d' = int (e - 9 * q)"
  proof -
    have "sh_dec s = d\<lparr>d_buf := d_buf (sh_dec s)\<rparr>" using s by (simp add: sh_ok_def)
    then have "d_sign (sh_dec s) = d_sign d" by (metis decimal_t.ext_inject decimal_t.surjective decimal_t.update_convs(5))
    then show "d_buf d' = d_buf (sh_dec s)" "d_sign d' = d_sign d" by (simp_all add: d'_def sh_return_def)
    show "d_intg d' = int (9 * q - beg)" "d_frac d' = int (e - 9 * q)"
      using s be q by (simp_all add: d'_def sh_return_def sh_ok_def)
  qed
  have front: "9 * q \<le> beg \<Longrightarrow> q = 0" "beg < 9 * q \<Longrightarrow> beg < 9"
    using s be q by (simp_all add: sh_ok_def)
  have i: "iw d' = q"
  proof (cases "9 * q \<le> beg")
    case True
    then show ?thesis using front(1) by (simp add: iw_def d'(3) ROUND_UP_def)
  next
    case False
    then have "(9 * q - beg + 8) div 9 = q" using front(2) by (intro div_nat_eqI) simp_all
    then show ?thesis unfolding iw_def d'(3) nth_word by simp
  qed
  have f: "fw d' = (e - 9 * q + 8) div 9" unfolding fw_def d'(4) nth_word by simp
  define k where "k = iw d' + fw d'"
  have up: "e - 9 * q \<le> 9 * fw d'" unfolding f by linarith
  have k: "k \<le> n" "e \<le> 9 * k" using p q(2) up unfolding k_def i by (simp_all add: f) linarith+
  have pl: "placed (d_buf d') k beg e m" using placed_less [OF be(3) k] by (simp add: d'(1))
  note v = placed_value [OF pl [unfolded k_def]]
  note pk = pl [unfolded placed_def]
  have st: "dec_struct d'" using pk d'(3,4) by (cases "k = 0") (auto simp add: dec_struct_def k_def)
  have pos: "0 < d_intg d' + d_frac d'" using pk d'(3,4) front by auto
  have mag: "dmag d' < 10 ^ (nat (d_intg d') + 9 * fw d')"
  proof -
    have "dmag d' < 10 ^ (e - beg) * 10 ^ (9 * k - e)" unfolding v(1) k_def [symmetric] using pk by simp
    also have "\<dots> = 10 ^ (9 * k - beg)" using pk k by (intro pow_split [symmetric]) simp
    also have "\<dots> \<le> 10 ^ (nat (d_intg d') + 9 * fw d')" unfolding d'(3) using k_def i by (intro power_increasing) simp_all
    finally show ?thesis .
  qed
  have dv: "10 ^ (9 * fw d' - nat (d_frac d')) dvd dmag d'"
    unfolding v(1) using k unfolding k_def i d'(4) by (intro dvd_mult le_imp_power_dvd) simp
  have "0 < dmag d'" unfolding v(1) using pk by simp
  then have "dec_ok d'" using st pos mag dv sg d'(2) by (simp add: dec_ok_def)
  moreover have "sh_return s = (E_DEC_OK, d')" using s by (simp add: d'_def sh_return_def sh_ok_def)
  moreover have "9 * int q - int e = c" using s be q by (simp add: sh_ok_def)
  ultimately show ?thesis using v(2) i d'(2) by auto
qed

lemma sh_okE:
  assumes "sh_ok d m c n s"
  obtains beg last' b where "sh_dec s = d\<lparr>d_buf := b\<rparr>" "length b = length (d_buf d)"
    "sh_beg s = int beg" "sh_end s = int last'" "placed b n beg last' m"
    "sh_int s = max 0 (sh_point s - int beg)" "sh_frac s = max 0 (int last' - sh_point s)"
    "ROUND_UP (sh_int s) + ROUND_UP (sh_frac s) \<le> d_len d" "sh_err s = E_DEC_OK" "sh_point s - int last' = c"
  using assms unfolding sh_ok_def by (metis (no_types))

lemma sh_okI:
  assumes "sh_dec s = d\<lparr>d_buf := b\<rparr>" "length b = length (d_buf d)"
    "sh_beg s = int beg" "sh_end s = int last'" "placed b n beg last' m"
    "sh_int s = max 0 (sh_point s - int beg)" "sh_frac s = max 0 (int last' - sh_point s)"
    "ROUND_UP (sh_int s) + ROUND_UP (sh_frac s) \<le> d_len d" "sh_err s = E_DEC_OK" "sh_point s - int last' = c"
  shows "sh_ok d m c n s"
  using assms unfolding sh_ok_def by auto

text \<open>Without room in front, there is room behind.\<close>

lemma room_behind:
  assumes "ROUND_UP (max 0 (9 * K + l - beg)) + ROUND_UP (max 0 (e - (9 * K + l))) \<le> n" "beg < l" "0 \<le> beg" "l < 9"
  shows "e + 9 - l \<le> 9 * n"
proof -
  have f: "e - (9 * K + l) \<le> 9 * ROUND_UP (max 0 (e - (9 * K + l)))" "0 \<le> ROUND_UP (max 0 (e - (9 * K + l)))"
    using ROUND_UP_le [of "max 0 (e - (9 * K + l))"] ROUND_UP_nonneg [of "max 0 (e - (9 * K + l))"] by simp_all
  show ?thesis
  proof (cases "0 \<le> K")
    case True
    then have "9 * K < 9 * ROUND_UP (max 0 (9 * K + l - beg))"
      using ROUND_UP_le [of "max 0 (9 * K + l - beg)"] assms(2) by simp
    then have "K + 1 \<le> ROUND_UP (max 0 (9 * K + l - beg))" by simp
    then show ?thesis using f assms by linarith
  next
    case False
    then show ?thesis using f assms ROUND_UP_nonneg [of "max 0 (9 * K + l - beg)"] by linarith
  qed
qed

lemma mini_shifts:
  assumes "(shift :: int) smod 9 \<noteq> 0"
  shows "shift mod 9 \<noteq> 0" "0 < shift \<Longrightarrow> shift smod 9 = shift mod 9"
    "shift < 0 \<Longrightarrow> (- shift) smod 9 = 9 - shift mod 9"
proof -
  show "0 < shift \<Longrightarrow> shift smod 9 = shift mod 9" by (simp add: smod_nonneg)
  have "shift smod 9 = - ((- shift) mod 9)" if "shift < 0"
    using that by (simp add: signed_modulo_int_def sgn_if)
  then show z: "shift mod 9 \<noteq> 0" using assms by (cases "shift < 0") (auto simp add: smod_nonneg zmod_zminus1_eq_if)
  assume "shift < 0"
  then have "(- shift) smod 9 = (- shift) mod 9" by (intro smod_nonneg) simp_all
  then show "(- shift) smod 9 = 9 - shift mod 9" unfolding zmod_zminus1_eq_if using z by simp
qed

text \<open>One of the two mini shifts: the digits move by \<open>\<delta>\<close>.\<close>

lemma mini_shift_ok:
  assumes pl: "placed b n beg e m" and l: "0 < l" "l < 9"
    and L: "left \<Longrightarrow> l \<le> beg" "\<not> left \<Longrightarrow> e + 9 - l \<le> 9 * length b"
    and \<delta>: "\<delta> = (if left then - int l else 9 - int l)"
  shows "\<exists>b' n' beg' e'. (if left then bindE (do_mini_left_shift (d\<lparr>d_buf := b\<rparr>) (int l) (int beg) (int e)) (\<lambda>d. Inr (d, - int l))
      else bindE (do_mini_right_shift (d\<lparr>d_buf := b\<rparr>) (9 - int l) (int beg) (int e)) (\<lambda>d. Inr (d, 9 - int l))) =
        Inr (d\<lparr>d_buf := b'\<rparr>, \<delta>) \<and> length b' = length b \<and> n \<le> n' \<and> placed b' n' beg' e' m \<and>
      int beg' = int beg + \<delta> \<and> int e' = int e + \<delta>"
proof (cases left)
  case True
  have "placed (d_buf (d\<lparr>d_buf := b\<rparr>)) n beg e m" using pl by simp
  from placed_left [OF this l L(1) [OF True]] obtain b' where
    "do_mini_left_shift (d\<lparr>d_buf := b\<rparr>) (int l) (int beg) (int e) = Inr (d\<lparr>d_buf := b'\<rparr>)"
    "length b' = length b" "placed b' n (beg - l) (e - l) m" by auto
  then show ?thesis using True L(1) pl
    by (intro exI [of _ b'] exI [of _ n] exI [of _ "beg - l"] exI [of _ "e - l"]) (simp add: \<delta> of_nat_diff placed_def)
next
  case False
  have "placed (d_buf (d\<lparr>d_buf := b\<rparr>)) n beg e m" "e + 9 - l \<le> 9 * length (d_buf (d\<lparr>d_buf := b\<rparr>))" using pl L(2) False by simp_all
  from placed_right [OF this(1) l this(2)] obtain b' n' where
    "do_mini_right_shift (d\<lparr>d_buf := b\<rparr>) (9 - int l) (int beg) (int e) = Inr (d\<lparr>d_buf := b'\<rparr>)"
    "length b' = length b" "n \<le> n'" "placed b' n' (beg + 9 - l) (e + 9 - l) m" by auto
  then show ?thesis using False l(2)
    by (intro exI [of _ b'] exI [of _ n'] exI [of _ "beg + 9 - l"] exI [of _ "e + 9 - l"]) (simp add: \<delta> of_nat_diff)
qed

lemma shift_align_ok:
  assumes s: "sh_ok d m c n s" and pt: "sh_point s = 9 * int i + sh_shift s" and len: "d_len d \<le> int (length (d_buf d))"
  shows "\<exists>s' n'. sh_ok d m c n' s' \<and> n \<le> n' \<and> 9 dvd sh_point s' \<and>
    (shift_align s = Inr (Inr s') \<or>
     shift_align s = Inr (Inl (sh_return s')) \<and> sh_point s' = 9 * int i \<and> sh_point s' - sh_int s' < 9)"
proof (cases "sh_shift s smod 9 = 0")
  case True
  have "9 dvd sh_shift s"
    using True by (cases "sh_shift s < 0") (simp_all add: signed_modulo_int_def sgn_if dvd_eq_mod_eq_0 zmod_zminus1_eq_if split: if_splits)
  then show ?thesis using s True pt by (intro exI [of _ s] exI [of _ n]) (simp add: shift_align_def Let_def)
next
  case False
  note ms = mini_shifts [OF False]
  obtain beg e b where o: "sh_dec s = d\<lparr>d_buf := b\<rparr>" "length b = length (d_buf d)"
    "sh_beg s = int beg" "sh_end s = int e" "placed b n beg e m"
    "sh_int s = max 0 (sh_point s - int beg)" "sh_frac s = max 0 (int e - sh_point s)"
    "ROUND_UP (sh_int s) + ROUND_UP (sh_frac s) \<le> d_len d" "sh_err s = E_DEC_OK" "sh_point s - int e = c"
    using sh_okE [OF s] by metis
  have be: "beg < e" using o(5) by (simp add: placed_def)
  define l where "l = nat (sh_shift s mod 9)"
  have l: "sh_shift s mod 9 = int l" "0 < l" "l < 9" using ms(1) by (simp_all add: l_def)
  define q where "q = int i + sh_shift s div 9"
  have sq: "sh_shift s = 9 * (q - int i) + int l" using mult_div_mod_eq [of 9 "sh_shift s"] unfolding l(1) by (simp add: q_def)
  have pq: "sh_point s = 9 * q + int l" using pt sq by simp
  define left where "left = (if sh_shift s > 0 then int l \<le> int beg else \<not> d_len d * 9 - int e \<ge> 9 - int l)"
  have room: "int beg < int l \<Longrightarrow> int e + 9 - int l \<le> 9 * d_len d"
    using room_behind [of q "int l" "int beg" "int e" "d_len d"] o(6-8) l(3) unfolding pq by simp
  have L: "left \<Longrightarrow> l \<le> beg" "\<not> left \<Longrightarrow> e + 9 - l \<le> 9 * length b"
    using room len o(2) l(3) by (auto simp add: left_def split: if_splits intro: leI)
  have tuple: "(if sh_shift s > 0 then let l = sh_shift s smod 9 in (l, 9 - l, l \<le> sh_beg s)
      else let r = (- sh_shift s) smod 9 in (9 - r, r, \<not> d_len (sh_dec s) * 9 - sh_end s \<ge> r)) = (int l, 9 - int l, left)"
  proof (cases "sh_shift s > 0")
    case True
    then show ?thesis using ms(2) l(1) o(3) by (simp add: left_def Let_def)
  next
    case F: False
    then have "sh_shift s < 0" using False by (cases "sh_shift s = 0") simp_all
    then show ?thesis using ms(3) l(1) o(1,4) F by (simp add: left_def Let_def)
  qed
  define \<delta> where "\<delta> = (if left then - int l else 9 - int l)"
  from mini_shift_ok [OF o(5) l(2,3) L \<delta>_def] obtain b' n' beg' e' where r: "(if left then bindE (do_mini_left_shift (d\<lparr>d_buf := b\<rparr>) (int l) (int beg) (int e)) (\<lambda>d. Inr (d, - int l))
      else bindE (do_mini_right_shift (d\<lparr>d_buf := b\<rparr>) (9 - int l) (int beg) (int e)) (\<lambda>d. Inr (d, 9 - int l))) =
        Inr (d\<lparr>d_buf := b'\<rparr>, \<delta>)" "length b' = length b" "n \<le> n'" "placed b' n' beg' e' m"
      "int beg' = int beg + \<delta>" "int e' = int e + \<delta>" by blast
  define s1 where "s1 = s\<lparr>sh_dec := d\<lparr>d_buf := b'\<rparr>, sh_point := sh_point s + \<delta>, sh_shift := sh_shift s + \<delta>\<rparr>"
  define s2 where "s2 = s1\<lparr>sh_beg := int beg', sh_end := int e'\<rparr>"
  have run: "shift_align s = (if sh_shift s + \<delta> = 0 \<and> sh_point s + \<delta> - sh_int s < 9 then Inr (Inl (sh_return s1)) else Inr (Inr s2))"
    unfolding shift_align_def Let_def if_P [OF False] using tuple r(1) o(1,3,4) r(5,6)
    by (simp only: Let_def prod.case bindE_simps if_P [OF False]) (simp add: s1_def s2_def)
  have ok: "sh_ok d m c n' s2"
    by (rule sh_okI [where b = b' and beg = beg' and last' = e']) (use o r in \<open>simp_all add: s1_def s2_def\<close>)
  have "9 dvd sh_point s2" unfolding s2_def s1_def using pq by (simp add: \<delta>_def)
  moreover have "sh_return s2 = sh_return s1" by (simp add: s2_def sh_return_def)
  moreover have "sh_shift s + \<delta> = 0 \<Longrightarrow> sh_point s2 = 9 * int i" using pt by (simp add: s2_def s1_def)
  moreover have "sh_int s2 = sh_int s" "sh_point s2 = sh_point s + \<delta>" by (simp_all add: s2_def s1_def)
  ultimately show ?thesis using ok r(3) run by (intro exI [of _ s2] exI [of _ n']) auto
qed

lemma nonneg_words:
  assumes "9 dvd x" "0 \<le> (x :: int)"
  obtains q where "x = 9 * int q"
  using assms by (metis dvd_def zero_le_imp_eq_int zero_le_mult_iff zero_less_numeral not_less)

text \<open>The move leaves the point at a word and the first digit before it, if there is one, in the first word.\<close>

lemma shift_move_ok:
  assumes s: "sh_ok d m c n s" and pt: "9 dvd sh_point s" and len: "d_len d \<le> int (length (d_buf d))"
  shows "\<exists>s' n' q. shift_move s = Inr s' \<and> sh_ok d m c n' s' \<and> sh_point s' = 9 * int q \<and> sh_point s' - sh_int s' < 9"
proof -
  obtain beg e b where o: "sh_dec s = d\<lparr>d_buf := b\<rparr>" "length b = length (d_buf d)"
    "sh_beg s = int beg" "sh_end s = int e" "placed b n beg e m"
    "sh_int s = max 0 (sh_point s - int beg)" "sh_frac s = max 0 (int e - sh_point s)"
    "ROUND_UP (sh_int s) + ROUND_UP (sh_frac s) \<le> d_len d" "sh_err s = E_DEC_OK" "sh_point s - int e = c"
    using sh_okE [OF s] by metis
  define nf where "nf = sh_point s - sh_int s"
  have nf: "nf = min (sh_point s) (int beg)" by (simp add: nf_def o(6) min_def max_def)
  define f g where "f = beg div 9" and "g = (e + 8) div 9"
  have idx: "ROUND_UP (int beg + 1) - 1 = int f" "ROUND_UP (int e) - 1 = int g - 1" "int g - 1 + 1 = int g"
    unfolding nth_word f_def g_def by simp_all
  note step = shift_move_def [of s, unfolded Let_def, folded nf_def, unfolded o(1,3,4) idx]
  consider (left) "nf \<ge> 9" | (right) "nf < 0" | (stay) "0 \<le> nf" "nf < 9" by linarith
  then show ?thesis
  proof cases
    case left
    define t where "t = nat nf div 9"
    have t: "0 < t" "t \<le> beg div 9" "nf sdiv 9 = int t" "nf = 9 * int t + nf mod 9"
    proof -
      have n: "nf = int (nat nf)" "9 \<le> nat nf" using left by simp_all
      have "nf \<le> int beg" using nf by simp
      then have b: "nat nf \<le> beg" by simp
      then show "0 < t" "t \<le> beg div 9" using b n(2) by (simp_all add: t_def div_le_mono div_greater_zero_iff)
      show "nf sdiv 9 = int t" unfolding t_def by (subst n(1), rule sdiv_int_numeral)
      show "nf = 9 * int t + nf mod 9" unfolding t_def using left by (simp add: zdiv_int)
    qed
    from placed_move_left [OF o(5) t(1,2)] obtain b1 v b2 where mv: "move_left b (int f - int t) (int g - 1 - int t) (int t) = Inr (b1, v)"
      "zero_words b1 v (int g) = Inr b2" "length b2 = length b" "placed b2 n (beg - 9 * t) (e - 9 * t) m"
      unfolding f_def g_def by blast
    define s' where "s' = s\<lparr>sh_dec := d\<lparr>d_buf := b2\<rparr>, sh_beg := int beg - 9 * int t, sh_end := int e - 9 * int t,
        sh_point := sh_point s - 9 * int t\<rparr>"
    have "shift_move s = Inr s'"
      unfolding step s'_def using left t(3) mv(1,2) by (simp add: algebra_simps)
    moreover have tb: "9 * t \<le> beg" using t(2) by linarith
    have "9 * t \<le> e" using tb o(5) by (simp add: placed_def)
    then have "sh_ok d m c n s'"
      by (intro sh_okI [where b = b2 and beg = "beg - 9 * t" and last' = "e - 9 * t"])
        (use o mv tb in \<open>simp_all add: s'_def of_nat_diff\<close>)
    moreover have "0 \<le> sh_point s'" using t(4) nf left by (simp add: s'_def)
    moreover have "9 dvd sh_point s'" using pt by (simp add: s'_def)
    moreover have "sh_point s' - sh_int s' < 9" using t(4) pos_mod_bound [of 9 nf] by (simp add: s'_def nf_def)
    ultimately show ?thesis by (metis nonneg_words)
  next
    case right
    then have pn: "sh_point s = nf" "sh_int s = 0" using nf o(6) by simp_all
    obtain t where t: "nf = - 9 * int t" "0 < t"
    proof -
      obtain k where "sh_point s = 9 * k" using pt by blast
      then have "nf = - 9 * int (nat (- k))" "0 < nat (- k)" using pn right by simp_all
      then show thesis by (rule that)
    qed
    have d: "(1 - nf) sdiv 9 = int t"
    proof -
      have "1 - nf = int (1 + 9 * t)" using t(1) by simp
      moreover have "(1 + 9 * t) div 9 = t" by simp
      ultimately show ?thesis by (simp only: sdiv_int_numeral)
    qed
    have "sh_frac s = int (e + 9 * t)" using o(7) pn t by simp
    then have "ROUND_UP (sh_frac s) = int (g + t)" unfolding g_def by (simp only: nth_word)
    then have "g + t \<le> length b" using o(2,8) pn(2) len by (simp add: ROUND_UP_def)
    from placed_move_right [OF o(5) t(2) this [unfolded g_def]] obtain b1 v b2 where
      mv: "move_right b (int g - 1 + int t) (int f + int t) (int t) = Inr (b1, v)"
      "zero_words b1 (int f) (v + 1) = Inr b2" "length b2 = length b" "placed b2 (g + t) (beg + 9 * t) (e + 9 * t) m"
      unfolding f_def g_def by blast
    define s' where "s' = s\<lparr>sh_dec := d\<lparr>d_buf := b2\<rparr>, sh_beg := int beg + 9 * int t, sh_end := int e + 9 * int t,
        sh_point := sh_point s + 9 * int t\<rparr>"
    have "shift_move s = Inr s'"
      unfolding step s'_def using right d mv(1,2) by (simp add: algebra_simps)
    moreover have "sh_ok d m c (g + t) s'"
      by (rule sh_okI [where b = b2 and beg = "beg + 9 * t" and last' = "e + 9 * t"])
        (use o mv in \<open>simp_all add: s'_def\<close>)
    moreover have "sh_point s' = 9 * int 0" "sh_point s' - sh_int s' < 9" using pn t by (simp_all add: s'_def)
    ultimately show ?thesis by blast
  next
    case stay
    have "shift_move s = Inr s" unfolding shift_move_def Let_def nf_def [symmetric] using stay by simp
    moreover have "0 \<le> sh_point s" using stay nf by simp
    ultimately show ?thesis using s stay pt unfolding nf_def by (metis nonneg_words)
  qed
qed

text \<open>The steps behind the alignment.\<close>

lemma shift_finish_ok:
  assumes s1: "sh_ok d m c n1 s1" "9 dvd sh_point s1" and len: "d_len d \<le> int (length (d_buf d))"
  shows "\<exists>s' n' q. bindE (shift_move s1) (\<lambda>s. bindE (shift_fill s) (\<lambda>dec. Inr (sh_return (s\<lparr>sh_dec := dec\<rparr>)))) =
      Inr (sh_return s') \<and> sh_ok d m c n' s' \<and> sh_point s' = 9 * int q \<and> q \<le> n' \<and> sh_point s' - sh_int s' < 9"
proof -
  obtain s2 n2 q where s2: "shift_move s1 = Inr s2" "sh_ok d m c n2 s2" "sh_point s2 = 9 * int q" "sh_point s2 - sh_int s2 < 9"
    using shift_move_ok [OF s1 len] by blast
  obtain beg2 e2 b2 where o2: "sh_dec s2 = d\<lparr>d_buf := b2\<rparr>" "length b2 = length (d_buf d)"
    "sh_beg s2 = int beg2" "sh_end s2 = int e2" "placed b2 n2 beg2 e2 m"
    "sh_int s2 = max 0 (sh_point s2 - int beg2)" "sh_frac s2 = max 0 (int e2 - sh_point s2)"
    "ROUND_UP (sh_int s2) + ROUND_UP (sh_frac s2) \<le> d_len d" "sh_err s2 = E_DEC_OK" "sh_point s2 - int e2 = c"
    using sh_okE [OF s2(2)] by metis
  have q: "q \<le> length b2"
  proof -
    have "9 * int q - 9 < sh_int s2" using s2(3,4) by simp
    moreover have "0 \<le> sh_int s2" using o2(6) by simp
    ultimately have "9 * int q - 9 < 9 * ROUND_UP (sh_int s2)" using ROUND_UP_le [of "sh_int s2"] by linarith
    moreover have "0 \<le> ROUND_UP (sh_frac s2)" using ROUND_UP_nonneg o2(7) by simp
    ultimately show ?thesis using o2(2,8) len by linarith
  qed
  have "placed (d_buf (d\<lparr>d_buf := b2\<rparr>)) n2 beg2 e2 m" "q \<le> length (d_buf (d\<lparr>d_buf := b2\<rparr>))" using o2(5) q by simp_all
  from placed_fill [OF this o2(1,3,4) s2(3)] obtain b3 n3 where
    f: "shift_fill s2 = Inr (d\<lparr>d_buf := b3\<rparr>)" "length b3 = length b2" "q \<le> n3" "placed b3 n3 beg2 e2 m" by auto
  have "sh_ok d m c n3 (s2\<lparr>sh_dec := d\<lparr>d_buf := b3\<rparr>\<rparr>)"
    by (rule sh_okI [where b = b3 and beg = beg2 and last' = e2]) (use o2 f in simp_all)
  then show ?thesis using s2 f
    by (intro exI [of _ "s2\<lparr>sh_dec := d\<lparr>d_buf := b3\<rparr>\<rparr>"] exI [of _ n3] exI [of _ q]) simp
qed

subsection \<open>decimal_shift\<close>

text \<open>The digits before and behind the new point fit into the words there are.\<close>

definition shift_room :: "decimal_t \<Rightarrow> int \<Rightarrow> bool" where
  "shift_room d shift \<longleftrightarrow> d_len d \<le> int (length (d_buf d)) \<and>
     (\<forall>beg last'. digits_bounds d = Inr (beg, last') \<longrightarrow> beg \<noteq> last' \<longrightarrow>
        ROUND_UP (max 0 (ROUND_UP (d_intg d) * DIG_PER_DEC1 + shift - beg)) +
        ROUND_UP (max 0 (last' - (ROUND_UP (d_intg d) * DIG_PER_DEC1 + shift))) \<le> d_len d)"

text \<open>There is room when there is for all the digits of the format, leading and trailing zeros included.\<close>

lemma ROUND_UP_le_mono: "x \<le> y \<Longrightarrow> ROUND_UP (max 0 x) \<le> ROUND_UP (max 0 y)"
  by (rule ROUND_UP_mono) simp_all

lemma shift_room_digits:
  assumes d: "dec_ok d" and len: "d_len d \<le> int (length (d_buf d))"
    and fits: "ROUND_UP (max 0 (d_intg d + shift)) + ROUND_UP (max 0 (d_frac d - shift)) \<le> d_len d"
  shows "shift_room d shift"
proof (cases "dmag d = 0")
  case True
  then show ?thesis using digits_bounds_words(1) [OF d refl] len by (simp add: shift_room_def)
next
  case False
  obtain beg e where b: "digits_bounds d = Inr (int beg, int e)"
    "int (9 * iw d) \<le> int beg + d_intg d" "int e \<le> int (9 * iw d) + d_frac d"
    using digits_bounds_words(2) [OF d refl False] by auto
  note w = dec_struct_words [OF dec_okD(1) [OF d]]
  have "ROUND_UP (d_intg d) * 9 + shift - int beg \<le> d_intg d + shift"
    "int e - (ROUND_UP (d_intg d) * 9 + shift) \<le> d_frac d - shift" using b(2,3) unfolding w(1) by simp_all
  from ROUND_UP_le_mono [OF this(1)] ROUND_UP_le_mono [OF this(2)] show ?thesis
    using len fits unfolding shift_room_def b(1) by auto
qed

text \<open>Without room before the point the number is not touched.\<close>

lemma decimal_shift_overflow:
  assumes "digits_bounds d = Inr (beg, last')" "beg \<noteq> last'" "shift \<noteq> 0"
    and "d_len d < ROUND_UP (max 0 (ROUND_UP (d_intg d) * DIG_PER_DEC1 + shift - beg))"
  shows "decimal_shift d shift = Inr (E_DEC_OVERFLOW, d)"
proof -
  have "0 \<le> ROUND_UP (max 0 x)" for x by (simp add: ROUND_UP_nonneg)
  from this [of "last' - (ROUND_UP (d_intg d) * DIG_PER_DEC1 + shift)"] show ?thesis
    using assms by (simp add: decimal_shift_def shift_fit_def Let_def)
qed

text \<open>C23: shifting of exact decimals in place. For a well-formed decimal and any shift whose
  result fits into its words, \<open>decimal_shift\<close> returns \<open>E_DEC_OK\<close> and
  leaves a well-formed decimal whose value is the old one times ten to the shift: shifts
  within a word to either side, moves of whole words in both directions, the filling of the
  gap between the digits and the point, and zero included. The room is what the function
  itself asks for, between the first and the last digit that is not zero.\<close>

theorem decimal_shift_scales:
  assumes d: "dec_ok d" and room: "shift_room d shift"
  shows "\<exists>d'. decimal_shift d shift = Inr (E_DEC_OK, d') \<and> dec_ok d' \<and> dval d' = dval d * 10 powi shift"
proof (cases "shift = 0")
  case True
  then show ?thesis using d by (simp add: decimal_shift_def)
next
  case shift: False
  note o = dec_okD [OF d]
  note w = dec_struct_words [OF o(1)]
  note len = room [unfolded shift_room_def, THEN conjunct1]
  show ?thesis
  proof (cases "dmag d = 0")
    case True
    have "dval d = 0" by (simp add: dval_def True)
    then show ?thesis
      using digits_bounds_words(1) [OF d refl True] make_zero_run [OF w(4)] zero_dec_ok [where t = d and bs = "tl (d_buf d)"] shift
      by (simp add: decimal_shift_def Let_def)
  next
    case False
    obtain beg e m where b: "digits_bounds d = Inr (int beg, int e)" "placed (d_buf d) (iw d + fw d) beg e m"
      using digits_bounds_words(2) [OF d refl False] by auto
    have be: "beg < e" using b(2) by (simp add: placed_def)
    define point where "point = ROUND_UP (d_intg d) * 9 + shift"
    have pt: "point = 9 * int (iw d) + shift" by (simp add: point_def w(1))
    define s where "s = \<lparr>sh_dec = d, sh_beg = int beg, sh_end = int e, sh_point = point, sh_int = max 0 (point - int beg),
      sh_frac = max 0 (int e - point), sh_err = E_DEC_OK, sh_shift = shift\<rparr>"
    define c where "c = point - int e"
    have fits: "ROUND_UP (max 0 (point - int beg)) + ROUND_UP (max 0 (int e - point)) \<le> d_len d"
      using room b(1) be unfolding shift_room_def point_def by simp
    have ok: "sh_ok d m c (iw d + fw d) s"
      by (rule sh_okI [where b = "d_buf d" and beg = beg and last' = e]) (use b(2) fits in \<open>simp_all add: s_def c_def\<close>)
    have fit: "shift_fit (ROUND_UP (d_intg d) * 9) s = Inr (Inr s)"
      using fits by (simp add: shift_fit_def Let_def s_def)
    have start: "decimal_shift d shift =
        bindE (shift_align s) (\<lambda>r. case r of Inl ret \<Rightarrow> Inr ret | Inr s \<Rightarrow>
        bindE (shift_move s) (\<lambda>s. bindE (shift_fill s) (\<lambda>dec. Inr (sh_return (s\<lparr>sh_dec := dec\<rparr>)))))"
      unfolding decimal_shift_def Let_def if_not_P [OF shift] b(1) bindE_simps prod.case
      using fit be by (simp add: s_def point_def)
    obtain s1 n1 where s1: "sh_ok d m c n1 s1" "iw d + fw d \<le> n1" "9 dvd sh_point s1"
      "shift_align s = Inr (Inr s1) \<or>
       shift_align s = Inr (Inl (sh_return s1)) \<and> sh_point s1 = 9 * int (iw d) \<and> sh_point s1 - sh_int s1 < 9"
      using shift_align_ok [OF ok _ len, of "iw d"] pt by (auto simp add: s_def)
    have "\<exists>s' n' q. decimal_shift d shift = Inr (sh_return s') \<and> sh_ok d m c n' s' \<and> sh_point s' = 9 * int q \<and> q \<le> n' \<and>
      sh_point s' - sh_int s' < 9"
      using s1(4)
    proof
      assume "shift_align s = Inr (Inl (sh_return s1)) \<and> sh_point s1 = 9 * int (iw d) \<and> sh_point s1 - sh_int s1 < 9"
      then show ?thesis using s1(1,2) unfolding start by (intro exI [of _ s1] exI [of _ n1] exI [of _ "iw d"]) simp
    next
      assume al: "shift_align s = Inr (Inr s1)"
      show ?thesis unfolding start al bindE_simps sum.case by (rule shift_finish_ok [OF s1(1,3) len])
    qed
    then obtain d' where d': "decimal_shift d shift = Inr (E_DEC_OK, d')" "dec_ok d'"
      "dval d' = (if d_sign d = 0 then 1 else - 1) * of_int m * 10 powi c"
      using sh_ok_return [OF _ _ _ _ o(5)] by metis
    have "c = (9 * int (iw d) - int e) + shift" by (simp add: c_def pt)
    then have "10 powi c = (10 :: rat) powi (9 * int (iw d) - int e) * 10 powi shift" by (simp add: power_int_add)
    then have "dval d' = dval d * 10 powi shift" unfolding d'(3) placed_value(2) [OF b(2)] by simp
    then show ?thesis using d' by blast
  qed
qed

text \<open>- 2.75 times ten to the eleven.\<close>

theorem decimal_shift_scales_witness:
  "\<exists>d'. decimal_shift dec_b 11 = Inr (E_DEC_OK, d') \<and> dec_ok d' \<and> dval d' = - 275000000000"
proof -
  have "shift_room dec_b 11"
    by (rule shift_room_digits [OF dec_ok_b]) (simp_all add: dec_b_def ROUND_UP_eq)
  from decimal_shift_scales [OF dec_ok_b this] show ?thesis by (simp add: dval_b)
qed

text \<open>Without room before the point there is an overflow; without room behind it the number is rounded.\<close>

lemma decimal_shift_example:
  "decimal_shift dec_b 18 = Inr (E_DEC_OVERFLOW, dec_b)"
  "map_sum id fst (decimal_shift dec_b (- 17)) = Inr E_DEC_TRUNCATED"
  "map_sum id (\<lambda>r. (d_intg (snd r), d_frac (snd r), d_buf (snd r))) (decimal_shift dec_b (- 17)) = Inr (0, 18, [0, 28])"
  by code_simp+

end
