(* ===== verification/LogEvent.thy ===== *)
theory LogEvent
  imports Cells
begin

text \<open>
  The event parsers of \<open>src/src/logevent.c\<close>: the common header, the format description
  event, table maps, rotations and the row images of write, update and delete events, with
  the structures of \<open>src/src/logevent.h\<close>. Offsets into an event are 32-bit words where the
  code keeps them in \<open>uint32_t cur\<close>. A \<open>char[n]\<close> that holds a C string is the string
  without its NUL; a pointer that may be NULL is an option.
\<close>

subsection \<open>Event types and structures (logevent.h)\<close>

abbreviation BL_ROTATE_EVENT :: u8 where "BL_ROTATE_EVENT \<equiv> 4"
abbreviation BL_FORMAT_DESCRIPTION_EVENT :: u8 where "BL_FORMAT_DESCRIPTION_EVENT \<equiv> 15"
abbreviation BL_TABLE_MAP_EVENT :: u8 where "BL_TABLE_MAP_EVENT \<equiv> 19"
abbreviation BL_WRITE_ROWS_EVENT :: u8 where "BL_WRITE_ROWS_EVENT \<equiv> 23"
abbreviation BL_UPDATE_ROWS_EVENT :: u8 where "BL_UPDATE_ROWS_EVENT \<equiv> 24"
abbreviation BL_DELETE_ROWS_EVENT :: u8 where "BL_DELETE_ROWS_EVENT \<equiv> 25"

record Header =
  h_ts :: u32
  h_type :: u8
  h_serverid :: u32
  h_evlen :: u32
  h_nextpos :: u32
  h_flags :: u16
  h_extralen :: u8
  h_extra :: nat

record TableEv =
  t_ts :: u32
  t_serverid :: u32
  t_nextpos :: u32
  t_evlen :: u32
  t_dbname :: "u8 list"
  t_tblname :: "u8 list"
  t_nfields :: u32
  t_tableid :: u64
  t_types :: "u8 list option"
  t_canbenull :: "u8 list option"
  t_meta :: "u16 list option"

record Binlog =
  bl_blver :: u32
  bl_hdrlen :: u8
  bl_masterid :: u32
  bl_server :: "u8 list"
  bl_posthdr :: "u8 list"
  bl_table :: TableEv

record RowsEvent =
  re_type :: u8
  re_ts :: u32
  re_evlen :: u32
  re_nextpos :: u32
  re_serverid :: u32
  re_tableid :: u64
  re_nfields :: u32
  re_nrows :: nat
  re_rows :: "Cell list list"
  re_rowsold :: "Cell list list option"

record RotateEvent =
  ro_position :: u64
  ro_fileName :: "u8 list"

definition getEventType :: "u8 list \<Rightarrow> u8 res" where
  "getEventType ev = getUint8 ev 4"

subsection \<open>Header and format description event\<close>

definition parseHeader :: "Binlog \<Rightarrow> u8 list \<Rightarrow> Header res" where
  "parseHeader bl ev =
     bindE (getUint32 ev 0) (\<lambda>ts.
     bindE (getUint8 ev 4) (\<lambda>type.
     bindE (getUint32 ev 5) (\<lambda>serverid.
     bindE (getUint32 ev 9) (\<lambda>evlen.
     bindE (getUint32 ev 13) (\<lambda>nextpos.
     bindE (getUint16 ev 17) (\<lambda>flags.
       Inr \<lparr>h_ts = ts, h_type = type, h_serverid = serverid, h_evlen = evlen,
            h_nextpos = nextpos, h_flags = flags, h_extralen = bl_hdrlen bl - 19,
            h_extra = 19\<rparr>))))))"

text \<open>
  \<open>sizeof(struct rawfde)\<close> is 76; \<open>evlen - 76\<close> is computed in 64 unsigned bits, so the
  assertion also rejects an event shorter than the fixed part.
\<close>

definition parseFDE :: "Binlog \<Rightarrow> u8 list \<Rightarrow> Binlog res" where
  "parseFDE bl ev =
     bindE (getUint16 ev 19) (\<lambda>blver.
     bindE (getUint8 ev 75) (\<lambda>hdrlen.
     bindE (getUint32 ev 5) (\<lambda>masterid.
     bindE (peek ev 21 50) (\<lambda>server.
     bindE (getUint32 ev 9) (\<lambda>evlen.
     bindE (checkE AssertFailed ((scast evlen :: u64) - 76 \<le> 29)) (\<lambda>_.
     bindE (peek ev 76 29) (\<lambda>posthdr.
       Inr (bl\<lparr>bl_blver := ucast blver, bl_hdrlen := hdrlen, bl_masterid := masterid,
               bl_server := server, bl_posthdr := posthdr\<rparr>))))))))"

subsection \<open>Table map event\<close>

fun decode_meta :: "u8 list \<Rightarrow> nat \<Rightarrow> u8 list \<Rightarrow> nat \<Rightarrow> u16 list res" where
  "decode_meta ev metadata [] index = Inr []"
| "decode_meta ev metadata (type # types) index =
     bindE
       (if field_type_of type \<in>
            {Some BL_MYSQL_TYPE_TINY_BLOB, Some BL_MYSQL_TYPE_BLOB,
             Some BL_MYSQL_TYPE_MEDIUM_BLOB, Some BL_MYSQL_TYPE_LONG_BLOB,
             Some BL_MYSQL_TYPE_DOUBLE, Some BL_MYSQL_TYPE_FLOAT, Some BL_MYSQL_TYPE_GEOMETRY}
        then bindE (getUint8 ev (metadata + index)) (\<lambda>a. Inr (ucast a, 1))
        else if field_type_of type \<in>
            {Some BL_MYSQL_TYPE_SET, Some BL_MYSQL_TYPE_ENUM, Some BL_MYSQL_TYPE_STRING,
             Some BL_MYSQL_TYPE_NEWDECIMAL}
        then bindE (getUint8 ev (metadata + index)) (\<lambda>a.
             bindE (getUint8 ev (metadata + index + 1)) (\<lambda>b.
               Inr (push_bit 8 (ucast a) + ucast b, 2)))
        else if field_type_of type = Some BL_MYSQL_TYPE_BIT
        then bindE (getUint8 ev (metadata + index)) (\<lambda>a.
             bindE (getUint8 ev (metadata + index + 1)) (\<lambda>b.
               Inr (ucast a + push_bit 8 (ucast b), 2)))
        else if field_type_of type = Some BL_MYSQL_TYPE_VARCHAR
        then bindE (getUint16 ev (metadata + index)) (\<lambda>v. Inr (v, 2))
        else Inr (0, 0))
       (\<lambda>(m, w). bindE (decode_meta ev metadata types (index + w)) (\<lambda>ms. Inr (m # ms)))"

definition decodeMetadata :: "u8 list \<Rightarrow> u8 list \<Rightarrow> u32 \<Rightarrow> nat \<Rightarrow> u16 list res" where
  "decodeMetadata ev types lenMetadata metadata = decode_meta ev metadata types 0"

text \<open>\<open>strcpy\<close> into a \<open>char[256]\<close>.\<close>

definition strcpy256 :: "u8 list \<Rightarrow> nat \<Rightarrow> u8 list res" where
  "strcpy256 ev off = bindE (cstring_at ev off) (\<lambda>s.
     bindE (checkE BufferOverflow (length s < 256)) (\<lambda>_. Inr s))"

definition tblevFreeTableRes :: "TableEv \<Rightarrow> TableEv" where
  "tblevFreeTableRes t = t\<lparr>t_meta := None, t_types := None, t_canbenull := None\<rparr>"

text \<open>
  \<open>tbl\<close> is \<open>&bl->table\<close>, as in the only call. The freed arrays of the previous table are
  dropped; the code overwrites the dangling pointers before it returns.
\<close>

definition parseTableMapEvent :: "Binlog \<Rightarrow> u8 list \<Rightarrow> Binlog res" where
  "parseTableMapEvent bl ev =
     (let tbl = tblevFreeTableRes (bl_table bl);
          cur = (ucast (bl_hdrlen bl) :: u32);
          rawfix = unat cur; cur = cur + 8; dbname = unat cur
      in bindE (getUint8 ev dbname) (\<lambda>dblen.
         let cur = cur + ucast dblen + 1 + 1; tblname = unat cur in
         bindE (getUint8 ev tblname) (\<lambda>tbllen.
         let cur = cur + ucast tbllen + 1 + 1 in
         bindE (decodeint ev cur) (\<lambda>(n, cur).
         let nfields = (ucast n :: u32) in
         bindE (peek ev (unat cur) (unat nfields)) (\<lambda>types.
         let cur = cur + nfields in
         bindE (decodeint ev cur) (\<lambda>(m, cur).
         let metalen = (ucast m :: u32); meta = unat cur; cur = cur + nfields in
         bindE (peek ev (unat cur) (unat nfields)) (\<lambda>canbenull.
         bindE (getUint32 ev 0) (\<lambda>ts.
         bindE (getUint32 ev 5) (\<lambda>serverid.
         bindE (getUint32 ev 13) (\<lambda>nextpos.
         bindE (getUint32 ev 9) (\<lambda>evlen.
         bindE (strcpy256 ev (dbname + 1)) (\<lambda>db.
         bindE (strcpy256 ev (tblname + 1)) (\<lambda>name.
         bindE (getUint48 ev rawfix) (\<lambda>tableid.
         bindE (decodeMetadata ev types metalen meta) (\<lambda>ms.
           Inr (bl\<lparr>bl_table := tbl\<lparr>t_ts := ts, t_serverid := serverid, t_nextpos := nextpos,
                 t_evlen := evlen, t_dbname := db, t_tblname := name, t_nfields := nfields,
                 t_tableid := tableid, t_types := Some types, t_canbenull := Some canbenull,
                 t_meta := Some ms\<rparr>\<rparr>))))))))))))))))"

subsection \<open>Rotate event\<close>

definition parseRotateEvent :: "Binlog \<Rightarrow> u8 list \<Rightarrow> RotateEvent res" where
  "parseRotateEvent bl ev =
     (let cur = (ucast (bl_hdrlen bl) :: u32)
      in bindE (getUint64 ev (unat cur)) (\<lambda>position.
         let cur = cur + 8 in
         bindE (getUint32 ev 9) (\<lambda>evlen.
         let left = evlen - cur in
         bindE (checkE BufferOverflow (unat left < 256)) (\<lambda>_.
         bindE (peek ev (unat cur) (unat left)) (\<lambda>b.
           Inr \<lparr>ro_position = position, ro_fileName = b @ [0]\<rparr>)))))"

subsection \<open>Rows events\<close>

text \<open>
  One row image: column \<open>i\<close> is decoded when its null bit is clear and its present bit set,
  and is the NULL cell otherwise.
\<close>

fun image_cells :: "TableEv \<Rightarrow> nat \<Rightarrow> nat \<Rightarrow> nat \<Rightarrow> nat \<Rightarrow> EventCursor \<Rightarrow> (Cell list \<times> EventCursor) res"
where
  "image_cells tbl isnull isused i 0 ec = Inr ([], ec)"
| "image_cells tbl isnull isused i (Suc n) ec =
     bindE (isSet (ec_ev ec) isnull i) (\<lambda>nul.
     bindE (if nul then Inr False else isSet (ec_ev ec) isused i) (\<lambda>present.
     bindE (if present then
              bindE (deref (t_types tbl)) (\<lambda>types. bindE (nthE types i) (\<lambda>type.
              bindE (deref (t_meta tbl)) (\<lambda>metas. bindE (nthE metas i) (\<lambda>meta.
                value2Cell ec type (ucast meta)))))
            else Inr (null_cell, ec)) (\<lambda>(c, ec).
     bindE (image_cells tbl isnull isused (Suc i) n ec) (\<lambda>(cs, ec). Inr (c # cs, ec)))))"

text \<open>
  The \<open>while (evcur.cur < hdr.evlen)\<close> loop. \<open>totalrows\<close> is the allocated length of \<open>rows\<close>
  and \<open>rowsold\<close>, an \<open>int\<close> that is doubled when it is used up, and an \<open>IntOverflow\<close> when it would
  pass \<open>INT_MAX\<close>; \<open>rows\<close> holds the rows written so far. \<open>malloc\<close> and \<open>realloc\<close> do not fail in
  the model.
\<close>

fun rows_loop ::
    "nat \<Rightarrow> TableEv \<Rightarrow> nat \<Rightarrow> bool \<Rightarrow> nat \<Rightarrow> nat \<Rightarrow> nat \<Rightarrow> nat \<Rightarrow> nat \<Rightarrow> Cell list list \<Rightarrow>
     Cell list list \<Rightarrow> EventCursor \<Rightarrow> (Cell list list \<times> Cell list list) res"
where
  "rows_loop 0 tbl evlen upd nfields bitlen isused isused_u totalrows rows rowsold ec =
     Inl OutOfFuel"
| "rows_loop (Suc fuel) tbl evlen upd nfields bitlen isused isused_u totalrows rows rowsold ec =
     (if ec_cur ec < evlen then
        let totalrows = (if length rows \<ge> totalrows then totalrows * 2 else totalrows);
            isnull = ec_cur ec
        in bindE (checkE IntOverflow (totalrows \<le> INT_MAX)) (\<lambda>_.
           bindE (advance bitlen ec) (\<lambda>ec.
           bindE (image_cells tbl isnull isused 0 nfields ec) (\<lambda>(cells, ec).
           bindE (checkE BufferOverflow (length rows < totalrows)) (\<lambda>_.
           if upd then
             let isnull = ec_cur ec
             in bindE (advance bitlen ec) (\<lambda>ec.
                bindE (image_cells tbl isnull isused_u 0 nfields ec) (\<lambda>(cellsnew, ec).
                  rows_loop fuel tbl evlen upd nfields bitlen isused isused_u totalrows
                    (rows @ [cellsnew]) (rowsold @ [cells]) ec))
           else rows_loop fuel tbl evlen upd nfields bitlen isused isused_u totalrows
                  (rows @ [cells]) rowsold ec))))
      else Inr (rows, rowsold))"

text \<open>
  \<open>(int) (nfields + 7) / 8\<close>. Offsets only move forward in the model: a negative length, which
  needs \<open>2^31\<close> fields, is \<open>IntOverflow\<close>. A pass over a row moves the cursor by the length of the
  bitmap, so \<open>evlen\<close> passes end the loop; when that length is 0, the row counters end it after
  \<open>2^30\<close> passes at the latest.
\<close>

definition parseRowsEvent :: "Binlog \<Rightarrow> RowsEvent \<Rightarrow> u8 list \<Rightarrow> RowsEvent res" where
  "parseRowsEvent bl re ev =
     bindE (parseHeader bl ev) (\<lambda>hdr.
     let cur = (ucast (bl_hdrlen bl) :: u32) in
     bindE (getUint48 ev (unat cur)) (\<lambda>tableid.
     let cur = cur + 8 in
     bindE (checkE AssertFailed (tableid = t_tableid (bl_table bl))) (\<lambda>_.
     bindE (decodeint ev cur) (\<lambda>(n, cur).
     let nfields = (ucast n :: u32) in
     bindE (checkE AssertFailed (nfields = t_nfields (bl_table bl))) (\<lambda>_.
     let isused = unat cur; bitlen = sint (nfields + 7) sdiv 8 in
     bindE (checkE IntOverflow (0 \<le> bitlen)) (\<lambda>_.
     let cur = cur + of_int bitlen;
         upd = (h_type hdr = BL_UPDATE_ROWS_EVENT);
         isused_u = unat cur;
         cur = (if upd then cur + of_int bitlen else cur)
     in
     bindE (rows_loop (Suc (if nat bitlen = 0 then 2 ^ 30 else unat (h_evlen hdr))) (bl_table bl) (unat (h_evlen hdr)) upd
              (unat nfields) (nat bitlen) isused isused_u 8 [] []
              \<lparr>ec_ev = ev, ec_cur = unat cur\<rparr>) (\<lambda>(rows, rowsold).
       Inr (re\<lparr>re_ts := h_ts hdr, re_type := h_type hdr, re_nextpos := h_nextpos hdr,
                re_serverid := h_serverid hdr, re_tableid := tableid, re_rows := rows,
                re_rowsold := (if upd then Some rowsold else None), re_nrows := length rows,
                re_nfields := nfields\<rparr>))))))))"

text \<open>
  \<open>rowsevFreeRows\<close> reads the address of every cell of the counted rows. Freeing has no other
  effect in the model: cells are values, not addresses.
\<close>

fun free_rows :: "Cell list list \<Rightarrow> nat \<Rightarrow> nat \<Rightarrow> nat \<Rightarrow> unit res" where
  "free_rows rows i 0 nfields = Inr ()"
| "free_rows rows i (Suc n) nfields =
     bindE (nthE rows i) (\<lambda>row.
     if nfields \<le> length row then free_rows rows (Suc i) n nfields else Inl OutOfBounds)"

definition rowsevFreeRows :: "RowsEvent \<Rightarrow> unit res" where
  "rowsevFreeRows re =
     bindE (free_rows (re_rows re) 0 (re_nrows re) (unat (re_nfields re))) (\<lambda>_.
     if re_type re = BL_UPDATE_ROWS_EVENT \<and> re_nrows re > 0 then
       bindE (deref (re_rowsold re)) (\<lambda>old. free_rows old 0 (re_nrows re) (unat (re_nfields re)))
     else Inr ())"

end
