(* ===== verification/DataSource.thy ===== *)
theory DataSource
  imports LogEvent
begin

text \<open>
  The data source of \<open>src/src/datasource.h\<close>: the fields every driver shares, and the driver
  as its four function pointers. The locale \<open>data_source\<close> states what the client of
  \<open>src/src/libbinlog.c\<close> relies on: a source holds a queue of events, \<open>getEvent\<close> lends the
  next one until \<open>freeEvent\<close>, and the fields the client writes do not disturb the queue.
\<close>

text \<open>\<open>ds_drv\<close> is the \<open>driver\<close> union; \<open>logfile\<close> and \<open>errstr\<close> are C strings without the NUL.\<close>

record 'd DataSource =
  ds_url :: "u8 list option"
  ds_logfile :: "u8 list"
  ds_position :: u32
  ds_index :: u32
  ds_serverid :: int
  ds_drv :: 'd
  ds_errstr :: "u8 list"

text \<open>
  The function pointers. \<open>getEvent\<close> returns the block from the event to the end of the
  buffer that holds it, or NULL.
\<close>

record 'd ds_ops =
  op_connect :: "'d DataSource \<Rightarrow> (bool \<times> 'd DataSource) res"
  op_close :: "'d DataSource \<Rightarrow> 'd DataSource res"
  op_getEvent :: "'d DataSource \<Rightarrow> (u8 list option \<times> 'd DataSource) res"
  op_freeEvent :: "'d DataSource \<Rightarrow> 'd DataSource res"

abbreviation BL_ERROR_SIZE :: nat where "BL_ERROR_SIZE \<equiv> 256"
abbreviation BL_EVENT_BUF_SIZE :: nat where "BL_EVENT_BUF_SIZE \<equiv> 4096"

text \<open>What the client may change of a data source: position, index and log file name.\<close>

definition ds_set :: "u32 \<Rightarrow> u32 \<Rightarrow> u8 list \<Rightarrow> 'd DataSource \<Rightarrow> 'd DataSource" where
  "ds_set p i l ds = ds\<lparr>ds_position := p, ds_index := i, ds_logfile := l\<rparr>"

definition ds_view :: "'d DataSource \<Rightarrow> u32 \<times> u32 \<times> u8 list" where
  "ds_view ds = (ds_position ds, ds_index ds, ds_logfile ds)"

lemma ds_set_simps [simp]:
  "ds_position (ds_set p i l ds) = p" "ds_index (ds_set p i l ds) = i"
  "ds_logfile (ds_set p i l ds) = l" "ds_drv (ds_set p i l ds) = ds_drv ds"
  "ds_errstr (ds_set p i l ds) = ds_errstr ds" "ds_view (ds_set p i l ds) = (p, i, l)"
  "ds_set p' i' l' (ds_set p i l ds) = ds_set p' i' l' ds"
  by (simp_all add: ds_set_def ds_view_def)

lemma ds_updates_set:
  "ds\<lparr>ds_position := p\<rparr> = ds_set p (ds_index ds) (ds_logfile ds) ds"
  "ds\<lparr>ds_index := i\<rparr> = ds_set (ds_position ds) i (ds_logfile ds) ds"
  "ds\<lparr>ds_logfile := l\<rparr> = ds_set (ds_position ds) (ds_index ds) l ds"
  by (simp_all add: ds_set_def)

text \<open>
  An event stands in a block at least as large as the driver's own buffer: an event that fits
  is read into \<open>buf\<close>, a larger one gets a block of its own. \<open>lent\<close> is the state between
  \<open>getEvent\<close> and \<open>freeEvent\<close>.
\<close>

locale data_source =
  fixes ops :: "'d ds_ops"
    and idle :: "'d DataSource \<Rightarrow> bool"
    and lent :: "'d DataSource \<Rightarrow> bool"
    and pending :: "'d DataSource \<Rightarrow> u8 list list"
  assumes get_event: "idle ds \<Longrightarrow> pending ds = e # es \<Longrightarrow>
      \<exists>post ds'. op_getEvent ops ds = Inr (Some (e @ post), ds') \<and>
        BL_EVENT_BUF_SIZE \<le> length (e @ post) \<and> length (e @ post) \<le> INT_MAX \<and>
        lent ds' \<and> pending ds' = es \<and> ds_view ds' = ds_view ds"
    and get_end: "idle ds \<Longrightarrow> pending ds = [] \<Longrightarrow>
      \<exists>ds'. op_getEvent ops ds = Inr (None, ds') \<and>
        37 \<notin> set (ds_errstr ds') \<and> length (ds_errstr ds') < BL_ERROR_SIZE"
    and give_back: "lent ds \<Longrightarrow>
      \<exists>ds'. op_freeEvent ops ds = Inr ds' \<and> idle ds' \<and> pending ds' = pending ds \<and>
        ds_view ds' = ds_view ds"
    and set_idle: "idle (ds_set p i l ds) = idle ds"
    and set_lent: "lent (ds_set p i l ds) = lent ds"
    and set_pending: "pending (ds_set p i l ds) = pending ds"

end
