(* ===== verification/DecimalFormat.thy ===== *)
theory DecimalFormat
  imports DecimalText
begin

text \<open>
  MySQL's binary format of a \<open>DECIMAL(p,s)\<close> column as an encoder, and the proof that
  \<open>bin2decimal\<close> decodes it: groups of nine digits in four big-endian bytes, shorter groups at
  both ends, every byte complemented for a negative number, and the top bit of the first byte
  flipped.
\<close>

subsection \<open>Big-endian bytes\<close>

lemma le_bytes_snoc: "le_bytes (Suc n) v = le_bytes n v @ [of_nat (v div 256 ^ n)]"
proof (induction n arbitrary: v)
  case (Suc n)
  have "v div 256 div 256 ^ n = v div 256 ^ Suc n" by (simp only: div_mult2_eq [symmetric] power_Suc)
  then show ?case using Suc.IH [of "v div 256"] by (metis append_Cons le_bytes.simps(2))
qed simp

lemma be_bytes_simps:
  "be_bytes 0 v = []" "be_bytes (Suc n) v = of_nat (v div 256 ^ n) # be_bytes n v"
  by (simp_all add: be_bytes_def le_bytes_snoc del: le_bytes.simps(2))

lemma be_bytes_digits:
  assumes "b < 256" "c < 256" "e < 256"
  shows "be_bytes 1 a = [of_nat a]"
    "be_bytes 2 (a * 256 + b) = [of_nat a, of_nat b]"
    "be_bytes 3 ((a * 256 + b) * 256 + c) = [of_nat a, of_nat b, of_nat c]"
    "be_bytes 4 (((a * 256 + b) * 256 + c) * 256 + e) = [of_nat a, of_nat b, of_nat c, of_nat e]"
proof -
  have m: "(of_nat (x * 256 + y) :: u8) = of_nat y" for x y
    by (simp only: word_unat_eq_iff unat_u8_of_nat mod_mult_self3)
  have n: "(1 :: nat) = Suc 0" "2 = Suc (Suc 0)" "3 = Suc (Suc (Suc 0))" "4 = Suc (Suc (Suc (Suc 0)))" by simp_all
  have d: "(x * 256 + y) div 256 = x" if "y < 256" for x y :: nat using that by simp
  have p: "x div 256 ^ Suc k = x div 256 div 256 ^ k" for x k :: nat
    by (simp only: div_mult2_eq [symmetric] power_Suc)
  show "be_bytes 1 a = [of_nat a]"
    "be_bytes 2 (a * 256 + b) = [of_nat a, of_nat b]"
    "be_bytes 3 ((a * 256 + b) * 256 + c) = [of_nat a, of_nat b, of_nat c]"
    "be_bytes 4 (((a * 256 + b) * 256 + c) * 256 + e) = [of_nat a, of_nat b, of_nat c, of_nat e]"
    unfolding n be_bytes_simps p d [OF assms(1)] d [OF assms(2)] d [OF assms(3)] power_0 div_by_Suc_0
    by (simp_all only: m)
qed

definition mask_bytes :: "bool \<Rightarrow> u8 list \<Rightarrow> u8 list" where
  "mask_bytes neg bs = (if neg then map (\<lambda>b. NOT b) bs else bs)"

lemma length_mask_bytes [simp]: "length (mask_bytes neg bs) = length bs"
  by (simp add: mask_bytes_def)

lemma mask_bytes_append: "mask_bytes neg (xs @ ys) = mask_bytes neg xs @ mask_bytes neg ys"
  by (simp add: mask_bytes_def)

lemma NOT_of_nat: "b < 256 \<Longrightarrow> NOT (of_nat b :: u8) = of_nat (255 - b)"
proof -
  assume "b < 256"
  then have "(of_nat (255 - b) :: u8) = of_nat 255 - of_nat b" by (intro of_nat_diff) simp
  then show ?thesis by (simp add: not_eq_complement)
qed

lemma byte_values:
  "b < 256 \<Longrightarrow> uint (of_nat b :: u8) = int b"
  "b < 256 \<Longrightarrow> uint (of_nat (255 - b) :: u8) = 255 - int b"
  "a < 128 \<Longrightarrow> sint (of_nat a :: u8) = int a"
  "a < 128 \<Longrightarrow> sint (of_nat (255 - a) :: u8) = - 1 - int a"
proof -
  show u: "b < 256 \<Longrightarrow> uint (of_nat b :: u8) = int b" for b by (simp only: uint_nat unat_u8_of_nat mod_less)
  show "b < 256 \<Longrightarrow> uint (of_nat (255 - b) :: u8) = 255 - int b"
    using u [of "255 - b"] by simp
  have st: "sint w = signed_take_bit 7 (uint w)" for w :: u8 by (simp add: sint_uint)
  show "a < 128 \<Longrightarrow> sint (of_nat a :: u8) = int a"
    unfolding st by (simp add: u signed_take_bit_int_eq_self)
  show "a < 128 \<Longrightarrow> sint (of_nat (255 - a) :: u8) = - 1 - int a"
  proof -
    assume a: "a < 128"
    then have "uint (of_nat (255 - a) :: u8) = 255 - int a" using u [of "255 - a"] by simp
    moreover have "(255 - int a) div 128 = 1" using a by (intro int_div_pos_eq [where r = "127 - int a"]) simp_all
    then have "signed_take_bit 7 (255 - int a) = 255 - int a - 256"
      using a by (simp add: signed_take_bit_eq_take_bit_minus bit_iff_odd take_bit_eq_mod)
    ultimately show ?thesis unfolding st by simp
  qed
qed


lemma bit_u8: "bit (w :: u8) n \<Longrightarrow> n < 8"
  using bit_imp_le_length [of w n] by simp

lemma word3_NOT:
  "push_bit 24 255 OR push_bit 16 (ucast (NOT a :: u8)) OR push_bit 8 (ucast (NOT b :: u8)) OR ucast (NOT c :: u8) =
   NOT (push_bit 16 (ucast a) OR push_bit 8 (ucast b) OR ucast c :: u32)" (is "?l = ?r")
proof (rule bit_word_eqI)
  fix n assume n: "n < LENGTH(32)"
  have m: "(255 :: u32) = mask 8" by (simp add: mask_numeral)
  consider "n < 8" | "8 \<le> n" "n < 16" | "16 \<le> n" "n < 24" | "24 \<le> n" by linarith
  then show "bit ?l n = bit ?r n"
    unfolding m using n by cases (auto simp add: bit_simps dest: bit_u8)
qed

lemma top_bit:
  assumes "a < 128"
  shows "(of_nat a :: u8) AND 128 = 0" "NOT (of_nat a :: u8) AND 128 \<noteq> 0"
proof -
  have "unat (of_nat a :: u8) = a" using assms by (simp add: unat_u8_of_nat)
  moreover have "bit (unat (of_nat a :: u8)) 7 = bit (of_nat a :: u8) 7" by (simp only: bit_unsigned_iff) simp
  ultimately have "bit (of_nat a :: u8) 7 = bit a 7" by (simp only:)
  then have "\<not> bit (of_nat a :: u8) 7" using assms by (simp add: bit_iff_odd)
  moreover have "w AND 128 = 0 \<longleftrightarrow> \<not> bit w 7" for w :: u8
    using and_exp_eq_0_iff_not_bit [of w 7] by simp
  ultimately show "(of_nat a :: u8) AND 128 = 0" "NOT (of_nat a :: u8) AND 128 \<noteq> 0"
    by (simp_all add: bit_simps)
qed

lemma NOT_byte_values:
  "b < 256 \<Longrightarrow> uint (NOT (of_nat b :: u8)) = 255 - int b"
  "a < 128 \<Longrightarrow> sint (NOT (of_nat a :: u8)) = - 1 - int a"
  by (simp_all only: NOT_of_nat byte_values NOT_of_nat [of a, OF order.strict_trans])

lemma word3_of_nat:
  assumes "a < 256" "b < 256" "c < 256"
  shows "push_bit 16 (ucast (of_nat a :: u8)) OR push_bit 8 (ucast (of_nat b :: u8)) OR ucast (of_nat c :: u8) =
    (of_nat ((a * 256 + b) * 256 + c) :: u32)"
proof -
  have u: "(ucast (of_nat x :: u8) :: u32) = of_nat x" if "x < 256" for x
    using that by (simp only: ucast_u8_of_nat unat_u8_of_nat mod_less)
  have z: "(push_bit 16 (ucast x) OR push_bit 8 (ucast y)) AND ucast z = (0 :: u32)"
    "push_bit 16 (ucast x) AND push_bit 8 (ucast y) = (0 :: u32)" for x y z :: u8
    by (intro bit_word_eqI; auto simp add: bit_simps dest: bit_u8)+
  have "push_bit 16 (ucast (of_nat a :: u8)) OR push_bit 8 (ucast (of_nat b :: u8)) OR ucast (of_nat c :: u8) =
      push_bit 16 (ucast (of_nat a :: u8)) + push_bit 8 (ucast (of_nat b :: u8)) + (ucast (of_nat c :: u8) :: u32)"
    by (simp only: or.assoc [symmetric] disjunctive_add_eq_or [OF z(1)] disjunctive_add_eq_or [OF z(2)])
  also have "\<dots> = of_nat ((a * 256 + b) * 256 + c)"
    using assms by (simp only: u push_bit_word_of_nat flip: of_nat_add) (simp add: algebra_simps)
  finally show ?thesis .
qed


definition flip_int :: "bool \<Rightarrow> nat \<Rightarrow> int" where
  "flip_int neg v = (if neg then - 1 - int v else int v)"

lemma flip_int_mask: "flip_int neg v XOR (if neg then - 1 else 0) = int v"
  by (simp add: flip_int_def not_int_def flip: not_eq_complement)

lemma digits256:
  fixes v :: nat
  shows "\<exists>a b. v = a * 256 + b \<and> b < 256"
  by (rule exI [of _ "v div 256"], rule exI [of _ "v mod 256"]) simp

lemma mi_sint_masked:
  "v < 128 \<Longrightarrow> mi_sint1korr (mask_bytes neg (be_bytes 1 v)) = flip_int neg v"
  "v < 32768 \<Longrightarrow> mi_sint2korr (mask_bytes neg (be_bytes 2 v)) = flip_int neg v"
  "v < 8388608 \<Longrightarrow> mi_sint3korr (mask_bytes neg (be_bytes 3 v)) = flip_int neg v"
  "v < 2147483648 \<Longrightarrow> mi_sint4korr (mask_bytes neg (be_bytes 4 v)) = flip_int neg v"
proof -
  show "v < 128 \<Longrightarrow> mi_sint1korr (mask_bytes neg (be_bytes 1 v)) = flip_int neg v"
    by (simp add: be_bytes_digits(1) [of 0 0 0] mask_bytes_def mi_sint1korr_def flip_int_def NOT_byte_values byte_values(1,3)
        del: One_nat_def)
next
  assume v: "v < 32768"
  obtain a b where ab: "v = a * 256 + b" "b < 256" using digits256 by blast
  then have "a < 128" using v by simp
  then show "mi_sint2korr (mask_bytes neg (be_bytes 2 v)) = flip_int neg v"
    using ab(2) unfolding ab(1) be_bytes_digits(2) [OF ab(2), of 0 0, simplified]
    by (simp add: mask_bytes_def mi_sint2korr_def flip_int_def NOT_byte_values byte_values(1,3))
next
  assume v: "v < 2147483648"
  obtain x e where e: "v = x * 256 + e" "e < 256" using digits256 by blast
  obtain y c where c: "x = y * 256 + c" "c < 256" using digits256 by blast
  obtain a b where ab: "y = a * 256 + b" "b < 256" using digits256 by blast
  have "a < 128" using v unfolding e(1) c(1) ab(1) by simp
  then show "mi_sint4korr (mask_bytes neg (be_bytes 4 v)) = flip_int neg v"
    using ab(2) c(2) e(2) unfolding e(1) c(1) ab(1) be_bytes_digits(4) [OF ab(2) c(2) e(2)]
    by (simp add: mask_bytes_def mi_sint4korr_def flip_int_def NOT_byte_values byte_values(1,3))
next
  assume v: "v < 8388608"
  obtain y c where c: "v = y * 256 + c" "c < 256" using digits256 by blast
  obtain a b where ab: "y = a * 256 + b" "b < 256" using digits256 by blast
  have a: "a < 128" using v unfolding c(1) ab(1) by simp
  show "mi_sint3korr (mask_bytes neg (be_bytes 3 v)) = flip_int neg v"
  proof -
    have bytes: "be_bytes 3 v = [of_nat a, of_nat b, of_nat c]"
      unfolding c(1) ab(1) by (rule be_bytes_digits(3) [OF ab(2) c(2), of 0]) simp
    have word: "push_bit 16 (ucast (of_nat a :: u8)) OR push_bit 8 (ucast (of_nat b :: u8)) OR ucast (of_nat c :: u8) =
        (of_nat v :: u32)"
      unfolding c(1) ab(1) using a ab(2) c(2) by (intro word3_of_nat) simp_all
    have "uint (of_nat v :: u32) = int v" using v by (simp add: uint_nat unat_of_nat)
    then have sv: "sint (of_nat v :: u32) = int v" using v by (simp add: sint_uint signed_take_bit_int_eq_self)
    then have nv: "sint (NOT (of_nat v :: u32)) = - 1 - int v"
      using v by (simp add: signed_not_eq not_int_def signed_take_bit_int_eq_self)
    have nth: "[x, y, z] ! 0 = x" "[x, y, z] ! 1 = y" "[x, y, z] ! 2 = z" for x y z :: u8 by simp_all
    show ?thesis
    proof (cases neg)
      case True
      then have "mask_bytes neg (be_bytes 3 v) = [NOT (of_nat a), NOT (of_nat b), NOT (of_nat c)]"
        by (simp add: bytes mask_bytes_def)
      then show ?thesis
        unfolding mi_sint3korr_def using True top_bit(2) [OF a] by (simp only: nth word3_NOT word nv flip_int_def if_True simp_thms)
    next
      case False
      then have "mask_bytes neg (be_bytes 3 v) = [of_nat a, of_nat b, of_nat c]"
        by (simp add: bytes mask_bytes_def)
      then show ?thesis
        unfolding mi_sint3korr_def using False top_bit(1) [OF a] by (simp only: nth word sv flip_int_def if_False simp_thms)
    qed
  qed
qed

subsection \<open>The column format\<close>

definition group_bytes :: "nat \<Rightarrow> nat" where
  "group_bytes k = [0, 1, 1, 2, 2, 3, 3, 4, 4] ! k"

definition words_bytes :: "nat list \<Rightarrow> u8 list" where
  "words_bytes ws = concat (map (be_bytes 4) ws)"

definition dec_int_bytes :: "nat \<Rightarrow> nat \<Rightarrow> u8 list" where
  "dec_int_bytes i I =
     be_bytes (group_bytes (i mod 9)) (I div 10 ^ (9 * (i div 9))) @ words_bytes (int_words (i div 9) I)"

definition dec_frac_bytes :: "nat \<Rightarrow> nat \<Rightarrow> u8 list" where
  "dec_frac_bytes s F =
     words_bytes (int_words (s div 9) (F div 10 ^ (s mod 9))) @
     be_bytes (group_bytes (s mod 9)) (F mod 10 ^ (s mod 9))"

definition dec_raw :: "nat \<Rightarrow> nat \<Rightarrow> nat \<Rightarrow> u8 list" where
  "dec_raw p s n = dec_int_bytes (p - s) (n div 10 ^ s) @ dec_frac_bytes s (n mod 10 ^ s)"

definition dec_bytes :: "nat \<Rightarrow> nat \<Rightarrow> bool \<Rightarrow> nat \<Rightarrow> u8 list" where
  "dec_bytes p s neg n = (let bs = mask_bytes neg (dec_raw p s n) in (hd bs XOR 128) # tl bs)"

lemma words_bytes_Cons: "words_bytes (w # ws) = be_bytes 4 w @ words_bytes ws"
  by (simp add: words_bytes_def)

lemma length_words_bytes [simp]: "length (words_bytes ws) = 4 * length ws"
  by (induction ws) (simp_all add: words_bytes_def)

lemma small_cases:
  "(k :: nat) < 9 \<Longrightarrow> k = 0 \<or> k = 1 \<or> k = 2 \<or> k = 3 \<or> k = 4 \<or> k = 5 \<or> k = 6 \<or> k = 7 \<or> k = 8"
  by auto

lemma dig2bytes_nth: "k < 9 \<Longrightarrow> nthZ dig2bytes (int k) = Inr (int (group_bytes k))"
  by (drule small_cases, elim disjE) (simp_all add: nthZ_def nthE_def dig2bytes_def group_bytes_def)

lemma powers10_nthZ: "k \<le> 9 \<Longrightarrow> nthZ powers10 (int k) = Inr (10 ^ k)"
  by (simp add: nthZ_def powers10_nth)

lemma mi_group:
  assumes "0 < k" "k < 9" "v < 10 ^ k"
  shows "mi_sintkorr (int (group_bytes k)) (pre @ mask_bytes neg (be_bytes (group_bytes k) v) @ post) (length pre) =
    Inr (flip_int neg v)"
proof -
  have pk: "peek (pre @ mask_bytes neg (be_bytes n v) @ post) (length pre) n = Inr (mask_bytes neg (be_bytes n v))" for n
    by (rule peek_append) simp_all
  have "k = 1 \<or> k = 2 \<or> k = 3 \<or> k = 4 \<or> k = 5 \<or> k = 6 \<or> k = 7 \<or> k = 8" using assms(1,2) by auto
  then show ?thesis
    using assms(3) by (elim disjE) (simp_all add: mi_sintkorr_def group_bytes_def pk mi_sint_masked mi_sint_masked(1) [simplified])
qed

lemma flip_word:
  "w < 10 ^ 9 \<Longrightarrow> mi_sint4korr (mask_bytes neg (be_bytes 4 w)) XOR (if neg then - 1 else 0) = int w"
  using mi_sint_masked(4) [of w neg] flip_int_mask [of neg w] by simp

subsection \<open>The group loops\<close>

lemma poke_next: "poke (xs @ y # ys) (length xs) [z] = Inr (xs @ z # ys)"
  by (simp add: poke_def)

lemma frac_words_loop:
  "\<forall>w\<in>set ws. w < 10 ^ 9 \<Longrightarrow> length ws \<le> length rest \<Longrightarrow>
   bin_frac_words (pre @ mask_bytes neg (words_bytes ws) @ post) (if neg then - 1 else 0) (length ws) (length pre)
     (done @ rest) (length done) =
   Inr (True, done @ map int ws @ drop (length ws) rest, length done + length ws)"
proof (induction ws arbitrary: pre "done" rest)
  case (Cons w ws)
  then obtain r rest' where rest: "rest = r # rest'" by (cases rest) auto
  have w: "w < 10 ^ 9" using Cons.prems(1) by simp
  have pk: "peek (pre @ mask_bytes neg (words_bytes (w # ws)) @ post) (length pre) 4 = Inr (mask_bytes neg (be_bytes 4 w))"
    unfolding words_bytes_Cons mask_bytes_append append_assoc by (rule peek_append) simp_all
  have "bin_frac_words (pre @ mask_bytes neg (words_bytes (w # ws)) @ post) (if neg then - 1 else 0) (length (w # ws))
      (length pre) (done @ rest) (length done) =
    bin_frac_words (pre @ mask_bytes neg (words_bytes (w # ws)) @ post) (if neg then - 1 else 0) (length ws)
      (length pre + 4) (done @ int w # rest') (Suc (length done))"
    unfolding length_Cons bin_frac_words.simps pk bindE_simps flip_word [OF w] Let_def rest poke_next
    using w by simp
  also have "\<dots> = Inr (True, done @ map int (w # ws) @ drop (length (w # ws)) rest, length done + length (w # ws))"
    using Cons.IH [of rest' "pre @ mask_bytes neg (be_bytes 4 w)" "done @ [int w]"] Cons.prems
    by (simp add: words_bytes_Cons mask_bytes_append rest)
  finally show ?case .
qed (simp add: mask_bytes_def words_bytes_def)

lemma intg_words_keep:
  "\<forall>w\<in>set ws. w < 10 ^ 9 \<Longrightarrow> length ws \<le> length rest \<Longrightarrow> done \<noteq> [] \<Longrightarrow>
   bin_intg_words (pre @ mask_bytes neg (words_bytes ws) @ post) (if neg then - 1 else 0) (length ws) (length pre)
     (done @ rest) (length done) intg =
   Inr (True, done @ map int ws @ drop (length ws) rest, length done + length ws, intg)"
proof (induction ws arbitrary: pre "done" rest)
  case (Cons w ws)
  then obtain r rest' where rest: "rest = r # rest'" by (cases rest) auto
  have w: "w < 10 ^ 9" using Cons.prems(1) by simp
  have pk: "peek (pre @ mask_bytes neg (words_bytes (w # ws)) @ post) (length pre) 4 = Inr (mask_bytes neg (be_bytes 4 w))"
    unfolding words_bytes_Cons mask_bytes_append append_assoc by (rule peek_append) simp_all
  have "bin_intg_words (pre @ mask_bytes neg (words_bytes (w # ws)) @ post) (if neg then - 1 else 0) (length (w # ws))
      (length pre) (done @ rest) (length done) intg =
    bin_intg_words (pre @ mask_bytes neg (words_bytes (w # ws)) @ post) (if neg then - 1 else 0) (length ws)
      (length pre + 4) (done @ int w # rest') (Suc (length done)) intg"
    unfolding length_Cons bin_intg_words.simps pk bindE_simps flip_word [OF w] Let_def rest poke_next
    using w Cons.prems(3) by simp
  also have "\<dots> = Inr (True, done @ map int (w # ws) @ drop (length (w # ws)) rest, length done + length (w # ws), intg)"
    using Cons.IH [of rest' "done @ [int w]" "pre @ mask_bytes neg (be_bytes 4 w)"] Cons.prems
    by (simp add: words_bytes_Cons mask_bytes_append rest)
  finally show ?case .
qed (simp add: mask_bytes_def words_bytes_def)

lemma intg_words_skip:
  "\<forall>w\<in>set ws. w < 10 ^ 9 \<Longrightarrow> length ws \<le> length rest \<Longrightarrow>
   \<exists>rest'. bin_intg_words (pre @ mask_bytes neg (words_bytes ws) @ post) (if neg then - 1 else 0) (length ws)
      (length pre) rest 0 intg =
     Inr (True, map int (dropWhile (\<lambda>w. w = 0) ws) @ rest', length (dropWhile (\<lambda>w. w = 0) ws),
       intg - 9 * int (length (takeWhile (\<lambda>w. w = 0) ws))) \<and>
     length rest' + length (dropWhile (\<lambda>w. w = 0) ws) = length rest"
proof (induction ws arbitrary: pre rest intg)
  case (Cons w ws)
  then obtain r rest' where rest: "rest = r # rest'" by (cases rest) auto
  have w: "w < 10 ^ 9" using Cons.prems(1) by simp
  have pk: "peek (pre @ mask_bytes neg (words_bytes (w # ws)) @ post) (length pre) 4 = Inr (mask_bytes neg (be_bytes 4 w))"
    unfolding words_bytes_Cons mask_bytes_append append_assoc by (rule peek_append) simp_all
  have po: "poke (r # rest') 0 [int w] = Inr (int w # rest')" by (simp add: poke_def)
  have step: "bin_intg_words (pre @ mask_bytes neg (words_bytes (w # ws)) @ post) (if neg then - 1 else 0) (length (w # ws))
      (length pre) rest 0 intg =
    (if w = 0 then bin_intg_words (pre @ mask_bytes neg (words_bytes (w # ws)) @ post) (if neg then - 1 else 0)
       (length ws) (length pre + 4) (int w # rest') 0 (intg - 9)
     else bin_intg_words (pre @ mask_bytes neg (words_bytes (w # ws)) @ post) (if neg then - 1 else 0) (length ws)
      (length pre + 4) (int w # rest') (Suc 0) intg)"
    unfolding length_Cons bin_intg_words.simps pk bindE_simps flip_word [OF w] Let_def rest po
    using w by simp
  show ?case
  proof (cases "w = 0")
    case True
    then show ?thesis
      using Cons.IH [of "int w # rest'" "pre @ mask_bytes neg (be_bytes 4 w)" "intg - 9"] Cons.prems
      unfolding step by (simp add: words_bytes_Cons mask_bytes_append rest algebra_simps)
  next
    case False
    have "bin_intg_words (pre @ mask_bytes neg (words_bytes (w # ws)) @ post) (if neg then - 1 else 0) (length ws)
      (length pre + 4) (int w # rest') (Suc 0) intg = Inr (True, int w # map int ws @ drop (length ws) rest', Suc (length ws), intg)"
      using intg_words_keep [of ws rest' "[int w]" "pre @ mask_bytes neg (be_bytes 4 w)" neg post intg] Cons.prems
      by (simp add: words_bytes_Cons mask_bytes_append rest)
    then show ?thesis unfolding step using False Cons.prems by (simp add: rest)
  qed
qed (simp add: mask_bytes_def words_bytes_def)


lemma pow9_Suc: "(10 :: nat) ^ (9 * Suc k) = 10 ^ 9 * 10 ^ (9 * k)"
  by (simp only: mult_Suc_right power_add)

lemma int_words_mod: "int_words k (n mod 10 ^ (9 * k)) = int_words k n"
proof (induction k arbitrary: n)
  case (Suc k)
  have "n mod 10 ^ (9 * Suc k) = 10 ^ 9 * (n div 10 ^ 9 mod 10 ^ (9 * k)) + n mod 10 ^ 9"
    unfolding pow9_Suc by (rule mod_mult2_eq)
  then have "n mod 10 ^ (9 * Suc k) div 10 ^ 9 = n div 10 ^ 9 mod 10 ^ (9 * k)"
    "n mod 10 ^ (9 * Suc k) mod 10 ^ 9 = n mod 10 ^ 9" by simp_all
  then show ?case using Suc.IH [of "n div 10 ^ 9"] by (simp only: int_words.simps)
qed simp

lemma int_words_drop_zeros:
  "n < 10 ^ (9 * q) \<Longrightarrow>
   \<exists>k\<le>q. dropWhile (\<lambda>w. w = 0) (int_words q n) = int_words k n \<and>
     length (takeWhile (\<lambda>w. w = 0) (int_words q n)) = q - k \<and> n < 10 ^ (9 * k) \<and>
     (\<forall>j. k = Suc j \<longrightarrow> 10 ^ (9 * j) \<le> n)"
proof (induction q)
  case (Suc q)
  define w where "w = n div 10 ^ (9 * q)"
  have "n < 10 ^ 9 * 10 ^ (9 * q)" using Suc.prems by (simp only: pow9_Suc)
  then have "w < 10 ^ 9" by (simp add: w_def less_mult_imp_div_less)
  then have iw: "int_words (Suc q) n = w # int_words q n" unfolding int_words_Cons w_def by (simp only: mod_less)
  show ?case
  proof (cases "w = 0")
    case True
    then have "n < 10 ^ (9 * q)" by (simp add: w_def div_eq_0_iff)
    then obtain k where "k \<le> q" "dropWhile (\<lambda>w. w = 0) (int_words q n) = int_words k n"
      "length (takeWhile (\<lambda>w. w = 0) (int_words q n)) = q - k" "n < 10 ^ (9 * k)"
      "\<forall>j. k = Suc j \<longrightarrow> 10 ^ (9 * j) \<le> n" using Suc.IH by blast
    then show ?thesis unfolding iw using True by (intro exI [of _ k]) simp
  next
    case False
    then have "10 ^ (9 * q) \<le> n" by (simp add: w_def div_eq_0_iff)
    then show ?thesis using Suc.prems False by (intro exI [of _ "Suc q"]) (simp only: iw, simp)
  qed
qed simp

lemma intg_lead:
  assumes "r < 9" "v < 10 ^ r"
  shows "bin_intg_lead (pre @ mask_bytes neg (be_bytes (group_bytes r) v) @ post) (if neg then - 1 else 0)
      (int r) (length pre) (b # bs) intg =
    Inr (True, (if r = 0 then b else int v) # bs, of_bool (v \<noteq> 0),
      if v = 0 then intg - int r else intg, length pre + group_bytes r)"
proof (cases "r = 0")
  case True
  then show ?thesis using assms(2) by (simp add: bin_intg_lead_def group_bytes_def)
next
  case False
  have pw: "nthZ powers10 (int r + 1) = Inr (10 ^ (r + 1))"
    using powers10_nthZ [of "r + 1"] assms(1) by (simp add: add.commute)
  have po: "poke (b # bs) 0 [int v] = Inr (int v # bs)" by (simp add: poke_def)
  have "v < 10 ^ (r + 1)" using assms(2) power_increasing [of r "r + 1" "10 :: nat"] by linarith
  then have "int v < int (10 ^ (r + 1))" by (simp only: of_nat_less_iff)
  then have "int v < 10 ^ (r + 1)" by simp
  then show ?thesis
    unfolding bin_intg_lead_def dig2bytes_nth [OF assms(1)] bindE_simps
      mi_group [OF neq0_conv [THEN iffD1, OF False] assms] Let_def flip_int_mask po pw
    using False by simp
qed

lemma frac_tail:
  assumes "r < 9" "v < 10 ^ r"
  shows "bin_frac_tail (pre @ mask_bytes neg (be_bytes (group_bytes r) v) @ post) (if neg then - 1 else 0)
      (int r) (length pre) (done @ b # bs) (length done) =
    Inr (True, done @ (if r = 0 then b else int (v * 10 ^ (9 - r))) # bs)"
proof (cases "r = 0")
  case True
  then show ?thesis by (simp add: bin_frac_tail_def)
next
  case False
  have r9: "DIG_PER_DEC1 - int r = int (9 - r)" using assms(1) by simp
  have pw: "nthZ powers10 (DIG_PER_DEC1 - int r) = Inr (10 ^ (9 - r))"
    unfolding r9 by (rule powers10_nthZ) simp
  have "v * 10 ^ (9 - r) < 10 ^ r * 10 ^ (9 - r)" using assms(2) by simp
  also have "\<dots> = 10 ^ 9" using assms(1) by (simp flip: power_add)
  finally have "int (v * 10 ^ (9 - r)) < int (10 ^ 9)" by (simp only: of_nat_less_iff)
  then have lt: "int v * 10 ^ (9 - r) < 1000000000" by simp
  have nn: "\<not> int v * 10 ^ (9 - r) < 0" by (simp add: not_less)
  show ?thesis
    unfolding bin_frac_tail_def dig2bytes_nth [OF assms(1)] bindE_simps
      mi_group [OF neq0_conv [THEN iffD1, OF False] assms] Let_def flip_int_mask pw poke_next
    using False lt nn by (simp add: poke_next)
qed


definition int_holds :: "nat \<Rightarrow> nat \<Rightarrow> nat \<Rightarrow> bool" where
  "int_holds I k D \<longleftrightarrow> I < 10 ^ D \<and> D \<le> 9 * k \<and> (\<forall>j. k = Suc j \<longrightarrow> 9 * j < D \<and> 10 ^ (9 * j) \<le> I)"

lemma intg_part:
  assumes "I < 10 ^ i" "i div 9 \<le> length bs"
  shows "\<exists>b' k0 n0 k D rest.
    bin_intg_lead (pre @ mask_bytes neg (dec_int_bytes i I) @ post) (if neg then - 1 else 0)
      (int (i mod 9)) (length pre) (b # bs) (int i) =
      Inr (True, b', k0, n0, length pre + group_bytes (i mod 9)) \<and>
    bin_intg_words (pre @ mask_bytes neg (dec_int_bytes i I) @ post) (if neg then - 1 else 0)
      (i div 9) (length pre + group_bytes (i mod 9)) b' k0 n0 =
      Inr (True, map int (int_words k I) @ rest, k, int D) \<and>
    length rest + k = Suc (length bs) \<and> k \<le> Suc (i div 9) \<and> int_holds I k D"
proof -
  define q r where "q = i div 9" and "r = i mod 9"
  have i: "i = 9 * q + r" and r: "r < 9" by (simp_all add: q_def r_def)
  define v where "v = I div 10 ^ (9 * q)"
  have "I < 10 ^ r * 10 ^ (9 * q)" using assms(1) unfolding i by (simp only: power_add mult.commute)
  then have v: "v < 10 ^ r" by (simp add: v_def less_mult_imp_div_less)
  have ws: "\<forall>w\<in>set (int_words q I). w < 10 ^ 9" using int_words_less by blast
  let ?d = "pre @ mask_bytes neg (dec_int_bytes i I) @ post"
  let ?lead = "mask_bytes neg (be_bytes (group_bytes r) v)"
  have d: "?d = pre @ ?lead @ mask_bytes neg (words_bytes (int_words q I)) @ post"
    by (simp add: dec_int_bytes_def mask_bytes_append q_def r_def v_def)
  have lead: "bin_intg_lead ?d (if neg then - 1 else 0) (int r) (length pre) (b # bs) (int i) =
    Inr (True, (if r = 0 then b else int v) # bs, of_bool (v \<noteq> 0),
      if v = 0 then int i - int r else int i, length pre + group_bytes r)"
    unfolding d by (rule intg_lead [OF r v])
  have d2: "?d = (pre @ ?lead) @ mask_bytes neg (words_bytes (int_words q I)) @ post" unfolding d by simp
  have off: "length pre + group_bytes r = length (pre @ ?lead)" by simp
  have len: "length (int_words q I) \<le> length bs" using assms(2) by (simp add: q_def)
  show ?thesis
  proof (cases "v = 0")
    case True
    then have "I < 10 ^ (9 * q)" by (simp add: v_def div_eq_0_iff)
    from int_words_drop_zeros [OF this] obtain k where k: "k \<le> q"
      "dropWhile (\<lambda>w. w = 0) (int_words q I) = int_words k I"
      "length (takeWhile (\<lambda>w. w = 0) (int_words q I)) = q - k" "I < 10 ^ (9 * k)"
      "\<forall>j. k = Suc j \<longrightarrow> 10 ^ (9 * j) \<le> I" by blast
    obtain rest where "bin_intg_words ?d (if neg then - 1 else 0) q (length pre + group_bytes r)
        ((if r = 0 then b else int v) # bs) 0 (int (9 * q)) =
      Inr (True, map int (int_words k I) @ rest, k, int (9 * q) - 9 * int (q - k)) \<and>
      length rest + k = Suc (length bs)"
      using intg_words_skip [OF ws, of "(if r = 0 then b else int v) # bs" "pre @ ?lead" neg post "int (9 * q)"] len
      unfolding d2 off k by auto
    moreover have "int (9 * q) - 9 * int (q - k) = int (9 * k)" "int i - int r = int (9 * q)"
      using k(1) i by simp_all
    moreover have "int_holds I k (9 * k)" using k(4,5) by (simp add: int_holds_def)
    ultimately show ?thesis
      using lead True k(1) unfolding q_def [symmetric] r_def [symmetric]
      by (intro exI [of _ "(if r = 0 then b else int v) # bs"] exI [of _ 0] exI [of _ "int (9 * q)"] exI [of _ k]
          exI [of _ "9 * k"] exI [of _ rest]) (simp only: of_bool_eq if_True le_SucI simp_thms)
  next
    case False
    then have r0: "r \<noteq> 0" using v by (cases r) simp_all
    have "v < 10 ^ 9" using v r power_increasing [of r 9 "10 :: nat"] by linarith
    then have iw: "int_words (Suc q) I = v # int_words q I" unfolding int_words_Cons v_def by (simp only: mod_less)
    have "bin_intg_words ?d (if neg then - 1 else 0) q (length pre + group_bytes r) (int v # bs) 1 (int i) =
      Inr (True, map int (int_words (Suc q) I) @ drop q bs, Suc q, int i)"
      using intg_words_keep [OF ws len, of "[int v]" "pre @ ?lead" neg post "int i"]
      unfolding d2 off iw by simp
    moreover have "int_holds I (Suc q) i"
      using False assms(1) r r0 by (auto simp add: int_holds_def i v_def div_eq_0_iff)
    ultimately show ?thesis
      using lead False r0 len unfolding q_def [symmetric] r_def [symmetric]
      by (intro exI [of _ "int v # bs"] exI [of _ 1] exI [of _ "int i"] exI [of _ "Suc q"] exI [of _ i]
          exI [of _ "drop q bs"]) simp
  qed
qed


lemma frac_words_eq:
  "F < 10 ^ s \<Longrightarrow> frac_words s F = int_words (s div 9) (F div 10 ^ (s mod 9)) @
     (if s mod 9 = 0 then [] else [F mod 10 ^ (s mod 9) * 10 ^ (9 - s mod 9)])"
proof (induction s F rule: frac_words.induct)
  case (1 s F)
  consider "s = 0" | "0 < s" "s < 9" | "s = 9" | "9 < s" by linarith
  then show ?case
  proof cases
    case 4
    define t where "t = s - 9"
    have s: "s = t + 9" using 4 by (simp add: t_def)
    have dm: "s div 9 = Suc (t div 9)" "s mod 9 = t mod 9" unfolding s by simp_all
    let ?r = "t mod 9" and ?q = "t div 9"
    have t: "t = ?r + 9 * ?q" by simp
    have p: "(10 :: nat) ^ t = 10 ^ ?r * 10 ^ (9 * ?q)" by (subst t, rule power_add)
    have "F < 10 ^ 9 * 10 ^ t" using "1.prems" unfolding s by (simp add: power_add)
    then have "F div 10 ^ t < 10 ^ 9" by (simp add: less_mult_imp_div_less)
    then have hd: "F div 10 ^ ?r div 10 ^ (9 * ?q) mod 10 ^ 9 = F div 10 ^ t"
      unfolding p div_mult2_eq by (simp only: mod_less)
    have "F mod 10 ^ t div 10 ^ ?r = F div 10 ^ ?r mod 10 ^ (9 * ?q)"
      unfolding p by (simp add: mod_mult2_eq)
    then have tl: "int_words ?q (F mod 10 ^ t div 10 ^ ?r) = int_words ?q (F div 10 ^ ?r)"
      by (simp only: int_words_mod)
    have md: "F mod 10 ^ t mod 10 ^ ?r = F mod 10 ^ ?r"
      by (rule mod_mod_cancel) (simp add: p)
    have "frac_words t (F mod 10 ^ t) = int_words ?q (F mod 10 ^ t div 10 ^ ?r) @
      (if ?r = 0 then [] else [F mod 10 ^ t mod 10 ^ ?r * 10 ^ (9 - ?r)])"
      using "1.IH" 4 unfolding t_def by simp
    moreover have "frac_words s F = F div 10 ^ t # frac_words t (F mod 10 ^ t)"
      using 4 by (subst frac_words.simps) (simp add: t_def)
    ultimately show ?thesis unfolding dm int_words_Cons hd tl md by simp
  next
    case 3
    have "int_words 1 F = [F mod 10 ^ 9]" by simp
    then show ?thesis using 3 "1.prems" by (subst frac_words.simps) simp
  next
    case 2
    then show ?thesis using "1.prems" by (subst frac_words.simps) simp
  qed (simp add: frac_words.simps)
qed

lemma frac_part:
  assumes "F < 10 ^ s" "s div 9 < length rest"
  shows "\<exists>b' k' rest'.
    bin_frac_words (pre @ mask_bytes neg (dec_frac_bytes s F) @ post) (if neg then - 1 else 0) (s div 9)
      (length pre) (done @ rest) (length done) = Inr (True, b', k') \<and>
    bin_frac_tail (pre @ mask_bytes neg (dec_frac_bytes s F) @ post) (if neg then - 1 else 0) (int (s mod 9))
      (length pre + 4 * (s div 9)) b' k' = Inr (True, done @ map int (frac_words s F) @ rest')"
proof -
  define q r where "q = s div 9" and "r = s mod 9"
  define ws where "ws = int_words q (F div 10 ^ r)"
  define v where "v = F mod 10 ^ r"
  have r: "r < 9" "v < 10 ^ r" by (simp_all add: r_def v_def)
  have ws: "\<forall>w\<in>set ws. w < 10 ^ 9" "length ws = q" using int_words_less by (auto simp add: ws_def)
  obtain x xs where x: "drop q rest = x # xs"
    using assms(2) by (cases "drop q rest") (simp_all add: q_def)
  let ?d = "pre @ mask_bytes neg (dec_frac_bytes s F) @ post"
  have d: "?d = pre @ mask_bytes neg (words_bytes ws) @ mask_bytes neg (be_bytes (group_bytes r) v) @ post"
    by (simp add: dec_frac_bytes_def mask_bytes_append q_def r_def ws_def v_def)
  have d2: "?d = (pre @ mask_bytes neg (words_bytes ws)) @ mask_bytes neg (be_bytes (group_bytes r) v) @ post"
    unfolding d by simp
  have "bin_frac_words ?d (if neg then - 1 else 0) q (length pre) (done @ rest) (length done) =
      Inr (True, done @ map int ws @ x # xs, length done + q)"
    using frac_words_loop [OF ws(1), of rest pre neg _ "done"] assms(2) x unfolding d ws(2) by (simp add: q_def)
  moreover have "bin_frac_tail ?d (if neg then - 1 else 0) (int r) (length pre + 4 * q)
      (done @ map int ws @ x # xs) (length done + q) =
    Inr (True, done @ map int ws @ (if r = 0 then x else int (v * 10 ^ (9 - r))) # xs)"
    using frac_tail [OF r, of "pre @ mask_bytes neg (words_bytes ws)" neg post "done @ map int ws" x xs] ws(2)
    unfolding d2 by simp
  moreover have "map int ws @ (if r = 0 then x else int (v * 10 ^ (9 - r))) # xs =
      map int (frac_words s F) @ (if r = 0 then x # xs else xs)"
    unfolding frac_words_eq [OF assms(1)] ws_def v_def q_def r_def by simp
  ultimately show ?thesis unfolding q_def [symmetric] r_def [symmetric] by metis
qed


subsection \<open>The first byte\<close>

lemma hd_be_bytes:
  "v < 128 * 256 ^ k \<Longrightarrow> \<exists>a<128. hd (be_bytes (Suc k) v @ rest) = of_nat a"
  by (rule exI [of _ "v div 256 ^ k"]) (simp add: be_bytes_simps less_mult_imp_div_less)

lemma hd_group:
  assumes "0 < r" "r < 9" "v < 10 ^ r"
  shows "\<exists>a<128. hd (be_bytes (group_bytes r) v @ rest) = of_nat a"
proof -
  have "r = 1 \<or> r = 2 \<or> r = 3 \<or> r = 4 \<or> r = 5 \<or> r = 6 \<or> r = 7 \<or> r = 8" using assms(1,2) by auto
  then have "\<exists>k. group_bytes r = Suc k \<and> (10 :: nat) ^ r \<le> 128 * 256 ^ k"
    by (elim disjE) (simp_all add: group_bytes_def numeral_2_eq_2 numeral_3_eq_3)
  then obtain k where k: "group_bytes r = Suc k" "(10 :: nat) ^ r \<le> 128 * 256 ^ k" by blast
  with assms(3) show ?thesis unfolding k(1) by (intro hd_be_bytes) linarith
qed

lemma hd_words:
  assumes "0 < q"
  shows "\<exists>a<128. hd (words_bytes (int_words q n) @ rest) = of_nat a"
proof -
  obtain q' where q: "q = Suc q'" using assms by (cases q) auto
  define w where "w = n div 10 ^ (9 * q') mod 10 ^ 9"
  have n4: "4 = Suc 3" by simp
  have "w < 10 ^ 9" by (simp add: w_def)
  then have "w < 128 * 256 ^ 3" by simp
  from hd_be_bytes [OF this, of "words_bytes (int_words q' n) @ rest"] show ?thesis
    unfolding q int_words_Cons w_def words_bytes_Cons append_assoc n4 .
qed

lemma hd_dec_raw:
  assumes "s \<le> p" "0 < p" "n < 10 ^ p"
  shows "\<exists>a<128. hd (dec_raw p s n) = of_nat a"
proof -
  define i where "i = p - s"
  define I where "I = n div 10 ^ s"
  define F where "F = n mod 10 ^ s"
  have p: "p = i + s" using assms(1) by (simp add: i_def)
  have "n < 10 ^ i * 10 ^ s" using assms(3) unfolding p by (simp add: power_add)
  then have "I < 10 ^ i" by (simp add: I_def less_mult_imp_div_less)
  also have "\<dots> = 10 ^ (i mod 9) * 10 ^ (9 * (i div 9))" by (simp flip: power_add)
  finally have v: "I div 10 ^ (9 * (i div 9)) < 10 ^ (i mod 9)" by (simp add: less_mult_imp_div_less)
  have z: "be_bytes (group_bytes 0) w = []" for w by (simp add: group_bytes_def be_bytes_simps)
  have raw: "dec_raw p s n = be_bytes (group_bytes (i mod 9)) (I div 10 ^ (9 * (i div 9))) @
      words_bytes (int_words (i div 9) I) @ words_bytes (int_words (s div 9) (F div 10 ^ (s mod 9))) @
      be_bytes (group_bytes (s mod 9)) (F mod 10 ^ (s mod 9))"
    by (simp add: dec_raw_def dec_int_bytes_def dec_frac_bytes_def i_def I_def F_def)
  consider "0 < i mod 9" | "i mod 9 = 0" "0 < i div 9" | "i mod 9 = 0" "i div 9 = 0" by linarith
  then show ?thesis
  proof cases
    case 1
    then show ?thesis unfolding raw by (rule hd_group [OF _ _ v]) simp
  next
    case 2
    then show ?thesis unfolding raw using hd_words by (simp add: z)
  next
    case 3
    then have "i = 0" using div_mult_mod_eq [of i 9] by simp
    then have s: "0 < s" using assms(2) p by simp
    show ?thesis
    proof (cases "0 < s div 9")
      case True
      then show ?thesis unfolding raw 3 z using hd_words by (simp add: words_bytes_def)
    next
      case False
      then have s9: "0 < s mod 9" using s div_mult_mod_eq [of s 9] by simp
      have "s div 9 = 0" using False by simp
      then show ?thesis unfolding raw 3 z using hd_group [OF s9, of "F mod 10 ^ (s mod 9)" "[]"] by (simp add: words_bytes_def)
    qed
  qed
qed

lemma first_byte:
  assumes "a < 128"
  shows "((if neg then NOT (of_nat a) else of_nat a) XOR 128 :: u8) AND 128 \<noteq> 0 \<longleftrightarrow> \<not> neg"
proof -
  have b: "bit (128 :: u8) 7" by simp
  have "w AND 128 = 0 \<longleftrightarrow> \<not> bit w 7" for w :: u8
    using and_exp_eq_0_iff_not_bit [of w 7] by simp
  then show ?thesis using top_bit [OF assms] b by (simp add: bit_xor_iff)
qed

lemma length_dec_raw:
  "length (dec_raw p s n) = group_bytes ((p - s) mod 9) + 4 * ((p - s) div 9) + (4 * (s div 9) + group_bytes (s mod 9))"
  by (simp add: dec_raw_def dec_int_bytes_def dec_frac_bytes_def)

lemma length_dec_bytes: "0 < length (dec_raw p s n) \<Longrightarrow> length (dec_bytes p s neg n) = length (dec_raw p s n)"
  by (simp add: dec_bytes_def Let_def)

lemma decimal_bin_size_raw:
  assumes "s \<le> p"
  shows "decimal_bin_size (int p) (int s) = Inr (int (length (dec_raw p s n)))"
proof -
  define i where "i = p - s"
  have m: "int x - int x sdiv DIG_PER_DEC1 * DIG_PER_DEC1 = int (x mod 9)" for x
    by (simp add: sdiv_int_numeral zmod_int zdiv_int minus_div_mult_eq_mod)
  have i: "int p - int s = int i" using assms by (simp add: i_def)
  show ?thesis unfolding decimal_bin_size_def Let_def i m
    by (simp add: dig2bytes_nth length_dec_raw sdiv_int_numeral flip: i_def)
qed


subsection \<open>The decoder\<close>

definition dec_scratch :: decimal_t where
  "dec_scratch = \<lparr>d_intg = 0, d_frac = 0, d_len = 128, d_sign = 0, d_buf = replicate 128 0\<rparr>"

lemma groups_pos: "x \<noteq> 0 \<Longrightarrow> 0 < group_bytes (x mod 9) + 4 * (x div 9)"
proof (cases "x < 9")
  case True
  assume "x \<noteq> 0"
  with small_cases [OF True] show ?thesis by (elim disjE) (simp_all add: group_bytes_def)
next
  case False
  then show ?thesis by (simp add: div_greater_zero_iff)
qed

lemma dec_raw_pos: "s \<le> p \<Longrightarrow> 0 < p \<Longrightarrow> 0 < length (dec_raw p s n)"
  using groups_pos [of "p - s"] groups_pos [of s] unfolding length_dec_raw by linarith

lemma bin2decimal_parts:
  fixes p s :: nat
  assumes "s \<le> p" "0 < p" "p \<le> 255" "n < 10 ^ p"
  shows "\<exists>d. bin2decimal (pre @ dec_bytes p s neg n @ post) (length pre) dec_scratch (int p) (int s) =
      Inr (E_DEC_OK, d) \<and> holds d neg (n div 10 ^ s) s (n mod 10 ^ s)"
proof -
  define i where "i = p - s"
  define I where "I = n div 10 ^ s"
  define F where "F = n mod 10 ^ s"
  have i: "int p - int s = int i" "p = i + s" using assms(1) by (simp_all add: i_def)
  have "n < 10 ^ i * 10 ^ s" using assms(4) unfolding i(2) by (simp add: power_add)
  then have I: "I < 10 ^ i" by (simp add: I_def less_mult_imp_div_less)
  have F: "F < 10 ^ s" by (simp add: F_def)
  let ?msk = "if neg then - 1 else 0 :: int"
  let ?raw = "dec_raw p s n"
  obtain a where a: "a < 128" "hd ?raw = of_nat a" using hd_dec_raw [OF assms(1,2,4)] by blast
  have pos: "0 < length ?raw" by (rule dec_raw_pos [OF assms(1,2)])
  then have "mask_bytes neg ?raw \<noteq> []" by (metis length_0_conv length_mask_bytes less_irrefl)
  then obtain c cs where c: "mask_bytes neg ?raw = c # cs" by (meson neq_Nil_conv)
  have hd: "c = (if neg then NOT (of_nat a) else of_nat a)"
    using c a(2) pos by (cases ?raw) (auto simp add: mask_bytes_def split: if_splits)
  have db: "dec_bytes p s neg n = (c XOR 128) # cs" by (simp add: dec_bytes_def c)
  have lr: "length ?raw = Suc (length cs)" using c by (metis length_Cons length_mask_bytes)
  have m: "int x - int (x div 9) * DIG_PER_DEC1 = int (x mod 9)" for x
    by (simp add: zmod_int zdiv_int minus_div_mult_eq_mod)
  have dv: "int x sdiv DIG_PER_DEC1 = int (x div 9)" for x by (rule sdiv_int_numeral)
  have e: "int (x div 9) * DIG_PER_DEC1 + int (x mod 9) = int x" for x
    by (metis div_mult_mod_eq of_nat_add of_nat_mult of_nat_numeral)
  have pk1: "peek (pre @ ((c XOR 128) # cs) @ post) (length pre) 1 = Inr [c XOR 128]"
    by (simp add: peek_def)
  have msk: "(if [c XOR 128] ! 0 AND 128 \<noteq> 0 then 0 else - 1) = ?msk"
    using first_byte [OF a(1), of neg] unfolding hd [symmetric] by simp
  have pk: "peek (pre @ ((c XOR 128) # cs) @ post) (length pre) (nat (int (length ?raw))) = Inr ((c XOR 128) # cs)"
    using lr by (intro peek_append) simp_all
  have bs: "decimal_bin_size (int p) (int s) = Inr (int (length ?raw))" by (rule decimal_bin_size_raw [OF assms(1)])
  have fl: "((c XOR 128) # cs)[0 := (c XOR 128) XOR 128] = c # cs" by (simp add: xor.assoc)
  have cc: "c # cs = [] @ mask_bytes neg (dec_int_bytes i I) @ mask_bytes neg (dec_frac_bytes s F)"
    "c # cs = mask_bytes neg (dec_int_bytes i I) @ mask_bytes neg (dec_frac_bytes s F) @ []"
    unfolding c [symmetric] by (simp_all add: dec_raw_def mask_bytes_append i_def I_def F_def)
  have "i div 9 \<le> 28" "s div 9 \<le> 28" using assms(3) i(2) by auto
  then have fixe: "fix_intg_frac_error 128 (int (i div 9) + of_bool (int (i mod 9) > 0))
      (int (s div 9) + of_bool (int (s mod 9) > 0)) =
    (int (i div 9) + of_bool (int (i mod 9) > 0), int (s div 9) + of_bool (int (s mod 9) > 0), E_DEC_OK)"
    by (simp add: fix_intg_frac_error_def)
  have b128: "replicate 128 (0 :: int) = 0 # replicate 127 0" by (simp add: numeral_eq_Suc)
  have "i div 9 \<le> length (replicate 127 (0 :: int))" using \<open>i div 9 \<le> 28\<close> by simp
  from intg_part [OF I this, of "[]" neg "mask_bytes neg (dec_frac_bytes s F)" 0]
  obtain b' k0 n0 k D rest where
    lead: "bin_intg_lead (c # cs) ?msk (int (i mod 9)) 0 (replicate 128 0) (int i) =
        Inr (True, b', k0, n0, group_bytes (i mod 9))"
    and ints: "bin_intg_words (c # cs) ?msk (i div 9) (group_bytes (i mod 9)) b' k0 n0 =
        Inr (True, map int (int_words k I) @ rest, k, int D)"
    and len: "length rest + k = 128" "k \<le> Suc (i div 9)" "int_holds I k D"
    unfolding cc(1) [symmetric] b128 [symmetric] by auto
  have "s div 9 < length rest" using len(1,2) \<open>i div 9 \<le> 28\<close> \<open>s div 9 \<le> 28\<close> by linarith
  from frac_part [OF F this, of "mask_bytes neg (dec_int_bytes i I)" neg "[]" "map int (int_words k I)"]
  obtain b'' k'' rest' where
    frac: "bin_frac_words (c # cs) ?msk (s div 9) (group_bytes (i mod 9) + 4 * (i div 9))
        (map int (int_words k I) @ rest) k = Inr (True, b'', k'')"
      "bin_frac_tail (c # cs) ?msk (int (s mod 9)) (group_bytes (i mod 9) + 4 * (i div 9) + 4 * (s div 9)) b'' k'' =
        Inr (True, map int (int_words k I) @ map int (frac_words s F) @ rest')"
    unfolding cc(2) [symmetric] by (auto simp add: dec_int_bytes_def)
  have nE: "nthE ((c XOR 128) # cs) 0 = Inr (c XOR 128)" by (simp add: nthE_def)
  have sg: "of_bool (?msk \<noteq> 0) = (of_bool neg :: int)" by simp
  let ?d = "\<lparr>d_intg = int D, d_frac = int s, d_len = 128, d_sign = of_bool neg,
      d_buf = map int (int_words k I) @ map int (frac_words s F) @ rest'\<rparr>"
  have "bin2decimal (pre @ dec_bytes p s neg n @ post) (length pre) dec_scratch (int p) (int s) = Inr (E_DEC_OK, ?d)"
    unfolding db bin2decimal_def i(1) dv m Let_def pk1 bindE_simps msk bs pk
    by (simp only: nE checkE_simps of_nat_0_le_iff bindE_simps fl dec_scratch_def decimal_t.simps fixe prod.case
        simp_thms if_False if_True nat_int add_0_left e lead ints frac sg)
  moreover have "holds ?d neg I s F"
    using F len(3) by (auto simp add: holds_def int_holds_def)
  ultimately show ?thesis unfolding I_def F_def by blast
qed


subsection \<open>The cell\<close>

lemma ucast_u32_of_nat_u8: "(ucast (of_nat n :: u32) :: u8) = of_nat n"
  by (simp add: word_unat_eq_iff unsigned_ucast_eq unat_of_nat take_bit_eq_mod mod_mod_cancel)

lemma length_dec_text:
  assumes "s \<le> p" "n < 10 ^ p"
  shows "length (dec_text neg s n) \<le> p + 3"
proof -
  have "n < 10 ^ s * 10 ^ (p - s)" using assms by (simp flip: power_add)
  then have "n div 10 ^ s < 10 ^ (p - s)" by (simp add: less_mult_imp_div_less mult.commute)
  then have "length (dec_digits (n div 10 ^ s)) \<le> max 1 (p - s)"
    using length_dec_digits_le [of "n div 10 ^ s" "p - s"] by (cases "p - s = 0") (simp_all add: dec_digits.simps)
  then show ?thesis using assms(1) by (auto simp add: dec_text_def)
qed

lemma digit_nonzero: "k < 10 \<Longrightarrow> 48 + of_nat k \<noteq> (0 :: u8)"
proof -
  assume "k < 10"
  then have "unat (of_nat (48 + k) :: u8) = 48 + k" by (simp only: unat_u8_of_nat) simp
  then show ?thesis by (metis add_gr_0 less_irrefl of_nat_add of_nat_numeral unsigned_0 zero_less_numeral)
qed

lemma padded_nonzero: "0 \<notin> set (padded w n)"
  by (induction w arbitrary: n) (use digit_nonzero in \<open>auto simp add: eq_commute [of 0]\<close>)

lemma dec_text_nonzero: "0 \<notin> set (dec_text neg s n)"
  using padded_nonzero [of s] padded_nonzero [of "length (dec_digits (n div 10 ^ s))" "n div 10 ^ s"]
  unfolding dec_digits_self(2) by (auto simp add: dec_text_def)

lemma NEWDECIMAL_cell:
  fixes p s :: nat
  assumes "s \<le> p" "0 < p" "p < 256" "n < 10 ^ p"
    and ev: "ev = pre @ dec_bytes p s neg n @ post" "ec = \<lparr>ec_ev = ev, ec_cur = length pre\<rparr>"
    and meta: "drop_bit 8 meta = of_nat p" "meta AND 255 = (of_nat s :: u32)"
  shows "cell_NEWDECIMAL meta ec = bindE (advance (length (dec_bytes p s neg n)) ec) (\<lambda>ec.
    Inr (string_cell BL_MYSQL_TYPE_NEWDECIMAL (dec_text neg s n), ec))"
proof -
  define out where "out = dec_text neg s n"
  have len: "length out < 512" using length_dec_text [OF assms(1,4), of neg] assms(3) by (simp add: out_def)
  have u: "uint (ucast (of_nat x :: u32) :: u8) = int x" if "x < 256" for x
    using that by (simp only: ucast_u32_of_nat_u8 uint_nat unat_u8_of_nat mod_less)
  have pd: "uint (ucast (drop_bit 8 meta) :: u8) = int p" "uint (ucast (meta AND 255) :: u8) = int s"
    unfolding meta using assms(1,3) by (simp_all only: u)
  obtain d where d: "bin2decimal ev (length pre) dec_scratch (int p) (int s) = Inr (E_DEC_OK, d)"
    "holds d neg (n div 10 ^ s) s (n mod 10 ^ s)"
    using bin2decimal_parts [OF assms(1,2) _ assms(4), of pre neg post] assms(3) unfolding ev(1) by auto
  have "n div 10 ^ s * 10 ^ s + n mod 10 ^ s = n" by (rule div_mult_mod_eq)
  then have str: "decimal2string d (replicate 512 0) 512 0 0 0 =
      Inr (E_DEC_OK, out @ replicate (512 - length out) 0, int (length out))"
    using decimal2string_holds [OF d(2)] len unfolding out_def by simp
  obtain k where k: "512 - length out = Suc k" using len by (cases "512 - length out") simp_all
  have nul: "putZ (out @ replicate (512 - length out) 0) (int (length out)) [0] = Inr (out @ 0 # replicate k 0)"
    unfolding k by (simp add: putZ_def poke_def)
  have cs: "cstring_at (out @ 0 # replicate k 0) 0 = Inr out"
    using cstring_at_append [of 0 "[]" out "replicate k 0"] dec_text_nonzero by (simp add: out_def)
  have sz: "decimal_bin_size (int p) (int s) = Inr (int (length (dec_bytes p s neg n)))"
    unfolding length_dec_bytes [OF dec_raw_pos [OF assms(1,2)]] by (rule decimal_bin_size_raw [OF assms(1)])
  show ?thesis
    unfolding cell_NEWDECIMAL_def Let_def pd ev(2) EventCursor.select_convs dec_scratch_def [symmetric] d(1) bindE_simps
      prod.case sz simp_thms if_False str nul cs nat_int string_cell_def out_def [symmetric] ..
qed

end
