(* ===== verification/CellFormat.thy ===== *)
theory CellFormat
  imports LogEvent DecimalFormat
begin

text \<open>
  The column format of MySQL row images, written as an encoder, and the proof that
  \<open>value2Cell\<close> decodes it. A \<open>col_val\<close> is a value of a column together with what the table
  map says about the column; \<open>col_type\<close> and \<open>col_meta\<close> are the type byte and metadata the
  server sends, \<open>col_bytes\<close> the bytes in the row image and \<open>col_cell\<close> the cell a client
  should see. Two kinds of values are not decoded to that cell (\<open>misread\<close>): a negative TIME and
  the year 0000; \<open>misread_cell\<close> is what the client sees instead.
\<close>

subsection \<open>Type bytes and blocks\<close>

lemma field_type_of_code [simp]: "field_type_of (field_type_code t) = Some t"
  by (cases t) (simp_all add: field_type_of_def all_field_types_def)

lemma field_type_of_Some: "field_type_of b = Some t \<Longrightarrow> b = field_type_code t"
  by (auto simp add: field_type_of_def find_Some_iff)

lemma malloc_copy_exact [simp]: "length bs = n \<Longrightarrow> malloc_copy n bs = Inr bs"
  by (simp add: malloc_copy_def poke_def)

subsection \<open>Two-byte metadata\<close>

definition meta2 :: "nat \<Rightarrow> nat \<Rightarrow> u16" where
  "meta2 hi lo = of_nat (256 * hi + lo)"

lemma meta2_bound: "hi < 256 \<Longrightarrow> lo < 256 \<Longrightarrow> 256 * hi + lo < (65536 :: nat)"
  by linarith

lemma unat_ucast_u16_u32 [simp]: "unat (ucast (w :: u16) :: u32) = unat w"
proof -
  have "unat w < 2 ^ 32" using unsigned_less [of w] by (rule order.strict_trans) simp
  then show ?thesis by (simp only: unsigned_ucast_eq) (simp add: take_bit_nat_eq_self)
qed

lemma unat_ucast_u8_u32 [simp]: "unat (ucast (w :: u8) :: u32) = unat w"
proof -
  have "unat w < 2 ^ 32" using unsigned_less [of w] by (rule order.strict_trans) simp
  then show ?thesis by (simp only: unsigned_ucast_eq) (simp add: take_bit_nat_eq_self)
qed

lemma unat_meta2:
  assumes "hi < 256" "lo < 256"
  shows "unat (meta2 hi lo) = 256 * hi + lo"
  unfolding meta2_def
  using meta2_bound [OF assms] by (subst unat_of_nat) simp

lemma word_AND_255: "(w :: u32) AND 255 = of_nat (unat w mod 256)"
proof -
  have "w AND 255 = take_bit 8 w" by (simp add: take_bit_eq_mask mask_eq_exp_minus_1)
  also have "\<dots> = of_nat (unat w mod 256)"
    by (simp add: word_unat_eq_iff unsigned_take_bit_eq take_bit_eq_mod unat_of_nat unat_mod)
  finally show ?thesis .
qed

lemma word_drop_8: "drop_bit 8 (w :: u32) = of_nat (unat w div 256)"
proof -
  have "unat w < 2 ^ 32" by (rule order.strict_trans2 [OF unsigned_less]) simp
  then have "unat w div 256 < 2 ^ 32" by (rule le_less_trans [OF div_le_dividend])
  then have "unat (of_nat (unat w div 256) :: u32) = unat w div 256" by (simp add: unat_of_nat)
  moreover have "unat (drop_bit 8 w) = unat w div 256"
    by (simp add: drop_bit_eq_div unat_div)
  ultimately show ?thesis by (simp only: word_unat_eq_iff)
qed

lemma meta2_hi:
  "hi < 256 \<Longrightarrow> lo < 256 \<Longrightarrow> drop_bit 8 (ucast (meta2 hi lo) :: u32) = of_nat hi"
  by (simp only: word_drop_8 unat_ucast_u16_u32 unat_meta2) simp

lemma meta2_lo:
  "hi < 256 \<Longrightarrow> lo < 256 \<Longrightarrow> (ucast (meta2 hi lo) :: u32) AND 255 = of_nat lo"
  by (simp only: word_AND_255 unat_ucast_u16_u32 unat_meta2) simp

lemma u32_ge_256: "n < 2 ^ 32 \<Longrightarrow> (of_nat n :: u32) \<ge> 256 \<longleftrightarrow> n \<ge> 256"
  by (simp add: word_le_nat_alt unat_of_nat)

definition pack_char_meta :: "nat \<Rightarrow> u16" where
  "pack_char_meta n = meta2 (254 XOR 16 * (n div 256)) (n mod 256)"

lemma pack_char_meta_real_type:
  assumes "n < 1024"
  shows "string_real_type 254 (ucast (pack_char_meta n)) = (254, of_nat n)"
proof -
  define r where "r = n mod 256"
  have r: "r < 256" by (simp add: r_def)
  have ge: "(ucast (meta2 h r) :: u32) \<ge> 256" if "h < 256" "h > 0" for h
    using that unat_meta2 [OF that(1) r] by (simp add: word_le_nat_alt)
  have u: "unat (of_nat r :: u8) = r" "(ucast (of_nat r :: u8) :: u32) = of_nat r"
    using r unat_ucast_u8_u32 [of "of_nat r"]
    by (simp_all add: unat_of_nat word_unat_eq_iff del: unat_ucast_u8_u32)
  have lt: "n div 256 < 4" using assms by auto
  then have q: "n div 256 = 0 \<or> n div 256 = 1 \<or> n div 256 = 2 \<or> n div 256 = 3" by linarith
  have n: "n = 256 * (n div 256) + r" by (simp add: r_def)
  have m: "(256 * k + r) mod 256 = r" for k using r by simp
  have o: "(of_nat r :: u32) OR c = c + of_nat r" if "c AND 255 = 0" for c :: u32
  proof -
    have "unat (of_nat r :: u32) = r" using r by (simp add: unat_of_nat)
    then have a: "(of_nat r :: u32) AND 255 = of_nat r" using r by (simp only: word_AND_255) simp
    have "(of_nat r :: u32) AND c = (of_nat r AND 255) AND c" by (simp only: a)
    also have "\<dots> = of_nat r AND (c AND 255)" by (simp only: ac_simps)
    finally have "(of_nat r :: u32) AND c = 0" using that by simp
    from disjunctive_add_eq_or [OF this] show ?thesis by (simp only: add.commute)
  qed
  from q show ?thesis
    using n r ge [of 254] ge [of 238] ge [of 222] ge [of 206] m [of 1] m [of 2] m [of 3]
      u(2) o [of 256] o [of 512] o [of 768]
    by (elim disjE) (simp_all add: string_real_type_def pack_char_meta_def meta2_hi meta2_lo
        Let_def ucast_u32_of_nat_u8 u flip: r_def)
qed

subsection \<open>Decimal texts\<close>

lemma sint_ucast_u64: 
  assumes "unat (w :: u64) < 2147483648"
  shows "sint (ucast w :: u32) = int (unat w)"
proof -
  have "sint (ucast w :: u32) = signed_take_bit 31 (int (unat w))"
    by (simp add: signed_ucast_eq)
  also have "\<dots> = int (unat w)" 
  proof (rule signed_take_bit_int_eq_self)
    show "- (2 ^ 31) \<le> int (unat w)" by (rule order.trans [of _ 0]) simp_all
    have "int (unat w) < int 2147483648" using assms by (simp only: of_nat_less_iff)
    then show "int (unat w) < 2 ^ 31" by simp
  qed
  finally show ?thesis .
qed

lemma base100:
  assumes "(M :: nat) < 100" "D < 100"
  shows "((Y * 100 + M) * 100 + D) div 10000 = Y"
    "((Y * 100 + M) * 100 + D) mod 10000 div 100 = M"
    "((Y * 100 + M) * 100 + D) mod 100 = D"
proof -
  have n: "(Y * 100 + M) * 100 + D = (M * 100 + D) + Y * 10000" by simp
  have r: "M * 100 + D < 10000" using assms by linarith
  show "((Y * 100 + M) * 100 + D) div 10000 = Y"
    unfolding n using r by simp
  have "((Y * 100 + M) * 100 + D) mod 10000 = M * 100 + D"
    unfolding n using r by simp
  then show "((Y * 100 + M) * 100 + D) mod 10000 div 100 = M" using assms by simp
  show "((Y * 100 + M) * 100 + D) mod 100 = D" using assms by (simp only: mod_mult_self3) simp
qed

lemma datetime_text_digits:
  assumes "Y < 10000" "M < 100" "D < 100" "h < 100" "m < 100" "s < 100"
  shows "datetime_text (of_nat (((Y * 100 + M) * 100 + D) * 1000000 + (h * 100 + m) * 100 + s)) =
    padded 4 Y @ [45] @ padded 2 M @ [45] @ padded 2 D @ [32] @
    padded 2 h @ [58] @ padded 2 m @ [58] @ padded 2 s"
proof -
  define d t where "d = (Y * 100 + M) * 100 + D" and "t = (h * 100 + m) * 100 + s"
  have b: "d < 100000000" "t < 1000000" using assms by (simp_all add: d_def t_def)
  define v :: u64 where "v = of_nat (d * 1000000 + t)"
  have "d * 1000000 + t < 18446744073709551616" using b by linarith
  then have v: "unat v = d * 1000000 + t"
    by (simp only: v_def unat_of_nat) simp
  have "unat (v div 1000000) = d" "unat (v mod 1000000) = t"
    using b by (simp_all add: unat_div unat_mod v)
  then have dt: "sint (ucast (v div 1000000) :: u32) = int d" "sint (ucast (v mod 1000000) :: u32) = int t"
    using b sint_ucast_u64 [of "v div 1000000"] sint_ucast_u64 [of "v mod 1000000"] by simp_all
  have d: "d div 10000 = Y" "d mod 10000 div 100 = M" "d mod 100 = D"
    and t: "t div 10000 = h" "t mod 10000 div 100 = m" "t mod 100 = s"
    unfolding d_def t_def using assms by (simp_all only: base100)
  have vd: "of_nat (((Y * 100 + M) * 100 + D) * 1000000 + (h * 100 + m) * 100 + s) = v"
    by (simp only: v_def d_def t_def add.assoc)
  show ?thesis
    unfolding vd datetime_text_def dt Let_def sdiv_int_numeral smod_int_numeral d t
    using assms by (simp add: fmt0_padded)
qed

lemma unat_and_mask: "unat ((w :: 'a::len word) AND mask n) = unat w mod 2 ^ n"
proof -
  have "w AND mask n = take_bit n w" by (simp only: take_bit_eq_mask)
  then show ?thesis by (simp only: unsigned_take_bit_eq) (simp add: take_bit_eq_mod)
qed

lemma unat_drop_bit: "unat (drop_bit n (w :: u32)) = unat w div 2 ^ n"
  by (metis drop_bit_eq_div unsigned_drop_bit_eq take_bit_nat_eq_self unsigned_less)

lemma uint_of_nat_parts:
  assumes "unat (v :: u32) = n"
  shows "uint v = int n" "uint (v div 10000) = int (n div 10000)"
    "uint (v mod 10000 div 100) = int (n mod 10000 div 100)" "uint (v mod 100) = int (n mod 100)"
  using assms by (simp_all only: uint_nat unat_div unat_mod) simp_all

lemma time_text_digits:
  assumes "h < 1000" "m < 100" "s < 100"
  shows "time_text (of_nat ((h * 100 + m) * 100 + s)) =
    [39] @ padded (if h < 100 then 2 else 3) h @ [58] @ padded 2 m @ [58] @ padded 2 s @ [39]"
proof -
  define n where "n = (h * 100 + m) * 100 + s"
  have "n < 10000000" using assms by (simp add: n_def)
  then have v: "unat (of_nat n :: u32) = n" by (simp add: unat_of_nat)
  have "fmt0 2 (int h) = padded (if h < 100 then 2 else 3) h"
  proof (cases "h < 100")
    case True
    then show ?thesis using fmt0_padded [of h 2] by simp
  next
    case False
    then have "fmt0 2 (int h) = padded (Suc 2) h"
      using assms(1) by (intro fmt0_wide) simp_all
    moreover have "Suc 2 = (3 :: nat)" by simp
    ultimately show ?thesis using False by (simp only: if_False)
  qed
  then show ?thesis
    unfolding n_def [symmetric] time_text_def uint_of_nat_parts [OF v]
    unfolding n_def base100 [OF assms(2,3)]
    using assms by (simp add: fmt0_padded)
qed

definition date_num :: "nat \<Rightarrow> nat \<Rightarrow> nat \<Rightarrow> nat" where
  "date_num y m d = (y * 16 + m) * 32 + d"

lemma date_num_parts:
  assumes "m < 16" "d < 32"
  shows "date_num y m d div 512 = y" "date_num y m d div 32 mod 16 = m" "date_num y m d mod 32 = d"
proof -
  have "date_num y m d div 32 = y * 16 + m" using assms by (simp add: date_num_def)
  moreover have "date_num y m d div 512 = date_num y m d div 32 div 16"
    by (simp add: div_mult2_eq [symmetric])
  ultimately show "date_num y m d div 512 = y" "date_num y m d div 32 mod 16 = m"
    using assms by simp_all
  show "date_num y m d mod 32 = d" using assms unfolding date_num_def by (simp only: mod_mult_self3) simp
qed

lemma date_text_digits:
  assumes "y < 10000" "m < 16" "d < 32"
  shows "date_text (of_nat (date_num y m d)) =
    padded 4 y @ [45] @ padded 2 m @ [45] @ padded 2 d"
proof -
  have "date_num y m d < 5120000" using assms by (simp add: date_num_def)
  then have v: "unat (of_nat (date_num y m d) :: u32) = date_num y m d" by (simp add: unat_of_nat)
  have "int (date_num y m d) div (16 * 32) = int (date_num y m d div 512)"
    "int (date_num y m d) div 32 mod 16 = int (date_num y m d div 32 mod 16)"
    "int (date_num y m d) mod 32 = int (date_num y m d mod 32)"
    by (simp_all add: zdiv_int zmod_int)
  then have "int (date_num y m d) div (16 * 32) = int y"
    "int (date_num y m d) div 32 mod 16 = int m" "int (date_num y m d) mod 32 = int d"
    by (simp_all only: date_num_parts [OF assms(2,3)])
  then show ?thesis
    unfolding date_text_def uint_of_nat_parts [OF v] using assms by (simp add: fmt0_padded)
qed

lemma newdate_text_digits:
  assumes "y < 10000" "m < 16" "d < 32"
  shows "newdate_text (of_nat (date_num y m d)) =
    padded 4 y @ [58] @ padded 2 m @ [58] @ padded 2 d"
proof -
  define v where "v = (of_nat (date_num y m d) :: u32)"
  have "date_num y m d < 5120000" using assms by (simp add: date_num_def)
  then have v: "unat v = date_num y m d" by (simp add: v_def unat_of_nat)
  have e: "(31 :: u32) = mask 5" "(15 :: u32) = mask 4" by (simp_all add: mask_eq_exp_minus_1)
  have "uint (v AND 31) = int d" "uint (drop_bit 5 v AND 15) = int m" "uint (drop_bit 9 v) = int y"
    using date_num_parts [OF assms(2,3), of y]
    by (simp_all only: uint_nat e unat_and_mask unat_drop_bit v) simp_all
  then have "newdate_text v =
      [48 + of_int (int y div 10 div 10 div 10), 48 + of_int (int y div 10 div 10 mod 10),
       48 + of_int (int y div 10 mod 10), 48 + of_int (int y mod 10), 58,
       48 + of_int (int m div 10), 48 + of_int (int m mod 10), 58,
       48 + of_int (int d div 10), 48 + of_int (int d mod 10)]"
    by (simp only: newdate_text_def Let_def append_Cons append_Nil)
  moreover have "padded 4 y =
      [48 + of_nat (y div 10 div 10 div 10), 48 + of_nat (y div 10 div 10 mod 10),
       48 + of_nat (y div 10 mod 10), 48 + of_nat (y mod 10)]"
  proof -
    have "y div 10 div 10 div 10 mod 10 = y div 10 div 10 div 10" using assms by auto
    moreover have "(4 :: nat) = Suc (Suc (Suc (Suc 0)))" by simp
    ultimately show ?thesis by (simp only: padded.simps append_Cons append_Nil)
  qed
  moreover have "padded 2 k = [48 + of_nat (k div 10), 48 + of_nat (k mod 10)]" if "k < 100" for k
  proof -
    have "k div 10 mod 10 = k div 10" using that by auto
    moreover have "(2 :: nat) = Suc (Suc 0)" by simp
    ultimately show ?thesis by (simp only: padded.simps append_Cons append_Nil)
  qed
  moreover have "(of_int (int k div 10) :: u8) = of_nat (k div 10)"
    "(of_int (int k mod 10) :: u8) = of_nat (k mod 10)"
    "(of_int (int k div 10 mod 10) :: u8) = of_nat (k div 10 mod 10)"
    "(of_int (int k div 10 div 10 mod 10) :: u8) = of_nat (k div 10 div 10 mod 10)"
    "(of_int (int k div 10 div 10 div 10) :: u8) = of_nat (k div 10 div 10 div 10)" for k
    by (simp_all only: of_int_of_nat_eq [symmetric, where 'a = u8] zdiv_int zmod_int of_nat_numeral)
  moreover have "m < 100" "d < 100" using assms by simp_all
  ultimately show ?thesis
    unfolding v_def [symmetric] by (simp only: append_Cons append_Nil)
qed

subsection \<open>Column values and their encoding\<close>

datatype col_val =
    VLong u32 | VTiny u8 | VShort u16 | VLongLong u64 | VInt24 int | VTimestamp u32
  | VDatetime nat nat nat nat nat nat
  | VTime bool nat nat nat
  | VNewDate nat nat nat
  | VDate nat nat nat
  | VYear nat
  | VEnum u8
  | VBlob nat "u8 list"
  | VVarchar nat "u8 list"
  | VChar nat "u8 list"
  | VBit nat nat "u8 list"
  | VFloat "u8 list"
  | VDouble "u8 list"
  | VDecimal nat nat bool nat

text \<open>
  The values a column can hold. TIME runs from -838:59:59 to 838:59:59, YEAR from 1901 to 2155
  and has the special year 0000.
\<close>

fun col_ok :: "col_val \<Rightarrow> bool" where
  "col_ok (VInt24 i) = (- 8388608 \<le> i \<and> i < 8388608)"
| "col_ok (VDatetime Y M D h m s) = (Y < 10000 \<and> M < 100 \<and> D < 100 \<and> h < 100 \<and> m < 100 \<and> s < 100)"
| "col_ok (VTime neg h m s) = (h < 839 \<and> m < 60 \<and> s < 60 \<and> (neg \<longrightarrow> 0 < h + m + s))"
| "col_ok (VNewDate y m d) = (y < 10000 \<and> m < 16 \<and> d < 32)"
| "col_ok (VDate y m d) = (y < 10000 \<and> m < 16 \<and> d < 32)"
| "col_ok (VYear y) = (y = 0 \<or> 1901 \<le> y \<and> y < 2156)"
| "col_ok (VBlob k bs) = (1 \<le> k \<and> k \<le> 4 \<and> length bs < 256 ^ k)"
| "col_ok (VVarchar n bs) = (n < 65536 \<and> length bs \<le> n)"
| "col_ok (VChar n bs) = (n < 1024 \<and> length bs \<le> n)"
| "col_ok (VBit nbytes nbits bs) =
     (nbytes < 256 \<and> nbits < 8 \<and> length bs = nbytes + of_bool (0 < nbits))"
| "col_ok (VFloat bs) = (length bs = 4)"
| "col_ok (VDouble bs) = (length bs = 8)"
| "col_ok (VDecimal p s neg n) = (0 < p \<and> p < 256 \<and> s \<le> p \<and> n < 10 ^ p)"
| "col_ok _ = True"

fun col_type :: "col_val \<Rightarrow> bl_enum_field_types" where
  "col_type (VLong _) = BL_MYSQL_TYPE_LONG"
| "col_type (VTiny _) = BL_MYSQL_TYPE_TINY"
| "col_type (VShort _) = BL_MYSQL_TYPE_SHORT"
| "col_type (VLongLong _) = BL_MYSQL_TYPE_LONGLONG"
| "col_type (VInt24 _) = BL_MYSQL_TYPE_INT24"
| "col_type (VTimestamp _) = BL_MYSQL_TYPE_TIMESTAMP"
| "col_type (VDatetime _ _ _ _ _ _) = BL_MYSQL_TYPE_DATETIME"
| "col_type (VTime _ _ _ _) = BL_MYSQL_TYPE_TIME"
| "col_type (VNewDate _ _ _) = BL_MYSQL_TYPE_NEWDATE"
| "col_type (VDate _ _ _) = BL_MYSQL_TYPE_DATE"
| "col_type (VYear _) = BL_MYSQL_TYPE_YEAR"
| "col_type (VEnum _) = BL_MYSQL_TYPE_STRING"
| "col_type (VBlob _ _) = BL_MYSQL_TYPE_BLOB"
| "col_type (VVarchar _ _) = BL_MYSQL_TYPE_VARCHAR"
| "col_type (VChar _ _) = BL_MYSQL_TYPE_STRING"
| "col_type (VBit _ _ _) = BL_MYSQL_TYPE_BIT"
| "col_type (VFloat _) = BL_MYSQL_TYPE_FLOAT"
| "col_type (VDouble _) = BL_MYSQL_TYPE_DOUBLE"
| "col_type (VDecimal _ _ _ _) = BL_MYSQL_TYPE_NEWDECIMAL"

text \<open>An \<open>ENUM\<close> is sent as a \<open>STRING\<close> whose metadata names the real type and pack length.\<close>

fun col_meta :: "col_val \<Rightarrow> u16" where
  "col_meta (VEnum _) = meta2 247 1"
| "col_meta (VBlob k _) = of_nat k"
| "col_meta (VVarchar n _) = of_nat n"
| "col_meta (VChar n _) = pack_char_meta n"
| "col_meta (VBit nbytes nbits _) = meta2 nbytes nbits"
| "col_meta (VFloat _) = 4"
| "col_meta (VDouble _) = 8"
| "col_meta (VDecimal p s _ _) = meta2 p s"
| "col_meta _ = 0"

definition len_prefixed :: "nat \<Rightarrow> u8 list \<Rightarrow> u8 list" where
  "len_prefixed k bs = le_bytes k (length bs) @ bs"

text \<open>The number a TIME is packed into; the sign is that of the 24-bit number.\<close>

definition time_num :: "nat \<Rightarrow> nat \<Rightarrow> nat \<Rightarrow> nat" where
  "time_num h m s = (h * 100 + m) * 100 + s"

fun col_bytes :: "col_val \<Rightarrow> u8 list" where
  "col_bytes (VLong v) = le_bytes 4 (unat v)"
| "col_bytes (VTiny v) = [v]"
| "col_bytes (VShort v) = le_bytes 2 (unat v)"
| "col_bytes (VLongLong v) = le_bytes 8 (unat v)"
| "col_bytes (VInt24 i) = le_bytes 3 (nat (i mod 16777216))"
| "col_bytes (VTimestamp v) = le_bytes 4 (unat v)"
| "col_bytes (VDatetime Y M D h m s) =
     le_bytes 8 (((Y * 100 + M) * 100 + D) * 1000000 + (h * 100 + m) * 100 + s)"
| "col_bytes (VTime neg h m s) =
     le_bytes 3 (if neg then 16777216 - time_num h m s else time_num h m s)"
| "col_bytes (VNewDate y m d) = le_bytes 3 (date_num y m d)"
| "col_bytes (VDate y m d) = le_bytes 3 (date_num y m d)"
| "col_bytes (VYear y) = [if y = 0 then 0 else of_nat (y - 1900)]"
| "col_bytes (VEnum v) = [v]"
| "col_bytes (VBlob k bs) = len_prefixed k bs"
| "col_bytes (VVarchar n bs) = len_prefixed (if n < 256 then 1 else 2) bs"
| "col_bytes (VChar n bs) = len_prefixed (if n < 256 then 1 else 2) bs"
| "col_bytes (VBit _ _ bs) = bs"
| "col_bytes (VFloat bs) = bs"
| "col_bytes (VDouble bs) = bs"
| "col_bytes (VDecimal p s neg n) = dec_bytes p s neg n"

fun col_cell :: "col_val \<Rightarrow> Cell" where
  "col_cell (VLong v) = mk_cell INT32 BL_MYSQL_TYPE_LONG 4 (le_bytes 4 (unat v))"
| "col_cell (VTiny v) = mk_cell INT8 BL_MYSQL_TYPE_TINY 1 [v]"
| "col_cell (VShort v) = mk_cell INT16 BL_MYSQL_TYPE_SHORT 2 (le_bytes 2 (unat v))"
| "col_cell (VLongLong v) = mk_cell INT64 BL_MYSQL_TYPE_LONGLONG 8 (le_bytes 8 (unat v))"
| "col_cell (VInt24 i) =
     mk_cell INT32 BL_MYSQL_TYPE_INT24 4 (le_bytes 4 (nat (i mod 4294967296)))"
| "col_cell (VTimestamp v) = mk_cell UINT32 BL_MYSQL_TYPE_TIMESTAMP 4 (le_bytes 4 (unat v))"
| "col_cell (VDatetime Y M D h m s) = string_cell BL_MYSQL_TYPE_DATETIME
     (padded 4 Y @ [45] @ padded 2 M @ [45] @ padded 2 D @ [32] @
      padded 2 h @ [58] @ padded 2 m @ [58] @ padded 2 s)"
| "col_cell (VTime neg h m s) = string_cell BL_MYSQL_TYPE_TIME
     ([39] @ (if neg then [45] else []) @ padded (if h < 100 then 2 else 3) h @ [58] @ padded 2 m @ [58] @ padded 2 s @ [39])"
| "col_cell (VNewDate y m d) = string_cell BL_MYSQL_TYPE_NEWDATE
     (padded 4 y @ [58] @ padded 2 m @ [58] @ padded 2 d)"
| "col_cell (VDate y m d) = string_cell BL_MYSQL_TYPE_DATE
     (padded 4 y @ [45] @ padded 2 m @ [45] @ padded 2 d)"
| "col_cell (VYear y) = string_cell BL_MYSQL_TYPE_YEAR (padded 4 y)"
| "col_cell (VEnum v) = mk_cell INT32 BL_MYSQL_TYPE_ENUM 4 (le_bytes 4 (unat v))"
| "col_cell (VBlob k bs) = mk_cell BINARY BL_MYSQL_TYPE_BLOB (length bs) bs"
| "col_cell (VVarchar n bs) = mk_cell STRING BL_MYSQL_TYPE_VARCHAR (length bs) (bs @ [0])"
| "col_cell (VChar n bs) = mk_cell STRING BL_MYSQL_TYPE_STRING (length bs) (bs @ [0])"
| "col_cell (VBit _ _ bs) = mk_cell BINARY BL_MYSQL_TYPE_BIT (length bs) bs"
| "col_cell (VFloat bs) = mk_cell FLOAT BL_MYSQL_TYPE_FLOAT 4 bs"
| "col_cell (VDouble bs) = mk_cell DOUBLE BL_MYSQL_TYPE_DOUBLE 8 bs"
| "col_cell (VDecimal p s neg n) = string_cell BL_MYSQL_TYPE_NEWDECIMAL (dec_text neg s n)"

text \<open>
  A TIME is read as an unsigned number (\<open>logevent.c:266\<close>), so a negative one is shown as
  \<open>2^24\<close> minus its magnitude, and 1900 is added to the year 0000 too (\<open>logevent.c:326\<close>).
\<close>

fun misread :: "col_val \<Rightarrow> bool" where
  "misread (VTime neg _ _ _) = neg"
| "misread (VYear y) = (y = 0)"
| "misread _ = False"

fun misread_cell :: "col_val \<Rightarrow> Cell" where
  "misread_cell (VTime _ h m s) =
     (let n = 16777216 - time_num h m s
      in string_cell BL_MYSQL_TYPE_TIME
           ([39] @ padded (if n < 10000000 then 3 else 4) (n div 10000) @ [58] @
            padded 2 (n mod 10000 div 100) @ [58] @ padded 2 (n mod 100) @ [39]))"
| "misread_cell (VYear _) = string_cell BL_MYSQL_TYPE_YEAR (padded 4 1900)"
| "misread_cell v = col_cell v"

definition decoded_cell :: "col_val \<Rightarrow> Cell" where
  "decoded_cell v = (if misread v then misread_cell v else col_cell v)"

lemma decoded_cell_right: "\<not> misread v \<Longrightarrow> decoded_cell v = col_cell v"
  by (simp add: decoded_cell_def)

subsection \<open>Each case decodes its encoding\<close>

lemma of_nat_unat_le [simp]:
  "of_nat (le_val (le_bytes 4 (unat (v :: u32)))) = v"
  "of_nat (le_val (le_bytes 2 (unat (w :: u16)))) = w"
  "of_nat (le_val (le_bytes 8 (unat (x :: u64)))) = x"
proof -
  have "unat v < 256 ^ 4" "unat w < 256 ^ 2" "unat x < 256 ^ 8"
    using unsigned_less [of v, where 'a = nat] unsigned_less [of w, where 'a = nat]
      unsigned_less [of x, where 'a = nat] by simp_all
  then show "of_nat (le_val (le_bytes 4 (unat v))) = v"
    "of_nat (le_val (le_bytes 2 (unat w))) = w" "of_nat (le_val (le_bytes 8 (unat x))) = x"
    by (simp_all only: le_val_le_bytes_id) simp_all
qed

lemma fixed_width_cells:
  "at_bytes ec (le_bytes 4 (unat v)) \<Longrightarrow> cell_LONG ec = Inr (col_cell (VLong v), skip 4 ec)"
  "at_bytes ec [b] \<Longrightarrow> cell_TINY ec = Inr (col_cell (VTiny b), skip 1 ec)"
  "at_bytes ec (le_bytes 2 (unat w)) \<Longrightarrow> cell_SHORT ec = Inr (col_cell (VShort w), skip 2 ec)"
  "at_bytes ec (le_bytes 8 (unat x)) \<Longrightarrow>
     cell_LONGLONG ec = Inr (col_cell (VLongLong x), skip 8 ec)"
  "at_bytes ec (le_bytes 4 (unat v)) \<Longrightarrow>
     cell_TIMESTAMP ec = Inr (col_cell (VTimestamp v), skip 4 ec)"
  "at_bytes ec bs \<Longrightarrow> length bs = 4 \<Longrightarrow> cell_FLOAT ec = Inr (col_cell (VFloat bs), skip 4 ec)"
  "at_bytes ec bs \<Longrightarrow> length bs = 8 \<Longrightarrow> cell_DOUBLE ec = Inr (col_cell (VDouble bs), skip 8 ec)"
  by (simp_all add: cell_LONG_def cell_TINY_def cell_SHORT_def cell_LONGLONG_def
      cell_TIMESTAMP_def cell_FLOAT_def cell_DOUBLE_def read_at readBytes_at)

lemma le_val_le_bytes_3: "n < 16777216 \<Longrightarrow> le_val (le_bytes 3 n) = n"
  by (simp add: le_val_le_bytes_id)

lemma INT24_cell:
  assumes "at_bytes ec (col_bytes (VInt24 i))" "- 8388608 \<le> i" "i < 8388608"
  shows "cell_INT24 ec = Inr (col_cell (VInt24 i), skip 3 ec)"
proof -
  define n where "n = nat (i mod 16777216)"
  have n: "int n = (if 0 \<le> i then i else i + 16777216)"
  proof (cases "0 \<le> i")
    case True
    then have "i mod 16777216 = i" using assms by (intro mod_pos_pos_trivial) simp_all
    with True show ?thesis by (simp add: n_def)
  next
    case False
    then have "(i + 16777216) mod 16777216 = i + 16777216"
      using assms by (intro mod_pos_pos_trivial) simp_all
    then have "i mod 16777216 = i + 16777216" by simp
    with False assms show ?thesis by (simp add: n_def)
  qed
  then have "n < 16777216" using assms by (simp split: if_splits)
  then have l: "le_val (le_bytes 3 n) = n" by (rule le_val_le_bytes_3)
  have "sint (int24_of (le_bytes 3 n)) = (if n < 2 ^ 23 then int n else int n - 2 ^ 24)"
    using int24_of_sint [of "le_bytes 3 n"] by (simp only: l length_le_bytes)
  also have "\<dots> = i" using n assms by (cases "0 \<le> i") simp_all
  finally have si: "sint (int24_of (le_bytes 3 n)) = i" .
  have "int24_of (le_bytes 3 n) = of_int (sint (int24_of (le_bytes 3 n)))" by simp
  then have "int24_of (le_bytes 3 n) = of_int i" by (simp only: si)
  then have "unat (int24_of (le_bytes 3 n)) = nat (i mod 4294967296)"
    by (simp add: unat_eq_nat_uint uint_word_of_int)
  with assms(1) show ?thesis by (simp add: cell_INT24_def read_at flip: n_def)
qed

lemma temporal_cells:
  "at_bytes ec (col_bytes (VDatetime Y M D h m s)) \<Longrightarrow> col_ok (VDatetime Y M D h m s) \<Longrightarrow>
     cell_DATETIME ec = Inr (col_cell (VDatetime Y M D h m s), skip 8 ec)"
  "at_bytes ec (col_bytes (VTime neg h m s)) \<Longrightarrow> col_ok (VTime neg h m s) \<Longrightarrow>
     cell_TIME ec = Inr (decoded_cell (VTime neg h m s), skip 3 ec)"
  "at_bytes ec (col_bytes (VNewDate y mo d)) \<Longrightarrow> col_ok (VNewDate y mo d) \<Longrightarrow>
     cell_NEWDATE ec = Inr (col_cell (VNewDate y mo d), skip 3 ec)"
  "at_bytes ec (col_bytes (VDate y mo d)) \<Longrightarrow> col_ok (VDate y mo d) \<Longrightarrow>
     cell_DATE ec = Inr (col_cell (VDate y mo d), skip 3 ec)"
  "at_bytes ec (col_bytes (VYear y)) \<Longrightarrow> col_ok (VYear y) \<Longrightarrow>
     cell_YEAR ec = Inr (decoded_cell (VYear y), skip 1 ec)"
proof -
  assume a: "at_bytes ec (col_bytes (VDatetime Y M D h m s))" and b: "col_ok (VDatetime Y M D h m s)"
  have "((Y * 100 + M) * 100 + D) * 1000000 + (h * 100 + m) * 100 + s < 256 ^ 8"
    using b by (simp del: power_Suc)
  with a b show "cell_DATETIME ec = Inr (col_cell (VDatetime Y M D h m s), skip 8 ec)"
    by (simp only: cell_DATETIME_def read_at col_bytes.simps col_ok.simps length_le_bytes
        le_val_le_bytes_id datetime_text_digits col_cell.simps bindE_simps prod.case)
next
  assume a: "at_bytes ec (col_bytes (VTime neg h m s))" and b: "col_ok (VTime neg h m s)"
  define n where "n = (if neg then 16777216 - time_num h m s else time_num h m s)"
  have t: "time_num h m s \<le> 8385959" using b by (simp add: time_num_def)
  moreover have "0 < time_num h m s" if neg using b that by (auto simp add: time_num_def)
  ultimately have n: "n < 16777216" by (auto simp add: n_def)
  have "time_text (of_nat n) = [39] @ (if neg then padded (if n < 10000000 then 3 else 4) (n div 10000)
      else padded (if h < 100 then 2 else 3) h) @ [58] @ padded 2 (n mod 10000 div 100) @ [58] @ padded 2 (n mod 100) @ [39]"
  proof (cases neg)
    case False
    then show ?thesis
      using time_text_digits [of h m s] base100 [of m s h] b by (simp add: n_def time_num_def)
  next
    case True
    then have big: "8391257 \<le> n" using t by (simp add: n_def)
    have "fmt0 2 (int (n div 10000)) = padded (if n < 10000000 then 3 else 4) (n div 10000)"
    proof (cases "n < 10000000")
      case True
      with big have "10 ^ 2 \<le> n div 10000" "n div 10000 < 10 ^ Suc 2" by simp_all
      then have "fmt0 2 (int (n div 10000)) = padded (Suc 2) (n div 10000)"
        by (intro fmt0_wide) simp_all
      moreover have "Suc 2 = (3 :: nat)" by simp
      ultimately show ?thesis using True by (simp only: if_True)
    next
      case False
      then have "10 ^ 3 \<le> n div 10000" "n div 10000 < 10 ^ Suc 3" using n by simp_all
      then have "fmt0 2 (int (n div 10000)) = padded (Suc 3) (n div 10000)"
        by (intro fmt0_wide) simp_all
      moreover have "Suc 3 = (4 :: nat)" by simp
      ultimately show ?thesis using False by (simp only: if_False)
    qed
    moreover have v: "unat (of_nat n :: u32) = n" using n by (simp add: unat_of_nat)
    moreover have "fmt0 2 (int k) = padded 2 k" if "k < 100" for k
      using that by (intro fmt0_padded) simp_all
    moreover have "n mod 10000 div 100 < 100" "n mod 100 < 100" by simp_all
    ultimately show ?thesis
      using True by (simp only: time_text_def uint_of_nat_parts [OF v] if_True append_assoc)
  qed
  then have "string_cell BL_MYSQL_TYPE_TIME (time_text (of_nat n)) = decoded_cell (VTime neg h m s)"
    using base100 [of m s h] b by (auto simp add: decoded_cell_def n_def time_num_def Let_def)
  then show "cell_TIME ec = Inr (decoded_cell (VTime neg h m s), skip 3 ec)"
    using a n unfolding col_bytes.simps n_def [symmetric]
    by (simp only: cell_TIME_def read_at length_le_bytes le_val_le_bytes_3 bindE_simps prod.case)
next
  assume a: "at_bytes ec (col_bytes (VNewDate y mo d))" and b: "col_ok (VNewDate y mo d)"
  have "date_num y mo d < 16777216" using b by (simp add: date_num_def)
  with a b show "cell_NEWDATE ec = Inr (col_cell (VNewDate y mo d), skip 3 ec)"
    by (simp only: cell_NEWDATE_def read_at col_bytes.simps col_ok.simps length_le_bytes
        le_val_le_bytes_3 newdate_text_digits col_cell.simps bindE_simps prod.case)
next
  assume a: "at_bytes ec (col_bytes (VDate y mo d))" and b: "col_ok (VDate y mo d)"
  have "date_num y mo d < 16777216" using b by (simp add: date_num_def)
  with a b show "cell_DATE ec = Inr (col_cell (VDate y mo d), skip 3 ec)"
    by (simp only: cell_DATE_def read_at col_bytes.simps col_ok.simps length_le_bytes
        le_val_le_bytes_3 date_text_digits col_cell.simps bindE_simps prod.case)
next
  assume a: "at_bytes ec (col_bytes (VYear y))" and b: "col_ok (VYear y)"
  define k where "k = (if y = 0 then 0 else y - 1900)"
  have "unat (of_nat k :: u8) = k mod 256" by (rule unat_u8_of_nat)
  moreover have k: "k < 256" using b by (auto simp add: k_def)
  ultimately have "unat (of_nat k :: u8) = k" by (simp only: mod_less)
  then have "uint (of_nat k :: u8) + 1900 = int (k + 1900)" by (simp only: uint_nat)
  moreover have "fmt0 4 (int (k + 1900)) = padded 4 (k + 1900)" using k by (intro fmt0_padded) simp_all
  moreover have "string_cell BL_MYSQL_TYPE_YEAR (padded 4 (k + 1900)) = decoded_cell (VYear y)"
    using b by (auto simp add: decoded_cell_def k_def)
  moreover have "at_bytes ec [of_nat k]" using a by (cases "y = 0") (simp_all add: k_def)
  ultimately show "cell_YEAR ec = Inr (decoded_cell (VYear y), skip 1 ec)"
    by (simp only: cell_YEAR_def read_at bindE_simps prod.case)
qed

lemma le_val_1 [simp]: "le_val [b] = unat b"
  by simp

lemma len_prefix_1: "n < 256 \<Longrightarrow> le_bytes 1 n = [of_nat n] \<and> unat (of_nat n :: u8) = n"
  by (simp add: unat_u8_of_nat)

lemma unat_of_nat_small:
  "n < 65536 \<Longrightarrow> unat (of_nat n :: u16) = n"
  "n < 4294967296 \<Longrightarrow> unat (of_nat n :: u32) = n"
  by (simp_all add: unat_of_nat)

lemma ENUM_cell:
  "at_bytes ec [v] \<Longrightarrow> meta AND 255 = 1 \<Longrightarrow> cell_ENUM meta ec = Inr (col_cell (VEnum v), skip 1 ec)"
  by (simp add: cell_ENUM_def read_at)

lemma BLOB_cell:
  assumes "at_bytes ec (len_prefixed k bs)" "1 \<le> k" "k \<le> 4" "length bs < 256 ^ k"
  shows "cell_BLOB (of_nat k) ec = Inr (col_cell (VBlob k bs), skip (k + length bs) ec)"
proof -
  have at: "at_bytes ec (le_bytes k (length bs))" "at_bytes (skip k ec) bs"
    using assms(1) by (simp_all add: len_prefixed_def at_bytes_append)
  have v: "le_val (le_bytes k (length bs)) = length bs" using assms(4) by (rule le_val_le_bytes_id)
  from assms(2,3) consider "k = 1" | "k = 2" | "k = 3" | "k = 4" by linarith
  then show ?thesis
  proof cases
    case 1
    then have n: "length bs < 256" using assms(4) by simp
    then show ?thesis using 1 at len_prefix_1 [OF n]
      by (simp add: cell_BLOB_def read_at blob_body_def readBytes_at)
  next
    case 2
    then have n: "length bs < 65536" using assms(4) by simp
    with 2 at v show ?thesis
      by (simp add: cell_BLOB_def read_at blob_body_def readBytes_at unat_of_nat_small)
  next
    case 3
    then have n: "length bs < 4294967296" using assms(4) by simp
    with 3 at v show ?thesis
      by (simp add: cell_BLOB_def read_at blob_body_def readBytes_at unat_of_nat_small)
  next
    case 4
    then have n: "length bs < 4294967296" using assms(4) by simp
    with 4 at v show ?thesis
      by (simp add: cell_BLOB_def read_at blob_body_def readBytes_at unat_of_nat_small)
  qed
qed

lemma text_cells:
  assumes "at_bytes ec (len_prefixed (if n < 256 then 1 else 2) bs)" "n < 65536" "length bs \<le> n"
  shows "cell_VARCHAR (of_nat n) ec =
      Inr (col_cell (VVarchar n bs), skip (length (len_prefixed (if n < 256 then 1 else 2) bs)) ec)"
    "cell_STRING (of_nat n) ec =
      Inr (col_cell (VChar n bs), skip (length (len_prefixed (if n < 256 then 1 else 2) bs)) ec)"
proof -
  have lt: "(of_nat n :: u32) < 256 \<longleftrightarrow> n < 256"
    using assms(2) by (simp add: word_less_nat_alt unat_of_nat)
  have "cell_VARCHAR (of_nat n) ec =
      Inr (col_cell (VVarchar n bs), skip (length (len_prefixed (if n < 256 then 1 else 2) bs)) ec)
    \<and> cell_STRING (of_nat n) ec =
      Inr (col_cell (VChar n bs), skip (length (len_prefixed (if n < 256 then 1 else 2) bs)) ec)"
  proof (cases "n < 256")
    case True
    then have n: "length bs < 256" using assms(3) by simp
    have "at_bytes ec ([of_nat (length bs)] @ bs)"
      using assms(1) True by (simp add: len_prefixed_def)
    then have at: "at_bytes ec [of_nat (length bs)]" "at_bytes (skip 1 ec) bs"
      by (simp_all only: at_bytes_append) simp_all
    show ?thesis unfolding cell_VARCHAR_def cell_STRING_def lt
      using True at len_prefix_1 [OF n]
      by (simp add: read_at text_body_def readBytes_at len_prefixed_def)
  next
    case False
    have n: "length bs < 65536" using assms(2,3) by simp
    have at: "at_bytes ec (le_bytes 2 (length bs))" "at_bytes (skip 2 ec) bs"
      using assms(1) False by (simp_all add: len_prefixed_def at_bytes_append)
    have "le_val (le_bytes 2 (length bs)) = length bs" using n by (intro le_val_le_bytes_id) simp
    then show ?thesis unfolding cell_VARCHAR_def cell_STRING_def lt
      using False at unat_of_nat_small(1) [OF n]
      by (simp add: read_at text_body_def readBytes_at len_prefixed_def)
  qed
  then show "cell_VARCHAR (of_nat n) ec =
      Inr (col_cell (VVarchar n bs), skip (length (len_prefixed (if n < 256 then 1 else 2) bs)) ec)"
    "cell_STRING (of_nat n) ec =
      Inr (col_cell (VChar n bs), skip (length (len_prefixed (if n < 256 then 1 else 2) bs)) ec)"
    by blast+
qed

lemma BIT_cell:
  assumes "at_bytes ec bs" "col_ok (VBit nbytes nbits bs)"
  shows "cell_BIT (ucast (meta2 nbytes nbits)) ec =
    Inr (col_cell (VBit nbytes nbits bs), skip (length bs) ec)"
proof -
  have ok: "nbytes < 256" "nbits < 256" "nbits < 8" "length bs = nbytes + of_bool (0 < nbits)"
    using assms(2) by simp_all
  have len: "(nbytes * 8 + nbits + 7) div 8 = length bs"
    using ok by (cases "nbits = 0") simp_all
  have "nbytes * 8 + nbits + 7 < 4294967296" using ok by simp
  then have u: "unat (of_nat (nbytes * 8 + nbits + 7) :: u32) = nbytes * 8 + nbits + 7"
    by (rule unat_of_nat_small)
  have "(of_nat nbytes :: u32) * 8 + of_nat nbits + 7 = of_nat (nbytes * 8 + nbits + 7)" by simp
  then have "unat (((of_nat nbytes :: u32) * 8 + of_nat nbits + 7) div 8) = length bs"
    by (simp only: unat_div u) (simp add: len)
  then show ?thesis using assms(1)
    unfolding cell_BIT_def Let_def meta2_hi [OF ok(1,2)] meta2_lo [OF ok(1,2)]
    by (simp add: readBytes_at)
qed

lemma string_real_type_other: "type \<noteq> 254 \<Longrightarrow> string_real_type type meta = (type, 0)"
  by (simp add: string_real_type_def)

lemma string_real_type_enum: "string_real_type 254 (ucast (meta2 247 lo)) = (247, of_nat lo)"
  if "lo < 256"
proof -
  have "(ucast (meta2 247 lo) :: u32) \<ge> 256"
    using that unat_meta2 [of 247 lo] by (simp add: word_le_nat_alt)
  moreover have "(ucast (of_nat lo :: u8) :: u32) = of_nat lo"
    using that by (simp add: word_unat_eq_iff unat_of_nat)
  ultimately show ?thesis
    using that by (simp add: string_real_type_def meta2_hi meta2_lo Let_def ucast_u32_of_nat_u8)
qed

lemma DECIMAL_cell:
  assumes "at_bytes ec (col_bytes (VDecimal p s neg n))" "col_ok (VDecimal p s neg n)"
  shows "cell_NEWDECIMAL (ucast (meta2 p s)) ec =
    Inr (col_cell (VDecimal p s neg n), skip (length (dec_bytes p s neg n)) ec)"
proof -
  obtain ev cur where ec: "ec = \<lparr>ec_ev = ev, ec_cur = cur\<rparr>" by (cases ec) auto
  have at: "cur + length (dec_bytes p s neg n) \<le> length ev"
    "take (length (dec_bytes p s neg n)) (drop cur ev) = dec_bytes p s neg n"
    using assms(1) by (simp_all add: at_bytes_def ec)
  have "ev = take cur ev @ dec_bytes p s neg n @ drop (length (dec_bytes p s neg n)) (drop cur ev)"
    using append_take_drop_id [of cur ev] append_take_drop_id [of "length (dec_bytes p s neg n)" "drop cur ev"]
    unfolding at(2) by simp
  moreover have "length (take cur ev) = cur" using at(1) by simp
  moreover have "0 < p" "p < 256" "s \<le> p" "s < 256" "n < 10 ^ p" using assms(2) by simp_all
  ultimately show ?thesis
    using NEWDECIMAL_cell [of s p n ev "take cur ev" neg "drop (length (dec_bytes p s neg n)) (drop cur ev)" ec
        "ucast (meta2 p s)"] assms(1)
    by (simp add: ec meta2_hi meta2_lo advance_at)
qed

text \<open>The decoder reads back every well-formed column value and stops right after it.\<close>

lemma value2Cell_dispatch:
  "type \<noteq> BL_MYSQL_TYPE_STRING \<Longrightarrow>
   value2Cell ec (field_type_code type) meta =
     (case type of
        BL_MYSQL_TYPE_LONG \<Rightarrow> cell_LONG ec | BL_MYSQL_TYPE_TINY \<Rightarrow> cell_TINY ec
      | BL_MYSQL_TYPE_SHORT \<Rightarrow> cell_SHORT ec | BL_MYSQL_TYPE_LONGLONG \<Rightarrow> cell_LONGLONG ec
      | BL_MYSQL_TYPE_INT24 \<Rightarrow> cell_INT24 ec | BL_MYSQL_TYPE_TIMESTAMP \<Rightarrow> cell_TIMESTAMP ec
      | BL_MYSQL_TYPE_DATETIME \<Rightarrow> cell_DATETIME ec | BL_MYSQL_TYPE_TIME \<Rightarrow> cell_TIME ec
      | BL_MYSQL_TYPE_NEWDATE \<Rightarrow> cell_NEWDATE ec | BL_MYSQL_TYPE_DATE \<Rightarrow> cell_DATE ec
      | BL_MYSQL_TYPE_YEAR \<Rightarrow> cell_YEAR ec | BL_MYSQL_TYPE_ENUM \<Rightarrow> cell_ENUM meta ec
      | BL_MYSQL_TYPE_SET \<Rightarrow> cell_SET meta ec | BL_MYSQL_TYPE_BLOB \<Rightarrow> cell_BLOB meta ec
      | BL_MYSQL_TYPE_VARCHAR \<Rightarrow> cell_VARCHAR meta ec
      | BL_MYSQL_TYPE_VAR_STRING \<Rightarrow> cell_VARCHAR meta ec
      | BL_MYSQL_TYPE_BIT \<Rightarrow> cell_BIT meta ec
      | BL_MYSQL_TYPE_FLOAT \<Rightarrow> cell_FLOAT ec | BL_MYSQL_TYPE_DOUBLE \<Rightarrow> cell_DOUBLE ec
      | BL_MYSQL_TYPE_NEWDECIMAL \<Rightarrow> cell_NEWDECIMAL meta ec
      | _ \<Rightarrow> Inr (null_cell, ec))"
proof -
  assume *: "type \<noteq> BL_MYSQL_TYPE_STRING"
  then have "field_type_code type \<noteq> 254" by (cases type) simp_all
  then have s: "string_real_type (field_type_code type) meta = (field_type_code type, 0)"
    by (rule string_real_type_other)
  show ?thesis
    unfolding value2Cell_def s Let_def prod.case field_type_of_code option.case
    using * by (cases type) (simp_all only: bl_enum_field_types.case simp_thms)
qed

lemma value2Cell_string:
  "string_real_type 254 meta = (254, n) \<Longrightarrow> value2Cell ec 254 meta = cell_STRING n ec"
  "string_real_type 254 meta = (247, n) \<Longrightarrow> value2Cell ec 254 meta = cell_ENUM meta ec"
  "string_real_type 254 meta = (248, n) \<Longrightarrow> value2Cell ec 254 meta = cell_SET meta ec"
  using field_type_of_code [of BL_MYSQL_TYPE_STRING] field_type_of_code [of BL_MYSQL_TYPE_ENUM]
    field_type_of_code [of BL_MYSQL_TYPE_SET]
  by (simp_all add: value2Cell_def)

lemma value2Cell_col:
  assumes "col_ok v" "at_bytes ec (col_bytes v)"
  shows "value2Cell ec (field_type_code (col_type v)) (ucast (col_meta v)) =
    Inr (decoded_cell v, skip (length (col_bytes v)) ec)"
  using assms
proof (cases v)
  case (VEnum x)
  have "value2Cell ec 254 (ucast (meta2 247 1)) = cell_ENUM (ucast (meta2 247 1)) ec"
    by (rule value2Cell_string(2), rule string_real_type_enum) simp
  moreover have "(ucast (meta2 247 1) :: u32) AND 255 = 1" by (subst meta2_lo) simp_all
  ultimately show ?thesis using assms VEnum ENUM_cell by (simp add: decoded_cell_def)
next
  case (VChar n bs)
  then have n: "n < 1024" "n < 65536" "length bs \<le> n" using assms(1) by simp_all
  have "value2Cell ec 254 (ucast (pack_char_meta n)) = cell_STRING (of_nat n) ec"
    by (rule value2Cell_string(1), rule pack_char_meta_real_type) (rule n)
  with text_cells(2) [of ec n bs] n assms(2) VChar show ?thesis by (simp add: decoded_cell_def)
next
  case (VVarchar n bs)
  then have n: "n < 65536" "length bs \<le> n" using assms(1) by simp_all
  have "(ucast (of_nat n :: u16) :: u32) = of_nat n"
    using n by (simp add: word_unat_eq_iff unat_of_nat)
  with text_cells(1) [of ec n bs] n assms(2) VVarchar show ?thesis
    by (simp add: value2Cell_dispatch decoded_cell_def del: field_type_code.simps)
next
  case (VBlob k bs)
  then have k: "1 \<le> k" "k \<le> 4" "length bs < 256 ^ k" using assms(1) by simp_all
  have "(ucast (of_nat k :: u16) :: u32) = of_nat k"
    using k by (simp add: word_unat_eq_iff unat_of_nat)
  with BLOB_cell [of ec k bs] k assms(2) VBlob show ?thesis
    by (simp add: value2Cell_dispatch decoded_cell_def len_prefixed_def del: field_type_code.simps)
next
  case (VBit a b bs)
  with BIT_cell [of ec bs a b] assms show ?thesis
    by (simp add: value2Cell_dispatch decoded_cell_def del: field_type_code.simps col_cell.simps)
next
  case (VDecimal p s neg n)
  with DECIMAL_cell [of ec p s neg n] assms show ?thesis
    by (simp add: value2Cell_dispatch decoded_cell_def del: field_type_code.simps col_cell.simps)
next
  case (VInt24 i)
  with INT24_cell [of ec i] assms show ?thesis
    by (simp add: value2Cell_dispatch decoded_cell_def del: field_type_code.simps col_cell.simps)
next
  case (VDatetime a b c d e f)
  with temporal_cells(1) [of ec a b c d e f] assms show ?thesis
    by (simp add: value2Cell_dispatch decoded_cell_def del: field_type_code.simps col_cell.simps)
next
  case (VTime neg a b c)
  with temporal_cells(2) [of ec neg a b c] assms show ?thesis
    by (simp add: value2Cell_dispatch del: field_type_code.simps col_cell.simps)
next
  case (VNewDate a b c)
  with temporal_cells(3) [of ec a b c] assms show ?thesis
    by (simp add: value2Cell_dispatch decoded_cell_def del: field_type_code.simps col_cell.simps)
next
  case (VDate a b c)
  with temporal_cells(4) [of ec a b c] assms show ?thesis
    by (simp add: value2Cell_dispatch decoded_cell_def del: field_type_code.simps col_cell.simps)
next
  case (VYear y)
  with temporal_cells(5) [of ec y] assms show ?thesis
    by (simp add: value2Cell_dispatch del: field_type_code.simps col_cell.simps)
qed (simp_all add: value2Cell_dispatch decoded_cell_def fixed_width_cells del: field_type_code.simps col_cell.simps)

end
