(* ===== verification/RowsFormat.thy ===== *)
theory RowsFormat
  imports CellFormat
begin

text \<open>
  The layout of write, update and delete rows events, written as an encoder on top of the
  column encoding of CellFormat, and the proof that \<open>parseRowsEvent\<close> inverts it.

  The encoder is that of the server: an image has one null bit for each column that is
  present, in as many bytes as those bits need, and the unused bits of the last byte are 1.
  The parser reads one null bit for each column of the table (\<open>logevent.c:691\<close>,
  \<open>logevent.c:708\<close>). The two agree on full images and on images whose present columns are a
  prefix that needs as many bytes (\<open>image_ok\<close>); the decoding theorems are about those, and
  \<open>image_cells_partial\<close> shows what becomes of a value behind an absent column.
\<close>

subsection \<open>Row images\<close>

type_synonym row_val = "col_val option list"

definition fits :: "TableEv \<Rightarrow> nat \<Rightarrow> col_val option \<Rightarrow> bool" where
  "fits tbl i v \<longleftrightarrow>
     (case v of None \<Rightarrow> True
      | Some c \<Rightarrow> col_ok c \<and> \<not> misread c \<and> (case (t_types tbl, t_meta tbl) of
            (Some ts, Some ms) \<Rightarrow> i < length ts \<and> i < length ms \<and>
               ts ! i = field_type_code (col_type c) \<and> ms ! i = col_meta c
          | _ \<Rightarrow> False))"

definition row_ok :: "TableEv \<Rightarrow> nat \<Rightarrow> row_val \<Rightarrow> bool" where
  "row_ok tbl n vs \<longleftrightarrow> length vs = n \<and> (\<forall>i < n. fits tbl i (vs ! i))"

definition val_bytes :: "bool \<Rightarrow> col_val option \<Rightarrow> u8 list" where
  "val_bytes p v = (case v of Some c \<Rightarrow> if p then col_bytes c else [] | None \<Rightarrow> [])"

definition val_cell :: "bool \<Rightarrow> col_val option \<Rightarrow> Cell" where
  "val_cell p v = (case v of Some c \<Rightarrow> if p then col_cell c else null_cell | None \<Rightarrow> null_cell)"

definition flag_bytes :: "bool \<Rightarrow> bool list \<Rightarrow> u8 list" where
  "flag_bytes fill bs = bitmap (bs @ replicate (8 * ((length bs + 7) div 8) - length bs) fill)"

definition present :: "bool list \<Rightarrow> row_val \<Rightarrow> row_val" where
  "present ps vs = map snd (filter fst (zip ps vs))"

definition image_bytes :: "bool list \<Rightarrow> row_val \<Rightarrow> u8 list" where
  "image_bytes ps vs =
     flag_bytes True (map (\<lambda>v. v = None) (present ps vs)) @ concat (map2 val_bytes ps vs)"

definition image_ok :: "bool list \<Rightarrow> bool" where
  "image_ok ps \<longleftrightarrow>
     (let k = length (takeWhile (\<lambda>p. p) ps)
      in list_all Not (drop k ps) \<and> (k + 7) div 8 = (length ps + 7) div 8)"

definition row_cells :: "bool list \<Rightarrow> row_val \<Rightarrow> Cell list" where
  "row_cells ps vs = map2 val_cell ps vs"

lemma up_to_bytes: "(n :: nat) \<le> 8 * ((n + 7) div 8)" "(8 * m + 7) div 8 = (m :: nat)"
  by linarith+

lemma length_flag_bytes [simp]: "length (flag_bytes fill bs) = (length bs + 7) div 8"
  using up_to_bytes(1) [of "length bs"] by (simp add: flag_bytes_def up_to_bytes(2))

lemma flag_bytes_nth:
  "k < length bs \<Longrightarrow> (bs @ replicate n fill) ! k = bs ! k"
  by (simp add: nth_append)

lemma image_ok_full: "image_ok (replicate n True)"
  by (simp add: image_ok_def takeWhile_replicate)

lemma image_ok_prefix:
  assumes "image_ok ps"
  obtains k where "ps = replicate k True @ replicate (length ps - k) False" "k \<le> length ps"
    "(k + 7) div 8 = (length ps + 7) div 8"
proof -
  define k where "k = length (takeWhile (\<lambda>p. p) ps)"
  have ok: "list_all Not (drop k ps)" "(k + 7) div 8 = (length ps + 7) div 8"
    using assms by (simp_all add: image_ok_def k_def Let_def)
  have le: "k \<le> length ps" unfolding k_def by (rule length_takeWhile_le)
  have "take k ps = takeWhile (\<lambda>p. p) ps" by (simp only: k_def takeWhile_eq_take [symmetric])
  then have "p" if "p \<in> set (take k ps)" for p
    using that set_takeWhileD [of p "\<lambda>p. p" ps] by simp
  then have "take k ps = replicate k True"
    using le by (intro replicate_eqI) auto
  moreover have "drop k ps = replicate (length ps - k) False"
    using ok(1) by (intro replicate_eqI) (auto simp add: list_all_iff)
  ultimately show thesis using that [of k] le ok(2) append_take_drop_id [of k ps] by simp
qed

lemma present_prefix:
  "length vs = k + m \<Longrightarrow> present (replicate k True @ replicate m False) vs = take k vs"
proof (induction k arbitrary: vs)
  case 0
  have "filter fst (zip (replicate m False) vs) = []"
    by (rule filter_False) (auto dest!: set_zip_leftD)
  then show ?case by (simp add: present_def)
next
  case (Suc k)
  then show ?case by (cases vs) (simp_all add: present_def)
qed

text \<open>
  On such an image the null bits the parser reads exist, and those of the present columns are
  the right ones.
\<close>

lemma image_bytes_bits:
  assumes "image_ok ps" "length vs = length ps"
  obtains nb where "image_bytes ps vs = bitmap nb @ concat (map2 val_bytes ps vs)"
    "length (bitmap nb) = (length ps + 7) div 8" "length ps \<le> length nb"
    "\<And>i. i < length ps \<Longrightarrow> ps ! i \<Longrightarrow> nb ! i = (vs ! i = None)"
proof -
  obtain k where k: "ps = replicate k True @ replicate (length ps - k) False" "k \<le> length ps"
    "(k + 7) div 8 = (length ps + 7) div 8"
    by (rule image_ok_prefix [OF assms(1)])
  define q where "q = (length ps + 7) div 8"
  have q: "length ps \<le> 8 * q" "(8 * q + 7) div 8 = q" unfolding q_def by (rule up_to_bytes)+
  define nb where "nb = map (\<lambda>v. v = None) (take k vs) @ replicate (8 * q - k) True"
  have len: "length nb = 8 * q" using k(2) q(1) assms(2) by (simp add: nb_def)
  have "length vs = k + (length ps - k)" using k(2) assms(2) by simp
  from present_prefix [OF this] have "present ps vs = take k vs" by (simp only: k(1) [symmetric])
  then have "image_bytes ps vs = bitmap nb @ concat (map2 val_bytes ps vs)"
    using k(2,3) assms(2) by (simp add: image_bytes_def flag_bytes_def nb_def q_def)
  moreover have "nb ! i = (vs ! i = None)" if "i < length ps" "ps ! i" for i
  proof -
    have "(replicate k True @ replicate (length ps - k) False) ! i" using that(2) k(1) by simp
    then have "i < k" using that(1) by (simp add: nth_append split: if_splits)
    then show ?thesis using k(2) assms(2) by (simp add: nb_def nth_append)
  qed
  ultimately show thesis using that [of nb] len q by (simp add: q_def)
qed

lemma isSet_at:
  assumes "at_bytes ec (bitmap bs)" "i < length bs"
  shows "isSet (ec_ev ec) (ec_cur ec) i = Inr (bs ! i)"
proof -
  have "ec_ev ec = take (ec_cur ec) (ec_ev ec) @ bitmap bs @
      drop (ec_cur ec + length (bitmap bs)) (ec_ev ec)"
    using assms(1) unfolding at_bytes_def
    by (metis append_take_drop_id drop_drop add.commute)
  then show ?thesis
    using isSet_bitmap [OF assms(2), of "ec_cur ec" "take (ec_cur ec) (ec_ev ec)"] assms(1)
    unfolding at_bytes_def by (metis add_leD1 length_take min.absorb2)
qed

lemma image_cells_step:
  assumes "isSet (ec_ev ec) isnull i = Inr b" "p \<Longrightarrow> b = (v = None)"
    and "isSet (ec_ev ec) isused i = Inr p"
    and "fits tbl i v" and "at_bytes ec (val_bytes p v)"
  shows "image_cells tbl isnull isused i (Suc n) ec =
    bindE (image_cells tbl isnull isused (Suc i) n (skip (length (val_bytes p v)) ec))
      (\<lambda>(cs, ec). Inr (val_cell p v # cs, ec))"
proof (cases p)
  case False
  with assms(1,3) show ?thesis by (cases v) (simp_all add: val_bytes_def val_cell_def)
next
  case True
  have b: "b = (v = None)" by (rule assms(2)) (rule True)
  show ?thesis
  proof (cases v)
    case None
    with b assms(1) show ?thesis by (simp add: val_bytes_def val_cell_def)
  next
    case (Some c)
    from assms(4) Some obtain ts ms where t: "t_types tbl = Some ts" "t_meta tbl = Some ms"
      "i < length ts" "i < length ms" "ts ! i = field_type_code (col_type c)"
      "ms ! i = col_meta c" "col_ok c" "\<not> misread c"
      by (auto simp add: fits_def split: option.splits)
    have "at_bytes ec (col_bytes c)" using assms(5) Some True by (simp add: val_bytes_def)
    from value2Cell_col [OF t(7) this] show ?thesis
      using assms(1,3) b Some True t
      by (simp add: val_bytes_def val_cell_def deref_def nthE_def decoded_cell_right
          del: field_type_code.simps)
  qed
qed

lemma image_cells_vals:
  assumes "length ps = length vs"
    and "\<And>k. k < length vs \<Longrightarrow>
      \<exists>b. isSet (ec_ev ec) isnull (i + k) = Inr b \<and> (ps ! k \<longrightarrow> b = (vs ! k = None))"
    and "\<And>k. k < length vs \<Longrightarrow> isSet (ec_ev ec) isused (i + k) = Inr (ps ! k)"
    and "\<And>k. k < length vs \<Longrightarrow> fits tbl (i + k) (vs ! k)"
    and "at_bytes ec (concat (map2 val_bytes ps vs))"
  shows "image_cells tbl isnull isused i (length vs) ec =
    Inr (map2 val_cell ps vs, skip (length (concat (map2 val_bytes ps vs))) ec)"
  using assms
proof (induction ps vs arbitrary: i ec rule: list_induct2)
  case Nil
  then show ?case by simp
next
  case (Cons p ps v vs)
  have at: "at_bytes ec (val_bytes p v)"
    "at_bytes (skip (length (val_bytes p v)) ec) (concat (map2 val_bytes ps vs))"
    using Cons.prems(4) by (simp_all add: at_bytes_append)
  have s: "\<exists>b. isSet (ec_ev ec) isnull (Suc i + k) = Inr b \<and> (ps ! k \<longrightarrow> b = (vs ! k = None))"
    "isSet (ec_ev ec) isused (Suc i + k) = Inr (ps ! k)" "fits tbl (Suc i + k) (vs ! k)"
    if "k < length vs" for k
    using that Cons.prems(1-3) [of "Suc k"] by simp_all
  have "image_cells tbl isnull isused (Suc i) (length vs) (skip (length (val_bytes p v)) ec) =
      Inr (map2 val_cell ps vs, skip (length (val_bytes p v) + length (concat (map2 val_bytes ps vs))) ec)"
    using Cons.IH [of "skip (length (val_bytes p v)) ec" "Suc i"] s at(2) by simp
  moreover obtain b where "isSet (ec_ev ec) isnull i = Inr b" "p \<longrightarrow> b = (v = None)"
    using Cons.prems(1) [of 0] by auto
  then have "image_cells tbl isnull isused i (Suc (length vs)) ec =
    bindE (image_cells tbl isnull isused (Suc i) (length vs) (skip (length (val_bytes p v)) ec))
      (\<lambda>(cs, ec). Inr (val_cell p v # cs, ec))"
    using Cons.prems(2,3) [of 0] at(1) by (intro image_cells_step [where b = b]) auto
  ultimately show ?case by (simp del: image_cells.simps)
qed

text \<open>One image: the null bitmap, then the values of the columns that are present.\<close>

lemma image_decodes:
  assumes "row_ok tbl (length ps) vs" "image_ok ps" "at_bytes ec (image_bytes ps vs)"
    and "\<And>k. k < length ps \<Longrightarrow> isSet (ec_ev ec) isused k = Inr (ps ! k)"
    and "n = length ps" "bl = (n + 7) div 8"
  shows "advance bl ec = Inr (skip bl ec)"
    "image_cells tbl (ec_cur ec) isused 0 n (skip bl ec) =
      Inr (row_cells ps vs, skip (length (image_bytes ps vs)) ec)"
proof -
  have len: "length ps = length vs" and fit: "k < length vs \<Longrightarrow> fits tbl k (vs ! k)" for k
    using assms(1) by (simp_all add: row_ok_def)
  obtain nb where nb: "image_bytes ps vs = bitmap nb @ concat (map2 val_bytes ps vs)"
    "length (bitmap nb) = bl" "length ps \<le> length nb"
    "\<And>i. i < length ps \<Longrightarrow> ps ! i \<Longrightarrow> nb ! i = (vs ! i = None)"
    using image_bytes_bits [OF assms(2) len [symmetric]] assms(5,6) by metis
  have at: "at_bytes ec (bitmap nb)" "at_bytes (skip bl ec) (concat (map2 val_bytes ps vs))"
    using assms(3) by (simp_all only: nb(1) at_bytes_append nb(2))
  show "advance bl ec = Inr (skip bl ec)" using at(1) nb(2) by (simp add: advance_at)
  have "isSet (ec_ev ec) (ec_cur ec) k = Inr (nb ! k)" if "k < length vs" for k
    using isSet_at [OF at(1), of k] that len nb(3) by simp
  then show "image_cells tbl (ec_cur ec) isused 0 n (skip bl ec) =
      Inr (row_cells ps vs, skip (length (image_bytes ps vs)) ec)"
    using image_cells_vals [of ps vs "skip bl ec" "ec_cur ec" 0 isused tbl] at(2) len fit
      assms(4,5) nb(2,4)
    by (simp add: row_cells_def nb(1))
qed

text \<open>
  An image in which only the second of two columns is present: its null bit stands first and
  the bits behind it are 1, so the parser takes the column for NULL and stops in front of its
  value, which is then read as the beginning of the next image.
\<close>

lemma image_cells_partial:
  assumes "at_bytes ec (image_bytes [False, True] [u, Some c])"
    and "\<And>k. k < 2 \<Longrightarrow> isSet (ec_ev ec) isused k = Inr ([False, True] ! k)"
  shows "image_cells tbl (ec_cur ec) isused 0 2 (skip 1 ec) = Inr ([null_cell, null_cell], skip 1 ec)"
    "at_bytes (skip 1 ec) (col_bytes c)"
proof -
  define nb where "nb = False # replicate 7 True"
  have "image_bytes [False, True] [u, Some c] = bitmap nb @ col_bytes c"
    by (cases u) (simp_all add: image_bytes_def present_def flag_bytes_def val_bytes_def nb_def)
  moreover have "length (bitmap nb) = 1" by (simp add: nb_def)
  ultimately have at: "at_bytes ec (bitmap nb)" "at_bytes (skip 1 ec) (col_bytes c)"
    using assms(1) by (simp_all only: at_bytes_append)
  then show "at_bytes (skip 1 ec) (col_bytes c)" by simp
  have "isSet (ec_ev ec) (ec_cur ec) k = Inr (nb ! k)" if "k < 2" for k
    using that by (intro isSet_at [OF at(1)]) (simp add: nb_def)
  from this [of 0] this [of 1] assms(2) [of 0]
  show "image_cells tbl (ec_cur ec) isused 0 2 (skip 1 ec) = Inr ([null_cell, null_cell], skip 1 ec)"
    by (simp add: nb_def numeral_2_eq_2)
qed

subsection \<open>The loop over the images\<close>

text \<open>
  A change is a pair of rows. Write and delete events carry the second row, update events
  the row before the change and the row after it, each under a bitmap of present columns.
\<close>

definition change_bytes :: "bool \<Rightarrow> bool list \<Rightarrow> bool list \<Rightarrow> row_val \<times> row_val \<Rightarrow> u8 list" where
  "change_bytes upd ps pu c =
     (if upd then image_bytes ps (fst c) @ image_bytes pu (snd c) else image_bytes ps (snd c))"

definition change_ok :: "TableEv \<Rightarrow> bool \<Rightarrow> nat \<Rightarrow> row_val \<times> row_val \<Rightarrow> bool" where
  "change_ok tbl upd n c \<longleftrightarrow> (upd \<longrightarrow> row_ok tbl n (fst c)) \<and> row_ok tbl n (snd c)"

definition new_rows :: "bool \<Rightarrow> bool list \<Rightarrow> bool list \<Rightarrow> (row_val \<times> row_val) list \<Rightarrow> Cell list list"
where
  "new_rows upd ps pu cs = map (\<lambda>c. row_cells (if upd then pu else ps) (snd c)) cs"

definition old_rows :: "bool \<Rightarrow> bool list \<Rightarrow> (row_val \<times> row_val) list \<Rightarrow> Cell list list" where
  "old_rows upd ps cs = (if upd then map (\<lambda>c. row_cells ps (fst c)) cs else [])"

lemma image_bytes_pos:
  assumes "image_ok ps" "length vs = length ps" "ps \<noteq> []"
  shows "0 < length (image_bytes ps vs)"
proof -
  obtain nb where "image_bytes ps vs = bitmap nb @ concat (map2 val_bytes ps vs)"
    "length (bitmap nb) = (length ps + 7) div 8"
    using image_bytes_bits [OF assms(1,2)] by metis
  moreover have "0 < (length ps + 7) div 8" using assms(3) by (simp add: div_greater_zero_iff Suc_le_eq)
  ultimately show ?thesis by simp
qed

lemma change_bytes_pos:
  assumes "change_ok tbl upd n c" "0 < n" "length ps = n" "image_ok ps"
  shows "0 < length (change_bytes upd ps pu c)"
proof -
  have "length (if upd then fst c else snd c) = n" using assms(1) by (simp add: change_ok_def row_ok_def)
  then have "0 < length (image_bytes ps (if upd then fst c else snd c))"
    using assms by (intro image_bytes_pos) auto
  then show ?thesis by (simp add: change_bytes_def split: if_splits)
qed

text \<open>The row arrays start with 8 entries and double up to the largest power of two of an int.\<close>

definition cap_ok :: "nat \<Rightarrow> bool" where
  "cap_ok tot \<longleftrightarrow> (\<exists>j \<le> 27. tot = 8 * 2 ^ j)"

lemma cap_ok_8: "cap_ok 8"
  unfolding cap_ok_def by (rule exI [of _ 0]) simp

lemma cap_ok_bound:
  assumes "cap_ok tot"
  shows "0 < tot" "tot \<le> 2 ^ 30"
proof -
  obtain j where j: "j \<le> 27" "tot = 8 * 2 ^ j" using assms by (auto simp only: cap_ok_def)
  have "(2 :: nat) ^ j \<le> 2 ^ 27" using j(1) by (intro power_increasing) simp_all
  then show "0 < tot" "tot \<le> 2 ^ 30" using j(2) by simp_all
qed

lemma cap_ok_grow:
  assumes "cap_ok tot" "n \<le> tot" "n < 2 ^ 30" "tot' = (if n \<ge> tot then tot * 2 else tot)"
  shows "cap_ok tot'" "n < tot'" "tot' \<le> INT_MAX"
proof -
  obtain j where j: "j \<le> 27" "tot = 8 * 2 ^ j" using assms(1) by (auto simp only: cap_ok_def)
  show c: "cap_ok tot'"
  proof (cases "n \<ge> tot")
    case True
    then have "j \<noteq> 27" using j(2) assms(2,3) by auto
    then have "Suc j \<le> 27" "tot' = 8 * 2 ^ Suc j" using j True assms(4) by simp_all
    then show ?thesis unfolding cap_ok_def by blast
  next
    case False
    then show ?thesis using assms(1,4) by simp
  qed
  show "n < tot'" using assms(2,4) cap_ok_bound(1) [OF assms(1)] by (auto split: if_splits)
  show "tot' \<le> INT_MAX" using cap_ok_bound(2) [OF c] by (simp add: INT_MAX_def)
qed

lemma cap_full: "cap_ok tot \<Longrightarrow> n \<le> tot \<Longrightarrow> \<not> n < 2 ^ 30 \<Longrightarrow> tot \<le> n \<and> \<not> tot * 2 \<le> INT_MAX"
  using cap_ok_bound(2) [of tot] by (auto simp add: INT_MAX_def)

lemma rows_loop_decodes:
  assumes "length ps = n" "length pu = n" "0 < n" "bl = (n + 7) div 8"
    and "list_all (change_ok tbl upd n) cs"
    and "at_bytes ec (concat (map (change_bytes upd ps pu) cs))"
    and "evlen = ec_cur ec + length (concat (map (change_bytes upd ps pu) cs))"
    and "\<And>k. k < n \<Longrightarrow> isSet (ec_ev ec) isused k = Inr (ps ! k)"
    and "\<And>k. upd \<Longrightarrow> k < n \<Longrightarrow> isSet (ec_ev ec) isused_u k = Inr (pu ! k)"
    and "length cs < fuel" "cap_ok tot" "length rows \<le> tot" "length rows + length cs \<le> 2 ^ 30"
    and "image_ok ps" "upd \<Longrightarrow> image_ok pu"
  shows "rows_loop fuel tbl evlen upd n bl isused isused_u tot rows rowsold ec =
    Inr (rows @ new_rows upd ps pu cs, rowsold @ old_rows upd ps cs)"
  using assms(5-13)
proof (induction cs arbitrary: fuel tot rows rowsold ec)
  case Nil
  then obtain f where "fuel = Suc f" by (cases fuel) simp_all
  with Nil show ?case by (simp add: new_rows_def old_rows_def)
next
  case (Cons c cs)
  obtain f where f: "fuel = Suc f" using Cons.prems(6) by (cases fuel) simp_all
  have ok: "change_ok tbl upd n c" "list_all (change_ok tbl upd n) cs" using Cons.prems(1) by simp_all
  define ec' where "ec' = skip (length (change_bytes upd ps pu c)) ec"
  have at: "at_bytes ec (change_bytes upd ps pu c)"
      "at_bytes ec' (concat (map (change_bytes upd ps pu) cs))"
    using Cons.prems(2) by (simp_all add: at_bytes_append ec'_def)
  have lt: "ec_cur ec < evlen"
    using Cons.prems(3) change_bytes_pos [OF ok(1) assms(3,1,14)] by simp
  define tot' where "tot' = (if length rows \<ge> tot then tot * 2 else tot)"
  have tot': "cap_ok tot'" "length rows < tot'" "tot' \<le> INT_MAX"
    using cap_ok_grow [OF Cons.prems(7,8) _ tot'_def] Cons.prems(9) by simp_all
  have used: "\<And>k. k < n \<Longrightarrow> isSet (ec_ev (skip m ec)) isused k = Inr (ps ! k)"
    "\<And>k. upd \<Longrightarrow> k < n \<Longrightarrow> isSet (ec_ev (skip m ec)) isused_u k = Inr (pu ! k)" for m
    using Cons.prems(4,5) by simp_all
  have IH: "rows_loop f tbl evlen upd n bl isused isused_u tot' rows' rowsold' ec' =
      Inr (rows' @ new_rows upd ps pu cs, rowsold' @ old_rows upd ps cs)"
    if "length rows' = Suc (length rows)" for rows' rowsold'
    using Cons.prems(3,6,9) f tot'(1,2) that used at(2) ok(2)
    by (intro Cons.IH) (simp_all add: ec'_def)
  show ?case
  proof (cases upd)
    case True
    define ec1 where "ec1 = skip (length (image_bytes ps (fst c))) ec"
    have ok1: "row_ok tbl (length ps) (fst c)" "row_ok tbl (length pu) (snd c)"
      using ok(1) True assms(1,2) by (simp_all add: change_ok_def)
    have a: "at_bytes ec (image_bytes ps (fst c))" "at_bytes ec1 (image_bytes pu (snd c))"
      using at(1) True by (simp_all add: change_bytes_def at_bytes_append ec1_def)
    have e: "ec' = skip (length (image_bytes pu (snd c))) ec1"
      using True by (simp add: ec'_def ec1_def change_bytes_def)
    have u1: "isSet (ec_ev ec) isused k = Inr (ps ! k)" if "k < length ps" for k
      using Cons.prems(4) that by (simp only: assms(1))
    have u2: "isSet (ec_ev ec1) isused_u k = Inr (pu ! k)" if "k < length pu" for k
      using Cons.prems(5) [OF True] that by (simp only: assms(2) ec1_def skip_simps)
    have i1: "advance bl ec = Inr (skip bl ec)"
      "image_cells tbl (ec_cur ec) isused 0 n (skip bl ec) = Inr (row_cells ps (fst c), ec1)"
      using image_decodes [OF ok1(1) assms(14) a(1) u1 assms(1) [symmetric] assms(4)] by (simp_all only: ec1_def)
    have i2: "advance bl ec1 = Inr (skip bl ec1)"
      "image_cells tbl (ec_cur ec1) isused_u 0 n (skip bl ec1) = Inr (row_cells pu (snd c), ec')"
      using image_decodes [OF ok1(2) assms(15) [OF True] a(2) u2 assms(2) [symmetric] assms(4)] by (simp_all only: e)
    have "rows_loop fuel tbl evlen upd n bl isused isused_u tot rows rowsold ec =
        rows_loop f tbl evlen upd n bl isused isused_u tot' (rows @ [row_cells pu (snd c)])
          (rowsold @ [row_cells ps (fst c)]) ec'"
      by (simp only: f rows_loop.simps lt if_True True Let_def i1 i2 bindE_simps prod.case
          tot'_def [symmetric] tot' checkE_simps)
    also have "\<dots> = Inr ((rows @ [row_cells pu (snd c)]) @ new_rows upd ps pu cs,
        (rowsold @ [row_cells ps (fst c)]) @ old_rows upd ps cs)"
      by (rule IH) simp
    finally show ?thesis using True by (simp add: new_rows_def old_rows_def)
  next
    case False
    have ok1: "row_ok tbl (length ps) (snd c)" using ok(1) assms(1) by (simp add: change_ok_def)
    have u1: "isSet (ec_ev ec) isused k = Inr (ps ! k)" if "k < length ps" for k
      using Cons.prems(4) that by (simp only: assms(1))
    have a: "at_bytes ec (image_bytes ps (snd c))" using at(1) False by (simp add: change_bytes_def)
    have i1: "advance bl ec = Inr (skip bl ec)"
      "image_cells tbl (ec_cur ec) isused 0 n (skip bl ec) = Inr (row_cells ps (snd c), ec')"
      using image_decodes [OF ok1 assms(14) a u1 assms(1) [symmetric] assms(4)] False
      by (simp_all only: ec'_def change_bytes_def if_False)
    have "rows_loop fuel tbl evlen upd n bl isused isused_u tot rows rowsold ec =
        rows_loop f tbl evlen upd n bl isused isused_u tot' (rows @ [row_cells ps (snd c)]) rowsold ec'"
      by (simp only: f rows_loop.simps lt if_True False if_False Let_def i1 bindE_simps prod.case
          tot'_def [symmetric] tot' checkE_simps)
    also have "\<dots> = Inr ((rows @ [row_cells ps (snd c)]) @ new_rows upd ps pu cs,
        rowsold @ old_rows upd ps cs)"
      by (rule IH) simp
    finally show ?thesis using False by (simp add: new_rows_def old_rows_def)
  qed
qed

subsection \<open>The common header\<close>

definition hdr_bytes :: "u32 \<Rightarrow> u8 \<Rightarrow> u32 \<Rightarrow> nat \<Rightarrow> u32 \<Rightarrow> u16 \<Rightarrow> u8 list" where
  "hdr_bytes ts type sid evlen nextpos flags =
     le_bytes 4 (unat ts) @ [type] @ le_bytes 4 (unat sid) @ le_bytes 4 evlen @
     le_bytes 4 (unat nextpos) @ le_bytes 2 (unat flags)"

lemma length_hdr_bytes [simp]: "length (hdr_bytes ts type sid evlen nextpos flags) = 19"
  by (simp add: hdr_bytes_def)

lemma peek_eq: "take n (drop off ev) = bs \<Longrightarrow> length bs = n \<Longrightarrow> 0 < n \<Longrightarrow> peek ev off n = Inr bs"
  by (cases "off \<le> length ev") (auto simp add: peek_def)

lemma hdr_fields:
  assumes "evlen < 4294967296"
  shows "getUint32 (hdr_bytes ts type sid evlen nextpos flags @ body) 0 = Inr ts"
    "getUint8 (hdr_bytes ts type sid evlen nextpos flags @ body) 4 = Inr type"
    "getUint32 (hdr_bytes ts type sid evlen nextpos flags @ body) 5 = Inr sid"
    "getUint32 (hdr_bytes ts type sid evlen nextpos flags @ body) 9 = Inr (of_nat evlen)"
    "getUint32 (hdr_bytes ts type sid evlen nextpos flags @ body) 13 = Inr nextpos"
    "getUint16 (hdr_bytes ts type sid evlen nextpos flags @ body) 17 = Inr flags"
proof -
  let ?ev = "hdr_bytes ts type sid evlen nextpos flags @ body"
  have "le_val (le_bytes 4 evlen) = evlen" using assms by (intro le_val_le_bytes_id) simp
  moreover have "peek ?ev 0 4 = Inr (le_bytes 4 (unat ts))" "peek ?ev 4 1 = Inr [type]"
    "peek ?ev 5 4 = Inr (le_bytes 4 (unat sid))" "peek ?ev 9 4 = Inr (le_bytes 4 evlen)"
    "peek ?ev 13 4 = Inr (le_bytes 4 (unat nextpos))" "peek ?ev 17 2 = Inr (le_bytes 2 (unat flags))"
    by (intro peek_eq; simp add: hdr_bytes_def)+
  ultimately show "getUint32 ?ev 0 = Inr ts" "getUint8 ?ev 4 = Inr type"
    "getUint32 ?ev 5 = Inr sid" "getUint32 ?ev 9 = Inr (of_nat evlen)"
    "getUint32 ?ev 13 = Inr nextpos" "getUint16 ?ev 17 = Inr flags"
    by (simp_all add: getUint32_def getUint16_def getUint8_def)
qed

lemma parseHeader_decodes:
  "evlen < 4294967296 \<Longrightarrow>
   parseHeader bl (hdr_bytes ts type sid evlen nextpos flags @ body) =
     Inr \<lparr>h_ts = ts, h_type = type, h_serverid = sid, h_evlen = of_nat evlen,
          h_nextpos = nextpos, h_flags = flags, h_extralen = bl_hdrlen bl - 19, h_extra = 19\<rparr>"
  by (simp add: parseHeader_def hdr_fields)

subsection \<open>A field at an offset\<close>

lemma getUint48_at:
  "off = length pre \<Longrightarrow> tid < 281474976710656 \<Longrightarrow>
   getUint48 (pre @ le_bytes 6 tid @ post) off = Inr (of_nat tid)"
  by (simp add: getUint48_def peek_append uint48_of_le le_val_le_bytes_id)

lemma decodeint_at:
  assumes "ev = pre @ lenenc v @ post" "unat cur = length pre" "length ev < 4294967296"
    and "v < 18446744073709551616"
  shows "decodeint ev cur = Inr (of_nat v, cur + of_nat (length (lenenc v)))"
proof -
  have "ev_wf (ev, cur)" using assms(1-3) by (simp add: ev_wf_def)
  moreover have "ev_rest (ev, cur) = lenenc v @ post" using assms(1,2) by (simp add: ev_rest_def)
  ultimately obtain s' where s': "ev_dec (ev, cur) = Inr (of_nat v, s')"
      "unat (snd s') = unat cur + length (lenenc v)"
    using evl.dec_lenenc [of "(ev, cur)" v post] assms(4) by auto
  obtain cur' where d: "decodeint ev cur = Inr (of_nat v, cur')" "snd s' = cur'"
    using s'(1) by (auto simp add: ev_dec_def bindE_Inr_iff)
  have "unat cur + length (lenenc v) < 4294967296"
    using assms(1-3) by simp
  then have "unat (cur + of_nat (length (lenenc v))) = unat cur + length (lenenc v)"
    using unat_u32_add [of cur "length (lenenc v)"] by simp
  with s'(2) d show ?thesis by (simp only: word_unat_eq_iff) (metis word_unat_eq_iff)
qed

lemma getUint64_at:
  "off = length pre \<Longrightarrow> v < 18446744073709551616 \<Longrightarrow>
   getUint64 (pre @ le_bytes 8 v @ post) off = Inr (of_nat v)"
  by (simp add: getUint64_def peek_append le_val_le_bytes_id)

subsection \<open>The event\<close>

text \<open>\<open>fill\<close> is the value of the unused bits of the bitmaps of present columns.\<close>

definition rows_body ::
    "bool \<Rightarrow> nat \<Rightarrow> u8 list \<Rightarrow> bool \<Rightarrow> bool list \<Rightarrow> bool list \<Rightarrow> (row_val \<times> row_val) list \<Rightarrow>
     u8 list" where
  "rows_body upd tid res fill ps pu cs =
     le_bytes 6 tid @ res @ lenenc (length ps) @ flag_bytes fill ps @
     (if upd then flag_bytes fill pu else []) @
     concat (map (change_bytes upd ps pu) cs)"

definition rows_event ::
    "u32 \<Rightarrow> u8 \<Rightarrow> u32 \<Rightarrow> u32 \<Rightarrow> u16 \<Rightarrow> nat \<Rightarrow> u8 list \<Rightarrow> bool \<Rightarrow> bool list \<Rightarrow> bool list \<Rightarrow>
     (row_val \<times> row_val) list \<Rightarrow> u8 list" where
  "rows_event ts type sid nextpos flags tid res fill ps pu cs =
     (let body = rows_body (type = BL_UPDATE_ROWS_EVENT) tid res fill ps pu cs
      in hdr_bytes ts type sid (19 + length body) nextpos flags @ body)"

lemma ucast_of_nat_u64_u32 [simp]: "(ucast (of_nat n :: u64) :: u32) = of_nat n"
  by (simp add: word_unat_eq_iff unsigned_ucast_eq unat_of_nat take_bit_eq_mod mod_mod_cancel)

lemma bitlen_sdiv:
  assumes "n + 7 \<le> INT_MAX"
  shows "sint (of_nat n + 7 :: u32) sdiv 8 = int ((n + 7) div 8)"
proof -
  have b: "n + 7 \<le> 2147483647" using assms by (simp add: INT_MAX_def)
  have "(of_nat n + 7 :: u32) = of_int (int (n + 7))" by simp
  moreover have "signed_take_bit 31 (int (n + 7)) = int (n + 7)"
    using b by (intro signed_take_bit_int_eq_self) simp_all
  ultimately have "sint (of_nat n + 7 :: u32) = int (n + 7)"
    by (simp only: signed_of_int) simp
  then show ?thesis by (simp only: sdiv_int_numeral)
qed

lemma isSet_in:
  assumes "ev = pre @ flag_bytes fill bs @ post" "off = length pre" "k < length bs"
  shows "isSet ev off k = Inr (bs ! k)"
proof -
  have "k < length (bs @ replicate n fill)" for n using assms(3) by simp
  from isSet_bitmap [OF this assms(2)] show ?thesis
    using assms(1,3) by (simp add: flag_bytes_def nth_append)
qed

lemma changes_length:
  assumes "list_all (change_ok tbl upd n) cs" "0 < n" "length ps = n" "image_ok ps"
  shows "length cs \<le> length (concat (map (change_bytes upd ps pu) cs))"
  using assms(1)
proof (induction cs)
  case (Cons c cs)
  then have "0 < length (change_bytes upd ps pu c)" using assms(2-4) by (intro change_bytes_pos [of tbl _ n]) simp_all
  with Cons show ?case by (simp del: length_greater_0_conv)
qed simp

lemma parseRowsEvent_rows:
  assumes hdr: "bl_hdrlen bl = 19"
    and tbl: "t_tableid (bl_table bl) = of_nat tid" "tid < 281474976710656"
      "t_nfields (bl_table bl) = of_nat (length ps)"
    and ps: "0 < length ps" "length ps + 7 \<le> INT_MAX" "length pu = length ps" "length res = 2"
    and cs: "list_all (change_ok (bl_table bl) (type = BL_UPDATE_ROWS_EVENT) (length ps)) cs" "length cs \<le> 2 ^ 30"
    and img: "image_ok ps" "type = BL_UPDATE_ROWS_EVENT \<Longrightarrow> image_ok pu"
    and ev: "ev = rows_event ts type sid nextpos flags tid res fill ps pu cs @ post" "length ev \<le> INT_MAX"
  shows "parseRowsEvent bl re ev =
    Inr (re\<lparr>re_ts := ts, re_type := type, re_nextpos := nextpos, re_serverid := sid,
            re_tableid := of_nat tid,
            re_rows := new_rows (type = BL_UPDATE_ROWS_EVENT) ps pu cs,
            re_rowsold := (if type = BL_UPDATE_ROWS_EVENT
                           then Some (old_rows True ps cs) else None),
            re_nrows := length cs, re_nfields := of_nat (length ps)\<rparr>)"
proof -
  define upd where "upd = (type = BL_UPDATE_ROWS_EVENT)"
  define n bl8 L where "n = length ps" and "bl8 = (n + 7) div 8" and "L = length (lenenc n)"
  define images where "images = concat (map (change_bytes upd ps pu) cs)"
  define evlen where "evlen = 19 + length (rows_body upd tid res fill ps pu cs)"
  define H where "H = hdr_bytes ts type sid evlen nextpos flags"
  define U where "U = (if upd then flag_bytes fill pu else [])"
  define start where "start = 27 + L + bl8 + length U"
  have evD: "ev = H @ le_bytes 6 tid @ res @ lenenc n @ flag_bytes fill ps @ U @ images @ post"
    by (simp add: ev(1) rows_event_def rows_body_def Let_def H_def U_def images_def evlen_def
        n_def flip: upd_def)
  have lens: "length H = 19" "length (flag_bytes fill ps) = bl8" "length U = (if upd then bl8 else 0)"
    using ps(3) by (simp_all add: H_def U_def bl8_def n_def)
  have evlen: "evlen = start + length images"
    using ps(4) lens by (simp add: evlen_def rows_body_def images_def start_def L_def U_def n_def)
  have lev: "length ev = start + length images + length post"
    using ps(4) lens by (simp add: evD start_def L_def)
  have small: "start + length images \<le> 2147483647" "length ev < 4294967296"
    using ev(2) lev by (simp_all add: INT_MAX_def)
  have w: "unat (of_nat k :: u32) = k" if "k \<le> start + length images" for k
    using that small(1) by (simp add: unat_of_nat)
  have 1: "parseHeader bl ev = Inr \<lparr>h_ts = ts, h_type = type, h_serverid = sid,
      h_evlen = of_nat evlen, h_nextpos = nextpos, h_flags = flags, h_extralen = bl_hdrlen bl - 19,
      h_extra = 19\<rparr>"
    unfolding evD H_def using small(1) evlen by (intro parseHeader_decodes) simp
  have 2: "getUint48 ev 19 = Inr (of_nat tid)"
    unfolding evD using lens tbl(2) by (intro getUint48_at) simp_all
  have 3: "decodeint ev 27 = Inr (of_nat n, of_nat (27 + L))"
    using decodeint_at [of ev "H @ le_bytes 6 tid @ res" n _ 27] evD lens ps(2,4) small(2)
    by (simp add: n_def L_def INT_MAX_def)
  have 4: "isSet ev (27 + L) k = Inr (ps ! k)" if "k < n" for k
    using that ps(4) lens by (intro isSet_in [of _ "H @ le_bytes 6 tid @ res @ lenenc n"])
      (simp_all add: evD n_def L_def)
  have 5: "isSet ev (27 + L + bl8) k = Inr (pu ! k)" if "upd" "k < n" for k
    using that ps(3,4) lens
    by (intro isSet_in [of _ "H @ le_bytes 6 tid @ res @ lenenc n @ flag_bytes fill ps"])
      (simp_all add: evD n_def L_def U_def)
  have at: "at_bytes \<lparr>ec_ev = ev, ec_cur = start\<rparr> images"
  proof -
    have "start = length (H @ le_bytes 6 tid @ res @ lenenc n @ flag_bytes fill ps @ U)"
      using lens ps(4) by (simp add: start_def L_def)
    then show ?thesis
      using at_bytes_whole [of "H @ le_bytes 6 tid @ res @ lenenc n @ flag_bytes fill ps @ U" images post]
        ev(2) by (simp only: evD append_assoc)
  qed
  have loop: "rows_loop (Suc (if bl8 = 0 then 2 ^ 30 else evlen)) (bl_table bl) evlen upd n bl8 (27 + L) (27 + L + bl8) 8 [] []
      \<lparr>ec_ev = ev, ec_cur = start\<rparr> = Inr (new_rows upd ps pu cs, old_rows upd ps cs)"
  proof -
    have "length cs \<le> length images"
      using cs(1) ps(1) refl img(1) unfolding images_def upd_def n_def by (rule changes_length)
    moreover have "bl8 \<noteq> 0" using ps(1) unfolding bl8_def n_def by linarith
    ultimately have "length cs < Suc (if bl8 = 0 then 2 ^ 30 else evlen)" using evlen by simp
    then show ?thesis
      using rows_loop_decodes [of ps n pu bl8 "bl_table bl" upd cs
          "\<lparr>ec_ev = ev, ec_cur = start\<rparr>" evlen "27 + L" "27 + L + bl8"
          "Suc (if bl8 = 0 then 2 ^ 30 else evlen)" 8 "[]" "[]"]
        ps cs img cap_ok_8 at 4 5 evlen
      by (simp add: bl8_def images_def upd_def [symmetric] n_def [symmetric])
  qed
  have 6: "unat (of_nat evlen :: u32) = evlen" "unat (of_nat start :: u32) = start"
    "unat (of_nat (27 + L) :: u32) = 27 + L" "unat (of_nat n :: u32) = n"
    using ps(2) evlen w [of evlen] w [of start] w [of "27 + L"]
    by (simp_all add: start_def n_def INT_MAX_def unat_of_nat del: of_nat_add)
  have 7: "unat (if upd then of_nat (27 + L) + of_int (int bl8) + of_int (int bl8)
        else of_nat (27 + L) + of_int (int bl8) :: u32) = start"
    "unat (of_nat (27 + L) + of_int (int bl8) :: u32) = 27 + L + bl8"
  proof -
    have "(if upd then of_nat (27 + L) + of_int (int bl8) + of_int (int bl8)
        else of_nat (27 + L) + of_int (int bl8) :: u32) = of_nat start"
      using lens by (simp add: start_def)
    then show "unat (if upd then of_nat (27 + L) + of_int (int bl8) + of_int (int bl8)
        else of_nat (27 + L) + of_int (int bl8) :: u32) = start" by (simp only: 6)
    show "unat (of_nat (27 + L) + of_int (int bl8) :: u32) = 27 + L + bl8"
      using w [of "27 + L + bl8"] by (simp add: start_def)
  qed
  have 8: "(19 :: u32) + 8 = 27" "(ucast (19 :: u8) :: u32) = 19" "unat (19 :: u32) = 19"
    by simp_all
  have 9: "sint (of_nat n + 7 :: u32) sdiv 8 = int bl8" "0 \<le> int bl8"
    using bitlen_sdiv [OF ps(2)] by (simp_all add: n_def bl8_def)
  have 10: "t_nfields (bl_table bl) = of_nat n" using tbl(3) by (simp only: n_def)
  have 11: "length (new_rows upd ps pu cs) = length cs" by (simp add: new_rows_def)
  show ?thesis
    unfolding upd_def [symmetric] n_def [symmetric]
    by (simp only: parseRowsEvent_def Let_def 1 hdr 8 bindE_simps Header.select_convs 2 3 10 tbl(1)
        checkE_simps ucast_of_nat_u64_u32 9 nat_int upd_def [symmetric] 6 7 loop prod.case 11)
      (simp add: old_rows_def)
qed
end
