(* ===== verification/RowsSafety.thy ===== *)
theory RowsSafety
  imports RowsFormat
begin

text \<open>
  What holds of \<open>value2Cell\<close> and \<open>parseRowsEvent\<close> on any bytes: the cursor only moves
  forward, nothing but the row loop can fail to end, the row loop ends within the fuel it is
  given, and whatever is returned has the shape the client and the release functions rely on.
\<close>

subsection \<open>The cursor only moves forward\<close>

definition forward :: "EventCursor \<Rightarrow> ('a \<times> EventCursor) res \<Rightarrow> bool" where
  "forward ec m \<longleftrightarrow> (\<forall>x ec'. m = Inr (x, ec') \<longrightarrow> ec_ev ec' = ec_ev ec \<and> ec_cur ec \<le> ec_cur ec')"

named_theorems forward_intros "the cursor only moves forward"

lemma forward_D:
  "forward ec m \<Longrightarrow> m = Inr (x, ec') \<Longrightarrow> ec_ev ec' = ec_ev ec \<and> ec_cur ec \<le> ec_cur ec'"
  by (simp add: forward_def)

lemma forward_Inr [forward_intros]: "forward ec (Inr (x, ec))"
  by (simp add: forward_def)

lemma forward_bind [forward_intros]:
  assumes "forward ec m" "\<And>x ec'. forward ec' (f x ec')"
  shows "forward ec (bindE m (\<lambda>(x, ec'). f x ec'))"
  using assms by (force simp add: forward_def bindE_Inr_iff)

lemma forward_bind_pure [forward_intros]:
  assumes "\<And>x. forward ec (f x)"
  shows "forward ec (bindE m f)"
  using assms by (auto simp add: forward_def bindE_Inr_iff)

lemma forward_advance [forward_intros]:
  assumes "\<And>ec'. forward ec' (f ec')"
  shows "forward ec (bindE (advance n ec) f)"
  using assms unfolding forward_def
  by (fastforce simp add: bindE_Inr_iff advance_Inr_iff)

lemma forward_if [forward_intros]:
  "(b \<Longrightarrow> forward ec m) \<Longrightarrow> (\<not> b \<Longrightarrow> forward ec m') \<Longrightarrow> forward ec (if b then m else m')"
  by simp

lemma forward_reads [forward_intros]:
  "forward ec (readUint8 ec)" "forward ec (readInt8 ec)" "forward ec (readUint16 ec)"
  "forward ec (readInt16 ec)" "forward ec (readUint24 ec)" "forward ec (readInt24 ec)"
  "forward ec (readUint32 ec)" "forward ec (readInt32 ec)" "forward ec (readUint64 ec)"
  "forward ec (readInt64 ec)" "forward ec (readBytes n ec)"
  by (auto simp add: forward_def dest!: read_width)

lemmas cell_defs = cell_LONG_def cell_TINY_def cell_SHORT_def cell_LONGLONG_def cell_INT24_def
  cell_TIMESTAMP_def cell_DATETIME_def cell_TIME_def cell_NEWDATE_def cell_DATE_def
  cell_YEAR_def cell_ENUM_def cell_SET_def cell_BLOB_def blob_body_def cell_VARCHAR_def
  text_body_def cell_STRING_def cell_BIT_def cell_FLOAT_def cell_DOUBLE_def

lemma forward_cells [forward_intros]:
  "forward ec (cell_LONG ec)" "forward ec (cell_TINY ec)" "forward ec (cell_SHORT ec)"
  "forward ec (cell_LONGLONG ec)" "forward ec (cell_INT24 ec)" "forward ec (cell_TIMESTAMP ec)"
  "forward ec (cell_DATETIME ec)" "forward ec (cell_TIME ec)" "forward ec (cell_NEWDATE ec)"
  "forward ec (cell_DATE ec)" "forward ec (cell_YEAR ec)" "forward ec (cell_ENUM meta ec)"
  "forward ec (cell_SET meta ec)" "forward ec (cell_BLOB meta ec)"
  "forward ec (cell_VARCHAR meta ec)" "forward ec (cell_STRING meta ec)"
  "forward ec (cell_BIT meta ec)" "forward ec (cell_FLOAT ec)" "forward ec (cell_DOUBLE ec)"
  unfolding cell_defs Let_def by (intro forward_intros)+

lemma forward_NEWDECIMAL [forward_intros]: "forward ec (cell_NEWDECIMAL meta ec)"
  unfolding cell_NEWDECIMAL_def Let_def
  by (intro forward_bind_pure; clarsimp simp only: prod.case split_def; intro forward_intros)

lemma value2Cell_forward [forward_intros]: "forward ec (value2Cell ec type meta)"
  unfolding value2Cell_def
  by (auto simp add: Let_def split: prod.split option.split bl_enum_field_types.split
      intro!: forward_intros)

lemma image_cells_forward: "forward ec (image_cells tbl isnull isused i n ec)"
proof (induction n arbitrary: i ec)
  case (Suc n)
  show ?case unfolding image_cells.simps
    by (intro forward_bind_pure forward_bind forward_intros Suc)
qed (simp add: forward_def)

lemma image_cells_length:
  "image_cells tbl isnull isused i n ec = Inr (cs, ec') \<Longrightarrow> length cs = n"
  by (induction n arbitrary: i ec cs ec') (auto simp add: res_simps)


subsection \<open>Only the row loop can run out of fuel\<close>

definition ends :: "'a res \<Rightarrow> bool" where
  "ends m \<longleftrightarrow> m \<noteq> Inl OutOfFuel"

named_theorems ends_intros "operations that always end"

lemma ends_Inr [ends_intros]: "ends (Inr x)"
  by (simp add: ends_def)

lemma ends_Inl [ends_intros]: "f \<noteq> OutOfFuel \<Longrightarrow> ends (Inl f)"
  by (simp add: ends_def)

lemma ends_bind [ends_intros]: "ends m \<Longrightarrow> (\<And>x. ends (f x)) \<Longrightarrow> ends (bindE m f)"
  by (cases m) (auto simp add: ends_def)

lemma ends_bind_dep: "ends m \<Longrightarrow> (\<And>x. m = Inr x \<Longrightarrow> ends (f x)) \<Longrightarrow> ends (bindE m f)"
  by (cases m) (auto simp add: ends_def)

lemma ends_if [ends_intros]:
  "(b \<Longrightarrow> ends m) \<Longrightarrow> (\<not> b \<Longrightarrow> ends m') \<Longrightarrow> ends (if b then m else m')"
  by simp

lemma ends_check [ends_intros]: "f \<noteq> OutOfFuel \<Longrightarrow> ends (checkE f b)"
  by (simp add: ends_def checkE_def)

lemma ends_blocks [ends_intros]:
  "ends (peek b off n)" "ends (poke c off xs)" "ends (nthE c k)" "ends (nthZ c i)"
  "ends (putZ c i xs)" "ends (cstring_at b off)" "ends (advance n ec)" "ends (deref p)"
  by (simp_all add: ends_def peek_def poke_def nthE_def nthZ_def putZ_def cstring_at_def
      advance_def deref_def split: option.split)

lemma ends_reads [ends_intros]:
  "ends (readUint8 ec)" "ends (readInt8 ec)" "ends (readUint16 ec)" "ends (readInt16 ec)"
  "ends (readUint24 ec)" "ends (readInt24 ec)" "ends (readUint32 ec)" "ends (readInt32 ec)"
  "ends (readUint64 ec)" "ends (readInt64 ec)" "ends (readBytes n ec)"
  "ends (getUint8 ev off)" "ends (getUint16 ev off)" "ends (getUint24 ev off)"
  "ends (getUint32 ev off)" "ends (getUint64 ev off)" "ends (getUint48 ev off)"
  "ends (isSet ev off i)" "ends (malloc_copy n bs)" "ends (decodeint ev cur)"
  unfolding reader_defs isSet_def malloc_copy_def decodeint_def getUint48_def
  by (intro ends_intros; simp?)+

lemma ends_decimal_loops [ends_intros]:
  "ends (bin_intg_words d msk n from buf k intg)" "ends (bin_frac_words d msk n from buf k)"
  "ends (skip_zero_words ws intg i k)" "ends (skip_zero_digits w j intg)"
  "ends (frac_loop ws f)" "ends (intg_loop ws f acc)"
proof -
  show "ends (bin_intg_words d msk n from buf k intg)"
    by (induction n arbitrary: "from" buf k intg) (auto simp add: Let_def intro!: ends_intros)
  show "ends (bin_frac_words d msk n from buf k)"
    by (induction n arbitrary: "from" buf k) (auto simp add: Let_def intro!: ends_intros)
  show "ends (skip_zero_words ws intg i k)"
    by (induction ws intg i k rule: skip_zero_words.induct) (auto intro!: ends_intros)
  show "ends (skip_zero_digits w j intg)"
    by (induction j arbitrary: w intg) (auto intro!: ends_intros)
  show "ends (frac_loop ws f)"
    by (induction ws f rule: frac_loop.induct) (auto intro!: ends_intros)
  show "ends (intg_loop ws f acc)"
    by (induction ws f acc rule: intg_loop.induct) (auto intro!: ends_intros)
qed

lemma ends_decimal [ends_intros]:
  "ends (decimal_bin_size p s)" "ends (bin2decimal ev off d p s)"
  "ends (decimal2string d to to_len fp fd c)"
proof -
  show size: "ends (decimal_bin_size p s)" for p s
    unfolding decimal_bin_size_def Let_def by (intro ends_intros)
  have lead: "ends (bin_intg_lead d msk x off buf intg)" for d msk x off buf intg
    unfolding bin_intg_lead_def mi_sintkorr_def Let_def by (intro ends_intros)
  have tail: "ends (bin_frac_tail d msk x off buf k)" for d msk x off buf k
    unfolding bin_frac_tail_def mi_sintkorr_def Let_def by (intro ends_intros; simp?)
  have zero: "ends (decimal_make_zero d)" for d
    unfolding decimal_make_zero_def by (intro ends_intros)
  have fill: "ends (fill_chars n c)" for n c
    unfolding fill_chars_def by (intro ends_intros; simp?)
  have rem: "ends (remove_leading_zeroes d)" for d
    unfolding remove_leading_zeroes_def split_def by (intro ends_intros)
  show "ends (bin2decimal ev off d p s)"
    unfolding bin2decimal_def Let_def split_def
    by (intro ends_intros size lead tail zero; simp?)
  show "ends (decimal2string d to to_len fp fd c)"
    unfolding decimal2string_def Let_def split_def
    by (intro ends_intros fill rem; simp?)
qed

lemma ends_cells [ends_intros]: "ends (value2Cell ec type meta)"
proof -
  have "ends (cell_LONG ec)" "ends (cell_TINY ec)" "ends (cell_SHORT ec)"
    "ends (cell_LONGLONG ec)" "ends (cell_INT24 ec)" "ends (cell_TIMESTAMP ec)"
    "ends (cell_DATETIME ec)" "ends (cell_TIME ec)" "ends (cell_NEWDATE ec)" "ends (cell_DATE ec)"
    "ends (cell_YEAR ec)" "ends (cell_ENUM m ec)" "ends (cell_SET m ec)" "ends (cell_BLOB m ec)"
    "ends (cell_VARCHAR m ec)" "ends (cell_STRING m ec)" "ends (cell_BIT m ec)"
    "ends (cell_FLOAT ec)" "ends (cell_DOUBLE ec)" "ends (cell_NEWDECIMAL m ec)" for m
    unfolding cell_defs cell_NEWDECIMAL_def Let_def split_def by (intro ends_intros)+
  then show ?thesis unfolding value2Cell_def
    by (auto simp add: Let_def split: prod.split option.split bl_enum_field_types.split
        intro: ends_intros)
qed

lemma ends_image_cells [ends_intros]: "ends (image_cells tbl isnull isused i n ec)"
  by (induction n arbitrary: i ec) (auto intro!: ends_intros)

lemma ends_parseHeader [ends_intros]: "ends (parseHeader bl ev)"
  unfolding parseHeader_def by (intro ends_intros)

subsection \<open>Termination of the row loop\<close>

text \<open>With at least one byte per null bitmap, every pass moves the cursor by that byte.\<close>

lemma rows_loop_ends:
  assumes "0 < bl" "evlen \<le> ec_cur ec + fuel"
  shows "ends (rows_loop (Suc fuel) tbl evlen upd n bl iu iuu tot rows rowsold ec)"
  using assms(2)
proof (induction fuel arbitrary: tot rows rowsold ec)
  case 0
  then show ?case by (simp add: ends_def)
next
  case (Suc fuel)
  have step: "ends (rows_loop (Suc fuel) tbl evlen upd n bl iu iuu tot' rows' rowsold' ec')"
    if "ec_cur ec < ec_cur ec'" for tot' rows' rowsold' ec'
    using that Suc.prems by (intro Suc.IH) simp
  have image: "ends (bindE (advance bl ec0) (\<lambda>ec1. bindE (image_cells tbl isn isu 0 n ec1) f))"
    if "\<And>cs ec2. ec_cur ec0 < ec_cur ec2 \<Longrightarrow> ends (f (cs, ec2))" for ec0 isn isu f
  proof (rule ends_bind_dep [OF ends_blocks(7)])
    fix ec1 assume "advance bl ec0 = Inr ec1"
    then have 1: "ec_cur ec0 < ec_cur ec1" using assms(1) by (simp add: advance_Inr_iff)
    show "ends (bindE (image_cells tbl isn isu 0 n ec1) f)"
    proof (rule ends_bind_dep [OF ends_image_cells])
      fix r assume r: "image_cells tbl isn isu 0 n ec1 = Inr r"
      obtain cs ec2 where [simp]: "r = (cs, ec2)" by (cases r)
      from forward_D [OF image_cells_forward, of tbl isn isu 0 n ec1 cs ec2] r 1
      show "ends (f r)" using that [of ec2 cs] by simp
    qed
  qed
  show ?case
    unfolding rows_loop.simps(2) [of "Suc fuel"] Let_def split_def
    by (intro ends_if ends_Inr ends_check image ends_bind step; simp)
qed


text \<open>
  Every pass adds a row, and the row counters are ints: whatever the length of the bitmap, the
  loop is over after \<open>2^30\<close> rows, by an overflow of \<open>totalrows\<close> if nothing else ends it.
\<close>

lemma rows_loop_counts:
  assumes "cap_ok tot" "length rows \<le> tot" "2 ^ 30 \<le> length rows + fuel"
  shows "ends (rows_loop (Suc fuel) tbl evlen upd n bl iu iuu tot rows rowsold ec)"
  using assms
proof (induction fuel arbitrary: tot rows rowsold ec)
  case 0
  then have "tot \<le> length rows \<and> \<not> tot * 2 \<le> INT_MAX" by (intro cap_full) simp_all
  then show ?case by (simp add: ends_def)
next
  case (Suc fuel)
  define tot' where "tot' = (if length rows \<ge> tot then tot * 2 else tot)"
  show ?case
  proof (cases "length rows < 2 ^ 30")
    case False
    from cap_full [OF Suc.prems(1,2) this] show ?thesis by (simp add: ends_def)
  next
    case True
    have tot': "cap_ok tot'" "length rows < tot'"
      using cap_ok_grow [OF Suc.prems(1,2) True tot'_def] by simp_all
    have step: "ends (rows_loop (Suc fuel) tbl evlen upd n bl iu iuu tot' rows' rowsold' ec')"
      if "length rows' = Suc (length rows)" for rows' rowsold' ec'
      using that tot' Suc.prems(3) by (intro Suc.IH) simp_all
    show ?thesis
      unfolding rows_loop.simps(2) [of "Suc fuel"] Let_def split_def tot'_def [symmetric]
      by (intro ends_if ends_Inr ends_check ends_blocks ends_image_cells ends_bind step) simp_all
  qed
qed

lemma rows_loop_fuel:
  "ends (rows_loop (Suc (if bl = 0 then 2 ^ 30 else evlen)) tbl evlen upd n bl iu iuu 8 [] [] ec)"
proof (cases "bl = 0")
  case True
  have "ends (rows_loop (Suc (2 ^ 30)) tbl evlen upd n bl iu iuu 8 [] [] ec)"
    by (rule rows_loop_counts) (simp_all add: cap_ok_8)
  then show ?thesis by (simp only: True refl if_True)
next
  case False
  have "ends (rows_loop (Suc evlen) tbl evlen upd n bl iu iuu 8 [] [] ec)"
    using False by (intro rows_loop_ends) simp_all
  then show ?thesis by (simp only: False if_False)
qed

text \<open>
  With no column at all, a pass neither reads nor moves: an event that announces zero fields
  and is longer than its fixed part is left only by that overflow.
\<close>

lemma rows_loop_zero_fields:
  assumes "ec_cur ec < evlen" "ec_cur ec \<le> INT_MAX" "cap_ok tot" "length rows \<le> tot"
  shows "rows_loop fuel tbl evlen upd 0 0 iu iuu tot rows rowsold ec =
    Inl (if length rows + fuel \<le> 2 ^ 30 then OutOfFuel else IntOverflow)"
  using assms(3,4)
proof (induction fuel arbitrary: upd tot rows rowsold)
  case 0
  then show ?case using cap_ok_bound(2) [of tot] by simp
next
  case (Suc fuel)
  define tot' where "tot' = (if length rows \<ge> tot then tot * 2 else tot)"
  have adv: "advance 0 ec = Inr ec" using assms(2) by (simp add: advance_Inr_iff)
  show ?case
  proof (cases "length rows < 2 ^ 30")
    case False
    from cap_full [OF Suc.prems this] False assms(1) show ?thesis by simp
  next
    case True
    have tot': "cap_ok tot'" "length rows < tot'" "tot' \<le> INT_MAX"
      using cap_ok_grow [OF Suc.prems True tot'_def] by simp_all
    have IH: "rows_loop fuel tbl evlen upd' 0 0 iu iuu tot' (rows @ [c]) rowsold' ec =
        Inl (if length rows + Suc fuel \<le> 2 ^ 30 then OutOfFuel else IntOverflow)" for c rowsold' upd'
      using Suc.IH [OF tot'(1), of "rows @ [c]" upd' rowsold'] tot'(2) by simp
    show ?thesis
      unfolding rows_loop.simps(2) Let_def tot'_def [symmetric]
      using assms(1) by (cases upd) (simp_all only: if_True if_False bindE_simps checkE_simps
          tot' adv image_cells.simps prod.case IH)
  qed
qed

subsection \<open>The shape of what the loop returns\<close>

lemma rows_loop_shape:
  assumes "rows_loop fuel tbl evlen upd n bl iu iuu tot rows rowsold ec = Inr (rows', rowsold')"
    and "\<And>isnull isused ec cs ec'. image_cells tbl isnull isused 0 n ec = Inr (cs, ec') \<Longrightarrow> P cs"
    and "list_all P rows" "list_all P rowsold"
    and "upd \<Longrightarrow> length rowsold = length rows" "\<not> upd \<Longrightarrow> rowsold = []"
  shows "list_all P rows' \<and> list_all P rowsold' \<and>
    (upd \<longrightarrow> length rowsold' = length rows') \<and> (\<not> upd \<longrightarrow> rowsold' = [])"
  using assms
proof (induction fuel arbitrary: tot rows rowsold ec)
  case (Suc fuel)
  show ?case
  proof (cases "ec_cur ec < evlen")
    case False
    with Suc.prems show ?thesis by simp
  next
    case True
    show ?thesis
    proof (cases upd)
      case t: True
      from Suc.prems(1) True t obtain tot' cells cellsnew ec1 ec1' ec2 ec2' where
        "image_cells tbl (ec_cur ec) iu 0 n ec1 = Inr (cells, ec1')"
        "image_cells tbl (ec_cur ec1') iuu 0 n ec2 = Inr (cellsnew, ec2')"
        and l: "rows_loop fuel tbl evlen upd n bl iu iuu tot' (rows @ [cellsnew])
           (rowsold @ [cells]) ec2' = Inr (rows', rowsold')"
        by (auto simp add: Let_def bindE_Inr_iff)
      then have "P cells" "P cellsnew" by (auto dest: Suc.prems(2))
      with Suc.prems(2-6) t show ?thesis by (intro Suc.IH [OF l]) simp_all
    next
      case f: False
      from Suc.prems(1) True f obtain tot' cells ec1 ec1' where
        "image_cells tbl (ec_cur ec) iu 0 n ec1 = Inr (cells, ec1')"
        and l: "rows_loop fuel tbl evlen upd n bl iu iuu tot' (rows @ [cells]) rowsold ec1' =
           Inr (rows', rowsold')"
        by (auto simp add: Let_def bindE_Inr_iff)
      then have "P cells" by (auto dest: Suc.prems(2))
      with Suc.prems(2-6) f show ?thesis by (intro Suc.IH [OF l]) simp_all
    qed
  qed
qed simp


lemma rows_loop_shape_init:
  assumes "rows_loop fuel tbl evlen upd n bl iu iuu tot [] [] ec = Inr r"
  shows "list_all (\<lambda>r. length r = n) (fst r) \<and> list_all (\<lambda>r. length r = n) (snd r) \<and>
    (upd \<longrightarrow> length (snd r) = length (fst r))"
  using rows_loop_shape [of fuel tbl evlen upd n bl iu iuu tot "[]" "[]" ec "fst r" "snd r"
      "\<lambda>r. length r = n"] assms by (simp add: image_cells_length)

subsection \<open>Rows events\<close>

definition wf_rows :: "RowsEvent \<Rightarrow> bool" where
  "wf_rows re \<longleftrightarrow>
     length (re_rows re) = re_nrows re \<and>
     (\<forall>r \<in> set (re_rows re). length r = unat (re_nfields re)) \<and>
     (case re_rowsold re of
        None \<Rightarrow> re_type re \<noteq> BL_UPDATE_ROWS_EVENT
      | Some old \<Rightarrow> re_type re = BL_UPDATE_ROWS_EVENT \<and> length old = re_nrows re \<and>
          (\<forall>r \<in> set old. length r = unat (re_nfields re)))"

lemma free_rows_ok:
  "(\<And>r. r \<in> set rows \<Longrightarrow> length r = nf) \<Longrightarrow> i + n \<le> length rows \<Longrightarrow> free_rows rows i n nf = Inr ()"
  by (induction n arbitrary: i) (simp_all add: nthE_def)

lemma rowsevFreeRows_ok: "wf_rows re \<Longrightarrow> rowsevFreeRows re = Inr ()"
  by (auto simp add: wf_rows_def rowsevFreeRows_def free_rows_ok deref_def split: option.splits)

lemma parseRowsEvent_shape:
  assumes "parseRowsEvent bl re ev = Inr re'"
  shows "wf_rows re' \<and> re_nfields re' = t_nfields (bl_table bl) \<and>
    re_tableid re' = t_tableid (bl_table bl)"
  using assms
  unfolding parseRowsEvent_def Let_def split_def bindE_Inr_iff checkE_Inr_iff
  by - (elim exE conjE, drule rows_loop_shape_init, auto simp add: wf_rows_def list_all_iff)

lemma parseRowsEvent_ends: "ends (parseRowsEvent bl re ev)"
  unfolding parseRowsEvent_def Let_def split_def
  by (intro ends_intros rows_loop_fuel; simp?)

end
