(* ===== verification/Client.thy ===== *)
theory Client
  imports DataSource RowsSafety
begin

text \<open>
  The client of \<open>src/src/libbinlog.c\<close>: it pulls events from a data source, feeds the parsers
  of LogEvent and hands out one row at a time. The driver is the parameter \<open>ops\<close>, the
  function pointers of \<open>DataSource\<close>.
\<close>

subsection \<open>Rows and the client (libbinlog.h)\<close>

record BinlogRow =
  br_nfields :: nat
  br_type :: u8
  br_created :: u32
  br_row :: "Cell list"
  br_rowOld :: "Cell list option"

text \<open>
  \<open>bc_rows\<close> is the block \<open>_rows\<close> points to: its length is the number of rows allocated, an
  entry is \<open>None\<close> until it is written.
\<close>

record 'd BinlogClient =
  bc_rows :: "BinlogRow option list option"
  bc_lenRows :: nat
  bc_cur :: nat
  bc_startidx :: int
  bc_binlog :: Binlog
  bc_dataSource :: "'d DataSource option"
  bc_err :: bool
  bc_errstr :: "u8 list"

abbreviation set_ds :: "'d DataSource \<Rightarrow> 'd BinlogClient \<Rightarrow> 'd BinlogClient" where
  "set_ds ds bc \<equiv> bc\<lparr>bc_dataSource := Some ds\<rparr>"

text \<open>\<open>snprintf(errstr, BL_ERROR_SIZE, "%s", s)\<close>.\<close>

definition snprintf_err :: "u8 list \<Rightarrow> u8 list" where
  "snprintf_err s = take (BL_ERROR_SIZE - 1) s"

text \<open>
  \<open>sprintf(bc->errstr, ds->errstr, 255)\<close>: the driver's message is the format. A message with a
  \<open>%\<close> (37) is \<open>BadFormat\<close>, a message that does not fit \<open>BufferOverflow\<close>.
\<close>

definition sprintf_err :: "u8 list \<Rightarrow> u8 list res" where
  "sprintf_err s =
     bindE (checkE BadFormat (37 \<notin> set s)) (\<lambda>_.
     bindE (checkE BufferOverflow (length s < BL_ERROR_SIZE)) (\<lambda>_. Inr s))"

text \<open>The uninitialised \<open>RowsEvent rowsev\<close> of \<open>_fetchOne\<close>; every field that is read is written first.\<close>

definition rowsev_uninit :: RowsEvent where
  "rowsev_uninit = \<lparr>re_type = 0, re_ts = 0, re_evlen = 0, re_nextpos = 0, re_serverid = 0,
     re_tableid = 0, re_nfields = 0, re_nrows = 0, re_rows = [], re_rowsold = None\<rparr>"

subsection \<open>Pulling events\<close>

text \<open>The body of the \<open>for (;;)\<close> between \<open>getEvent\<close> and \<open>freeEvent\<close>: the client after the event,
  and the rows event when there was one.\<close>

definition handleEvent ::
    "'d BinlogClient \<Rightarrow> 'd DataSource \<Rightarrow> u8 list \<Rightarrow> (RowsEvent option \<times> 'd BinlogClient) res"
where
  "handleEvent bc ds ev =
     bindE (getEventType ev) (\<lambda>evtype.
     bindE (if evtype = BL_FORMAT_DESCRIPTION_EVENT
            then bindE (parseFDE (bc_binlog bc) ev) (\<lambda>bl. Inr (bc\<lparr>bc_binlog := bl\<rparr>))
            else Inr bc) (\<lambda>bc.
     if evtype = BL_TABLE_MAP_EVENT then
       bindE (parseTableMapEvent (bc_binlog bc) ev) (\<lambda>bl.
       let t = bl_table bl in
         Inr (None, set_ds (ds\<lparr>ds_position := t_nextpos t - t_evlen t, ds_index := 0\<rparr>)
                      (bc\<lparr>bc_binlog := bl\<rparr>)))
     else if evtype = BL_WRITE_ROWS_EVENT \<or> evtype = BL_UPDATE_ROWS_EVENT \<or>
             evtype = BL_DELETE_ROWS_EVENT then
       bindE (parseRowsEvent (bc_binlog bc) rowsev_uninit ev) (\<lambda>e. Inr (Some e, set_ds ds bc))
     else if evtype = BL_ROTATE_EVENT then
       bindE (parseRotateEvent (bc_binlog bc) ev) (\<lambda>ro.
         Inr (None, set_ds (ds\<lparr>ds_position := ucast (ro_position ro),
                 ds_logfile := takeWhile (\<lambda>c. c \<noteq> 0) (ro_fileName ro)\<rparr>) bc))
     else Inr (None, set_ds ds bc)))"

fun getRowsEvent ::
    "nat \<Rightarrow> 'd ds_ops \<Rightarrow> 'd BinlogClient \<Rightarrow> (RowsEvent option \<times> 'd BinlogClient) res"
where
  "getRowsEvent 0 ops bc = Inl OutOfFuel"
| "getRowsEvent (Suc fuel) ops bc =
     bindE (deref (bc_dataSource bc)) (\<lambda>ds.
     bindE (op_getEvent ops ds) (\<lambda>(ev, ds).
     case ev of
       None \<Rightarrow> bindE (sprintf_err (ds_errstr ds)) (\<lambda>s.
                 Inr (None, set_ds ds (bc\<lparr>bc_err := True, bc_errstr := s\<rparr>)))
     | Some ev \<Rightarrow>
         bindE (handleEvent bc ds ev) (\<lambda>(r, bc).
         bindE (deref (bc_dataSource bc)) (\<lambda>ds.
         bindE (op_freeEvent ops ds) (\<lambda>ds.
         case r of Some e \<Rightarrow> Inr (Some e, set_ds ds bc)
                 | None \<Rightarrow> getRowsEvent fuel ops (set_ds ds bc))))))"

subsection \<open>The row buffer\<close>

definition mk_row :: "RowsEvent \<Rightarrow> nat \<Rightarrow> BinlogRow res" where
  "mk_row ev i =
     bindE (nthE (re_rows ev) i) (\<lambda>row.
     bindE (if re_type ev = BL_UPDATE_ROWS_EVENT
            then bindE (deref (re_rowsold ev)) (\<lambda>old. bindE (nthE old i) (\<lambda>r. Inr (Some r)))
            else Inr None) (\<lambda>old.
       Inr \<lparr>br_nfields = unat (re_nfields ev), br_type = re_type ev, br_created = re_ts ev,
            br_row = row, br_rowOld = old\<rparr>))"

text \<open>The \<open>while (i < ev->nrows)\<close> loop, with the number of rows still to copy.\<close>

fun copy_rows :: "RowsEvent \<Rightarrow> nat \<Rightarrow> nat \<Rightarrow> BinlogRow option list \<Rightarrow> BinlogRow option list res" where
  "copy_rows ev i 0 buf = Inr buf"
| "copy_rows ev i (Suc n) buf =
     bindE (mk_row ev i) (\<lambda>row. bindE (poke buf i [Some row]) (\<lambda>buf. copy_rows ev (Suc i) n buf))"

definition setRowsEventBuffer :: "'d BinlogClient \<Rightarrow> RowsEvent \<Rightarrow> 'd BinlogClient res" where
  "setRowsEventBuffer bc ev =
     (let rows = (if bc_rows bc = None \<and> bc_lenRows bc < re_nrows ev
                  then Some (replicate (re_nrows ev) None) else bc_rows bc);
          rows = (if rows \<noteq> None \<and> bc_lenRows bc < re_nrows ev
                  then Some (replicate (re_nrows ev) None) else rows);
          bc = bc\<lparr>bc_rows := rows, bc_cur := 0, bc_lenRows := re_nrows ev\<rparr>
      in if re_nrows ev = 0 then Inr bc
         else bindE (deref rows) (\<lambda>buf. bindE (copy_rows ev 0 (re_nrows ev) buf) (\<lambda>buf.
                Inr (bc\<lparr>bc_rows := Some buf\<rparr>))))"

text \<open>The pointer into the buffer is modelled by the row it points to.\<close>

definition fetchFromBuffer :: "'d BinlogClient \<Rightarrow> (BinlogRow option \<times> 'd BinlogClient) res" where
  "fetchFromBuffer bc =
     (if bc_cur bc < bc_lenRows bc then
        bindE (deref (bc_rows bc)) (\<lambda>buf.
        bindE (nthE buf (bc_cur bc)) (\<lambda>r.
          case r of None \<Rightarrow> Inl Uninitialized
          | Some row \<Rightarrow> Inr (Some row, bc\<lparr>bc_cur := bc_cur bc + 1\<rparr>)))
      else Inr (None, bc))"

text \<open>
  \<open>freeBinlogRow\<close> reads \<open>nfields\<close> cells of \<open>row\<close>, and of \<open>rowOld\<close> for an update. Freeing
  has no other effect in the model: a row's cells are values, not addresses.
\<close>

definition freeBinlogRow :: "BinlogRow option \<Rightarrow> unit res" where
  "freeBinlogRow r =
     (case r of None \<Rightarrow> Inr ()
      | Some br \<Rightarrow>
          if br_nfields br > length (br_row br) then Inl OutOfBounds
          else if br_type br = BL_UPDATE_ROWS_EVENT \<and> br_nfields br > 0 then
            bindE (deref (br_rowOld br)) (\<lambda>old.
              if br_nfields br > length old then Inl OutOfBounds else Inr ())
          else Inr ())"

subsection \<open>Fetching rows\<close>

definition fetchOne_raw ::
    "nat \<Rightarrow> 'd ds_ops \<Rightarrow> 'd BinlogClient \<Rightarrow> (BinlogRow option \<times> 'd BinlogClient) res"
where
  "fetchOne_raw fuel ops bc =
     bindE (if bc_cur bc = bc_lenRows bc then
              bindE (getRowsEvent fuel ops bc) (\<lambda>(r, bc).
              case r of
                None \<Rightarrow> bindE (deref (bc_dataSource bc)) (\<lambda>ds.
                  Inr (False, set_ds (ds\<lparr>ds_index := 0\<rparr>)
                         (bc\<lparr>bc_errstr := snprintf_err (ds_errstr ds)\<rparr>)))
              | Some e \<Rightarrow> bindE (setRowsEventBuffer bc e) (\<lambda>bc. Inr (True, bc)))
            else Inr (True, bc)) (\<lambda>(ok, bc).
     if \<not> ok then Inr (None, bc)
     else bindE (deref (bc_dataSource bc)) (\<lambda>ds.
            fetchFromBuffer (set_ds (ds\<lparr>ds_index := ds_index ds + 1\<rparr>) bc)))"

text \<open>\<open>"Impossible index %d at position %d"\<close>.\<close>

definition int_digits :: "int \<Rightarrow> u8 list" where
  "int_digits i = (if i < 0 then 45 # dec_digits (nat (- i)) else dec_digits (nat i))"

definition impossible_index :: "int \<Rightarrow> u32 \<Rightarrow> u8 list" where
  "impossible_index start oldpos = snprintf_err
     ([73, 109, 112, 111, 115, 115, 105, 98, 108, 101, 32, 105, 110, 100, 101, 120, 32] @
      int_digits start @ [32, 97, 116, 32, 112, 111, 115, 105, 116, 105, 111, 110, 32] @
      int_digits (sint oldpos))"

text \<open>
  The \<open>while (bc->_startidx)\<close> loop of \<open>fetchOne\<close>. \<open>True\<close> when it ran to the end, \<open>False\<close>
  when it returned NULL.
\<close>

fun skip_rows ::
    "nat \<Rightarrow> 'd ds_ops \<Rightarrow> nat \<Rightarrow> int \<Rightarrow> 'd BinlogClient \<Rightarrow> (bool \<times> 'd BinlogClient) res"
where
  "skip_rows fuel ops 0 start bc =
     (if bc_startidx bc = 0 then Inr (True, bc) else Inl OutOfFuel)"
| "skip_rows fuel ops (Suc k) start bc =
     (if bc_startidx bc = 0 then Inr (True, bc)
      else bindE (deref (bc_dataSource bc)) (\<lambda>ds.
           let oldpos = ds_position ds in
           bindE (fetchOne_raw fuel ops bc) (\<lambda>(row, bc).
           if bc_startidx bc = - (2 ^ 31) then Inl IntOverflow else
           let bc = bc\<lparr>bc_startidx := bc_startidx bc - 1\<rparr> in
           bindE (freeBinlogRow row) (\<lambda>_.
           bindE (deref (bc_dataSource bc)) (\<lambda>ds.
             if oldpos \<noteq> ds_position ds
             then Inr (False, bc\<lparr>bc_errstr := impossible_index start oldpos, bc_err := True\<rparr>)
             else skip_rows fuel ops k start bc)))))"

text \<open>
  \<open>fuel\<close> bounds the events one call may pull. The skip loop runs \<open>_startidx\<close> times, or
  \<open>2^32\<close> at most when it starts negative.
\<close>

definition fetchOne ::
    "nat \<Rightarrow> 'd ds_ops \<Rightarrow> 'd BinlogClient \<Rightarrow> (BinlogRow option \<times> 'd BinlogClient) res"
where
  "fetchOne fuel ops bc =
     bindE (skip_rows fuel ops (nat (bc_startidx bc mod 2 ^ 32)) (bc_startidx bc) bc)
       (\<lambda>(ok, bc). if ok then fetchOne_raw fuel ops bc else Inr (None, bc))"

subsection \<open>Connecting and releasing\<close>

definition url_prefix :: "u8 list \<Rightarrow> u8 list \<Rightarrow> bool" where
  "url_prefix p url \<longleftrightarrow> take (length p) url = p"

definition empty_table :: TableEv where
  "empty_table = \<lparr>t_ts = 0, t_serverid = 0, t_nextpos = 0, t_evlen = 0, t_dbname = [],
     t_tblname = [], t_nfields = 0, t_tableid = 0, t_types = None, t_canbenull = None,
     t_meta = None\<rparr>"

definition empty_binlog :: Binlog where
  "empty_binlog = \<lparr>bl_blver = 0, bl_hdrlen = 0, bl_masterid = 0, bl_server = replicate 50 0,
     bl_posthdr = replicate 29 0, bl_table = empty_table\<rparr>"

definition new_client :: "'d BinlogClient" where
  "new_client = \<lparr>bc_rows = None, bc_lenRows = 0, bc_cur = 0, bc_startidx = 0,
     bc_binlog = empty_binlog, bc_dataSource = None, bc_err = False, bc_errstr = []\<rparr>"

text \<open>
  \<open>initMySQL\<close> and \<open>initFile\<close> are \<open>dsInitWithMySQL\<close> and \<open>dsInitWithFile\<close>: they fill the data
  source and choose the function pointers. The result pairs the client with those pointers.
\<close>

definition connectDataSource ::
    "(u8 list \<Rightarrow> ('d ds_ops \<times> 'd DataSource) res) \<Rightarrow> (u8 list \<Rightarrow> ('d ds_ops \<times> 'd DataSource) res) \<Rightarrow>
     u8 list \<Rightarrow> u32 \<Rightarrow> u32 \<Rightarrow> int \<Rightarrow> ('d ds_ops option \<times> 'd BinlogClient) res"
where
  "connectDataSource initMySQL initFile url position index serverid =
     (let init = (if url_prefix [109, 121, 115, 113, 108] url then Some (initMySQL url)
                  else if url_prefix [102, 105, 108, 101] url then Some (initFile url)
                  else None)
      in case init of
           None \<Rightarrow> Inr (None, new_client\<lparr>bc_errstr := snprintf_err
               [85, 110, 107, 110, 111, 119, 32, 32, 100, 97, 116, 97, 115, 111, 117, 114, 99, 101],
               bc_err := True\<rparr>)
         | Some m \<Rightarrow>
             bindE m (\<lambda>(ops, ds).
             let ds = ds\<lparr>ds_position := position, ds_index := 0, ds_serverid := serverid\<rparr>;
                 bc = new_client\<lparr>bc_startidx := sint index\<rparr> in
             bindE (op_connect ops ds) (\<lambda>(ok, ds).
               if \<not> ok then Inr (Some ops, bc\<lparr>bc_errstr := snprintf_err (ds_errstr ds), bc_err := True\<rparr>)
               else Inr (Some ops, bc\<lparr>bc_dataSource := Some ds\<rparr>))))"

text \<open>\<open>freeBinlogClient\<close>: the data source is closed when there is one.\<close>

definition freeBinlogClient :: "'d ds_ops \<Rightarrow> 'd BinlogClient option \<Rightarrow> unit res" where
  "freeBinlogClient ops b =
     (case b of None \<Rightarrow> Inr ()
      | Some bc \<Rightarrow> (case bc_dataSource bc of None \<Rightarrow> Inr ()
          | Some ds \<Rightarrow> bindE (op_close ops ds) (\<lambda>_. Inr ())))"

end
