(* ===== verification/TableFormat.thy ===== *)
theory TableFormat
  imports RowsSafety
begin

text \<open>
  The layouts of the format description, table map and rotate events, written as encoders,
  and what \<open>parseFDE\<close>, \<open>decodeMetadata\<close>, \<open>parseTableMapEvent\<close> and \<open>parseRotateEvent\<close>
  make of them.
\<close>

subsection \<open>Column metadata\<close>

text \<open>The metadata block of a table map event: what the server writes for each column type.\<close>

definition meta_bytes :: "bl_enum_field_types \<Rightarrow> u16 \<Rightarrow> u8 list" where
  "meta_bytes t m =
     (if t \<in> {BL_MYSQL_TYPE_TINY_BLOB, BL_MYSQL_TYPE_BLOB, BL_MYSQL_TYPE_MEDIUM_BLOB,
               BL_MYSQL_TYPE_LONG_BLOB, BL_MYSQL_TYPE_DOUBLE, BL_MYSQL_TYPE_FLOAT,
               BL_MYSQL_TYPE_GEOMETRY}
      then [of_nat (unat m)]
      else if t \<in> {BL_MYSQL_TYPE_SET, BL_MYSQL_TYPE_ENUM, BL_MYSQL_TYPE_STRING,
                    BL_MYSQL_TYPE_NEWDECIMAL}
      then [of_nat (unat m div 256), of_nat (unat m mod 256)]
      else if t \<in> {BL_MYSQL_TYPE_BIT, BL_MYSQL_TYPE_VARCHAR}
      then le_bytes 2 (unat m)
      else [])"

definition meta_ok :: "bl_enum_field_types \<Rightarrow> u16 \<Rightarrow> bool" where
  "meta_ok t m \<longleftrightarrow>
     (if t \<in> {BL_MYSQL_TYPE_TINY_BLOB, BL_MYSQL_TYPE_BLOB, BL_MYSQL_TYPE_MEDIUM_BLOB,
               BL_MYSQL_TYPE_LONG_BLOB, BL_MYSQL_TYPE_DOUBLE, BL_MYSQL_TYPE_FLOAT,
               BL_MYSQL_TYPE_GEOMETRY}
      then unat m < 256
      else t \<in> {BL_MYSQL_TYPE_SET, BL_MYSQL_TYPE_ENUM, BL_MYSQL_TYPE_STRING,
                 BL_MYSQL_TYPE_NEWDECIMAL, BL_MYSQL_TYPE_BIT, BL_MYSQL_TYPE_VARCHAR} \<or> m = 0)"

lemma ucast_u8_u16: "n < 256 \<Longrightarrow> (ucast (of_nat n :: u8) :: u16) = of_nat n"
  by (simp add: word_unat_eq_iff unat_of_nat unsigned_ucast_eq take_bit_eq_mod)

lemma u16_split: "push_bit 8 (of_nat (unat m div 256)) + of_nat (unat m mod 256) = (m :: u16)"
proof -
  have "push_bit 8 (of_nat (unat m div 256) :: u16) = of_nat (unat m div 256 * 256)"
    by (simp add: push_bit_eq_mult)
  then have "push_bit 8 (of_nat (unat m div 256)) + of_nat (unat m mod 256)
      = (of_nat (unat m div 256 * 256 + unat m mod 256) :: u16)"
    by (simp only: of_nat_add)
  then show ?thesis by (simp only: div_mult_mod_eq) simp
qed

lemma of_nat_u8_mod: "(of_nat (v mod 256) :: u8) = of_nat v"
  by (simp only: word_unat_eq_iff unat_u8_of_nat mod_mod_trivial)

lemma unat_u16_div: "unat (m :: u16) div 256 < 256"
  using unsigned_less [of m, where 'a = nat] by (simp add: less_mult_imp_div_less)

lemma getUint8_in: "off = length pre \<Longrightarrow> getUint8 (pre @ b # post) off = Inr b"
  using peek_append [of off pre 1 "[b]" post] by (simp add: getUint8_def)

lemma getUint8_in1: "off = length pre \<Longrightarrow> getUint8 (pre @ a # b # post) (Suc off) = Inr b"
  using getUint8_in [of "Suc off" "pre @ [a]" b post] by simp

lemma decode_meta_step:
  assumes "off = length pre" "meta_ok t m" "ev = pre @ meta_bytes t m @ post"
    and that: "off = metadata + index"
  shows "decode_meta ev metadata (field_type_code t # ts) index =
    bindE (decode_meta ev metadata ts (index + length (meta_bytes t m))) (\<lambda>ms. Inr (m # ms))"
proof -
  have c: "field_type_of (field_type_code t) = Some t" by (rule field_type_of_code)
  show ?thesis
  proof (cases "t \<in> {BL_MYSQL_TYPE_TINY_BLOB, BL_MYSQL_TYPE_BLOB, BL_MYSQL_TYPE_MEDIUM_BLOB,
               BL_MYSQL_TYPE_LONG_BLOB, BL_MYSQL_TYPE_DOUBLE, BL_MYSQL_TYPE_FLOAT,
               BL_MYSQL_TYPE_GEOMETRY}")
    case True
    then have mb: "meta_bytes t m = [of_nat (unat m)]" and m: "unat m < 256"
      using assms(2) by (simp_all add: meta_bytes_def meta_ok_def)
    have "getUint8 ev (metadata + index) = Inr (of_nat (unat m))"
      using getUint8_in [OF assms(1)] assms(3) that by (simp add: mb)
    moreover have "(ucast (of_nat (unat m) :: u8) :: u16) = m" using ucast_u8_u16 [OF m] by simp
    ultimately show ?thesis using True unfolding decode_meta.simps c mb by auto
  next
    case F1: False
    show ?thesis
    proof (cases "t \<in> {BL_MYSQL_TYPE_SET, BL_MYSQL_TYPE_ENUM, BL_MYSQL_TYPE_STRING,
                 BL_MYSQL_TYPE_NEWDECIMAL}")
      case True
      then have mb: "meta_bytes t m = [of_nat (unat m div 256), of_nat (unat m mod 256)]"
        using F1 by (simp add: meta_bytes_def)
      have "getUint8 ev (metadata + index) = Inr (of_nat (unat m div 256))"
        "getUint8 ev (metadata + index + 1) = Inr (of_nat (unat m mod 256))"
        using getUint8_in [OF assms(1)] getUint8_in1 [OF assms(1)] assms(3) that
        by (simp_all add: mb)
      with True F1 u16_split [of m] show ?thesis unfolding decode_meta.simps c mb
        by (auto simp add: ucast_u8_u16 unat_u16_div)
    next
      case F2: False
      show ?thesis
      proof (cases "t \<in> {BL_MYSQL_TYPE_BIT, BL_MYSQL_TYPE_VARCHAR}")
        case True
        then have mb: "meta_bytes t m = le_bytes 2 (unat m)" using F1 F2 by (auto simp add: meta_bytes_def)
        have 2: "le_bytes 2 (unat m) = [of_nat (unat m mod 256), of_nat (unat m div 256)]"
          by (simp only: numeral_2_eq_2 le_bytes.simps of_nat_u8_mod)
        have "getUint8 ev (metadata + index) = Inr (of_nat (unat m mod 256))"
          "getUint8 ev (metadata + index + 1) = Inr (of_nat (unat m div 256))"
          using getUint8_in [OF assms(1)] getUint8_in1 [OF assms(1)] assms(3) that
          by (simp_all add: mb 2)
        moreover have "getUint16 ev (metadata + index) = Inr m"
          using assms(1,3) that by (simp add: mb getUint16_def peek_append)
        ultimately show ?thesis using True F1 F2 u16_split [of m]
          unfolding decode_meta.simps c mb
          by (auto simp add: ucast_u8_u16 unat_u16_div add.commute)
      next
        case F3: False
        then have "meta_bytes t m = []" "m = 0" using F1 F2 assms(2) by (auto simp add: meta_bytes_def meta_ok_def)
        then show ?thesis using F1 F2 F3 unfolding decode_meta.simps c by auto
      qed
    qed
  qed
qed

type_synonym column = "bl_enum_field_types \<times> u16"

definition cols_meta :: "column list \<Rightarrow> u8 list" where
  "cols_meta cols = concat (map (\<lambda>(t, m). meta_bytes t m) cols)"

definition cols_types :: "column list \<Rightarrow> u8 list" where
  "cols_types cols = map (\<lambda>(t, m). field_type_code t) cols"

lemma length_cols_types [simp]: "length (cols_types cols) = length cols"
  by (simp add: cols_types_def)

lemma decode_meta_cols:
  assumes "list_all (\<lambda>(t, m). meta_ok t m) cols" "ev = pre @ cols_meta cols @ post"
    and "metadata + index = length pre"
  shows "decode_meta ev metadata (cols_types cols) index = Inr (map snd cols)"
  using assms
proof (induction cols arbitrary: pre index)
  case Nil
  then show ?case by (simp add: cols_types_def)
next
  case (Cons c cols)
  obtain t m where [simp]: "c = (t, m)" by (cases c)
  have "decode_meta ev metadata (cols_types cols) (index + length (meta_bytes t m)) = Inr (map snd cols)"
    using Cons.prems by (intro Cons.IH [of "pre @ meta_bytes t m"]) (simp_all add: cols_meta_def)
  moreover have "decode_meta ev metadata (field_type_code t # cols_types cols) index =
    bindE (decode_meta ev metadata (cols_types cols) (index + length (meta_bytes t m)))
      (\<lambda>ms. Inr (m # ms))"
    using Cons.prems
    by (intro decode_meta_step [of _ pre _ _ _ "cols_meta cols @ post"]) (simp_all add: cols_meta_def)
  ultimately show ?case by (simp add: cols_types_def del: decode_meta.simps)
qed

text \<open>The metadata block of every column list decodes to the columns' metadata.\<close>

lemma decodeMetadata_cols:
  assumes "list_all (\<lambda>(t, m). meta_ok t m) cols" "off = length pre"
  shows "decodeMetadata (pre @ cols_meta cols @ post) (cols_types cols) len off =
    Inr (map snd cols)"
  unfolding decodeMetadata_def using assms decode_meta_cols [of cols _ pre post off 0] by simp

lemma col_meta_ok: "col_ok v \<Longrightarrow> meta_ok (col_type v) (col_meta v)"
  by (cases v) (auto simp add: meta_ok_def unat_of_nat)

subsection \<open>The table map event\<close>

text \<open>
  The event as the server writes it: table id, flags, the two names, the column types, the
  metadata block with its length, and one nullability bit per column.
\<close>

definition name_bytes :: "u8 list \<Rightarrow> u8 list" where
  "name_bytes s = of_nat (length s) # s @ [0]"

definition table_map_body :: "nat \<Rightarrow> u8 list \<Rightarrow> u8 list \<Rightarrow> u8 list \<Rightarrow> column list \<Rightarrow> bool list \<Rightarrow> u8 list"
where
  "table_map_body tid res db name cols nullable =
     le_bytes 6 tid @ res @ name_bytes db @ name_bytes name @ lenenc (length cols) @
     cols_types cols @ lenenc (length (cols_meta cols)) @ cols_meta cols @ bitmap nullable"

definition name_ok :: "u8 list \<Rightarrow> bool" where
  "name_ok s \<longleftrightarrow> length s < 256 \<and> 0 \<notin> set s"

lemma strcpy_name:
  assumes "name_ok s" "off = length pre"
  shows "getUint8 (pre @ name_bytes s @ post) off = Inr (of_nat (length s))"
    "strcpy256 (pre @ name_bytes s @ post) (off + 1) = Inr s"
proof -
  have "cstring_at (pre @ name_bytes s @ post) (off + 1) = Inr s"
    using cstring_at_append [of "off + 1" "pre @ [of_nat (length s)]" s post] assms
    by (simp add: name_bytes_def name_ok_def)
  then show "strcpy256 (pre @ name_bytes s @ post) (off + 1) = Inr s"
    using assms by (simp add: strcpy256_def name_ok_def)
  show "getUint8 (pre @ name_bytes s @ post) off = Inr (of_nat (length s))"
    using getUint8_in [OF assms(2), of "of_nat (length s)"] by (simp add: name_bytes_def)
qed


lemma ucast_u8_u32: "n < 256 \<Longrightarrow> (ucast (of_nat n :: u8) :: u32) = of_nat n"
  by (simp add: word_unat_eq_iff unat_of_nat unsigned_ucast_eq take_bit_eq_mod)

lemma peek_at_length:
  assumes "ev = pre @ rest" "off = length pre"
  shows "peek ev off n = (if n \<le> length rest then Inr (take n rest) else Inl OutOfBounds)"
  using assms by (simp add: peek_def)

definition table_of ::
    "u32 \<Rightarrow> u32 \<Rightarrow> nat \<Rightarrow> u32 \<Rightarrow> nat \<Rightarrow> u8 list \<Rightarrow> u8 list \<Rightarrow> column list \<Rightarrow> u8 list \<Rightarrow> TableEv" where
  "table_of ts sid evlen nextpos tid db name cols canbenull =
     \<lparr>t_ts = ts, t_serverid = sid, t_nextpos = nextpos, t_evlen = of_nat evlen, t_dbname = db,
      t_tblname = name, t_nfields = of_nat (length cols), t_tableid = of_nat tid,
      t_types = Some (cols_types cols), t_canbenull = Some canbenull,
      t_meta = Some (map snd cols)\<rparr>"

lemma parseTableMapEvent_general:
  assumes hdr: "bl_hdrlen bl = 19" and tid: "tid < 281474976710656" and res: "length res = 2"
    and names: "name_ok db" "name_ok name"
    and cols: "list_all (\<lambda>(t, m). meta_ok t m) cols"
    and ev: "ev = hdr_bytes ts type sid evlen nextpos flags @
        table_map_body tid res db name cols nullable @ post"
      "length ev \<le> INT_MAX" "evlen < 4294967296"
    and tail: "tail = cols_meta cols @ bitmap nullable @ post"
  shows "parseTableMapEvent bl ev =
    (if 2 * length cols \<le> length tail
     then Inr (bl\<lparr>bl_table := table_of ts sid evlen nextpos tid db name cols
                 (take (length cols) (drop (length cols) tail))\<rparr>)
     else Inl OutOfBounds)"
proof -
  define H where "H = hdr_bytes ts type sid evlen nextpos flags"
  define n ld ln L M where "n = length cols" and "ld = length db" and "ln = length name"
    and "L = length (lenenc n)" and "M = length (lenenc (length (cols_meta cols)))"
  define T where "T = lenenc n @ cols_types cols @ lenenc (length (cols_meta cols)) @ tail"
  have evD: "ev = H @ le_bytes 6 tid @ res @ name_bytes db @ name_bytes name @ T"
    by (simp add: ev(1) table_map_body_def H_def T_def tail n_def)
  have lens: "length H = 19" "length (name_bytes db) = ld + 2" "length (name_bytes name) = ln + 2"
    by (simp_all add: H_def name_bytes_def ld_def ln_def)
  have lev: "length ev = 31 + ld + ln + L + n + M + length tail"
    using lens res by (simp add: evD T_def L_def M_def n_def)
  have small: "length ev < 4294967296" "n < 4294967296" "length (cols_meta cols) < 4294967296"
    using ev(2) lev tail by (simp_all add: INT_MAX_def n_def)
  have w: "unat (of_nat k :: u32) = k" if "k \<le> length ev" for k
    using that small(1) by (simp add: unat_of_nat)
  have ldn: "ld < 256" "ln < 256" using names by (simp_all add: ld_def ln_def name_ok_def)
  note fields = hdr_fields [OF ev(3), of ts type sid nextpos flags
      "table_map_body tid res db name cols nullable @ post", folded ev(1)]
  have u: "(27 :: u32) + of_nat ld + 1 + 1 = of_nat (29 + ld)"
    "(of_nat (29 + ld) :: u32) + of_nat ln + 1 + 1 = of_nat (31 + ld + ln)" by simp_all
  have k: "unat (of_nat (29 + ld) :: u32) = 29 + ld"
    "unat (of_nat (31 + ld + ln) :: u32) = 31 + ld + ln"
    "unat (of_nat (31 + ld + ln) + of_nat L :: u32) = 31 + ld + ln + L"
    "unat (of_nat (31 + ld + ln) + of_nat L + of_nat n :: u32) = 31 + ld + ln + L + n"
    "unat (of_nat (31 + ld + ln) + of_nat L + of_nat n + of_nat M :: u32) = 31 + ld + ln + L + n + M"
    using w [of "29 + ld"] w [of "31 + ld + ln"] w [of "31 + ld + ln + L"]
      w [of "31 + ld + ln + L + n"] w [of "31 + ld + ln + L + n + M"] lev
    by simp_all
  have 1: "getUint8 ev 27 = Inr (of_nat ld)" "strcpy256 ev (27 + 1) = Inr db"
    using strcpy_name [OF names(1), of 27 "H @ le_bytes 6 tid @ res"] lens res
    by (simp_all add: evD ld_def)
  have 2: "getUint8 ev (29 + ld) = Inr (of_nat ln)" "strcpy256 ev (29 + ld + 1) = Inr name"
    using strcpy_name [OF names(2), of "29 + ld" "H @ le_bytes 6 tid @ res @ name_bytes db"] lens res
    by (simp_all add: evD ln_def)
  have 3: "getUint48 ev 19 = Inr (of_nat tid)"
    unfolding evD using lens tid by (intro getUint48_at) simp_all
  have 4: "decodeint ev (of_nat (31 + ld + ln)) = Inr (of_nat n, of_nat (31 + ld + ln) + of_nat L)"
    unfolding L_def using evD lens res k small
    by (intro decodeint_at [of _ "H @ le_bytes 6 tid @ res @ name_bytes db @ name_bytes name"])
      (simp_all add: T_def)
  have 5: "peek ev (31 + ld + ln + L) n = Inr (cols_types cols)"
    using lens res peek_append [of "31 + ld + ln + L"
        "H @ le_bytes 6 tid @ res @ name_bytes db @ name_bytes name @ lenenc n" n "cols_types cols"
        "lenenc (length (cols_meta cols)) @ tail"]
    by (simp add: evD T_def L_def n_def)
  have 6: "decodeint ev (of_nat (31 + ld + ln) + of_nat L + of_nat n) =
      Inr (of_nat (length (cols_meta cols)), of_nat (31 + ld + ln) + of_nat L + of_nat n + of_nat M)"
    unfolding M_def using evD lens res k small
    by (intro decodeint_at [of _ "H @ le_bytes 6 tid @ res @ name_bytes db @ name_bytes name @ lenenc n @ cols_types cols"])
      (simp_all add: T_def L_def n_def)
  define B where "B = H @ le_bytes 6 tid @ res @ name_bytes db @ name_bytes name @ lenenc n @
    cols_types cols @ lenenc (length (cols_meta cols))"
  have B: "ev = B @ tail" "length B = 31 + ld + ln + L + n + M"
    using lens res by (simp_all add: evD B_def T_def L_def M_def n_def)
  have 7: "decodeMetadata ev (cols_types cols) len (31 + ld + ln + L + n + M) = Inr (map snd cols)" for len
    using decodeMetadata_cols [OF cols, of _ B "bitmap nullable @ post" len] B by (simp add: tail)
  have 8: "peek ev (31 + ld + ln + L + n + M + n) n =
      (if 2 * n \<le> length tail then Inr (take n (drop n tail)) else Inl OutOfBounds)"
    using B by (simp add: peek_def)
  have k8: "unat (of_nat (31 + ld + ln) + of_nat L + of_nat n + of_nat M + of_nat n :: u32) =
      31 + ld + ln + L + n + M + n"
  proof -
    have "31 + ld + ln + L + n + M + n < 4294967296"
      using lev ev(2) by (simp add: INT_MAX_def)
    then have "unat (of_nat (31 + ld + ln + L + n + M + n) :: u32) = 31 + ld + ln + L + n + M + n"
      by (rule unat_of_nat_small)
    then show ?thesis by (simp only: of_nat_add)
  qed
  have h: "(19 :: u32) + 8 = 27" "unat (27 :: u32) = 27" "unat (19 :: u32) = 19"
    "(ucast (19 :: u8) :: u32) = 19" by simp_all
  show ?thesis
    unfolding parseTableMapEvent_def Let_def hdr
    by (simp only: h 1 bindE_simps ucast_u8_u32 [OF ldn(1)] ucast_u8_u32 [OF ldn(2)] u k k8 2 3 4 5 6 7 8
        prod.case ucast_of_nat_u64_u32 unat_of_nat_small(2) [OF small(2)] fields)
      (simp add: n_def tblevFreeTableRes_def table_of_def)
qed

subsection \<open>The format description event\<close>

definition fde_body :: "u16 \<Rightarrow> u8 list \<Rightarrow> u32 \<Rightarrow> u8 \<Rightarrow> u8 list \<Rightarrow> u8 list" where
  "fde_body ver server created hdrlen posthdr =
     le_bytes 2 (unat ver) @ server @ le_bytes 4 (unat created) @ [hdrlen] @ posthdr"

lemma scast_small:
  assumes "n < 2147483648"
  shows "(scast (of_nat n :: u32) :: u64) = of_nat n"
proof -
  have "(of_nat n :: u32) = of_int (int n)" by simp
  moreover have "signed_take_bit 31 (int n) = int n"
    using assms by (intro signed_take_bit_int_eq_self) simp_all
  ultimately have "sint (of_nat n :: u32) = int n" by (simp only: signed_of_int) simp
  then show ?thesis by (simp only: scast_eq of_int_of_nat_eq)
qed

lemma parseFDE_general:
  assumes "length server = 50" "length posthdr < 2147483572"
    and "evlen = 76 + length posthdr"
  shows "parseFDE bl (hdr_bytes ts type sid evlen nextpos flags @
           fde_body ver server created hdrlen posthdr @ post) =
    (if length posthdr > 29 then Inl AssertFailed
     else if length (posthdr @ post) < 29 then Inl OutOfBounds
     else Inr (bl\<lparr>bl_blver := ucast ver, bl_hdrlen := hdrlen, bl_masterid := sid,
                  bl_server := server, bl_posthdr := take 29 (posthdr @ post)\<rparr>))"
proof -
  let ?ev = "hdr_bytes ts type sid evlen nextpos flags @
           fde_body ver server created hdrlen posthdr @ post"
  have e: "evlen < 4294967296" "evlen < 2147483648" using assms by simp_all
  note f = hdr_fields [OF e(1), of ts type sid nextpos flags
      "fde_body ver server created hdrlen posthdr @ post"]
  have 1: "getUint16 ?ev 19 = Inr ver"
    by (simp add: getUint16_def fde_body_def peek_append)
  have 2: "peek ?ev 21 50 = Inr server"
    using peek_append [of 21 "hdr_bytes ts type sid evlen nextpos flags @ le_bytes 2 (unat ver)"
        50 server "le_bytes 4 (unat created) @ [hdrlen] @ posthdr @ post"] assms(1)
    by (simp add: fde_body_def)
  have 3: "getUint8 ?ev 75 = Inr hdrlen"
    using getUint8_in [of 75 "hdr_bytes ts type sid evlen nextpos flags @ le_bytes 2 (unat ver) @
        server @ le_bytes 4 (unat created)" hdrlen "posthdr @ post"] assms(1)
    by (simp add: fde_body_def)
  have 4: "(scast (of_nat evlen :: u32) :: u64) - 76 \<le> 29 \<longleftrightarrow> length posthdr \<le> 29"
  proof -
    have "(of_nat evlen :: u64) - 76 = of_nat (length posthdr)" by (simp add: assms(3))
    then show ?thesis using assms(2)
      by (simp add: scast_small [OF e(2)] word_le_nat_alt unat_of_nat)
  qed
  have 5: "peek ?ev 76 29 = (if length (posthdr @ post) < 29 then Inl OutOfBounds
      else Inr (take 29 (posthdr @ post)))"
    using assms(1) by (simp add: peek_def fde_body_def)
  show ?thesis
    unfolding parseFDE_def 1 2 3 f bindE_simps 4 5 by (simp add: checkE_def)
qed

subsection \<open>The rotate event\<close>

lemma parseRotateEvent_general:
  assumes "bl_hdrlen bl = 19" "pos < 18446744073709551616"
    and "evlen = 27 + length name" "evlen < 4294967296"
  shows "parseRotateEvent bl (hdr_bytes ts type sid evlen nextpos flags @ le_bytes 8 pos @ name @ post) =
    (if length name < 256 then Inr \<lparr>ro_position = of_nat pos, ro_fileName = name @ [0]\<rparr>
     else Inl BufferOverflow)"
proof -
  let ?ev = "hdr_bytes ts type sid evlen nextpos flags @ le_bytes 8 pos @ name @ post"
  note f = hdr_fields [OF assms(4), of ts type sid nextpos flags "le_bytes 8 pos @ name @ post"]
  have 1: "getUint64 ?ev 19 = Inr (of_nat pos)"
    using getUint64_at [of 19 "hdr_bytes ts type sid evlen nextpos flags"] assms(2) by simp
  have "(of_nat evlen :: u32) - (19 + 8) = of_nat (length name)" by (simp add: assms(3))
  moreover have "unat (of_nat (length name) :: u32) = length name"
    using assms(3,4) by (intro unat_of_nat_small) simp
  ultimately have 2: "unat ((of_nat evlen :: u32) - (19 + 8)) = length name" by simp
  have 3: "peek ?ev 27 (length name) = Inr name"
    using peek_append [of 27 "hdr_bytes ts type sid evlen nextpos flags @ le_bytes 8 pos"] by simp
  have h: "unat (19 + 8 :: u32) = 27" "unat (19 :: u32) = 19" "(ucast (19 :: u8) :: u32) = 19"
    by simp_all
  show ?thesis
    by (simp only: parseRotateEvent_def Let_def assms(1) h 1 2 3 f bindE_simps)
      (simp add: checkE_def)
qed

text \<open>
  Before a format description event the header length is 0: the position is taken from the
  first eight bytes of the header and the file name starts inside it.
\<close>

lemma parseRotateEvent_no_fde:
  assumes "bl_hdrlen bl = 0" "length ev = evlen" "19 \<le> evlen" "evlen < 264"
    and "getUint32 ev 9 = Inr (of_nat evlen)"
  shows "parseRotateEvent bl ev =
    Inr \<lparr>ro_position = of_nat (le_val (take 8 ev)), ro_fileName = drop 8 ev @ [0]\<rparr>"
proof -
  have "(of_nat evlen :: u32) - (0 + 8) = of_nat (evlen - 8)" using assms(3) by (simp add: of_nat_diff)
  moreover have "unat (of_nat (evlen - 8) :: u32) = evlen - 8"
    using assms(4) by (intro unat_of_nat_small) simp
  ultimately have 2: "unat ((of_nat evlen :: u32) - (0 + 8)) = evlen - 8" by simp
  have h: "unat (0 + 8 :: u32) = 8" "unat (0 :: u32) = 0" "(ucast (0 :: u8) :: u32) = 0" by simp_all
  have p: "peek ev 8 (evlen - 8) = Inr (drop 8 ev)" "peek ev 0 8 = Inr (take 8 ev)"
    using assms(2,3) by (simp_all add: peek_def)
  show ?thesis using assms(3,4)
    by (simp only: parseRotateEvent_def Let_def assms(1,5) h 2 p getUint64_def bindE_simps)
      (simp add: checkE_def less_diff_conv2)
qed
end
