(* ===== verification/ClientSpec.thy ===== *)
theory ClientSpec
  imports Client TableFormat
begin

text \<open>
  What a client promises: a log is a list of events in the format of the server, its rows are
  delivered one by one, each with the position of the table map it came after and its index
  from there. The locale \<open>data_source\<close> carries the proof that \<open>fetchOne\<close> keeps that
  promise on every data source that obeys the interface.
\<close>

subsection \<open>Logs\<close>

datatype event_body =
    EvFDE u16 "u8 list" u32 "u8 list"
  | EvTable nat "u8 list" "u8 list" "u8 list" "column list" "bool list"
  | EvRows u8 nat "u8 list" bool "bool list" "bool list" "(row_val \<times> row_val) list"
  | EvRotate nat "u8 list"
  | EvOther u8 "u8 list"

record event =
  e_ts :: u32
  e_sid :: u32
  e_nextpos :: u32
  e_flags :: u16
  e_body :: event_body

fun body_type :: "event_body \<Rightarrow> u8" where
  "body_type (EvFDE _ _ _ _) = BL_FORMAT_DESCRIPTION_EVENT"
| "body_type (EvTable _ _ _ _ _ _) = BL_TABLE_MAP_EVENT"
| "body_type (EvRows type _ _ _ _ _ _) = type"
| "body_type (EvRotate _ _) = BL_ROTATE_EVENT"
| "body_type (EvOther type _) = type"

fun body_bytes :: "event_body \<Rightarrow> u8 list" where
  "body_bytes (EvFDE ver server created posthdr) = fde_body ver server created 19 posthdr"
| "body_bytes (EvTable tid res db name cols nullable) =
     table_map_body tid res db name cols nullable"
| "body_bytes (EvRows type tid res fill ps pu cs) =
     rows_body (type = BL_UPDATE_ROWS_EVENT) tid res fill ps pu cs"
| "body_bytes (EvRotate pos name) = le_bytes 8 pos @ name"
| "body_bytes (EvOther type body) = body"

definition ev_len :: "event \<Rightarrow> nat" where
  "ev_len e = 19 + length (body_bytes (e_body e))"

definition ev_bytes :: "event \<Rightarrow> u8 list" where
  "ev_bytes e = hdr_bytes (e_ts e) (body_type (e_body e)) (e_sid e) (ev_len e) (e_nextpos e)
     (e_flags e) @ body_bytes (e_body e)"

lemma length_ev_bytes [simp]: "length (ev_bytes e) = ev_len e"
  by (simp add: ev_bytes_def ev_len_def)

text \<open>What the parser has seen: a format description event, and the current table.\<close>

type_synonym log_state = "bool \<times> (nat \<times> column list) option"

definition tbl_of :: "column list \<Rightarrow> TableEv" where
  "tbl_of cols = empty_table\<lparr>t_types := Some (cols_types cols), t_meta := Some (map snd cols)\<rparr>"

fun body_ok :: "log_state \<Rightarrow> event_body \<Rightarrow> bool" where
  "body_ok (h, t) (EvFDE ver server created posthdr) =
     (length server = 50 \<and> length posthdr \<le> 29)"
| "body_ok (h, t) (EvTable tid res db name cols nullable) =
     (h \<and> tid < 281474976710656 \<and> length res = 2 \<and> name_ok db \<and> name_ok name \<and>
      list_all (\<lambda>(t, m). meta_ok t m) cols \<and> length cols \<le> 1000)"
| "body_ok (h, t) (EvRows type tid res fill ps pu cs) =
     (h \<and> type \<in> {BL_WRITE_ROWS_EVENT, BL_UPDATE_ROWS_EVENT, BL_DELETE_ROWS_EVENT} \<and>
      length res = 2 \<and> ps \<noteq> [] \<and> length ps \<le> 1000 \<and> length pu = length ps \<and> cs \<noteq> [] \<and>
      length cs \<le> 2 ^ 30 \<and> image_ok ps \<and> (type = BL_UPDATE_ROWS_EVENT \<longrightarrow> image_ok pu) \<and>
      (case t of None \<Rightarrow> False
       | Some (tid', cols) \<Rightarrow> tid = tid' \<and> length ps = length cols \<and>
           list_all (change_ok (tbl_of cols) (type = BL_UPDATE_ROWS_EVENT) (length ps)) cs))"
| "body_ok (h, t) (EvRotate pos name) =
     (h \<and> pos < 18446744073709551616 \<and> length name < 256 \<and> 0 \<notin> set name)"
| "body_ok (h, t) (EvOther type body) =
     (type \<notin> {BL_FORMAT_DESCRIPTION_EVENT, BL_TABLE_MAP_EVENT, BL_WRITE_ROWS_EVENT,
               BL_UPDATE_ROWS_EVENT, BL_DELETE_ROWS_EVENT, BL_ROTATE_EVENT})"

fun body_next :: "log_state \<Rightarrow> event_body \<Rightarrow> log_state" where
  "body_next (h, t) (EvFDE ver server created posthdr) = (True, t)"
| "body_next (h, t) (EvTable tid res db name cols nullable) = (h, Some (tid, cols))"
| "body_next st _ = st"

fun log_ok :: "log_state \<Rightarrow> event list \<Rightarrow> bool" where
  "log_ok st [] = True"
| "log_ok st (e # es) = (body_ok st (e_body e) \<and> log_ok (body_next st (e_body e)) es)"

subsection \<open>The rows of a log\<close>

fun event_rows :: "event \<Rightarrow> BinlogRow list" where
  "event_rows e = (case e_body e of
     EvRows type tid res fill ps pu cs \<Rightarrow>
       map (\<lambda>c. \<lparr>br_nfields = length ps, br_type = type, br_created = e_ts e,
          br_row = row_cells (if type = BL_UPDATE_ROWS_EVENT then pu else ps) (snd c),
          br_rowOld = (if type = BL_UPDATE_ROWS_EVENT then Some (row_cells ps (fst c)) else None)\<rparr>) cs
   | _ \<Rightarrow> [])"

type_synonym view = "u32 \<times> u32 \<times> u8 list"

text \<open>Position, index and log file name after an event that is not a rows event.\<close>

fun view_next :: "event \<Rightarrow> view \<Rightarrow> view" where
  "view_next e (p, i, l) = (case e_body e of
     EvTable _ _ _ _ _ _ \<Rightarrow> (e_nextpos e - of_nat (ev_len e), 0, l)
   | EvRotate pos name \<Rightarrow> (of_nat pos, i, name)
   | _ \<Rightarrow> (p, i, l))"

fun stamp :: "view \<Rightarrow> BinlogRow list \<Rightarrow> (BinlogRow \<times> view) list" where
  "stamp v [] = []"
| "stamp (p, i, l) (r # rs) = (r, (p, i + 1, l)) # stamp (p, i + 1, l) rs"

fun bump :: "view \<Rightarrow> nat \<Rightarrow> view" where
  "bump (p, i, l) n = (p, i + of_nat n, l)"

fun deliver :: "view \<Rightarrow> event list \<Rightarrow> (BinlogRow \<times> view) list" where
  "deliver v [] = []"
| "deliver v (e # es) =
     (let rs = event_rows e in stamp (view_next e v) rs @ deliver (bump (view_next e v) (length rs)) es)"

subsection \<open>One event\<close>

definition matches :: "log_state \<Rightarrow> Binlog \<Rightarrow> bool" where
  "matches st bl \<longleftrightarrow>
     (fst st \<longrightarrow> bl_hdrlen bl = 19) \<and>
     (case snd st of None \<Rightarrow> True
      | Some (tid, cols) \<Rightarrow>
          tid < 281474976710656 \<and> t_tableid (bl_table bl) = of_nat tid \<and>
          t_nfields (bl_table bl) = of_nat (length cols) \<and>
          t_types (bl_table bl) = Some (cols_types cols) \<and>
          t_meta (bl_table bl) = Some (map snd cols))"

definition set_view :: "view \<Rightarrow> 'd DataSource \<Rightarrow> 'd DataSource" where
  "set_view v ds = (case v of (p, i, l) \<Rightarrow> ds_set p i l ds)"

lemma set_view_simps [simp]:
  "ds_view (set_view v ds) = v" "set_view (ds_view ds) ds = ds"
  by (simp_all add: set_view_def ds_set_def ds_view_def split: prod.split)

lemma change_ok_cols:
  assumes "t_types tbl = t_types tbl'" "t_meta tbl = t_meta tbl'"
  shows "change_ok tbl = change_ok tbl'"
proof -
  have f: "fits tbl = fits tbl'" by (intro ext) (simp only: fits_def assms)
  have "row_ok tbl = row_ok tbl'" by (intro ext) (simp only: row_ok_def f)
  then show ?thesis by (intro ext) (simp only: change_ok_def)
qed

lemma getEventType_bytes:
  "ev_len e < 4294967296 \<Longrightarrow> getEventType (ev_bytes e @ post) = Inr (body_type (e_body e))"
  using hdr_fields(2) [of "ev_len e"] by (simp add: getEventType_def ev_bytes_def)

lemma handle_fde:
  assumes "e_body e = EvFDE ver server created posthdr" "body_ok st (e_body e)"
    and "4096 \<le> length (ev_bytes e @ post)" "length (ev_bytes e @ post) \<le> INT_MAX"
    and "matches st (bc_binlog bc)"
  shows "\<exists>bl. handleEvent bc ds (ev_bytes e @ post) = Inr (None, set_ds ds (bc\<lparr>bc_binlog := bl\<rparr>)) \<and>
    matches (body_next st (e_body e)) bl"
proof -
  obtain h t where st [simp]: "st = (h, t)" by (cases st)
  have ok: "length server = 50" "length posthdr \<le> 29" using assms(1,2) by simp_all
  have len: "ev_len e = 76 + length posthdr"
    using assms(1) ok by (simp add: ev_len_def fde_body_def)
  have "getEventType (ev_bytes e @ post) = Inr BL_FORMAT_DESCRIPTION_EVENT"
    using getEventType_bytes [of e post] assms(1,4) by (simp add: INT_MAX_def)
  moreover have "\<not> length (posthdr @ post) < 29" using assms(3) len by simp
  moreover from this obtain bl where "parseFDE (bc_binlog bc) (ev_bytes e @ post) = Inr bl"
    "bl_hdrlen bl = 19" "bl_table bl = bl_table (bc_binlog bc)"
    using parseFDE_general [OF ok(1) _ len, of "bc_binlog bc" "e_ts e" BL_FORMAT_DESCRIPTION_EVENT
        "e_sid e" "e_nextpos e" "e_flags e" ver created 19 post] ok assms(1) len
    by (simp add: ev_bytes_def)
  ultimately show ?thesis using assms(1,5)
    by (intro exI [of _ bl]) (auto simp add: handleEvent_def matches_def split: option.splits)
qed

lemma handle_table:
  assumes "e_body e = EvTable tid res db name cols nullable" "body_ok st (e_body e)"
    and "4096 \<le> length (ev_bytes e @ post)" "length (ev_bytes e @ post) \<le> INT_MAX"
    and "matches st (bc_binlog bc)"
  shows "\<exists>bl. handleEvent bc ds (ev_bytes e @ post) =
      Inr (None, set_ds (set_view (view_next e (ds_view ds)) ds) (bc\<lparr>bc_binlog := bl\<rparr>)) \<and>
    matches (body_next st (e_body e)) bl"
proof -
  obtain h t where st [simp]: "st = (h, t)" by (cases st)
  have ok: "h" "tid < 281474976710656" "length res = 2" "name_ok db" "name_ok name"
    "list_all (\<lambda>(t, m). meta_ok t m) cols" "length cols \<le> 1000"
    using assms(1,2) by simp_all
  have hdr: "bl_hdrlen (bc_binlog bc) = 19" using assms(5) ok(1) by (simp add: matches_def)
  define tail where "tail = cols_meta cols @ bitmap nullable @ post"
  have lev: "ev_len e < 4294967296" using assms(4) by (simp add: INT_MAX_def)
  have "getEventType (ev_bytes e @ post) = Inr BL_TABLE_MAP_EVENT"
    using getEventType_bytes [OF lev, of post] assms(1) by simp
  moreover have "2 * length cols \<le> length tail"
  proof -
    have "length (lenenc n) \<le> 9" for n by (rule length_lenenc_le)
    from this [of "length cols"] this [of "length (cols_meta cols)"]
    show ?thesis using assms(1,3) ok
      by (simp add: ev_len_def table_map_body_def tail_def name_bytes_def name_ok_def)
  qed
  moreover define bl where "bl = bc_binlog bc\<lparr>bl_table := table_of (e_ts e) (e_sid e) (ev_len e)
      (e_nextpos e) tid db name cols (take (length cols) (drop (length cols) tail))\<rparr>"
  moreover have "ev_bytes e @ post = hdr_bytes (e_ts e) BL_TABLE_MAP_EVENT (e_sid e) (ev_len e)
      (e_nextpos e) (e_flags e) @ table_map_body tid res db name cols nullable @ post"
    using assms(1) by (simp add: ev_bytes_def)
  moreover note parseTableMapEvent_general [OF hdr ok(2-6) _ assms(4) lev tail_def, of "e_ts e"
      BL_TABLE_MAP_EVENT "e_sid e" "e_nextpos e" "e_flags e"]
  ultimately have "parseTableMapEvent (bc_binlog bc) (ev_bytes e @ post) = Inr bl"
    and g: "getEventType (ev_bytes e @ post) = Inr BL_TABLE_MAP_EVENT" by simp_all
  then have "handleEvent bc ds (ev_bytes e @ post) =
      Inr (None, set_ds (ds\<lparr>ds_position := t_nextpos (bl_table bl) - t_evlen (bl_table bl),
        ds_index := 0\<rparr>) (bc\<lparr>bc_binlog := bl\<rparr>))"
    by (simp add: handleEvent_def Let_def)
  moreover have "ds\<lparr>ds_position := t_nextpos (bl_table bl) - t_evlen (bl_table bl), ds_index := 0\<rparr> =
      set_view (view_next e (ds_view ds)) ds"
    using assms(1) by (cases ds) (simp add: bl_def table_of_def ds_view_def set_view_def ds_set_def)
  moreover have "matches (body_next st (e_body e)) bl"
    using assms(1) hdr ok(2) by (simp add: matches_def bl_def table_of_def)
  ultimately show ?thesis by auto
qed

lemma handle_rotate:
  assumes "e_body e = EvRotate pos name" "body_ok st (e_body e)"
    and "length (ev_bytes e @ post) \<le> INT_MAX" "matches st (bc_binlog bc)"
  shows "handleEvent bc ds (ev_bytes e @ post) =
      Inr (None, set_ds (set_view (view_next e (ds_view ds)) ds) bc)"
proof -
  obtain h t where st [simp]: "st = (h, t)" by (cases st)
  have ok: "h" "pos < 18446744073709551616" "length name < 256" "0 \<notin> set name"
    using assms(1,2) by simp_all
  have hdr: "bl_hdrlen (bc_binlog bc) = 19" using assms(4) ok(1) by (simp add: matches_def)
  have lev: "ev_len e < 4294967296" using assms(3) by (simp add: INT_MAX_def)
  have len: "ev_len e = 27 + length name" using assms(1) by (simp add: ev_len_def)
  have "takeWhile (\<lambda>c. c \<noteq> 0) (name @ [0]) = name" using ok(4)
    by (subst takeWhile_append2) auto
  moreover have "getEventType (ev_bytes e @ post) = Inr BL_ROTATE_EVENT"
    using getEventType_bytes [OF lev, of post] assms(1) by simp
  ultimately show ?thesis
    using parseRotateEvent_general [OF hdr ok(2) len lev, of "e_ts e" BL_ROTATE_EVENT "e_sid e"
        "e_nextpos e" "e_flags e" post] assms(1) ok
    by (simp add: ev_bytes_def handleEvent_def set_view_def ds_view_def ds_set_def)
qed

lemma handle_rows:
  assumes "e_body e = EvRows type tid res fill ps pu cs" "body_ok st (e_body e)"
    and "length (ev_bytes e @ post) \<le> INT_MAX" "matches st (bc_binlog bc)"
  shows "\<exists>r. handleEvent bc ds (ev_bytes e @ post) = Inr (Some r, set_ds ds bc) \<and>
    re_type r = type \<and> re_ts r = e_ts e \<and> re_nrows r = length cs \<and>
    unat (re_nfields r) = length ps \<and>
    re_rows r = new_rows (type = BL_UPDATE_ROWS_EVENT) ps pu cs \<and>
    re_rowsold r = (if type = BL_UPDATE_ROWS_EVENT then Some (old_rows True ps cs) else None)"
proof -
  obtain h t where st [simp]: "st = (h, t)" by (cases st)
  obtain cols where ok: "h" "t = Some (tid, cols)" "length ps = length cols" "ps \<noteq> []"
    "length ps \<le> 1000" "length res = 2" "length pu = length ps"
    "type \<in> {BL_WRITE_ROWS_EVENT, BL_UPDATE_ROWS_EVENT, BL_DELETE_ROWS_EVENT}"
    "list_all (change_ok (tbl_of cols) (type = BL_UPDATE_ROWS_EVENT) (length ps)) cs"
    "length cs \<le> 2 ^ 30" "image_ok ps" "type = BL_UPDATE_ROWS_EVENT \<Longrightarrow> image_ok pu"
    using assms(1,2) by (auto split: option.splits)
  have m: "bl_hdrlen (bc_binlog bc) = 19" "t_tableid (bl_table (bc_binlog bc)) = of_nat tid"
    "tid < 281474976710656" "t_nfields (bl_table (bc_binlog bc)) = of_nat (length ps)"
    "t_types (bl_table (bc_binlog bc)) = Some (cols_types cols)"
    "t_meta (bl_table (bc_binlog bc)) = Some (map snd cols)"
    using assms(4) ok(1-3) by (simp_all add: matches_def)
  have cs: "list_all (change_ok (bl_table (bc_binlog bc)) (type = BL_UPDATE_ROWS_EVENT) (length ps)) cs"
    using ok(9) change_ok_cols [of "tbl_of cols" "bl_table (bc_binlog bc)"] m(5,6)
    by (simp add: tbl_of_def)
  have ev: "ev_bytes e @ post = rows_event (e_ts e) type (e_sid e) (e_nextpos e) (e_flags e) tid res fill ps pu cs @ post"
    using assms(1) by (simp add: ev_bytes_def rows_event_def ev_len_def Let_def)
  have lev: "ev_len e < 4294967296" using assms(3) by (simp add: INT_MAX_def)
  have "getEventType (ev_bytes e @ post) = Inr type"
    using getEventType_bytes [OF lev, of post] assms(1) by simp
  moreover have "unat (of_nat (length ps) :: u32) = length ps"
    using ok(5) by (intro unat_of_nat_small) simp
  moreover note parseRowsEvent_rows [OF m(1-4) _ _ ok(7,6) cs ok(10-12) ev assms(3), of rowsev_uninit]
  moreover have "0 < length ps" "length ps + 7 \<le> INT_MAX" using ok(4,5) by (simp_all add: INT_MAX_def)
  ultimately show ?thesis
    using ok(8) by (auto simp add: handleEvent_def)
qed

lemma handle_other:
  assumes "e_body e = EvOther type body" "body_ok st (e_body e)"
    and "length (ev_bytes e @ post) \<le> INT_MAX"
  shows "handleEvent bc ds (ev_bytes e @ post) = Inr (None, set_ds ds bc)"
proof -
  obtain h t where st [simp]: "st = (h, t)" by (cases st)
  have lev: "ev_len e < 4294967296" using assms(3) by (simp add: INT_MAX_def)
  then have "getEventType (ev_bytes e @ post) = Inr type"
    using getEventType_bytes [OF lev, of post] assms(1) by simp
  then show ?thesis using assms(1,2) by (simp add: handleEvent_def)
qed

text \<open>An event without rows: the parser and the view move as the specification says.\<close>

lemma handle_no_rows:
  assumes "event_rows e = []" "body_ok st (e_body e)" "4096 \<le> length (ev_bytes e @ post)"
    and "length (ev_bytes e @ post) \<le> INT_MAX" "matches st (bc_binlog bc)"
  shows "\<exists>bl. handleEvent bc ds (ev_bytes e @ post) =
      Inr (None, set_ds (set_view (view_next e (ds_view ds)) ds) (bc\<lparr>bc_binlog := bl\<rparr>)) \<and>
    matches (body_next st (e_body e)) bl"
proof -
  have nop: "view_next e (ds_view ds) = ds_view ds"
    if "\<And>a b c d f g. e_body e \<noteq> EvTable a b c d f g" "\<And>a b. e_body e \<noteq> EvRotate a b"
    using that by (cases "e_body e"; cases "ds_view ds") auto
  show ?thesis
  proof (cases "e_body e")
    case (EvFDE a b c d)
    with nop handle_fde [OF EvFDE assms(2-5), of ds] show ?thesis by simp
  next
    case (EvTable a b c d f g)
    from handle_table [OF this assms(2-5)] show ?thesis .
  next
    case (EvRows a b c d f g h)
    with assms(1,2) show ?thesis by (cases st) simp
  next
    case (EvRotate a b)
    from handle_rotate [OF this assms(2,4,5)] show ?thesis
      using EvRotate assms(5) by (intro exI [of _ "bc_binlog bc"]) (cases st, simp)
  next
    case (EvOther a b)
    from handle_other [OF this assms(2,4)] nop show ?thesis
      using EvOther assms(5) by (intro exI [of _ "bc_binlog bc"]) (cases st, simp)
  qed
qed

subsection \<open>The row buffer\<close>

definition buf_ok :: "'d BinlogClient \<Rightarrow> bool" where
  "buf_ok bc \<longleftrightarrow> bc_cur bc \<le> bc_lenRows bc \<and>
     (case bc_rows bc of None \<Rightarrow> bc_lenRows bc = 0
      | Some buf \<Rightarrow> bc_lenRows bc \<le> length buf \<and> (\<forall>i < bc_lenRows bc. buf ! i \<noteq> None))"

definition buffered :: "'d BinlogClient \<Rightarrow> BinlogRow list" where
  "buffered bc = (case bc_rows bc of None \<Rightarrow> []
     | Some buf \<Rightarrow> map the (drop (bc_cur bc) (take (bc_lenRows bc) buf)))"

definition row_of :: "RowsEvent \<Rightarrow> nat \<Rightarrow> BinlogRow" where
  "row_of ev i = \<lparr>br_nfields = unat (re_nfields ev), br_type = re_type ev, br_created = re_ts ev,
     br_row = re_rows ev ! i,
     br_rowOld = (case re_rowsold ev of None \<Rightarrow> None | Some old \<Rightarrow> Some (old ! i))\<rparr>"

definition rows_of :: "RowsEvent \<Rightarrow> BinlogRow list" where
  "rows_of ev = map (row_of ev) [0..<re_nrows ev]"

lemma length_rows_of [simp]: "length (rows_of ev) = re_nrows ev"
  by (simp add: rows_of_def)

lemma mk_row_wf:
  "wf_rows ev \<Longrightarrow> i < re_nrows ev \<Longrightarrow> mk_row ev i = Inr (row_of ev i)"
  by (auto simp add: wf_rows_def mk_row_def row_of_def nthE_def deref_def split: option.splits)

lemma copy_rows_wf:
  assumes "wf_rows ev" "i + n = re_nrows ev" "re_nrows ev \<le> length buf"
  shows "copy_rows ev i n buf =
    Inr (take i buf @ map (Some \<circ> row_of ev) [i..<re_nrows ev] @ drop (re_nrows ev) buf)"
  using assms(2,3)
proof (induction n arbitrary: i buf)
  case 0
  then show ?case by simp
next
  case (Suc n)
  define buf' where "buf' = take i buf @ Some (row_of ev i) # drop (Suc i) buf"
  have "copy_rows ev i (Suc n) buf = copy_rows ev (Suc i) n buf'"
    using Suc.prems mk_row_wf [OF assms(1), of i] by (simp add: poke_def buf'_def)
  also have "\<dots> = Inr (take (Suc i) buf' @ map (Some \<circ> row_of ev) [Suc i..<re_nrows ev] @
      drop (re_nrows ev) buf')"
    using Suc.prems by (intro Suc.IH) (simp_all add: buf'_def)
  also have "take (Suc i) buf' = take i buf @ [Some (row_of ev i)]"
    using Suc.prems by (simp add: buf'_def)
  also have "drop (re_nrows ev) buf' = drop (re_nrows ev) buf"
  proof -
    have "re_nrows ev - i = Suc (re_nrows ev - Suc i)" "Suc i + (re_nrows ev - Suc i) = re_nrows ev"
      using Suc.prems by simp_all
    then show ?thesis using Suc.prems by (simp add: buf'_def)
  qed
  finally show ?case using Suc.prems by (simp add: upt_conv_Cons [of i])
qed

text \<open>
  Whatever the buffer held before, it holds the rows of the event afterwards, in order, and
  nothing else of the client changes.
\<close>

lemma setRowsEventBuffer_wf:
  assumes "wf_rows ev" "buf_ok bc"
  shows "\<exists>buf. setRowsEventBuffer bc ev =
      Inr (bc\<lparr>bc_cur := 0, bc_lenRows := re_nrows ev, bc_rows := buf\<rparr>) \<and>
    buf_ok (bc\<lparr>bc_cur := 0, bc_lenRows := re_nrows ev, bc_rows := buf\<rparr>) \<and>
    buffered (bc\<lparr>bc_cur := 0, bc_lenRows := re_nrows ev, bc_rows := buf\<rparr>) = rows_of ev"
proof (cases "re_nrows ev = 0")
  case True
  then show ?thesis using assms(2)
    by (intro exI [of _ "bc_rows bc"], cases bc)
      (auto simp add: setRowsEventBuffer_def buf_ok_def buffered_def rows_of_def split: option.splits)
next
  case False
  define buf0 where "buf0 = (if bc_lenRows bc < re_nrows ev then replicate (re_nrows ev) None
      else the (bc_rows bc))"
  have len: "re_nrows ev \<le> length buf0"
    using assms(2) False by (auto simp add: buf0_def buf_ok_def split: option.splits)
  have b: "setRowsEventBuffer bc ev = bindE (copy_rows ev 0 (re_nrows ev) buf0)
      (\<lambda>buf. Inr (bc\<lparr>bc_cur := 0, bc_lenRows := re_nrows ev, bc_rows := Some buf\<rparr>))"
    using assms(2) False
    by (cases "bc_rows bc")
      (auto simp add: setRowsEventBuffer_def buf0_def buf_ok_def deref_def Let_def)
  define buf where "buf = map (Some \<circ> row_of ev) [0..<re_nrows ev] @ drop (re_nrows ev) buf0"
  have "copy_rows ev 0 (re_nrows ev) buf0 = Inr buf"
    using copy_rows_wf [OF assms(1) _ len, of 0] by (simp add: buf_def)
  then show ?thesis unfolding b
    by (intro exI [of _ "Some buf"]) (auto simp add: buf_ok_def buffered_def rows_of_def buf_def nth_append)
qed

lemma fetchFromBuffer_empty:
  "buf_ok bc \<Longrightarrow> bc_cur bc = bc_lenRows bc \<Longrightarrow> fetchFromBuffer bc = Inr (None, bc)"
  by (simp add: fetchFromBuffer_def)

lemma buffered_Nil_iff: "buf_ok bc \<Longrightarrow> buffered bc = [] \<longleftrightarrow> bc_cur bc = bc_lenRows bc"
  by (auto simp add: buf_ok_def buffered_def split: option.splits)

lemma fetchFromBuffer_next:
  assumes "buf_ok bc" "buffered bc = r # rs"
  shows "fetchFromBuffer bc = Inr (Some r, bc\<lparr>bc_cur := bc_cur bc + 1\<rparr>)"
    "buf_ok (bc\<lparr>bc_cur := bc_cur bc + 1\<rparr>)" "buffered (bc\<lparr>bc_cur := bc_cur bc + 1\<rparr>) = rs"
proof -
  from assms(2) obtain buf where buf: "bc_rows bc = Some buf"
    "map the (drop (bc_cur bc) (take (bc_lenRows bc) buf)) = r # rs"
    by (auto simp add: buffered_def split: option.splits)
  then have lt: "bc_cur bc < bc_lenRows bc" "bc_lenRows bc \<le> length buf"
    using assms(1) by (auto simp add: buf_ok_def split: option.splits)
      (metis Cons_nth_drop_Suc drop_eq_Nil2 leI length_take list.distinct(1) list.simps(8) min.absorb2)
  then have d: "drop (bc_cur bc) (take (bc_lenRows bc) buf) =
      buf ! bc_cur bc # drop (Suc (bc_cur bc)) (take (bc_lenRows bc) buf)"
    by (subst Cons_nth_drop_Suc [symmetric]) simp_all
  have "buf ! bc_cur bc \<noteq> None" using assms(1) buf(1) lt by (simp add: buf_ok_def)
  with buf d lt show "fetchFromBuffer bc = Inr (Some r, bc\<lparr>bc_cur := bc_cur bc + 1\<rparr>)"
    by (auto simp add: fetchFromBuffer_def deref_def nthE_def)
  show "buf_ok (bc\<lparr>bc_cur := bc_cur bc + 1\<rparr>)" using assms(1) lt
    by (cases bc) (simp add: buf_ok_def split: option.splits)
  show "buffered (bc\<lparr>bc_cur := bc_cur bc + 1\<rparr>) = rs" using buf d by (simp add: buffered_def)
qed

subsection \<open>The client against the specification\<close>

text \<open>Two clients that differ only in the data source and the parser's memory.\<close>

definition same_buffer :: "'d BinlogClient \<Rightarrow> 'd BinlogClient \<Rightarrow> bool" where
  "same_buffer bc bc' \<longleftrightarrow> bc_rows bc' = bc_rows bc \<and> bc_lenRows bc' = bc_lenRows bc \<and>
     bc_cur bc' = bc_cur bc \<and> bc_startidx bc' = bc_startidx bc"

lemma same_buffer_trans: "same_buffer a b \<Longrightarrow> same_buffer b c \<Longrightarrow> same_buffer a c"
  by (simp add: same_buffer_def)

lemma same_buffer_ok:
  "same_buffer bc bc' \<Longrightarrow> buf_ok bc' = buf_ok bc"
  "same_buffer bc bc' \<Longrightarrow> buffered bc' = buffered bc"
  by (simp_all add: same_buffer_def buf_ok_def buffered_def cong: option.case_cong)

lemma event_rows_Nil_iff:
  "body_ok st (e_body e) \<Longrightarrow> event_rows e = [] \<longleftrightarrow> (\<forall>a b c d f g h. e_body e \<noteq> EvRows a b c d f g h)"
  by (cases st; cases "e_body e") auto

lemma view_next_rows: "event_rows e \<noteq> [] \<Longrightarrow> view_next e v = v"
  by (cases v; cases "e_body e") auto

lemma handle_event_rows:
  assumes "event_rows e \<noteq> []" "body_ok st (e_body e)"
    and "length (ev_bytes e @ post) \<le> INT_MAX" "matches st (bc_binlog bc)"
  shows "\<exists>r. handleEvent bc ds (ev_bytes e @ post) = Inr (Some r, set_ds ds bc) \<and>
    wf_rows r \<and> rows_of r = event_rows e \<and> body_next st (e_body e) = st"
proof -
  obtain type tid res fill ps pu cs where e: "e_body e = EvRows type tid res fill ps pu cs"
    using assms(1) by (cases "e_body e") auto
  obtain r where r: "handleEvent bc ds (ev_bytes e @ post) = Inr (Some r, set_ds ds bc)"
    "re_type r = type" "re_ts r = e_ts e" "re_nrows r = length cs"
    "unat (re_nfields r) = length ps" "re_rows r = new_rows (type = BL_UPDATE_ROWS_EVENT) ps pu cs"
    "re_rowsold r = (if type = BL_UPDATE_ROWS_EVENT then Some (old_rows True ps cs) else None)"
    using handle_rows [OF e assms(2-4), of ds] by auto
  obtain cols where l: "length pu = length ps" "length ps = length cols"
      "list_all (change_ok (tbl_of cols) (type = BL_UPDATE_ROWS_EVENT) (length ps)) cs"
    using assms(2) e by (cases st) (auto split: option.splits)
  have "wf_rows r"
    unfolding wf_rows_def using r(2-7) l
    by (auto simp add: new_rows_def old_rows_def row_cells_def change_ok_def row_ok_def list_all_iff)
  moreover have "rows_of r = event_rows e"
    by (rule nth_equalityI)
      (use e r(2-7) in \<open>auto simp add: rows_of_def row_of_def new_rows_def old_rows_def\<close>)
  moreover have "body_next st (e_body e) = st" using e by (cases st) simp
  ultimately show ?thesis using r(1) by blast
qed

text \<open>
  The loop of a caller, as \<open>main\<close> of \<open>src/src/bldump.c\<close> has it: fetch until NULL, release
  every row. It returns the rows with the view the client showed at each.
\<close>

fun fetch_all ::
    "nat \<Rightarrow> nat \<Rightarrow> 'd ds_ops \<Rightarrow> 'd BinlogClient \<Rightarrow> ((BinlogRow \<times> view) list \<times> 'd BinlogClient) res"
where
  "fetch_all 0 fuel ops bc = Inl OutOfFuel"
| "fetch_all (Suc k) fuel ops bc =
     bindE (fetchOne fuel ops bc) (\<lambda>(row, bc).
     case row of
       None \<Rightarrow> Inr ([], bc)
     | Some r \<Rightarrow>
         bindE (deref (bc_dataSource bc)) (\<lambda>ds.
         bindE (freeBinlogRow row) (\<lambda>_.
         bindE (fetch_all k fuel ops bc) (\<lambda>(outs, bc'). Inr ((r, ds_view ds) # outs, bc')))))"

lemma stamp_fst: "(r, v) \<in> set (stamp u rs) \<Longrightarrow> r \<in> set rs"
  by (induction u rs rule: stamp.induct) auto

text \<open>Every row of a log can be released.\<close>

lemma event_rows_free:
  assumes "body_ok st (e_body e)" "r \<in> set (event_rows e)"
  shows "freeBinlogRow (Some r) = Inr ()"
proof -
  obtain type tid res fill ps pu cs where e: "e_body e = EvRows type tid res fill ps pu cs"
    using assms(2) by (cases "e_body e") auto
  obtain cols where "length pu = length ps"
      "list_all (change_ok (tbl_of cols) (type = BL_UPDATE_ROWS_EVENT) (length ps)) cs"
    using assms(1) e by (cases st) (auto split: option.splits)
  with assms(2) e show ?thesis
    by (auto simp add: freeBinlogRow_def row_cells_def change_ok_def row_ok_def list_all_iff deref_def
        split: if_splits)
qed

lemma deliver_event:
  "log_ok st evs \<Longrightarrow> (r, v) \<in> set (deliver u evs) \<Longrightarrow>
    \<exists>e st'. body_ok st' (e_body e) \<and> r \<in> set (event_rows e)"
proof (induction evs arbitrary: st u)
  case (Cons e evs)
  then consider "(r, v) \<in> set (stamp (view_next e u) (event_rows e))"
    | "(r, v) \<in> set (deliver (bump (view_next e u) (length (event_rows e))) evs)"
    by (auto simp add: Let_def simp del: event_rows.simps view_next.simps)
  then show ?case
  proof cases
    case 1
    with Cons.prems(1) stamp_fst show ?thesis by (metis log_ok.simps(2))
  next
    case 2
    with Cons.IH Cons.prems(1) show ?thesis by (metis log_ok.simps(2))
  qed
qed simp

lemma deliver_free:
  "log_ok st evs \<Longrightarrow> (r, v) \<in> set (deliver u evs) \<Longrightarrow> freeBinlogRow (Some r) = Inr ()"
  using deliver_event event_rows_free by blast

text \<open>The client of a successful \<open>connectDataSource\<close>.\<close>

definition connected :: "u32 \<Rightarrow> 'd DataSource \<Rightarrow> 'd BinlogClient" where
  "connected index ds = new_client\<lparr>bc_startidx := sint index, bc_dataSource := Some ds\<rparr>"

context data_source
begin

text \<open>
  \<open>ready\<close>: the client holds an idle data source on which the events \<open>evs\<close> are still to come,
  seen from the view \<open>v\<close>, and the parser's memory matches the log so far.
\<close>

definition ready :: "log_state \<Rightarrow> view \<Rightarrow> event list \<Rightarrow> 'd BinlogClient \<Rightarrow> bool" where
  "ready st v evs bc \<longleftrightarrow>
     (\<exists>ds. bc_dataSource bc = Some ds \<and> idle ds \<and> pending ds = map ev_bytes evs \<and>
           ds_view ds = v) \<and> log_ok st evs \<and> matches st (bc_binlog bc)"

lemma idle_set_view [simp]:
  "idle (set_view v ds) = idle ds" "lent (set_view v ds) = lent ds"
  "pending (set_view v ds) = pending ds"
  by (simp_all add: set_view_def set_idle set_lent set_pending split: prod.split)

text \<open>Taking one event that carries no rows.\<close>

lemma getRowsEvent_skip:
  assumes "ready st v (e # evs) bc" "event_rows e = []"
  shows "\<exists>bc'. getRowsEvent (Suc fuel) ops bc = getRowsEvent fuel ops bc' \<and>
    ready (body_next st (e_body e)) (view_next e v) evs bc' \<and> same_buffer bc bc'"
proof -
  obtain ds where ds: "bc_dataSource bc = Some ds" "idle ds" "pending ds = ev_bytes e # map ev_bytes evs"
      "ds_view ds = v" and ok: "body_ok st (e_body e)" "log_ok (body_next st (e_body e)) evs"
      and m: "matches st (bc_binlog bc)"
    using assms(1) by (auto simp add: ready_def)
  obtain post ds1 where g: "op_getEvent ops ds = Inr (Some (ev_bytes e @ post), ds1)"
      "4096 \<le> length (ev_bytes e @ post)" "length (ev_bytes e @ post) \<le> INT_MAX"
      "lent ds1" "pending ds1 = map ev_bytes evs" "ds_view ds1 = v"
    using get_event [OF ds(2,3)] ds(4) by auto
  obtain bl where h: "handleEvent bc ds1 (ev_bytes e @ post) =
      Inr (None, set_ds (set_view (view_next e v) ds1) (bc\<lparr>bc_binlog := bl\<rparr>))"
      "matches (body_next st (e_body e)) bl"
    using handle_no_rows [OF assms(2) ok(1) g(2,3) m, of ds1] g(6) by auto
  obtain ds2 where f: "op_freeEvent ops (set_view (view_next e v) ds1) = Inr ds2"
      "idle ds2" "pending ds2 = map ev_bytes evs" "ds_view ds2 = view_next e v"
    using give_back [of "set_view (view_next e v) ds1"] g by auto
  define bc' where "bc' = set_ds ds2 (bc\<lparr>bc_binlog := bl\<rparr>)"
  have "getRowsEvent (Suc fuel) ops bc = getRowsEvent fuel ops bc'"
    using ds g h f by (simp add: deref_def bc'_def)
  moreover have "ready (body_next st (e_body e)) (view_next e v) evs bc'" "same_buffer bc bc'"
    using f ok h(2) by (simp_all add: ready_def bc'_def same_buffer_def)
  ultimately show ?thesis by blast
qed

text \<open>Taking one rows event.\<close>

lemma getRowsEvent_take:
  assumes "ready st v (e # evs) bc" "event_rows e \<noteq> []"
  shows "\<exists>r bc'. getRowsEvent (Suc fuel) ops bc = Inr (Some r, bc') \<and>
    wf_rows r \<and> rows_of r = event_rows e \<and> ready st v evs bc' \<and> same_buffer bc bc'"
proof -
  obtain ds where ds: "bc_dataSource bc = Some ds" "idle ds" "pending ds = ev_bytes e # map ev_bytes evs"
      "ds_view ds = v" and ok: "body_ok st (e_body e)" "log_ok (body_next st (e_body e)) evs"
      and m: "matches st (bc_binlog bc)"
    using assms(1) by (auto simp add: ready_def)
  obtain post ds1 where g: "op_getEvent ops ds = Inr (Some (ev_bytes e @ post), ds1)"
      "length (ev_bytes e @ post) \<le> INT_MAX"
      "lent ds1" "pending ds1 = map ev_bytes evs" "ds_view ds1 = v"
    using get_event [OF ds(2,3)] ds(4) by auto
  obtain r where h: "handleEvent bc ds1 (ev_bytes e @ post) = Inr (Some r, set_ds ds1 bc)"
      "wf_rows r" "rows_of r = event_rows e" "body_next st (e_body e) = st"
    using handle_event_rows [OF assms(2) ok(1) g(2) m, of ds1] by auto
  obtain ds2 where f: "op_freeEvent ops ds1 = Inr ds2"
      "idle ds2" "pending ds2 = map ev_bytes evs" "ds_view ds2 = v"
    using give_back [OF g(3)] g(4,5) by auto
  have "getRowsEvent (Suc fuel) ops bc = Inr (Some r, set_ds ds2 bc)"
    using ds g h f by (simp add: deref_def)
  moreover have "ready st v evs (set_ds ds2 bc)" "same_buffer bc (set_ds ds2 bc)"
    using f ok h(4) m by (simp_all add: ready_def same_buffer_def)
  ultimately show ?thesis using h(2,3) by blast
qed

text \<open>Pulling events until the next one with rows, or to the end of the log.\<close>

lemma getRowsEvent_rows:
  assumes "ready st v evs bc" "deliver v evs \<noteq> []" "length evs \<le> fuel"
  shows "\<exists>r bc' st' v' evs'. getRowsEvent fuel ops bc = Inr (Some r, bc') \<and> wf_rows r \<and>
    rows_of r \<noteq> [] \<and> ready st' v' evs' bc' \<and> same_buffer bc bc' \<and> length evs' < length evs \<and>
    deliver v evs = stamp v' (rows_of r) @ deliver (bump v' (length (rows_of r))) evs'"
  using assms
proof (induction evs arbitrary: st v bc fuel)
  case (Cons e evs)
  obtain f where [simp]: "fuel = Suc f" using Cons.prems(3) by (cases fuel) simp_all
  show ?case
  proof (cases "event_rows e = []")
    case True
    obtain bc1 where 1: "getRowsEvent fuel ops bc = getRowsEvent f ops bc1"
        "ready (body_next st (e_body e)) (view_next e v) evs bc1" "same_buffer bc bc1"
      using getRowsEvent_skip [OF Cons.prems(1) True, of f] by auto
    have b: "bump (view_next e v) 0 = view_next e v" by (cases "view_next e v") simp
    then have d: "deliver v (e # evs) = deliver (view_next e v) evs" using True by (simp add: Let_def)
    then obtain r bc' st' v' evs' where "getRowsEvent f ops bc1 = Inr (Some r, bc')" "wf_rows r"
        "rows_of r \<noteq> []" "ready st' v' evs' bc'" "same_buffer bc1 bc'" "length evs' < length evs"
        "deliver (view_next e v) evs = stamp v' (rows_of r) @ deliver (bump v' (length (rows_of r))) evs'"
      using Cons.IH [OF 1(2), of f] Cons.prems(2,3) by auto
    with 1 d same_buffer_trans [OF 1(3)] show ?thesis by (metis length_Cons less_Suc_eq)
  next
    case False
    from getRowsEvent_take [OF Cons.prems(1) False, of f] obtain r bc' where
      "getRowsEvent fuel ops bc = Inr (Some r, bc')" "wf_rows r" "rows_of r = event_rows e"
      "ready st v evs bc'" "same_buffer bc bc'" by auto
    moreover have "deliver v (e # evs) = stamp v (event_rows e) @ deliver (bump v (length (event_rows e))) evs"
      using view_next_rows [OF False] by (simp add: Let_def)
    ultimately show ?thesis using False by (metis length_Cons lessI)
  qed
qed simp

lemma getRowsEvent_end:
  assumes "ready st v evs bc" "deliver v evs = []" "length evs < fuel"
  shows "\<exists>bc'. getRowsEvent fuel ops bc = Inr (None, bc') \<and> bc_dataSource bc' \<noteq> None \<and>
    same_buffer bc bc' \<and> bc_err bc'"
  using assms
proof (induction evs arbitrary: st v bc fuel)
  case Nil
  obtain f where [simp]: "fuel = Suc f" using Nil.prems(3) by (cases fuel) simp_all
  obtain ds where ds: "bc_dataSource bc = Some ds" "idle ds" "pending ds = []" "ds_view ds = v"
    using Nil.prems(1) by (auto simp add: ready_def)
  obtain ds1 where g: "op_getEvent ops ds = Inr (None, ds1)"
      "37 \<notin> set (ds_errstr ds1)" "length (ds_errstr ds1) < 256"
    using get_end [OF ds(2,3)] by auto
  have "getRowsEvent fuel ops bc =
      Inr (None, set_ds ds1 (bc\<lparr>bc_err := True, bc_errstr := ds_errstr ds1\<rparr>))"
    using ds g by (simp add: deref_def sprintf_err_def)
  then show ?case
    by (intro exI [of _ "set_ds ds1 (bc\<lparr>bc_err := True, bc_errstr := ds_errstr ds1\<rparr>)"])
      (simp add: same_buffer_def)
next
  case (Cons e evs)
  obtain f where [simp]: "fuel = Suc f" using Cons.prems(3) by (cases fuel) simp_all
  have e: "event_rows e = []"
    using Cons.prems(2) by (cases "view_next e v"; cases "event_rows e") (auto simp add: Let_def)
  obtain bc1 where 1: "getRowsEvent fuel ops bc = getRowsEvent f ops bc1"
      "ready (body_next st (e_body e)) (view_next e v) evs bc1" "same_buffer bc bc1"
    using getRowsEvent_skip [OF Cons.prems(1) e, of f] by auto
  have b: "bump (view_next e v) 0 = view_next e v" by (cases "view_next e v") simp
  then have "deliver (view_next e v) evs = []" using Cons.prems(2) e by (simp add: Let_def)
  then obtain bc' where "getRowsEvent f ops bc1 = Inr (None, bc')" "bc_dataSource bc' \<noteq> None"
      "same_buffer bc1 bc'" "bc_err bc'"
    using Cons.IH [OF 1(2), of f] Cons.prems(3) by auto
  with 1(1) same_buffer_trans [OF 1(3)] show ?case by metis
qed


text \<open>
  \<open>tracks bc outs\<close>: the rows still to be delivered by \<open>bc\<close>, each with the view the client
  shows after it, are \<open>outs\<close>: first the buffered ones, then those of the events to come.
\<close>

definition tracks :: "nat \<Rightarrow> 'd BinlogClient \<Rightarrow> (BinlogRow \<times> view) list \<Rightarrow> bool" where
  "tracks n bc outs \<longleftrightarrow>
     (\<exists>st v evs. ready st v evs bc \<and> buf_ok bc \<and> length evs \<le> n \<and>
        outs = stamp v (buffered bc) @ deliver (bump v (length (buffered bc))) evs)"

lemma bump_0 [simp]: "bump v 0 = v"
  by (cases v) simp

text \<open>One more row is handed out of the buffer.\<close>

lemma hand_out:
  assumes "ready st v evs bc" "buf_ok bc" "buffered bc = r # rs" "length evs \<le> n"
  shows "\<exists>bc'. bindE (deref (bc_dataSource bc)) (\<lambda>ds.
        fetchFromBuffer (set_ds (ds\<lparr>ds_index := ds_index ds + 1\<rparr>) bc)) = Inr (Some r, bc') \<and>
      tracks n bc' (stamp (bump v 1) rs @ deliver (bump (bump v 1) (length rs)) evs) \<and>
      map_option ds_view (bc_dataSource bc') = Some (bump v 1) \<and> bc_startidx bc' = bc_startidx bc"
proof -
  obtain ds where ds: "bc_dataSource bc = Some ds" "idle ds" "pending ds = map ev_bytes evs"
      "ds_view ds = v" using assms(1) by (auto simp add: ready_def)
  define ds1 where "ds1 = ds\<lparr>ds_index := ds_index ds + 1\<rparr>"
  have ds1: "idle ds1" "pending ds1 = pending ds" "ds_view ds1 = bump v 1"
    using ds(2,4) by (auto simp add: ds1_def ds_updates_set set_idle set_pending ds_view_def)
  define bc1 where "bc1 = set_ds ds1 bc"
  have b: "buf_ok bc1" "buffered bc1 = r # rs"
    using assms(2,3) by (simp_all add: bc1_def buf_ok_def buffered_def cong: option.case_cong)
  note f = fetchFromBuffer_next [OF b]
  have "ready st (bump v 1) evs (bc1\<lparr>bc_cur := bc_cur bc1 + 1\<rparr>)"
    using assms(1) ds(3) ds1 by (simp add: ready_def bc1_def)
  then have "tracks n (bc1\<lparr>bc_cur := bc_cur bc1 + 1\<rparr>)
      (stamp (bump v 1) rs @ deliver (bump (bump v 1) (length rs)) evs)"
    unfolding tracks_def using f(2,3) assms(4) by blast
  moreover have "bindE (deref (bc_dataSource bc)) (\<lambda>ds.
        fetchFromBuffer (set_ds (ds\<lparr>ds_index := ds_index ds + 1\<rparr>) bc)) =
      Inr (Some r, bc1\<lparr>bc_cur := bc_cur bc1 + 1\<rparr>)"
    using f(1) ds(1) by (simp add: deref_def bc1_def ds1_def)
  moreover have "map_option ds_view (bc_dataSource (bc1\<lparr>bc_cur := bc_cur bc1 + 1\<rparr>)) = Some (bump v 1)"
    "bc_startidx (bc1\<lparr>bc_cur := bc_cur bc1 + 1\<rparr>) = bc_startidx bc"
    using ds1(3) by (simp_all add: bc1_def)
  ultimately show ?thesis by blast
qed

lemma stamp_Cons: "stamp v (r # rs) = (r, bump v 1) # stamp (bump v 1) rs"
  by (cases v) simp

lemma bump_bump: "bump (bump v a) b = bump v (a + b)"
  by (cases v) (simp add: algebra_simps)

lemma tracks_fetch_raw:
  assumes "tracks n bc ((r, v) # outs)" "n \<le> fuel"
  shows "\<exists>bc'. fetchOne_raw fuel ops bc = Inr (Some r, bc') \<and> tracks n bc' outs \<and>
    map_option ds_view (bc_dataSource bc') = Some v \<and> bc_startidx bc' = bc_startidx bc"
proof -
  obtain st u evs where t: "ready st u evs bc" "buf_ok bc" "length evs \<le> n"
      "(r, v) # outs = stamp u (buffered bc) @ deliver (bump u (length (buffered bc))) evs"
    using assms(1) by (auto simp add: tracks_def)
  show ?thesis
  proof (cases "buffered bc")
    case (Cons r' rs)
    then have "r' = r" "v = bump u 1"
      "outs = stamp (bump u 1) rs @ deliver (bump (bump u 1) (length rs)) evs"
      using t(4) by (simp_all add: stamp_Cons bump_bump)
    moreover have "bc_cur bc \<noteq> bc_lenRows bc" using buffered_Nil_iff [OF t(2)] Cons by simp
    ultimately show ?thesis
      using hand_out [OF t(1,2) Cons t(3)] by (simp add: fetchOne_raw_def)
  next
    case Nil
    then have cur: "bc_cur bc = bc_lenRows bc" using buffered_Nil_iff [OF t(2)] by simp
    have d: "deliver u evs = (r, v) # outs" using t(4) Nil by simp
    obtain e bc1 st1 u1 evs1 where g: "getRowsEvent fuel ops bc = Inr (Some e, bc1)" "wf_rows e"
        "rows_of e \<noteq> []" "ready st1 u1 evs1 bc1" "same_buffer bc bc1" "length evs1 < length evs"
        "(r, v) # outs = stamp u1 (rows_of e) @ deliver (bump u1 (length (rows_of e))) evs1"
      using getRowsEvent_rows [OF t(1), of fuel] d t(3) assms(2) by auto
    have "buf_ok bc1" using t(2) g(5) by (simp add: same_buffer_ok)
    then obtain bc2 where b: "setRowsEventBuffer bc1 e = Inr bc2" "buf_ok bc2"
        "buffered bc2 = rows_of e" "bc_dataSource bc2 = bc_dataSource bc1"
        "bc_binlog bc2 = bc_binlog bc1" "bc_startidx bc2 = bc_startidx bc1"
      using setRowsEventBuffer_wf [OF g(2), of bc1] by fastforce
    have ready2: "ready st1 u1 evs1 bc2" using g(4) b(4,5) by (simp add: ready_def)
    obtain r' rs where rs: "rows_of e = r' # rs" using g(3) by (cases "rows_of e") auto
    then have "r' = r" "v = bump u1 1"
      "outs = stamp (bump u1 1) rs @ deliver (bump (bump u1 1) (length rs)) evs1"
      using g(7) by (simp_all add: stamp_Cons bump_bump)
    moreover have "buffered bc2 = r' # rs" "length evs1 \<le> n" using b(3) rs g(6) t(3) by simp_all
    moreover have "bc_startidx bc1 = bc_startidx bc" using g(5) by (simp add: same_buffer_def)
    ultimately show ?thesis
      using hand_out [OF ready2 b(2), of r' rs n] cur g(1) b(1,6)
      by (simp add: fetchOne_raw_def)
  qed
qed

lemma tracks_end_raw:
  assumes "tracks n bc []" "n < fuel"
  shows "\<exists>bc'. fetchOne_raw fuel ops bc = Inr (None, bc') \<and> bc_err bc' \<and>
    bc_startidx bc' = bc_startidx bc"
proof -
  obtain st u evs where t: "ready st u evs bc" "buf_ok bc" "length evs \<le> n"
      "[] = stamp u (buffered bc) @ deliver (bump u (length (buffered bc))) evs"
    using assms(1) by (auto simp add: tracks_def)
  have b: "buffered bc = []" using t(4) by (cases "buffered bc") (simp_all add: stamp_Cons)
  then have cur: "bc_cur bc = bc_lenRows bc" using buffered_Nil_iff [OF t(2)] by simp
  have d: "deliver u evs = []" using t(4) b by simp
  obtain bc1 where g: "getRowsEvent fuel ops bc = Inr (None, bc1)" "bc_dataSource bc1 \<noteq> None"
      "same_buffer bc bc1" "bc_err bc1"
    using getRowsEvent_end [OF t(1) d, of fuel] t(3) assms(2) by auto
  obtain ds where ds: "bc_dataSource bc1 = Some ds" using g(2) by auto
  define ds2 where "ds2 = ds\<lparr>ds_index := 0\<rparr>"
  define bc2 where "bc2 = set_ds ds2 (bc1\<lparr>bc_errstr := snprintf_err (ds_errstr ds)\<rparr>)"
  have "fetchOne_raw fuel ops bc = Inr (None, bc2)"
    using cur g(1) ds by (simp add: fetchOne_raw_def deref_def bc2_def ds2_def)
  moreover have "same_buffer bc bc2" "bc_err bc2" using g(3,4) by (simp_all add: same_buffer_def bc2_def)
  ultimately show ?thesis by (auto simp add: same_buffer_def)
qed

lemma tracks_fetch:
  assumes "tracks n bc ((r, v) # outs)" "n \<le> fuel" "bc_startidx bc = 0"
  shows "\<exists>bc'. fetchOne fuel ops bc = Inr (Some r, bc') \<and> tracks n bc' outs \<and>
    map_option ds_view (bc_dataSource bc') = Some v \<and> bc_startidx bc' = 0"
  using tracks_fetch_raw [OF assms(1,2)] assms(3) by (simp add: fetchOne_def)

lemma tracks_end:
  assumes "tracks n bc []" "n < fuel" "bc_startidx bc = 0"
  shows "\<exists>bc'. fetchOne fuel ops bc = Inr (None, bc') \<and> bc_err bc' \<and> bc_startidx bc' = 0"
  using tracks_end_raw [OF assms(1,2)] assms(3) by (simp add: fetchOne_def)

text \<open>The caller's loop: every row once, in order, with its view; then the end.\<close>

lemma tracks_fetch_all:
  assumes "tracks n bc outs" "n < fuel" "bc_startidx bc = 0" "length outs < k"
    and "\<And>r v. (r, v) \<in> set outs \<Longrightarrow> freeBinlogRow (Some r) = Inr ()"
  shows "\<exists>bc'. fetch_all k fuel ops bc = Inr (outs, bc') \<and> bc_err bc'"
  using assms
proof (induction outs arbitrary: bc k)
  case Nil
  obtain j where [simp]: "k = Suc j" using Nil.prems(4) by (cases k) simp_all
  from tracks_end [OF Nil.prems(1-3)] show ?case by auto
next
  case (Cons o' outs)
  obtain j where [simp]: "k = Suc j" using Cons.prems(4) by (cases k) simp_all
  obtain r v where [simp]: "o' = (r, v)" by (cases o')
  obtain bc1 where 1: "fetchOne fuel ops bc = Inr (Some r, bc1)" "tracks n bc1 outs"
      "map_option ds_view (bc_dataSource bc1) = Some v" "bc_startidx bc1 = 0"
    using tracks_fetch [of n bc r v outs fuel] Cons.prems by auto
  have "freeBinlogRow (Some r) = Inr ()" using Cons.prems(5) [of r v] by simp
  moreover have "\<exists>bc'. fetch_all j fuel ops bc1 = Inr (outs, bc') \<and> bc_err bc'"
  proof (rule Cons.IH [OF 1(2) Cons.prems(2) 1(4)])
    show "length outs < j" using Cons.prems(4) by simp
    show "freeBinlogRow (Some r) = Inr ()" if "(r, v) \<in> set outs" for r v
      using Cons.prems(5) [of r v] that by simp
  qed
  ultimately show ?case using 1(1,3) by (auto simp add: deref_def)
qed

text \<open>The start index: the rows before it are fetched and dropped.\<close>

lemma tracks_skip:
  assumes "tracks n bc (pre @ outs)" "n \<le> fuel" "bc_startidx bc = int (length pre)"
    and "map_option ds_position (bc_dataSource bc) = Some p"
    and "\<And>r v. (r, v) \<in> set pre \<Longrightarrow> fst v = p \<and> freeBinlogRow (Some r) = Inr ()"
    and "length pre \<le> k"
  shows "\<exists>bc'. skip_rows fuel ops k start bc = Inr (True, bc') \<and> tracks n bc' outs \<and>
    bc_startidx bc' = 0"
  using assms
proof (induction pre arbitrary: bc k)
  case Nil
  then show ?case by (cases k) simp_all
next
  case (Cons o' pre)
  obtain j where [simp]: "k = Suc j" using Cons.prems(6) by (cases k) simp_all
  obtain r v where [simp]: "o' = (r, v)" by (cases o')
  obtain ds where ds: "bc_dataSource bc = Some ds" "ds_position ds = p" using Cons.prems(4) by auto
  obtain bc1 where 1: "fetchOne_raw fuel ops bc = Inr (Some r, bc1)" "tracks n bc1 (pre @ outs)"
      "map_option ds_view (bc_dataSource bc1) = Some v" "bc_startidx bc1 = int (length pre) + 1"
    using tracks_fetch_raw [of n bc r v "pre @ outs" fuel] Cons.prems by auto
  obtain ds1 where ds1: "bc_dataSource bc1 = Some ds1" "ds_position ds1 = p"
    using 1(3) Cons.prems(5) [of r v] by (auto simp add: ds_view_def)
  define bc2 where "bc2 = bc1\<lparr>bc_startidx := int (length pre)\<rparr>"
  have t2: "tracks n bc2 (pre @ outs)" using 1(2)
    by (simp add: tracks_def ready_def buf_ok_def buffered_def bc2_def cong: option.case_cong)
  have "freeBinlogRow (Some r) = Inr ()" using Cons.prems(5) [of r v] by simp
  then have "skip_rows fuel ops k start bc = skip_rows fuel ops j start bc2"
    using ds ds1 1(1,4) Cons.prems(3) by (simp add: deref_def Let_def bc2_def)
  moreover have "\<exists>bc'. skip_rows fuel ops j start bc2 = Inr (True, bc') \<and> tracks n bc' outs \<and>
      bc_startidx bc' = 0"
    using Cons.prems(2,5,6) t2 ds1 by (intro Cons.IH) (auto simp add: bc2_def)
  ultimately show ?case by simp
qed

lemma tracks_bad_index:
  assumes "tracks n bc (pre @ (r, v) # outs)" "n \<le> fuel" "bc_startidx bc = int m" "length pre < m"
    and "map_option ds_position (bc_dataSource bc) = Some p"
    and "\<And>r v. (r, v) \<in> set pre \<Longrightarrow> fst v = p \<and> freeBinlogRow (Some r) = Inr ()"
    and "fst v \<noteq> p" "freeBinlogRow (Some r) = Inr ()" "m \<le> k"
  shows "\<exists>bc'. skip_rows fuel ops k start bc = Inr (False, bc') \<and> bc_err bc' \<and>
    bc_errstr bc' = impossible_index start p"
  using assms
proof (induction pre arbitrary: bc k m)
  case Nil
  obtain j where [simp]: "k = Suc j" using Nil.prems(4,9) by (cases k) simp_all
  obtain ds where ds: "bc_dataSource bc = Some ds" "ds_position ds = p" using Nil.prems(5) by auto
  obtain bc1 where 1: "fetchOne_raw fuel ops bc = Inr (Some r, bc1)"
      "map_option ds_view (bc_dataSource bc1) = Some v" "bc_startidx bc1 = int m"
    using tracks_fetch_raw [of n bc r v outs fuel] Nil.prems by auto
  obtain ds1 where "bc_dataSource bc1 = Some ds1" "ds_position ds1 \<noteq> p"
    using 1(2) Nil.prems(7) by (auto simp add: ds_view_def)
  then show ?case using ds 1(1,3) Nil.prems(3,4,8) by (simp add: deref_def Let_def)
next
  case (Cons o' pre)
  obtain j where [simp]: "k = Suc j" using Cons.prems(4,9) by (cases k) simp_all
  obtain r' v' where [simp]: "o' = (r', v')" by (cases o')
  obtain ds where ds: "bc_dataSource bc = Some ds" "ds_position ds = p" using Cons.prems(5) by auto
  obtain bc1 where 1: "fetchOne_raw fuel ops bc = Inr (Some r', bc1)"
      "tracks n bc1 (pre @ (r, v) # outs)"
      "map_option ds_view (bc_dataSource bc1) = Some v'" "bc_startidx bc1 = int m"
    using tracks_fetch_raw [of n bc r' v' "pre @ (r, v) # outs" fuel] Cons.prems by auto
  obtain ds1 where ds1: "bc_dataSource bc1 = Some ds1" "ds_position ds1 = p"
    using 1(3) Cons.prems(6) [of r' v'] by (auto simp add: ds_view_def)
  define bc2 where "bc2 = bc1\<lparr>bc_startidx := int m - 1\<rparr>"
  have t2: "tracks n bc2 (pre @ (r, v) # outs)" using 1(2)
    by (simp add: tracks_def ready_def buf_ok_def buffered_def bc2_def cong: option.case_cong)
  have "freeBinlogRow (Some r') = Inr ()" using Cons.prems(6) [of r' v'] by simp
  then have "skip_rows fuel ops k start bc = skip_rows fuel ops j start bc2"
    using ds ds1 1(1,4) Cons.prems(3,4) by (simp add: deref_def Let_def bc2_def)
  moreover have "\<exists>bc'. skip_rows fuel ops j start bc2 = Inr (False, bc') \<and> bc_err bc' \<and>
      bc_errstr bc' = impossible_index start p"
    using Cons.prems t2 ds1 by (intro Cons.IH [of bc2 "m - 1"]) (auto simp add: bc2_def)
  ultimately show ?case by simp
qed


text \<open>The skip loop of \<open>fetchOne\<close> has run, or there was nothing to skip.\<close>

lemma fetchOne_after_skip:
  assumes "tracks n bc outs" "n \<le> fuel" "bc_startidx bc = int m" "m < 2 ^ 31" "m \<le> length outs"
    and "map_option ds_position (bc_dataSource bc) = Some p"
    and "\<And>r v. (r, v) \<in> set (take m outs) \<Longrightarrow> fst v = p \<and> freeBinlogRow (Some r) = Inr ()"
  shows "\<exists>bc'. fetchOne fuel ops bc = fetchOne fuel ops bc' \<and> tracks n bc' (drop m outs) \<and>
    bc_startidx bc' = 0"
proof -
  have "int m < 2 ^ 31" using assms(4) by (metis of_nat_less_iff of_nat_numeral of_nat_power)
  then have m: "nat (int m mod 2 ^ 32) = m" by (subst mod_pos_pos_trivial) simp_all
  obtain bc' where "skip_rows fuel ops m (int m) bc = Inr (True, bc')" "tracks n bc' (drop m outs)"
      "bc_startidx bc' = 0"
    using tracks_skip [of n bc "take m outs" "drop m outs" fuel p m "int m"] assms by auto
  then have "fetchOne fuel ops bc = fetchOne_raw fuel ops bc'" "fetchOne fuel ops bc' = fetchOne_raw fuel ops bc'"
    using assms(3) m by (simp_all add: fetchOne_def)
  with \<open>tracks n bc' (drop m outs)\<close> \<open>bc_startidx bc' = 0\<close> show ?thesis by (metis (no_types))
qed

lemma connected_tracks:
  assumes "idle ds" "pending ds = map ev_bytes evs" "log_ok (False, None) evs"
  shows "tracks (length evs) (connected index ds) (deliver (ds_view ds) evs)"
  unfolding tracks_def using assms
  by (intro exI [of _ "(False, None)"] exI [of _ "ds_view ds"] exI [of _ evs])
    (simp add: ready_def connected_def new_client_def matches_def buf_ok_def buffered_def)

text \<open>
  A client that starts at index \<open>m\<close> on a log whose first \<open>m\<close> rows carry the start position
  delivers exactly the rows after them, in order, and then reports the end of the log.
\<close>

lemma client_delivers:
  assumes "idle ds" "pending ds = map ev_bytes evs" "log_ok (False, None) evs"
    and "outs = deliver (ds_view ds) evs" "m \<le> length outs" "m < 2 ^ 31"
    and "\<And>r v. (r, v) \<in> set (take m outs) \<Longrightarrow> fst v = ds_position ds"
    and "length evs < fuel" "length outs < k + m"
  shows "\<exists>bc'. fetch_all k fuel ops (connected (of_nat m) ds) = Inr (drop m outs, bc') \<and> bc_err bc'"
proof -
  let ?bc = "connected (of_nat m) ds"
  have free: "freeBinlogRow (Some r) = Inr ()" if "(r, v) \<in> set outs" for r v
    using deliver_free [OF assms(3)] that assms(4) by blast
  have "int m < 2147483648" using assms(6) by simp
  then have "sint (of_nat m :: u32) = int m"
    using signed_of_int [of "int m", where 'b = 32] by (simp add: signed_take_bit_int_eq_self)
  then have bc: "bc_startidx ?bc = int m" "map_option ds_position (bc_dataSource ?bc) = Some (ds_position ds)"
    by (simp_all add: connected_def)
  have t: "tracks (length evs) ?bc outs" using connected_tracks [OF assms(1-3)] assms(4) by simp
  have pre: "fst v = ds_position ds \<and> freeBinlogRow (Some r) = Inr ()"
    if "(r, v) \<in> set (take m outs)" for r v
    using assms(7) [OF that] free that by (meson in_set_takeD)
  obtain bc1 where 1: "fetchOne fuel ops ?bc = fetchOne fuel ops bc1"
      "tracks (length evs) bc1 (drop m outs)" "bc_startidx bc1 = 0"
    using fetchOne_after_skip [OF t less_imp_le [OF assms(8)] bc(1) assms(6,5) bc(2) pre] by blast
  have k: "length (drop m outs) < k" using assms(5,9) by simp
  then obtain j where [simp]: "k = Suc j" by (cases k) simp_all
  have "fetch_all k fuel ops ?bc = fetch_all k fuel ops bc1" using 1(1) by simp
  moreover have "\<exists>bc'. fetch_all k fuel ops bc1 = Inr (drop m outs, bc') \<and> bc_err bc'"
    using free by (intro tracks_fetch_all [OF 1(2) assms(8) 1(3) k]) (meson in_set_dropD)
  ultimately show ?thesis by simp
qed

lemma client_rejects_index:
  assumes "idle ds" "pending ds = map ev_bytes evs" "log_ok (False, None) evs"
    and "outs = deliver (ds_view ds) evs" "j < m" "j < length outs" "m < 2 ^ 31"
    and "\<And>r v. (r, v) \<in> set (take j outs) \<Longrightarrow> fst v = ds_position ds"
    and "fst (snd (outs ! j)) \<noteq> ds_position ds" "length evs < fuel"
  shows "\<exists>bc'. fetchOne fuel ops (connected (of_nat m) ds) = Inr (None, bc') \<and> bc_err bc' \<and>
    bc_errstr bc' = impossible_index (int m) (ds_position ds)"
proof -
  let ?bc = "connected (of_nat m) ds"
  have free: "freeBinlogRow (Some r) = Inr ()" if "(r, v) \<in> set outs" for r v
    using deliver_free [OF assms(3)] that assms(4) by blast
  have mlt: "int m < 2147483648" using assms(7) by simp
  then have "sint (of_nat m :: u32) = int m"
    using signed_of_int [of "int m", where 'b = 32] by (simp add: signed_take_bit_int_eq_self)
  then have bc: "bc_startidx ?bc = int m" "map_option ds_position (bc_dataSource ?bc) = Some (ds_position ds)"
    by (simp_all add: connected_def)
  obtain r v where rv: "outs ! j = (r, v)" by (cases "outs ! j")
  have split: "outs = take j outs @ (r, v) # drop (Suc j) outs"
    using id_take_nth_drop [OF assms(6)] rv by simp
  have t: "tracks (length evs) ?bc (take j outs @ (r, v) # drop (Suc j) outs)"
    using connected_tracks [OF assms(1-3)] assms(4) split by metis
  have pre: "fst v = ds_position ds \<and> freeBinlogRow (Some r) = Inr ()"
    if "(r, v) \<in> set (take j outs)" for r v
    using assms(8) [OF that] free that by (meson in_set_takeD)
  have r: "freeBinlogRow (Some r) = Inr ()" using free [of r v] rv assms(6) nth_mem by metis
  have m: "nat (int m mod 2 ^ 32) = m" using mlt by (subst mod_pos_pos_trivial) simp_all
  have "\<exists>bc'. skip_rows fuel ops m (int m) ?bc = Inr (False, bc') \<and> bc_err bc' \<and>
      bc_errstr bc' = impossible_index (int m) (ds_position ds)"
    using assms(5,6,9,10) rv r pre
    by (intro tracks_bad_index [OF t _ bc(1) _ bc(2)]) simp_all
  then show ?thesis using bc(1) m by (auto simp add: fetchOne_def)
qed

end

end
