(* ===== verification/CellPrint.thy ===== *)
theory CellPrint
  imports ClientSpec
begin

text \<open>
  The output side: \<open>printCell\<close> of \<open>src/src/libbinlog.c\<close> and the program \<open>src/src/bldump.c\<close>,
  which prints every row of a log. Output is the list of bytes written; \<open>printf\<close> is modelled
  for the conversions the code uses. A row is read through its cells, so a cell whose block is
  shorter than its C type says is a fault here.
\<close>

subsection \<open>The conversions of \<open>printf\<close>\<close>

text \<open>
  \<open>%f\<close>: the number of the bits \<open>b\<close>, with \<open>mb\<close> bits of significand and \<open>eb\<close> bits of exponent,
  with six decimals, rounded to nearest, to even between two. A \<open>float\<close> is converted to
  \<open>double\<close> first, which keeps its value.
\<close>

definition half_even :: "nat \<Rightarrow> nat \<Rightarrow> nat" where
  "half_even n d =
     (let q = n div d; r = 2 * (n mod d) in if r > d \<or> r = d \<and> odd q then q + 1 else q)"

definition fmt_micro :: "nat \<Rightarrow> u8 list" where
  "fmt_micro k = dec_digits (k div 1000000) @ [46] @ fmt0 6 (int (k mod 1000000))"

definition fmt_f :: "nat \<Rightarrow> nat \<Rightarrow> nat \<Rightarrow> u8 list" where
  "fmt_f eb mb b =
     (let e = b div 2 ^ mb mod 2 ^ eb; m = b mod 2 ^ mb; sg = b div 2 ^ (mb + eb);
          pre = (if sg = 0 then [] else [45])
      in if e = 2 ^ eb - 1 then pre @ (if m = 0 then [105, 110, 102] else [110, 97, 110])
         else let (m, e) = (if e = 0 then (m, 1) else (m + 2 ^ mb, e));
                  k = 2 ^ (eb - 1) - 1 + mb
              in pre @ fmt_micro (if e \<ge> k then m * 2 ^ (e - k) * 1000000
                                  else half_even (m * 1000000) (2 ^ (k - e))))"

subsection \<open>One cell (libbinlog.c)\<close>

text \<open>
  \<open>getInt32\<close> and its kin load from the block \<open>cell->value\<close>. \<open>%d\<close> of a \<open>uint32_t\<close> shows it as
  signed. The 8-bit and 16-bit integers have no tab behind them.
\<close>

definition printCell :: "Cell \<Rightarrow> u8 list res" where
  "printCell cell =
     (case c_ctype cell of
        INT32 \<Rightarrow> bindE (deref (c_value cell)) (\<lambda>v. bindE (getUint32 v 0) (\<lambda>x.
          Inr (int_digits (sint x) @ [9])))
      | UINT32 \<Rightarrow> bindE (deref (c_value cell)) (\<lambda>v. bindE (getUint32 v 0) (\<lambda>x.
          Inr (int_digits (sint x) @ [9])))
      | INT64 \<Rightarrow> bindE (deref (c_value cell)) (\<lambda>v. bindE (getUint64 v 0) (\<lambda>x.
          Inr (int_digits (sint x) @ [9])))
      | UINT64 \<Rightarrow> bindE (deref (c_value cell)) (\<lambda>v. bindE (getUint64 v 0) (\<lambda>x.
          Inr (int_digits (uint x) @ [9])))
      | INT8 \<Rightarrow> bindE (deref (c_value cell)) (\<lambda>v. bindE (getUint8 v 0) (\<lambda>x.
          Inr (int_digits (sint x))))
      | INT16 \<Rightarrow> bindE (deref (c_value cell)) (\<lambda>v. bindE (getUint16 v 0) (\<lambda>x.
          Inr (int_digits (sint x))))
      | FLOAT \<Rightarrow> bindE (deref (c_value cell)) (\<lambda>v. bindE (peek v 0 4) (\<lambda>b.
          Inr (fmt_f 8 23 (le_val b) @ [9])))
      | DOUBLE \<Rightarrow> bindE (deref (c_value cell)) (\<lambda>v. bindE (peek v 0 8) (\<lambda>b.
          Inr (fmt_f 11 52 (le_val b) @ [9])))
      | STRING \<Rightarrow> bindE (deref (c_value cell)) (\<lambda>v. bindE (cstring_at v 0) (\<lambda>s.
          Inr (s @ [9])))
      | BINARY \<Rightarrow> Inr [66, 73, 78, 65, 82, 89, 9])"

subsection \<open>The rows of a log (bldump.c)\<close>

text \<open>\<open>for (i = 0; i < row->nfields; ++i)\<close>, with the number of fields still to print.\<close>

fun dump_cells :: "Cell list \<Rightarrow> nat \<Rightarrow> nat \<Rightarrow> u8 list res" where
  "dump_cells row i 0 = Inr []"
| "dump_cells row i (Suc n) =
     bindE (nthE row i) (\<lambda>cell.
     bindE (if c_value cell = None
            then Inr ([102, 105, 101, 108, 100, 58] @ dec_digits i @ [10])
            else printCell cell) (\<lambda>t.
     bindE (dump_cells row (Suc i) n) (\<lambda>ts. Inr (t @ ts))))"

text \<open>The name of the log, the position and the index.\<close>

definition dump_where :: "'d DataSource \<Rightarrow> u8 list" where
  "dump_where ds = ds_logfile ds @ [32] @ int_digits (sint (ds_position ds)) @ [32] @
     int_digits (sint (ds_index ds))"

definition dump_row :: "'d DataSource \<Rightarrow> BinlogRow \<Rightarrow> u8 list res" where
  "dump_row ds row =
     (let kind = (if br_type row = BL_WRITE_ROWS_EVENT then [105, 110, 115, 101, 114, 116, 32]
                  else if br_type row = BL_UPDATE_ROWS_EVENT then [117, 112, 100, 97, 116, 101, 32]
                  else if br_type row = BL_DELETE_ROWS_EVENT then [100, 101, 108, 101, 116, 101, 32]
                  else [])
      in bindE (dump_cells (br_row row) 0 (br_nfields row)) (\<lambda>t.
         let head = kind @ t @ dump_where ds @ [32] @ int_digits (sint (br_created row)) @ [10]
         in if br_type row = BL_UPDATE_ROWS_EVENT then
              bindE (if br_nfields row = 0 then Inr []
                     else bindE (deref (br_rowOld row)) (\<lambda>old. dump_cells old 0 (br_nfields row)))
                (\<lambda>t. Inr (head @ [117, 112, 116, 111, 108, 100, 58] @ t @ dump_where ds @ [10]))
            else Inr head))"

text \<open>The \<open>while\<close> loop of \<open>main\<close>, with fuel \<open>k\<close> for the rows.\<close>

fun dump_rows ::
    "nat \<Rightarrow> nat \<Rightarrow> 'd ds_ops \<Rightarrow> 'd BinlogClient \<Rightarrow> (u8 list \<times> 'd BinlogClient) res"
where
  "dump_rows 0 fuel ops bc = Inl OutOfFuel"
| "dump_rows (Suc k) fuel ops bc =
     bindE (fetchOne fuel ops bc) (\<lambda>(row, bc).
     case row of
       None \<Rightarrow> Inr ([], bc)
     | Some r \<Rightarrow>
         bindE (deref (bc_dataSource bc)) (\<lambda>ds.
         bindE (dump_row ds r) (\<lambda>t.
         bindE (freeBinlogRow row) (\<lambda>_.
         bindE (dump_rows k fuel ops bc) (\<lambda>(ts, bc'). Inr (t @ ts, bc'))))))"

text \<open>
  \<open>main\<close> with one argument: what it prints and its exit status. The source functions are those
  that \<open>connectDataSource\<close> has chosen; it starts at position 4, index 0, as server 10.
\<close>

definition bldump ::
    "nat \<Rightarrow> nat \<Rightarrow> (u8 list \<Rightarrow> ('d ds_ops \<times> 'd DataSource) res) \<Rightarrow>
     (u8 list \<Rightarrow> ('d ds_ops \<times> 'd DataSource) res) \<Rightarrow> u8 list \<Rightarrow> (u8 list \<times> int) res"
where
  "bldump k fuel initMySQL initFile url =
     bindE (connectDataSource initMySQL initFile url 4 0 10) (\<lambda>(ops, bc).
     if bc_err bc then Inr ([69, 114, 114, 111, 114, 58] @ bc_errstr bc @ [10], 1)
     else bindE (deref ops) (\<lambda>ops.
          bindE (dump_rows k fuel ops bc) (\<lambda>(t, bc).
          bindE (freeBinlogClient ops (Some bc)) (\<lambda>_.
            Inr (t @ (if bc_err bc then bc_errstr bc @ [10] else []), 0)))))"

end
