(* ===== verification/PrintSafety.thy ===== *)
theory PrintSafety
  imports CellPrint
begin

text \<open>
  The cells a client gets are well typed, whatever bytes they come from: the block of a cell is
  as long as its C type says, and its C type and MySQL type are those of the column. Well-typed
  cells are printed without a fault, so every row of every event that is parsed can be printed.
\<close>

subsection \<open>The type of a cell\<close>

fun block_ok :: "bl_ctypes \<Rightarrow> bl_enum_field_types \<Rightarrow> nat \<Rightarrow> u8 list \<Rightarrow> bool" where
  "block_ok INT8 mt n v \<longleftrightarrow> length v = 1 \<and> n = 1"
| "block_ok INT16 mt n v \<longleftrightarrow> length v = 2 \<and> n = 2"
| "block_ok INT32 mt n v \<longleftrightarrow> length v = 4 \<and> n = 4"
| "block_ok UINT32 mt n v \<longleftrightarrow> length v = 4 \<and> n = 4"
| "block_ok FLOAT mt n v \<longleftrightarrow> length v = 4 \<and> n = 4"
| "block_ok INT64 mt n v \<longleftrightarrow> length v = 8 \<and> n = 8"
| "block_ok UINT64 mt n v \<longleftrightarrow> length v = 8 \<and> n = 8"
| "block_ok DOUBLE mt n v \<longleftrightarrow> length v = 8 \<and> n = 8"
| "block_ok STRING mt n v \<longleftrightarrow> (\<exists>s. v = s @ [0] \<and> (mt \<noteq> BL_MYSQL_TYPE_NEWDECIMAL \<longrightarrow> length s = n))"
| "block_ok BINARY mt n v \<longleftrightarrow> n \<le> length v"

definition cell_ok :: "Cell \<Rightarrow> bool" where
  "cell_ok c \<longleftrightarrow> (\<forall>v. c_value c = Some v \<longrightarrow> block_ok (c_ctype c) (c_mtype c) (c_length c) v)"

text \<open>The types a column's cells have when they are not NULL.\<close>

fun cell_type :: "bl_enum_field_types \<Rightarrow> (bl_ctypes \<times> bl_enum_field_types) option" where
  "cell_type BL_MYSQL_TYPE_TINY = Some (INT8, BL_MYSQL_TYPE_TINY)"
| "cell_type BL_MYSQL_TYPE_SHORT = Some (INT16, BL_MYSQL_TYPE_SHORT)"
| "cell_type BL_MYSQL_TYPE_LONG = Some (INT32, BL_MYSQL_TYPE_LONG)"
| "cell_type BL_MYSQL_TYPE_FLOAT = Some (FLOAT, BL_MYSQL_TYPE_FLOAT)"
| "cell_type BL_MYSQL_TYPE_DOUBLE = Some (DOUBLE, BL_MYSQL_TYPE_DOUBLE)"
| "cell_type BL_MYSQL_TYPE_TIMESTAMP = Some (UINT32, BL_MYSQL_TYPE_TIMESTAMP)"
| "cell_type BL_MYSQL_TYPE_LONGLONG = Some (INT64, BL_MYSQL_TYPE_LONGLONG)"
| "cell_type BL_MYSQL_TYPE_INT24 = Some (INT32, BL_MYSQL_TYPE_INT24)"
| "cell_type BL_MYSQL_TYPE_DATE = Some (STRING, BL_MYSQL_TYPE_DATE)"
| "cell_type BL_MYSQL_TYPE_TIME = Some (STRING, BL_MYSQL_TYPE_TIME)"
| "cell_type BL_MYSQL_TYPE_DATETIME = Some (STRING, BL_MYSQL_TYPE_DATETIME)"
| "cell_type BL_MYSQL_TYPE_YEAR = Some (STRING, BL_MYSQL_TYPE_YEAR)"
| "cell_type BL_MYSQL_TYPE_NEWDATE = Some (STRING, BL_MYSQL_TYPE_NEWDATE)"
| "cell_type BL_MYSQL_TYPE_VARCHAR = Some (STRING, BL_MYSQL_TYPE_VARCHAR)"
| "cell_type BL_MYSQL_TYPE_VAR_STRING = Some (STRING, BL_MYSQL_TYPE_VARCHAR)"
| "cell_type BL_MYSQL_TYPE_BIT = Some (BINARY, BL_MYSQL_TYPE_BIT)"
| "cell_type BL_MYSQL_TYPE_NEWDECIMAL = Some (STRING, BL_MYSQL_TYPE_NEWDECIMAL)"
| "cell_type BL_MYSQL_TYPE_ENUM = Some (INT32, BL_MYSQL_TYPE_ENUM)"
| "cell_type BL_MYSQL_TYPE_SET = Some (BINARY, BL_MYSQL_TYPE_SET)"
| "cell_type BL_MYSQL_TYPE_BLOB = Some (BINARY, BL_MYSQL_TYPE_BLOB)"
| "cell_type BL_MYSQL_TYPE_STRING = Some (STRING, BL_MYSQL_TYPE_STRING)"
| "cell_type _ = None"

definition typed :: "(bl_ctypes \<times> bl_enum_field_types) option \<Rightarrow> Cell \<Rightarrow> bool" where
  "typed T c \<longleftrightarrow> cell_ok c \<and> (c_value c \<noteq> None \<longrightarrow> Some (c_ctype c, c_mtype c) = T)"

subsection \<open>Every case of the switch gives a typed cell\<close>

definition yields :: "('a \<Rightarrow> bool) \<Rightarrow> ('a \<times> 'b) res \<Rightarrow> bool" where
  "yields P m \<longleftrightarrow> (\<forall>x s. m = Inr (x, s) \<longrightarrow> P x)"

named_theorems yields_intros "what an operation returns"

lemma yields_D: "yields P m \<Longrightarrow> m = Inr (x, s) \<Longrightarrow> P x"
  by (simp add: yields_def)

lemma yields_Inr [yields_intros]: "P x \<Longrightarrow> yields P (Inr (x, s))"
  by (simp add: yields_def)

lemma yields_if [yields_intros]:
  "(b \<Longrightarrow> yields P m) \<Longrightarrow> (\<not> b \<Longrightarrow> yields P m') \<Longrightarrow> yields P (if b then m else m')"
  by simp

lemma yields_malloc [yields_intros]:
  "(\<And>v. length v = n \<Longrightarrow> length bs \<le> n \<Longrightarrow> yields P (f v)) \<Longrightarrow> yields P (bindE (malloc_copy n bs) f)"
proof -
  assume f: "\<And>v. length v = n \<Longrightarrow> length bs \<le> n \<Longrightarrow> yields P (f v)"
  show ?thesis
  proof (cases "malloc_copy n bs")
    case (Inr v)
    then have "length v = n" "length bs \<le> n" by (auto simp add: malloc_copy_def poke_Inr_iff)
    with f Inr show ?thesis by simp
  qed (simp add: yields_def)
qed

lemma yields_readBytes [yields_intros]:
  "(\<And>b ec. length b = n \<Longrightarrow> yields P (f b ec)) \<Longrightarrow> yields P (bindE (readBytes n ec) (\<lambda>(b, ec). f b ec))"
  by (cases "readBytes n ec") (auto simp add: yields_def dest!: read_width)

lemma yields_peek [yields_intros]:
  "(\<And>b. length b = n \<Longrightarrow> yields P (f b)) \<Longrightarrow> yields P (bindE (peek ev i n) f)"
  by (cases "peek ev i n") (auto simp add: yields_def dest!: peek_length)

lemma yields_bind2 [yields_intros]:
  "(\<And>x ec. yields P (f x ec)) \<Longrightarrow> yields P (bindE m (\<lambda>(x, ec). f x ec))"
  by (cases m) (auto simp add: yields_def)

lemma yields_bind [yields_intros]: "(\<And>x. yields P (f x)) \<Longrightarrow> yields P (bindE m f)"
  by (cases m) (auto simp add: yields_def)

lemma typed_null [simp]: "typed T null_cell"
  "typed T (null_cell\<lparr>c_ctype := ct, c_mtype := mt\<rparr>)"
  by (simp_all add: typed_def cell_ok_def null_cell_def)

lemma typed_mk [simp]: "typed T (mk_cell ct mt n v) \<longleftrightarrow> block_ok ct mt n v \<and> T = Some (ct, mt)"
  by (auto simp add: typed_def cell_ok_def mk_cell_def)

lemma typed_string [simp]: "typed T (string_cell mt s) \<longleftrightarrow> T = Some (STRING, mt)"
  by (simp add: string_cell_def)

lemma NEWDECIMAL_typed:
  "yields (typed (cell_type BL_MYSQL_TYPE_NEWDECIMAL)) (cell_NEWDECIMAL meta ec)"
  unfolding cell_NEWDECIMAL_def Let_def split_def
  by (intro yields_bind yields_if yields_Inr) simp_all

lemma value2Cell_yields:
  assumes "field_type_of (fst (string_real_type type meta)) = Some t"
  shows "yields (typed (cell_type t)) (value2Cell ec type meta)"
proof -
  have "yields (typed (cell_type BL_MYSQL_TYPE_LONG)) (cell_LONG ec)"
    "yields (typed (cell_type BL_MYSQL_TYPE_TINY)) (cell_TINY ec)"
    "yields (typed (cell_type BL_MYSQL_TYPE_SHORT)) (cell_SHORT ec)"
    "yields (typed (cell_type BL_MYSQL_TYPE_LONGLONG)) (cell_LONGLONG ec)"
    "yields (typed (cell_type BL_MYSQL_TYPE_INT24)) (cell_INT24 ec)"
    "yields (typed (cell_type BL_MYSQL_TYPE_TIMESTAMP)) (cell_TIMESTAMP ec)"
    "yields (typed (cell_type BL_MYSQL_TYPE_DATETIME)) (cell_DATETIME ec)"
    "yields (typed (cell_type BL_MYSQL_TYPE_TIME)) (cell_TIME ec)"
    "yields (typed (cell_type BL_MYSQL_TYPE_NEWDATE)) (cell_NEWDATE ec)"
    "yields (typed (cell_type BL_MYSQL_TYPE_DATE)) (cell_DATE ec)"
    "yields (typed (cell_type BL_MYSQL_TYPE_YEAR)) (cell_YEAR ec)"
    "yields (typed (cell_type BL_MYSQL_TYPE_ENUM)) (cell_ENUM meta ec)"
    "yields (typed (cell_type BL_MYSQL_TYPE_SET)) (cell_SET meta ec)"
    "yields (typed (cell_type BL_MYSQL_TYPE_BLOB)) (cell_BLOB meta ec)"
    "yields (typed (cell_type BL_MYSQL_TYPE_VARCHAR)) (cell_VARCHAR meta ec)"
    "yields (typed (cell_type BL_MYSQL_TYPE_VAR_STRING)) (cell_VARCHAR meta ec)"
    "yields (typed (cell_type BL_MYSQL_TYPE_STRING)) (cell_STRING n ec)"
    "yields (typed (cell_type BL_MYSQL_TYPE_BIT)) (cell_BIT meta ec)"
    "yields (typed (cell_type BL_MYSQL_TYPE_FLOAT)) (cell_FLOAT ec)"
    "yields (typed (cell_type BL_MYSQL_TYPE_DOUBLE)) (cell_DOUBLE ec)" for n
    unfolding cell_defs Let_def
    by (intro yields_intros; simp)+
  then show ?thesis
    unfolding value2Cell_def using assms NEWDECIMAL_typed
    by (cases t) (auto simp add: split_def intro: yields_Inr)
qed

lemma value2Cell_unknown:
  "field_type_of (fst (string_real_type type meta)) = None \<Longrightarrow> value2Cell ec type meta = Inr (null_cell, ec)"
  by (simp add: value2Cell_def split_def)

lemma value2Cell_cell_ok: "yields cell_ok (value2Cell ec type meta)"
proof (cases "field_type_of (fst (string_real_type type meta))")
  case None
  then show ?thesis by (simp add: value2Cell_unknown yields_def cell_ok_def null_cell_def)
next
  case (Some t)
  from value2Cell_yields [OF this] show ?thesis by (auto simp add: yields_def typed_def)
qed

subsection \<open>Every row of a parsed event is well typed\<close>

lemma image_cells_ok:
  "image_cells tbl isnull isused i n ec = Inr (cs, ec') \<Longrightarrow> list_all cell_ok cs"
proof (induction n arbitrary: i ec cs ec')
  case (Suc n)
  then obtain c ec1 cs' where c: "image_cells tbl isnull isused (Suc i) n ec1 = Inr (cs', ec')" "cs = c # cs'"
    and v: "c = null_cell \<or> (\<exists>ec0 type meta. value2Cell ec0 type meta = Inr (c, ec1))"
    by (simp add: bindE_Inr_iff split: if_splits) blast+
  have "cell_ok c"
    using v by (auto simp: typed_null [unfolded typed_def] dest: yields_D [OF value2Cell_cell_ok])
  with Suc.IH [OF c(1)] c(2) show ?case by simp
qed simp

definition rows_ok :: "RowsEvent \<Rightarrow> bool" where
  "rows_ok re \<longleftrightarrow> (\<forall>r \<in> set (re_rows re). list_all cell_ok r) \<and>
     (\<forall>old. re_rowsold re = Some old \<longrightarrow> (\<forall>r \<in> set old. list_all cell_ok r))"

lemma rows_loop_ok:
  assumes "rows_loop fuel tbl evlen upd n bl iu iuu tot [] [] ec = Inr r"
  shows "list_all (list_all cell_ok) (fst r) \<and> list_all (list_all cell_ok) (snd r)"
  using rows_loop_shape [of fuel tbl evlen upd n bl iu iuu tot "[]" "[]" ec "fst r" "snd r"
      "list_all cell_ok"] assms by (simp add: image_cells_ok)

lemma parseRowsEvent_rows_ok:
  assumes "parseRowsEvent bl re ev = Inr re'"
  shows "rows_ok re'"
  using assms
  unfolding parseRowsEvent_def Let_def split_def bindE_Inr_iff checkE_Inr_iff
  by - (elim exE conjE, drule rows_loop_ok, auto simp add: rows_ok_def list_all_iff split: if_splits)

subsection \<open>Well-typed cells can be printed\<close>

lemma cstring_at_ends: "cstring_at (s @ [0]) 0 = Inr (takeWhile (\<lambda>c. c \<noteq> 0) s)"
  by (simp add: cstring_at_def takeWhile_tail)

lemma printCell_ok:
  assumes "cell_ok c" "c_value c \<noteq> None"
  shows "\<exists>t. printCell c = Inr t"
proof -
  obtain v where v: "c_value c = Some v" "block_ok (c_ctype c) (c_mtype c) (c_length c) v"
    using assms by (auto simp add: cell_ok_def)
  then show ?thesis
    by (cases "c_ctype c") (auto simp add: printCell_def deref_def getUint8_def getUint16_def
        getUint32_def getUint64_def peek_def cstring_at_ends)
qed

definition row_typed :: "BinlogRow \<Rightarrow> bool" where
  "row_typed r \<longleftrightarrow> br_nfields r = length (br_row r) \<and> list_all cell_ok (br_row r) \<and>
     (case br_rowOld r of
        None \<Rightarrow> br_type r \<noteq> BL_UPDATE_ROWS_EVENT
      | Some old \<Rightarrow> br_type r = BL_UPDATE_ROWS_EVENT \<and> br_nfields r = length old \<and> list_all cell_ok old)"

lemma mk_row_typed:
  assumes "wf_rows re" "rows_ok re" "i < re_nrows re"
  shows "\<exists>r. mk_row re i = Inr r \<and> row_typed r"
  using assms
  by (auto simp add: mk_row_def wf_rows_def rows_ok_def nthE_def deref_def row_typed_def Let_def
      split: option.splits)

subsection \<open>The rows of a log\<close>

text \<open>What a row looks like: its kind, its cells, where and when it was, and the old cells.\<close>

definition cell_text :: "nat \<Rightarrow> Cell \<Rightarrow> u8 list" where
  "cell_text i c =
     (if c_value c = None then [102, 105, 101, 108, 100, 58] @ dec_digits i @ [10]
      else case printCell c of Inr t \<Rightarrow> t | Inl _ \<Rightarrow> [])"

definition cells_text :: "Cell list \<Rightarrow> u8 list" where
  "cells_text cs = concat (map2 cell_text [0..<length cs] cs)"

definition kind_text :: "u8 \<Rightarrow> u8 list" where
  "kind_text type =
     (if type = BL_WRITE_ROWS_EVENT then [105, 110, 115, 101, 114, 116, 32]
      else if type = BL_UPDATE_ROWS_EVENT then [117, 112, 100, 97, 116, 101, 32]
      else if type = BL_DELETE_ROWS_EVENT then [100, 101, 108, 101, 116, 101, 32] else [])"

fun where_text :: "view \<Rightarrow> u8 list" where
  "where_text (p, i, l) = l @ [32] @ int_digits (sint p) @ [32] @ int_digits (sint i)"

definition row_text :: "view \<Rightarrow> BinlogRow \<Rightarrow> u8 list" where
  "row_text v r = kind_text (br_type r) @ cells_text (br_row r) @ where_text v @ [32] @
     int_digits (sint (br_created r)) @ [10] @
     (case br_rowOld r of None \<Rightarrow> []
      | Some old \<Rightarrow> [117, 112, 116, 111, 108, 100, 58] @ cells_text old @ where_text v @ [10])"

lemma dump_cells_text:
  assumes "list_all cell_ok row" "i + n = length row"
  shows "dump_cells row i n = Inr (concat (map2 cell_text [i..<length row] (drop i row)))"
  using assms(2)
proof (induction n arbitrary: i)
  case (Suc n)
  have i: "i < length row" using Suc.prems by simp
  then have c: "nthE row i = Inr (row ! i)" "cell_ok (row ! i)"
    using assms(1) by (simp_all add: nthE_def list_all_length)
  have d: "[i..<length row] = i # [Suc i..<length row]" "drop i row = row ! i # drop (Suc i) row"
    using i by (simp_all add: upt_conv_Cons Cons_nth_drop_Suc)
  have "dump_cells row (Suc i) n = Inr (concat (map2 cell_text [Suc i..<length row] (drop (Suc i) row)))"
    using Suc.prems by (intro Suc.IH) simp
  then show ?case
    using c printCell_ok [OF c(2)] unfolding d by (cases "c_value (row ! i) = None") (auto simp add: cell_text_def)
qed simp

lemma dump_cells_all: "list_all cell_ok row \<Longrightarrow> dump_cells row 0 (length row) = Inr (cells_text row)"
  using dump_cells_text [of row 0 "length row"] by (simp add: cells_text_def)

lemma dump_row_text:
  assumes "row_typed r"
  shows "dump_row ds r = Inr (row_text (ds_view ds) r)"
proof -
  have n: "br_nfields r = length (br_row r)" "list_all cell_ok (br_row r)"
    using assms by (simp_all add: row_typed_def)
  note dump = dump_row_def row_text_def kind_text_def dump_where_def ds_view_def dump_cells_all
  show ?thesis
  proof (cases "br_rowOld r")
    case None
    then have "br_type r \<noteq> BL_UPDATE_ROWS_EVENT" using assms by (simp add: row_typed_def)
    then show ?thesis using None n by (simp add: dump)
  next
    case (Some old)
    then have o: "br_type r = BL_UPDATE_ROWS_EVENT" "list_all cell_ok old" "length old = length (br_row r)"
      using assms by (simp_all add: row_typed_def)
    have "dump_cells old 0 (length (br_row r)) = Inr (cells_text old)" using dump_cells_all [OF o(2)] o(3) by simp
    moreover have "cells_text old = []" if "br_row r = []" using that o(3) by (simp add: cells_text_def)
    ultimately show ?thesis using Some n o(1) by (simp add: dump deref_def)
  qed
qed

lemma parsed_row_prints:
  assumes "parseRowsEvent bl re ev = Inr re'" "i < re_nrows re'"
  shows "\<exists>r. mk_row re' i = Inr r \<and> row_typed r \<and> dump_row ds r = Inr (row_text (ds_view ds) r)"
  using mk_row_typed [of re' i] parseRowsEvent_shape [OF assms(1)] parseRowsEvent_rows_ok [OF assms(1)]
    assms(2) dump_row_text by blast

lemma dump_rows_text:
  assumes "fetch_all k fuel ops bc = Inr (outs, bc')" "\<And>r v. (r, v) \<in> set outs \<Longrightarrow> row_typed r"
  shows "dump_rows k fuel ops bc = Inr (concat (map (\<lambda>(r, v). row_text v r) outs), bc')"
  using assms
proof (induction k arbitrary: bc outs)
  case (Suc k)
  obtain row bc1 where f: "fetchOne fuel ops bc = Inr (row, bc1)"
    using Suc.prems(1) by (auto simp add: bindE_Inr_iff)
  show ?case
  proof (cases row)
    case None
    with f Suc.prems(1) show ?thesis by simp
  next
    case (Some r)
    then obtain ds outs' where 1: "bc_dataSource bc1 = Some ds" "freeBinlogRow row = Inr ()"
        "fetch_all k fuel ops bc1 = Inr (outs', bc')" "outs = (r, ds_view ds) # outs'"
      using f Suc.prems(1) by (auto simp add: bindE_Inr_iff deref_def split: option.splits)
    have r: "row_typed r" using 1(4) Suc.prems(2) [of r "ds_view ds"] by simp
    have "dump_rows k fuel ops bc1 = Inr (concat (map (\<lambda>(r, v). row_text v r) outs'), bc')"
      using 1(4) Suc.prems(2) by (intro Suc.IH [OF 1(3)]) auto
    with f Some 1(1,2,4) r show ?thesis by (simp add: deref_def dump_row_text)
  qed
qed simp

text \<open>The rows of a well-formed log are typed.\<close>

lemma col_cell_ok: "col_ok v \<Longrightarrow> cell_ok (col_cell v)"
  by (cases v) (auto simp add: cell_ok_def mk_cell_def string_cell_def)

lemma row_cells_ok:
  assumes "row_ok tbl n vs" "length ps = n"
  shows "list_all cell_ok (row_cells ps vs) \<and> length (row_cells ps vs) = n"
proof -
  have len: "length vs = n" and fit: "i < n \<Longrightarrow> fits tbl i (vs ! i)" for i
    using assms(1) by (simp_all add: row_ok_def)
  have "cell_ok (val_cell p v)" if "fits tbl i v" for p v i
    using that typed_null(1) [unfolded typed_def] col_cell_ok
    by (auto simp add: val_cell_def fits_def split: option.split)
  then show ?thesis
    using assms(2) len fit by (auto simp add: row_cells_def list_all_length)
qed

lemma event_rows_typed:
  assumes "body_ok st (e_body e)" "r \<in> set (event_rows e)"
  shows "row_typed r"
proof -
  obtain type tid res fill ps pu cs where e: "e_body e = EvRows type tid res fill ps pu cs"
    using assms(2) by (cases "e_body e") auto
  let ?upd = "type = BL_UPDATE_ROWS_EVENT"
  obtain cols where l: "length pu = length ps"
    and c: "list_all (change_ok (tbl_of cols) ?upd (length ps)) cs"
    using assms(1) e by (cases st) (auto split: option.splits)
  obtain c where r: "c \<in> set cs" "r = \<lparr>br_nfields = length ps, br_type = type, br_created = e_ts e,
      br_row = row_cells (if ?upd then pu else ps) (snd c),
      br_rowOld = (if ?upd then Some (row_cells ps (fst c)) else None)\<rparr>"
    using assms(2) e by auto
  have "change_ok (tbl_of cols) ?upd (length ps) c" using c r(1) by (simp add: list_all_iff)
  then have "row_ok (tbl_of cols) (length ps) (snd c)" "?upd \<Longrightarrow> row_ok (tbl_of cols) (length ps) (fst c)"
    by (simp_all add: change_ok_def)
  then show ?thesis
    using row_cells_ok [of _ "length ps" _ pu] row_cells_ok [of _ "length ps" _ ps] l
    by (auto simp add: r(2) row_typed_def)
qed

lemma deliver_typed:
  "log_ok st evs \<Longrightarrow> (r, v) \<in> set (deliver u evs) \<Longrightarrow> row_typed r"
  using deliver_event event_rows_typed by blast

end
