(* ===== verification/Streams.thy ===== *)
theory Streams
  imports Prelude
begin

text \<open>
  What the program does its input and output on: C files, and sockets as \<open>read(2)\<close> and
  \<open>write(2)\<close> show them, a sequence of arrivals and of partial writes.
\<close>

subsection \<open>Files\<close>

text \<open>
  An open \<open>FILE\<close> is its content and the offset of the next byte. A heap pointer that a driver
  frees is \<open>Freed\<close> afterwards, because the code leaves its value as it is.
\<close>

type_synonym stream = "u8 list \<times> nat"

datatype heap_ptr = Null | Live "u8 list" | Freed

text \<open>
  \<open>fread(p, size, 1, fp)\<close> into the block \<open>b\<close> at \<open>off\<close>: as many of the \<open>size\<close> bytes as the file
  has, and 1 when it had them all. It returns 0 or 1, never \<open>-1\<close>: the branches of the callers
  that test for \<open>-1\<close> are dead.
\<close>

definition fread1 ::
    "u8 list \<Rightarrow> nat \<Rightarrow> nat \<Rightarrow> stream \<Rightarrow> (nat \<times> u8 list \<times> stream) res"
where
  "fread1 b off sz fp =
     (case fp of (content, pos) \<Rightarrow>
        let got = take sz (drop pos content) in
        bindE (poke b off got) (\<lambda>b.
          Inr (of_bool (0 < sz \<and> length got = sz), b, (content, pos + length got))))"

text \<open>The conversion of a negative \<open>int\<close> to \<open>size_t\<close>.\<close>

definition size_of_int :: "int \<Rightarrow> nat" where
  "size_of_int i = nat (i mod 2 ^ 64)"

text \<open>The conversion of a \<open>size_t\<close> to \<open>int\<close>.\<close>

definition int_of_size :: "nat \<Rightarrow> int" where
  "int_of_size n = sint (of_nat n :: u32)"

lemma size_of_int_nat [simp]: "n < 2 ^ 64 \<Longrightarrow> size_of_int (int n) = n"
  by (simp add: size_of_int_def)

lemma int_of_size_small: "n < 2 ^ 31 \<Longrightarrow> int_of_size n = int n"
proof -
  assume n: "n < 2 ^ 31"
  then have "int n < 2 ^ 31" by (metis of_nat_less_iff of_nat_numeral of_nat_power)
  then have "signed_take_bit 31 (int n) = int n" by (intro signed_take_bit_int_eq_self) simp_all
  moreover have "(of_nat n :: u32) = of_int (int n)" by simp
  ultimately show ?thesis by (simp only: int_of_size_def signed_of_int) simp
qed

subsection \<open>Sockets\<close>

text \<open>
  The peer's side of a connection is a list of arrivals: a run of bytes that \<open>read\<close> may take
  in pieces, or an error of \<open>read\<close> with the flag that tells \<open>EAGAIN\<close> and the text of
  \<open>strerror\<close>. The end of the list is the end of the connection. \<open>sk_room\<close> says what the next
  calls of \<open>write\<close> do, take at most so many bytes or fail; past its end they take everything.
\<close>

datatype arrival = Data "u8 list" | RecvErr bool "u8 list"

datatype room = Accept nat | SendErr bool "u8 list"

record sock =
  sk_in :: "arrival list"
  sk_out :: "u8 list"
  sk_room :: "room list"
  sk_again :: bool
  sk_errno :: "u8 list"

definition sock_read :: "nat \<Rightarrow> sock \<Rightarrow> int \<times> u8 list \<times> sock" where
  "sock_read n s =
     (case sk_in s of
        [] \<Rightarrow> (0, [], s)
      | Data c # r \<Rightarrow>
          (int (length (take n c)), take n c,
           s\<lparr>sk_in := (if drop n c = [] then r else Data (drop n c) # r)\<rparr>)
      | RecvErr again msg # r \<Rightarrow> (- 1, [], s\<lparr>sk_in := r, sk_again := again, sk_errno := msg\<rparr>))"

definition sock_write :: "u8 list \<Rightarrow> sock \<Rightarrow> int \<times> sock" where
  "sock_write bs s =
     (case sk_room s of
        [] \<Rightarrow> (int (length bs), s\<lparr>sk_out := sk_out s @ bs\<rparr>)
      | Accept k # r \<Rightarrow>
          (int (length (take k bs)), s\<lparr>sk_out := sk_out s @ take k bs, sk_room := r\<rparr>)
      | SendErr again msg # r \<Rightarrow> (- 1, s\<lparr>sk_room := r, sk_again := again, sk_errno := msg\<rparr>))"

text \<open>The bytes that arrive before the next error or the end, and what follows them.\<close>

fun in_bytes :: "arrival list \<Rightarrow> u8 list" where
  "in_bytes (Data (b # bs) # r) = b # bs @ in_bytes r"
| "in_bytes _ = []"

fun in_tail :: "arrival list \<Rightarrow> arrival list" where
  "in_tail (Data (b # bs) # r) = in_tail r"
| "in_tail r = r"

text \<open>A measure that every read that returns something decreases.\<close>

definition in_size :: "arrival list \<Rightarrow> nat" where
  "in_size as = sum_list (map (\<lambda>a. case a of Data c \<Rightarrow> Suc (length c) | RecvErr _ _ \<Rightarrow> 1) as)"

lemma sock_read_decreases:
  assumes "sock_read n s = (k, bs, s')" "k \<noteq> 0"
  shows "in_size (sk_in s') < in_size (sk_in s)"
  using assms by (auto simp add: sock_read_def in_size_def split: list.splits arrival.splits if_splits)

lemma sock_read_out: "sock_read n s = (k, bs, s') \<Longrightarrow> sk_out s' = sk_out s \<and> sk_room s' = sk_room s"
  by (auto simp add: sock_read_def split: list.splits arrival.splits if_splits)

text \<open>A read of at least one byte returns a non-empty front of the bytes that arrive.\<close>

lemma sock_read_front:
  assumes "in_bytes (sk_in s) \<noteq> []" "0 < n"
  shows "\<exists>bs s'. sock_read n s = (int (length bs), bs, s') \<and> bs \<noteq> [] \<and> length bs \<le> n \<and>
    in_bytes (sk_in s) = bs @ in_bytes (sk_in s') \<and> in_tail (sk_in s') = in_tail (sk_in s) \<and>
    s' = s\<lparr>sk_in := sk_in s'\<rparr>"
proof -
  obtain b c r where s: "sk_in s = Data (b # c) # r"
    using assms(1) by (cases "sk_in s" rule: in_bytes.cases) auto
  obtain m where [simp]: "n = Suc m" using assms(2) by (cases n) auto
  show ?thesis
  proof (cases "drop m c")
    case Nil
    then show ?thesis by (simp add: sock_read_def s)
  next
    case (Cons d ds)
    then have "c = take m c @ d # ds" by (metis append_take_drop_id)
    with Cons show ?thesis by (simp add: sock_read_def s)
  qed
qed

end
