(* ===== verification/FileSource.thy ===== *)
theory FileSource
  imports ClientSpec Streams
begin

text \<open>
  The file driver of \<open>src/src/filedriver.c\<close>: opening a binlog file, reading one event at a
  time into the driver's buffer or a block of its own, releasing it, and the URL parser. The
  interpretation \<open>file_source\<close> shows that it is a \<open>data_source\<close>, on every file that is a list
  of whole events.
\<close>

subsection \<open>The driver\<close>

record FileDrv =
  fd_fp :: "stream option"
  fd_path :: "nat option"
  fd_buf :: "u8 list"
  fd_newbuf :: heap_ptr

subsection \<open>The file driver (filedriver.c)\<close>

text \<open>The local \<open>position\<close> is computed and never used: the file is read where it stands.\<close>

definition getEventFromFile ::
    "FileDrv DataSource \<Rightarrow> (u8 list option \<times> FileDrv DataSource) res"
where
  "getEventFromFile ds =
     (let d = ds_drv ds in
      bindE (deref (fd_fp d)) (\<lambda>fp.
      bindE (fread1 (replicate 19 0) 0 19 fp) (\<lambda>(c, header, fp).
      let d = d\<lparr>fd_fp := Some fp\<rparr> in
      if c = 0 then Inr (None, ds\<lparr>ds_drv := d\<rparr>)
      else
        bindE (getUint32 header 9) (\<lambda>l.
        let len = sint l;
            big = (len > int BL_EVENT_BUF_SIZE);
            ev = (if big then replicate (nat len) 0 else fd_buf d) in
        bindE (poke ev 0 header) (\<lambda>ev.
        bindE (checkE IntOverflow (- (2 ^ 31) \<le> len - 19)) (\<lambda>_.
        bindE (fread1 ev 19 (size_of_int (len - 19)) fp) (\<lambda>(c, ev, fp).
          Inr (Some ev, ds\<lparr>ds_drv := d\<lparr>fd_fp := Some fp,
                 fd_buf := (if big then fd_buf d else ev),
                 fd_newbuf := (if big then Live ev else Null)\<rparr>\<rparr>))))))))"

definition readMagic :: "u8 list \<Rightarrow> nat \<Rightarrow> stream option \<Rightarrow> (int \<times> u8 list \<times> stream option) res" where
  "readMagic target tlen fp =
     (if tlen < 4 then Inr (- 1, target, fp)
      else bindE (deref fp) (\<lambda>f. bindE (fread1 target 0 4 f) (\<lambda>(c, b, f). Inr (int c, b, Some f))))"

text \<open>\<open>fs\<close> is the file system: the content of the file a path names. \<open>path\<close> points into \<open>url\<close>.\<close>

definition openFile ::
    "(u8 list \<Rightarrow> u8 list option) \<Rightarrow> FileDrv DataSource \<Rightarrow> (bool \<times> FileDrv DataSource) res"
where
  "openFile fs ds =
     bindE (deref (fd_path (ds_drv ds))) (\<lambda>p.
     bindE (deref (ds_url ds)) (\<lambda>url.
     bindE (cstring_at url p) (\<lambda>path.
     let fp = map_option (\<lambda>content. (content, 0)) (fs path) in
     bindE (readMagic (replicate 4 0) 4 fp) (\<lambda>(r, magic, fp).
       Inr (\<not> r < 0, ds\<lparr>ds_drv := (ds_drv ds)\<lparr>fd_fp := fp\<rparr>\<rparr>)))))"

definition closeFile :: "FileDrv DataSource \<Rightarrow> FileDrv DataSource res" where
  "closeFile ds = bindE (deref (fd_fp (ds_drv ds))) (\<lambda>_.
     Inr (ds\<lparr>ds_url := None, ds_drv := (ds_drv ds)\<lparr>fd_fp := None\<rparr>\<rparr>))"

definition freeEventFromFile :: "FileDrv DataSource \<Rightarrow> FileDrv DataSource res" where
  "freeEventFromFile ds =
     (case fd_newbuf (ds_drv ds) of
        Null \<Rightarrow> Inr ds
      | Live b \<Rightarrow> Inr (ds\<lparr>ds_drv := (ds_drv ds)\<lparr>fd_newbuf := Freed\<rparr>\<rparr>)
      | Freed \<Rightarrow> Inl DoubleFree)"

definition file_ops :: "(u8 list \<Rightarrow> u8 list option) \<Rightarrow> FileDrv ds_ops" where
  "file_ops fs = \<lparr>op_connect = openFile fs, op_close = closeFile, op_getEvent = getEventFromFile,
     op_freeEvent = freeEventFromFile\<rparr>"

definition dsFile :: "FileDrv DataSource" where
  "dsFile = \<lparr>ds_url = None, ds_logfile = [], ds_position = 4, ds_index = 0, ds_serverid = - 1,
     ds_drv = \<lparr>fd_fp = None, fd_path = None, fd_buf = replicate BL_EVENT_BUF_SIZE 0,
       fd_newbuf = Null\<rparr>,
     ds_errstr = []\<rparr>"

text \<open>
  The \<open>while (*++url != '\0')\<close> loop of \<open>parseFileUrl\<close>: offsets into the copy of the URL,
  whose NUL is part of the block. It returns \<open>path\<close> and \<open>logfile\<close>.
\<close>

function file_url_loop ::
    "u8 list \<Rightarrow> nat \<Rightarrow> bool \<Rightarrow> u8 \<Rightarrow> nat option \<Rightarrow> nat option \<Rightarrow> (nat option \<times> nat option) res"
where
  "file_url_loop b url s_path nxt path logfile =
     (if length b \<le> url + 1 then Inl OutOfBounds
      else if b ! (url + 1) = 0 then Inr (path, logfile)
      else if b ! (url + 1) = nxt then
        bindE (if s_path then nthE b (url + 4) else Inr 0) (\<lambda>c.
          if s_path \<and> c = 47 then file_url_loop b (url + 5) False 47 (Some (url + 5)) logfile
          else file_url_loop b (url + 4) s_path nxt path (Some (url + 4)))
      else file_url_loop b (url + 1) s_path nxt path logfile)"
  by pat_completeness auto

termination
  by (relation "measure (\<lambda>(b, url, _). length b - url)") auto

declare file_url_loop.simps [simp del]

definition parseFileUrl :: "FileDrv DataSource \<Rightarrow> u8 list \<Rightarrow> FileDrv DataSource res" where
  "parseFileUrl ds surl =
     (if take 1 surl \<noteq> [102] then Inr ds
      else
        let url = surl @ [0] in
        bindE (file_url_loop url 0 True 58 (fd_path (ds_drv ds)) None) (\<lambda>(path, logfile).
        bindE (case path of Some p \<Rightarrow> Inr p
               | None \<Rightarrow> (case logfile of None \<Rightarrow> Inl Uninitialized | Some l \<Rightarrow> Inr l)) (\<lambda>path.
        let ds = ds\<lparr>ds_url := Some url, ds_drv := (ds_drv ds)\<lparr>fd_path := Some path\<rparr>\<rparr> in
        case logfile of
          None \<Rightarrow> Inl Uninitialized
        | Some l \<Rightarrow>
            bindE (cstring_at url l) (\<lambda>s.
              Inr (if length s < 256 then ds\<lparr>ds_logfile := s\<rparr> else ds)))))"

definition dsInitWithFile ::
    "(u8 list \<Rightarrow> u8 list option) \<Rightarrow> u8 list \<Rightarrow> (FileDrv ds_ops \<times> FileDrv DataSource) res"
where
  "dsInitWithFile fs url = bindE (parseFileUrl dsFile url) (\<lambda>ds. Inr (file_ops fs, ds))"


subsection \<open>The events of a file\<close>

function split_events :: "u8 list \<Rightarrow> u8 list list" where
  "split_events r =
     (if length r < 19 then []
      else let n = le_val (take 4 (drop 9 r)) in
           if 19 \<le> n \<and> n \<le> length r then take n r # split_events (drop n r) else [])"
  by pat_completeness auto

termination
  by (relation "measure length") auto

declare split_events.simps [simp del]

lemma split_events_cons:
  assumes "le_val (take 4 (drop 9 e)) = length e" "19 \<le> length e"
  shows "split_events (e @ r) = e # split_events r"
  using assms by (subst split_events.simps) (simp add: Let_def)

lemma ev_bytes_len_field:
  assumes "ev_len e < 4294967296"
  shows "le_val (take 4 (drop 9 (ev_bytes e))) = ev_len e"
  using assms by (simp add: ev_bytes_def hdr_bytes_def le_val_le_bytes_id)

lemma split_events_log:
  assumes "list_all (\<lambda>e. ev_len e < 4294967296) evs" "length tail < 19"
  shows "split_events (concat (map ev_bytes evs) @ tail) = map ev_bytes evs"
  using assms
proof (induction evs)
  case Nil
  then show ?case by (subst split_events.simps) simp
next
  case (Cons e evs)
  then show ?case
    using split_events_cons [of "ev_bytes e"] ev_bytes_len_field [of e] by (simp add: ev_len_def)
qed

text \<open>
  \<open>file_idle\<close>: an open file standing between two events, the rest of which is a list of whole
  events and less than one header.
\<close>

definition file_rest :: "FileDrv DataSource \<Rightarrow> u8 list" where
  "file_rest ds = (case fd_fp (ds_drv ds) of None \<Rightarrow> [] | Some (content, pos) \<Rightarrow> drop pos content)"

definition file_pending :: "FileDrv DataSource \<Rightarrow> u8 list list" where
  "file_pending ds = split_events (file_rest ds)"

definition whole :: "u8 list \<Rightarrow> bool" where
  "whole r \<longleftrightarrow> (\<exists>tail. r = concat (split_events r) @ tail \<and> length tail < 19) \<and>
     (\<forall>e \<in> set (split_events r). length e \<le> INT_MAX)"

definition file_wf :: "FileDrv DataSource \<Rightarrow> bool" where
  "file_wf ds \<longleftrightarrow> fd_fp (ds_drv ds) \<noteq> None \<and> whole (file_rest ds) \<and>
     length (fd_buf (ds_drv ds)) = BL_EVENT_BUF_SIZE \<and> ds_errstr ds = []"

definition file_lent :: "FileDrv DataSource \<Rightarrow> bool" where
  "file_lent ds \<longleftrightarrow> file_wf ds \<and> fd_newbuf (ds_drv ds) \<noteq> Freed"

lemma whole_cons:
  assumes "whole r" "split_events r = e # es"
  shows "\<exists>r'. r = e @ r' \<and> split_events r' = es \<and> whole r' \<and> le_val (take 4 (drop 9 e)) = length e \<and>
    19 \<le> length e \<and> length e \<le> INT_MAX"
proof -
  define n where "n = le_val (take 4 (drop 9 r))"
  have c: "19 \<le> length r" "19 \<le> n" "n \<le> length r" "e = take n r" "es = split_events (drop n r)"
    using assms(2) by (simp_all add: split_events.simps [of r] Let_def n_def split: if_splits)
  have r: "r = e @ drop n r" using c by simp
  have "take 4 (drop 9 e) = take 4 (drop 9 r)" using c(2,4) by (simp add: drop_take min_def)
  then have l: "le_val (take 4 (drop 9 e)) = length e" using c by (simp add: n_def)
  obtain tail where "r = concat (split_events r) @ tail" "length tail < 19"
    using assms(1) by (auto simp add: whole_def)
  then have "r = e @ concat es @ tail" using assms(2) by simp
  with r have "e @ drop n r = e @ concat es @ tail" by (rule trans [OF sym])
  then have "drop n r = concat es @ tail" by (simp only: same_append_eq)
  then have "whole (drop n r)" using \<open>length tail < 19\<close> assms c(5) by (auto simp add: whole_def)
  then show ?thesis using r c l assms by (intro exI [of _ "drop n r"]) (auto simp add: whole_def)
qed

lemma whole_nil:
  assumes "whole r" "split_events r = []"
  shows "length r < 19"
  using assms by (auto simp add: whole_def)

lemma fread1_exact:
  assumes "drop pos content = got @ r" "off + length got \<le> length b"
  shows "fread1 b off (length got) (content, pos) =
    Inr (of_bool (0 < length got), take off b @ got @ drop (off + length got) b,
      (content, pos + length got))"
proof -
  have "take (length got) (drop pos content) = got" by (simp only: assms(1)) simp
  then show ?thesis
    unfolding fread1_def Let_def prod.case using assms(2) by (simp only: poke_def) simp
qed

text \<open>
  The driver after reading one event of length \<open>n\<close>: an event of at most the buffer's size stands
  in the buffer, in front of what the buffer held there before, a longer one in a block of its
  own, which \<open>fd_newbuf\<close> holds and the buffer does not change.
\<close>

definition file_read :: "stream \<Rightarrow> u8 list \<Rightarrow> FileDrv DataSource \<Rightarrow> FileDrv DataSource" where
  "file_read fp e ds = ds\<lparr>ds_drv := (ds_drv ds)\<lparr>fd_fp := Some (fst fp, snd fp + length e),
     fd_buf := (if length e \<le> BL_EVENT_BUF_SIZE then e @ drop (length e) (fd_buf (ds_drv ds))
                else fd_buf (ds_drv ds)),
     fd_newbuf := (if length e \<le> BL_EVENT_BUF_SIZE then Null else Live e)\<rparr>\<rparr>"

lemma getEventFromFile_exact:
  assumes "file_wf ds" "file_pending ds = e # es"
  obtains fp post where "fd_fp (ds_drv ds) = Some fp" "post = drop (length e) (fd_buf (ds_drv ds))"
    "getEventFromFile ds = Inr (Some (e @ post), file_read fp e ds)"
    "BL_EVENT_BUF_SIZE \<le> length (e @ post)" "length (e @ post) \<le> INT_MAX"
    "file_lent (file_read fp e ds)" "file_pending (file_read fp e ds) = es"
proof -
  obtain content pos where fp: "fd_fp (ds_drv ds) = Some (content, pos)"
    using assms(1) by (auto simp add: file_wf_def)
  obtain r' where r: "drop pos content = e @ r'" "split_events r' = es" "whole r'"
      "le_val (take 4 (drop 9 e)) = length e" "19 \<le> length e" "length e \<le> INT_MAX"
    using whole_cons [of "drop pos content" e es] assms fp
    by (auto simp add: file_wf_def file_pending_def file_rest_def)
  define n where "n = length e"
  define big where "big = (n > 4096)"
  define ev where "ev = (if big then replicate n 0 else fd_buf (ds_drv ds))"
  have lev: "length ev = (if big then n else 4096)" "n \<le> length ev"
    using assms(1) by (auto simp add: ev_def big_def file_wf_def)
  have f1: "fread1 (replicate 19 0) 0 19 (content, pos) = Inr (1, take 19 e, (content, pos + 19))"
  proof -
    have "length e \<le> length content - pos" using arg_cong [OF r(1), of length] by simp
    then show ?thesis using r(1,5) by (simp add: fread1_def poke_def)
  qed
  have l: "getUint32 (take 19 e) 9 = Inr (of_nat n)"
    using r(4,5) by (simp add: getUint32_def peek_def drop_take n_def)
  have p1: "poke ev 0 (take 19 e) = Inr (take 19 e @ drop 19 ev)"
    using r(5) lev by (simp add: poke_def n_def)
  have s: "sint (of_nat n :: u32) = int n" using r(6) by (simp add: sint_u32_small n_def)
  have sz: "size_of_int (int n - 19) = n - 19"
  proof -
    have "(int n - 19) mod 2 ^ 64 = int n - 19"
      using r(5,6) by (intro mod_pos_pos_trivial) (simp_all add: n_def INT_MAX_def)
    then show ?thesis by (simp add: size_of_int_def)
  qed
  have d: "drop (pos + 19) content = drop 19 e @ r'"
    using arg_cong [OF r(1), of "drop 19"] r(5) by (simp add: add.commute)
  define block where "block = e @ drop n ev"
  have "take 19 e @ drop 19 e = e" by simp
  then have "\<exists>c. fread1 (take 19 e @ drop 19 ev) 19 (n - 19) (content, pos + 19) =
      Inr (c, block, (content, pos + n))"
    using fread1_exact [OF d, of 19 "take 19 e @ drop 19 ev"] r(5) lev(2)
    by (simp add: n_def block_def flip: append_assoc)
  then obtain c where f2: "fread1 (take 19 e @ drop 19 ev) 19 (n - 19) (content, pos + 19) =
      Inr (c, block, (content, pos + n))" ..
  define ds' where "ds' = file_read (content, pos) e ds"
  have post: "drop n ev = drop n (fd_buf (ds_drv ds))"
    using assms(1) by (simp add: ev_def big_def file_wf_def)
  have ds': "ds' = ds\<lparr>ds_drv := (ds_drv ds)\<lparr>fd_fp := Some (content, pos + n),
      fd_buf := (if big then fd_buf (ds_drv ds) else block),
      fd_newbuf := (if big then Live block else Null)\<rparr>\<rparr>"
    using post by (auto simp add: ds'_def file_read_def block_def big_def n_def ev_def)
  have b: "(int 4096 < int n) = big" "(- (2 ^ 31) \<le> int n - 19) = True" "(1 = (0 :: nat)) = False"
    by (simp_all add: big_def)
  have fb: "fd_buf ((ds_drv ds)\<lparr>fd_fp := x\<rparr>) = fd_buf (ds_drv ds)" for x by simp
  have "getEventFromFile ds = Inr (Some block, ds')"
    by (simp only: getEventFromFile_def Let_def fp deref_def option.case f1 l s b bindE_simps
        prod.case if_False nat_int fb ev_def [symmetric] p1 checkE_simps sz f2)
      (simp add: ds')
  moreover have "length block = length ev" using lev(2) by (simp add: block_def n_def)
  moreover have "drop (pos + n) content = r'"
    using arg_cong [OF r(1), of "drop n"] by (simp add: n_def add.commute)
  then have "file_rest ds' = r'" by (simp add: file_rest_def ds')
  moreover have "file_lent ds'"
    using assms(1) r(3) \<open>file_rest ds' = r'\<close> \<open>length block = length ev\<close> lev
    by (simp add: file_lent_def file_wf_def ds')
  ultimately show thesis
    using lev r(2,6) fp by (intro that [of "(content, pos)" "drop n ev"])
      (auto simp add: file_pending_def big_def n_def INT_MAX_def post [unfolded n_def] block_def ds'_def)
qed

text \<open>Reading one event: the block starts with it and is at least a buffer long.\<close>

lemma getEventFromFile_event:
  assumes "file_wf ds" "file_pending ds = e # es"
  shows "\<exists>post ds'. getEventFromFile ds = Inr (Some (e @ post), ds') \<and>
    BL_EVENT_BUF_SIZE \<le> length (e @ post) \<and> length (e @ post) \<le> INT_MAX \<and>
    file_lent ds' \<and> file_pending ds' = es \<and> ds_view ds' = ds_view ds"
proof -
  have "ds_view (file_read fp e ds) = ds_view ds" for fp by (simp add: file_read_def ds_view_def)
  then show ?thesis by (rule_tac getEventFromFile_exact [OF assms]) blast
qed

lemma freeEvent_file_read:
  "freeEventFromFile (file_read fp e ds) =
     Inr (if length e \<le> BL_EVENT_BUF_SIZE then file_read fp e ds
          else (file_read fp e ds)\<lparr>ds_drv := (ds_drv (file_read fp e ds))\<lparr>fd_newbuf := Freed\<rparr>\<rparr>)"
  by (simp add: file_read_def freeEventFromFile_def)

lemma getEventFromFile_end:
  assumes "file_wf ds" "file_pending ds = []"
  shows "\<exists>ds'. getEventFromFile ds = Inr (None, ds') \<and> file_wf ds' \<and> file_pending ds' = [] \<and>
    ds_view ds' = ds_view ds \<and> ds_errstr ds' = []"
proof -
  obtain content pos where fp: "fd_fp (ds_drv ds) = Some (content, pos)"
    using assms(1) by (auto simp add: file_wf_def)
  have r: "length (drop pos content) < 19"
    using assms fp whole_nil [of "drop pos content"]
    by (simp add: file_wf_def file_pending_def file_rest_def)
  define ds' where "ds' = ds\<lparr>ds_drv := (ds_drv ds)\<lparr>fd_fp := Some (content, pos + (length content - pos))\<rparr>\<rparr>"
  have "getEventFromFile ds = Inr (None, ds')"
    unfolding getEventFromFile_def Let_def fp deref_def option.case
    using r by (simp add: fread1_def poke_def ds'_def)
  moreover have "file_rest ds' = []" by (simp add: file_rest_def ds'_def)
  moreover have "whole []" "split_events [] = []" by (simp_all add: whole_def split_events.simps [of "[]"])
  ultimately show ?thesis
    using assms(1) by (intro exI [of _ ds']) (simp add: file_wf_def file_pending_def ds'_def ds_view_def)
qed

interpretation file_source: data_source "file_ops fs" file_wf file_lent file_pending for fs
proof unfold_locales
  fix ds :: "FileDrv DataSource" and e es
  assume "file_wf ds" "file_pending ds = e # es"
  from getEventFromFile_event [OF this]
  show "\<exists>post ds'. op_getEvent (file_ops fs) ds = Inr (Some (e @ post), ds') \<and>
      BL_EVENT_BUF_SIZE \<le> length (e @ post) \<and> length (e @ post) \<le> INT_MAX \<and> file_lent ds' \<and>
      file_pending ds' = es \<and> ds_view ds' = ds_view ds"
    by (simp add: file_ops_def)
next
  fix ds :: "FileDrv DataSource"
  assume "file_wf ds" "file_pending ds = []"
  from getEventFromFile_end [OF this]
  show "\<exists>ds'. op_getEvent (file_ops fs) ds = Inr (None, ds') \<and> 37 \<notin> set (ds_errstr ds') \<and> length (ds_errstr ds') < BL_ERROR_SIZE"
    by (auto simp add: file_ops_def)
next
  fix ds :: "FileDrv DataSource"
  assume "file_lent ds"
  then show "\<exists>ds'. op_freeEvent (file_ops fs) ds = Inr ds' \<and> file_wf ds' \<and>
      file_pending ds' = file_pending ds \<and> ds_view ds' = ds_view ds"
    by (cases "fd_newbuf (ds_drv ds)")
      (auto simp add: file_ops_def freeEventFromFile_def file_lent_def file_wf_def file_pending_def
        file_rest_def ds_view_def)
qed (simp_all add: file_wf_def file_lent_def file_pending_def file_rest_def)

subsection \<open>URLs\<close>

text \<open>Walking over characters that are not the one looked for, up to the end of the URL.\<close>

lemma file_url_loop_plain:
  assumes "b = pre @ s @ [0]" "Suc url = length pre" "nxt \<notin> set s" "0 \<notin> set s"
  shows "file_url_loop b url s_path nxt path logfile = Inr (path, logfile)"
  using assms
proof (induction s arbitrary: pre url)
  case Nil
  then show ?case by (subst file_url_loop.simps) (simp add: nth_append)
next
  case (Cons c s)
  have "file_url_loop b (Suc url) s_path nxt path logfile = Inr (path, logfile)"
    using Cons.prems by (intro Cons.IH [of "pre @ [c]"]) simp_all
  moreover have "b ! Suc url = c" using Cons.prems(1,2) by (simp add: nth_append)
  ultimately show ?case using Cons.prems
    by (subst file_url_loop.simps) auto
qed

abbreviation file_scheme :: "u8 list" where
  "file_scheme \<equiv> [102, 105, 108, 101, 58, 47, 47]"

text \<open>The loop on \<open>file://\<close> and whatever follows.\<close>

lemma file_url_loop_scheme:
  "file_url_loop (file_scheme @ r) 0 True 58 path logfile =
     (if r = [] then Inl OutOfBounds
      else if hd r = 47 then file_url_loop (file_scheme @ r) 8 False 47 (Some 8) logfile
      else file_url_loop (file_scheme @ r) 7 True 58 path (Some 7))"
proof -
  have 1: "file_url_loop (file_scheme @ r) 0 True 58 path logfile =
      file_url_loop (file_scheme @ r) 3 True 58 path logfile"
    by (subst file_url_loop.simps, simp, subst file_url_loop.simps, simp, subst file_url_loop.simps, simp add: numeral_3_eq_3)
  show ?thesis unfolding 1
    by (subst file_url_loop.simps) (cases r, simp_all add: nthE_def)
qed

text \<open>A relative name: the path and the log file name are what follows \<open>file://\<close>.\<close>

lemma parseFileUrl_relative:
  assumes "p \<noteq> []" "hd p \<noteq> 47" "58 \<notin> set p" "0 \<notin> set p"
  shows "parseFileUrl dsFile (file_scheme @ p) =
    Inr (dsFile\<lparr>ds_url := Some (file_scheme @ p @ [0]),
           ds_drv := (ds_drv dsFile)\<lparr>fd_path := Some 7\<rparr>,
           ds_logfile := (if length p < 256 then p else [])\<rparr>)"
proof -
  have hd: "hd (p @ [0]) = hd p" using assms(1) by simp
  have "file_url_loop (file_scheme @ p @ [0]) 7 True 58 None (Some 7) = Inr (None, Some 7)"
  proof (cases p)
    case (Cons c s)
    then show ?thesis using assms(3,4)
      by (intro file_url_loop_plain [of _ "file_scheme @ [c]" s]) simp_all
  qed (use assms in simp)
  then have l: "file_url_loop (file_scheme @ p @ [0]) 0 True 58 None None = Inr (None, Some 7)"
    using assms(2) hd by (simp only: file_url_loop_scheme) simp
  have c: "cstring_at (file_scheme @ p @ [0]) 7 = Inr p"
    using cstring_at_append [of 7 file_scheme p "[]"] assms(4) by simp
  have d: "fd_path (ds_drv dsFile) = None" "ds_logfile dsFile = []" by (simp_all add: dsFile_def)
  have t: "take 1 (file_scheme @ p) = [102]" by simp
  show ?thesis
    unfolding parseFileUrl_def Let_def t d append_assoc l bindE_simps prod.case option.case c
    by (simp add: dsFile_def)
qed

text \<open>
  An absolute name \<open>file:///p\<close>: whenever the parser returns, the path it stores starts after
  the third slash, so the file that is opened is the relative name \<open>p\<close>.
\<close>

lemma file_url_loop_path:
  "file_url_loop b url False nxt path logfile = Inr (path', logfile') \<Longrightarrow> path' = path"
proof (induction b url "False" nxt path logfile rule: file_url_loop.induct)
  case (1 b url nxt path logfile)
  from "1.prems" show ?case
    by (subst (asm) file_url_loop.simps) (auto split: if_splits intro: "1.hyps")
qed

lemma parseFileUrl_absolute:
  assumes "parseFileUrl dsFile (file_scheme @ 47 # p) = Inr ds" "0 \<notin> set p"
  shows "fd_path (ds_drv ds) = Some 8 \<and>
    bindE (deref (ds_url ds)) (\<lambda>url. cstring_at url 8) = Inr p"
proof -
  have t: "take 1 (file_scheme @ 47 # p) = [102]" by simp
  have d: "fd_path (ds_drv dsFile) = None" by (simp add: dsFile_def)
  have c: "cstring_at (file_scheme @ 47 # p @ [0]) 8 = Inr p"
    using cstring_at_append [of 8 "file_scheme @ [47]" p "[]"] assms(2) by simp
  from assms(1) obtain path logfile where
    l: "file_url_loop (file_scheme @ 47 # p @ [0]) 0 True 58 None None = Inr (path, logfile)"
    unfolding parseFileUrl_def Let_def t d by (auto simp add: bindE_Inr_iff)
  then have "file_url_loop (file_scheme @ 47 # p @ [0]) 8 False 47 (Some 8) None = Inr (path, logfile)"
    using file_url_loop_scheme [of "47 # p @ [0]" None None] by simp
  then have "path = Some 8" by (rule file_url_loop_path)
  with assms(1) l c show ?thesis
    unfolding parseFileUrl_def Let_def t d
    by (auto simp add: bindE_Inr_iff deref_def split: option.splits if_splits)
qed

text \<open>Without another slash the log file name is never set, and the code reads it all the same.\<close>

lemma parseFileUrl_absolute_uninit:
  assumes "p \<noteq> []" "47 \<notin> set p" "0 \<notin> set p"
  shows "parseFileUrl dsFile (file_scheme @ 47 # p) = Inl Uninitialized"
proof -
  have t: "take 1 (file_scheme @ 47 # p) = [102]" by simp
  have d: "fd_path (ds_drv dsFile) = None" by (simp add: dsFile_def)
  have 1: "file_url_loop (file_scheme @ 47 # p @ [0]) 8 False 47 (Some 8) None = Inr (Some 8, None)"
  proof (cases p)
    case (Cons c s)
    then show ?thesis using assms
      by (intro file_url_loop_plain [of _ "file_scheme @ [47, c]" s]) simp_all
  qed (use assms in simp)
  have "file_url_loop (file_scheme @ 47 # p @ [0]) 0 True 58 None None = Inr (Some 8, None)"
    using file_url_loop_scheme [of "47 # p @ [0]" None None] 1 by simp
  then show ?thesis unfolding parseFileUrl_def Let_def t d by simp
qed

subsection \<open>Opening\<close>

text \<open>
  A file that can be opened is accepted whatever its first four bytes are, and a file that
  cannot be opened ends in a read from a NULL stream.
\<close>

lemma openFile_opens:
  assumes "fd_path (ds_drv ds) = Some k" "ds_url ds = Some url" "cstring_at url k = Inr path"
    and "fs path = Some content"
  shows "\<exists>ds'. openFile fs ds = Inr (True, ds') \<and> file_rest ds' = drop 4 content \<and>
    ds_view ds' = ds_view ds \<and> fd_buf (ds_drv ds') = fd_buf (ds_drv ds) \<and>
    ds_errstr ds' = ds_errstr ds \<and> fd_fp (ds_drv ds') \<noteq> None"
proof -
  define got where "got = take 4 content"
  have got: "length got \<le> 4" "drop (length got) content = drop 4 content"
    by (simp_all add: got_def min_def)
  have f: "fread1 (replicate 4 0) 0 4 (content, 0) =
      Inr (of_bool (length got = 4), got @ replicate (4 - length got) 0, (content, length got))"
    using got(1) by (simp add: fread1_def poke_def got_def)
  show ?thesis
    unfolding openFile_def Let_def assms(1,2) deref_def option.case bindE_simps assms(3,4)
      readMagic_def option.map
    using got(2) by (simp add: f file_rest_def ds_view_def)
qed

lemma openFile_missing:
  assumes "fd_path (ds_drv ds) = Some k" "ds_url ds = Some url" "cstring_at url k = Inr path"
    and "fs path = None"
  shows "openFile fs ds = Inl NullDeref"
  using assms by (simp add: openFile_def deref_def readMagic_def)

text \<open>Connecting to a relative file URL gives a data source at the first event.\<close>

lemma file_connect:
  assumes "p \<noteq> []" "hd p \<noteq> 47" "58 \<notin> set p" "0 \<notin> set p"
    and "fs p = Some (magic @ r)" "length magic = 4" "whole r"
  shows "\<exists>ds. connectDataSource initM (dsInitWithFile fs) (file_scheme @ p) pos index sid =
      Inr (Some (file_ops fs), connected index ds) \<and> file_wf ds \<and> file_rest ds = r \<and>
    ds_view ds = (pos, 0, if length p < 256 then p else [])"
proof -
  define ds0 where "ds0 = dsFile\<lparr>ds_url := Some (file_scheme @ p @ [0]),
      ds_drv := (ds_drv dsFile)\<lparr>fd_path := Some 7\<rparr>,
      ds_logfile := (if length p < 256 then p else [])\<rparr>"
  define ds1 where "ds1 = ds0\<lparr>ds_position := pos, ds_index := 0, ds_serverid := sid\<rparr>"
  have i: "dsInitWithFile fs (file_scheme @ p) = Inr (file_ops fs, ds0)"
    using parseFileUrl_relative [OF assms(1-4)] by (simp add: dsInitWithFile_def ds0_def)
  have "cstring_at (file_scheme @ p @ [0]) 7 = Inr p"
    using cstring_at_append [of 7 file_scheme p "[]"] assms(4) by simp
  then obtain ds where o: "openFile fs ds1 = Inr (True, ds)" "file_rest ds = r"
      "ds_view ds = ds_view ds1" "fd_buf (ds_drv ds) = fd_buf (ds_drv ds1)"
      "ds_errstr ds = ds_errstr ds1" "fd_fp (ds_drv ds) \<noteq> None"
    using openFile_opens [of ds1 7 "file_scheme @ p @ [0]" p fs "magic @ r"] assms(5,6)
    by (auto simp add: ds1_def ds0_def)
  have u: "url_prefix [109, 121, 115, 113, 108] (file_scheme @ p) = False"
    "url_prefix [102, 105, 108, 101] (file_scheme @ p) = True" by (simp_all add: url_prefix_def)
  have "connectDataSource initM (dsInitWithFile fs) (file_scheme @ p) pos index sid =
      Inr (Some (file_ops fs), connected index ds)"
    unfolding connectDataSource_def Let_def u if_False if_True option.case i bindE_simps prod.case
    using o(1) by (simp add: file_ops_def connected_def ds1_def new_client_def)
  moreover have "file_wf ds" using o assms(7)
    by (simp add: file_wf_def ds1_def ds0_def dsFile_def)
  ultimately show ?thesis using o(2,3) by (auto simp add: ds_view_def ds1_def ds0_def)
qed

text \<open>A client that is connected to a file with a log has the events of the log before it.\<close>

lemma file_connect_log:
  assumes "p \<noteq> []" "hd p \<noteq> 47" "58 \<notin> set p" "0 \<notin> set p" "length p < 256"
    and "fs p = Some (magic @ concat (map ev_bytes evs) @ tail)" "length magic = 4" "length tail < 19"
    and "list_all (\<lambda>e. ev_len e \<le> INT_MAX) evs"
  shows "\<exists>ds. connectDataSource initM (dsInitWithFile fs) (file_scheme @ p) pos index sid =
      Inr (Some (file_ops fs), connected index ds) \<and> file_wf ds \<and>
    file_pending ds = map ev_bytes evs \<and> ds_view ds = (pos, 0, p) \<and> ds_position ds = pos"
proof -
  define r where "r = concat (map ev_bytes evs) @ tail"
  have small: "list_all (\<lambda>e. ev_len e < 4294967296) evs"
    using assms(9) by (auto simp add: list_all_iff INT_MAX_def)
  have s: "split_events r = map ev_bytes evs"
    unfolding r_def using split_events_log [OF small assms(8)] .
  have "whole r"
    unfolding whole_def s using assms(8,9) by (auto simp add: r_def list_all_iff)
  with file_connect [of p fs magic r initM pos index sid] assms(1-7) s show ?thesis
    by (auto simp add: r_def [symmetric] file_pending_def ds_view_def)
qed

end
