(* ===== verification/EventProps.thy ===== *)
theory EventProps
  imports ClientSpec
begin

text \<open>
  The properties of the event parser \<open>src/src/logevent.c\<close>, each with an instance on a small
  table and event.
\<close>

subsection \<open>A table, its columns and an event, for the witnesses\<close>

definition demo_cols :: "column list" where
  "demo_cols = [(BL_MYSQL_TYPE_LONG, 0), (BL_MYSQL_TYPE_VARCHAR, 20)]"

definition demo_binlog :: Binlog where
  "demo_binlog = empty_binlog\<lparr>bl_hdrlen := 19, bl_table := empty_table\<lparr>t_tableid := 5,
     t_nfields := 2, t_types := Some [3, 15], t_meta := Some [0, 20]\<rparr>\<rparr>"

definition demo_changes :: "(row_val \<times> row_val) list" where
  "demo_changes = [([Some (VLong 7), None], [Some (VLong 8), Some (VVarchar 20 [97, 98])])]"

lemma demo_changes_ok: "list_all (change_ok (bl_table demo_binlog) upd 2) demo_changes"
  by (simp add: demo_changes_def demo_binlog_def change_ok_def row_ok_def fits_def numeral_2_eq_2
      All_less_Suc)

lemma demo_images: "image_ok [True, True]" "length demo_changes \<le> 2 ^ 30"
  by (simp_all add: image_ok_def demo_changes_def)

lemma demo_length: "length (rows_event 1 24 2 100 0 5 [0, 0] True [True, True] [True, True] demo_changes @ [1]) = 44"
  by (simp add: rows_event_def rows_body_def Let_def demo_changes_def change_bytes_def image_bytes_def
      present_def val_bytes_def len_prefixed_def lenenc_def)

subsection \<open>Properties of the event parser\<close>

text \<open>C8: the row images of a write, update or delete event decode to the rows they encode. The
  events are laid out as the server writes them: bitmaps of the columns that are present, with
  their unused bits all 0 or all 1, and in front of each image one null bit for each present
  column, the unused bits of the last byte 1. For every table the parser has seen and every
  list of at most \<open>2 ^ 30\<close> changes whose values fit its columns, when the columns
  present in the images are all columns of the table, or a prefix of them whose null bits need
  as many bytes, \<open>parseRowsEvent\<close> returns one row per change, the new image in
  \<open>rows\<close>, the old image in \<open>rowsold\<close> for an update, with a NULL cell
  for a NULL or absent column, and the counters and header fields of the event. The values are
  those of \<open>value2Cell_decodes\<close> that are not misread; other partial images are
  misread.\<close>

theorem parseRowsEvent_decodes:
  assumes "bl_hdrlen bl = 19" "t_tableid (bl_table bl) = of_nat tid" "tid < 281474976710656"
    and "t_nfields (bl_table bl) = of_nat (length ps)" "0 < length ps" "length ps + 7 \<le> INT_MAX"
    and "length pu = length ps" "length res = 2"
    and "list_all (change_ok (bl_table bl) (type = BL_UPDATE_ROWS_EVENT) (length ps)) cs" "length cs \<le> 2 ^ 30"
    and "image_ok ps" "type = BL_UPDATE_ROWS_EVENT \<Longrightarrow> image_ok pu"
    and "ev = rows_event ts type sid nextpos flags tid res fill ps pu cs @ post" "length ev \<le> INT_MAX"
  shows "parseRowsEvent bl re ev =
    Inr (re\<lparr>re_ts := ts, re_type := type, re_nextpos := nextpos, re_serverid := sid,
            re_tableid := of_nat tid,
            re_rows := new_rows (type = BL_UPDATE_ROWS_EVENT) ps pu cs,
            re_rowsold := (if type = BL_UPDATE_ROWS_EVENT
                           then Some (old_rows True ps cs) else None),
            re_nrows := length cs, re_nfields := of_nat (length ps)\<rparr>)"
  using assms by (rule parseRowsEvent_rows)

lemma demo_new_rows:
  "new_rows True [True, True] [True, True] demo_changes =
     [[col_cell (VLong 8), col_cell (VVarchar 20 [97, 98])]]"
  "old_rows True [True, True] demo_changes = [[col_cell (VLong 7), null_cell]]"
  by (simp_all add: demo_changes_def new_rows_def old_rows_def row_cells_def val_cell_def)

theorem parseRowsEvent_decodes_witness:
  "parseRowsEvent demo_binlog rowsev_uninit
      (rows_event 1 24 2 100 0 5 [0, 0] True [True, True] [True, True] demo_changes @ [1]) =
    Inr (rowsev_uninit\<lparr>re_ts := 1, re_type := 24, re_nextpos := 100, re_serverid := 2,
       re_tableid := of_nat 5,
       re_rows := [[col_cell (VLong 8), col_cell (VVarchar 20 [97, 98])]],
       re_rowsold := Some [[col_cell (VLong 7), null_cell]],
       re_nrows := length demo_changes, re_nfields := of_nat (length [True, True])\<rparr>)"
proof -
  have u: "((24 :: u8) = BL_UPDATE_ROWS_EVENT) = True" by simp
  have b: "bl_hdrlen demo_binlog = 19" "t_tableid (bl_table demo_binlog) = of_nat 5"
    "t_nfields (bl_table demo_binlog) = of_nat (length [True, True])"
    by (simp_all add: demo_binlog_def)
  show ?thesis
    using parseRowsEvent_decodes [OF b(1,2) _ b(3), of "[True, True]" "[0, 0]" 24 demo_changes
        "rows_event 1 24 2 100 0 5 [0, 0] True [True, True] [True, True] demo_changes @ [1]" 1 2 100 0
        True "[1]" rowsev_uninit, unfolded u demo_new_rows if_True] demo_changes_ok [of True] demo_length demo_images
    by (simp add: INT_MAX_def numeral_2_eq_2)
qed

text \<open>C9: what a cell decodes to. The values are signed integers of 8, 16, 24, 32 and 64 bits,
  TIMESTAMP, DATETIME and TIME in their packed forms without fractions, DATE and NEWDATE,
  YEAR, ENUM of one byte, BLOB of the four length widths, CHAR, VARCHAR, BIT, FLOAT, DOUBLE
  and DECIMAL, each with every value its column can hold. With the column's type and metadata
  \<open>value2Cell\<close> returns the cell of the column's type with that value, temporal
  values and decimals as text, NEWDATE with colons, and moves the cursor past exactly the
  bytes of the value. Two kinds of values are misread, and the cell they give is stated: a
  negative TIME is shown as \<open>2 ^ 24\<close> minus the number it is packed into, and the
  year 0000 as 1900.\<close>

theorem value2Cell_decodes:
  assumes "col_ok v" "at_bytes ec (col_bytes v)"
  shows "value2Cell ec (field_type_code (col_type v)) (ucast (col_meta v)) =
    Inr (decoded_cell v, skip (length (col_bytes v)) ec)"
  by (rule value2Cell_col [OF assms])

lemma demo_negative_time:
  "le_bytes 3 16777215 = [255, 255, 255]"
  "misread_cell (VTime True 0 0 1) =
     string_cell BL_MYSQL_TYPE_TIME [39, 49, 54, 55, 55, 58, 55, 50, 58, 49, 53, 39]"
proof -
  have n: "(2 :: nat) = Suc (Suc 0)" "(3 :: nat) = Suc (Suc (Suc 0))" "(4 :: nat) = Suc (Suc (Suc (Suc 0)))"
    by simp_all
  show "le_bytes 3 16777215 = [255, 255, 255]" unfolding n le_bytes.simps by simp
  have "padded 4 1677 = [49, 54, 55, 55]" "padded 2 72 = [55, 50]" "padded 2 15 = [49, 53]"
    unfolding n padded.simps by simp_all
  then show "misread_cell (VTime True 0 0 1) =
     string_cell BL_MYSQL_TYPE_TIME [39, 49, 54, 55, 55, 58, 55, 50, 58, 49, 53, 39]"
    by (simp add: time_num_def Let_def)
qed

theorem value2Cell_decodes_witness:
  "value2Cell \<lparr>ec_ev = [9, 2, 97, 98, 9], ec_cur = 1\<rparr> 15 20 =
     Inr (mk_cell STRING BL_MYSQL_TYPE_VARCHAR 2 [97, 98, 0], \<lparr>ec_ev = [9, 2, 97, 98, 9], ec_cur = 4\<rparr>) \<and>
   value2Cell \<lparr>ec_ev = [255, 255, 255], ec_cur = 0\<rparr> 11 0 =
     Inr (string_cell BL_MYSQL_TYPE_TIME [39, 49, 54, 55, 55, 58, 55, 50, 58, 49, 53, 39],
          \<lparr>ec_ev = [255, 255, 255], ec_cur = 3\<rparr>)"
proof
  show "value2Cell \<lparr>ec_ev = [9, 2, 97, 98, 9], ec_cur = 1\<rparr> 15 20 =
     Inr (mk_cell STRING BL_MYSQL_TYPE_VARCHAR 2 [97, 98, 0], \<lparr>ec_ev = [9, 2, 97, 98, 9], ec_cur = 4\<rparr>)"
    using value2Cell_decodes [of "VVarchar 20 [97, 98]" "\<lparr>ec_ev = [9, 2, 97, 98, 9], ec_cur = 1\<rparr>"]
    by (simp add: at_bytes_def len_prefixed_def skip_def INT_MAX_def mk_cell_def decoded_cell_def)
  show "value2Cell \<lparr>ec_ev = [255, 255, 255], ec_cur = 0\<rparr> 11 0 =
     Inr (string_cell BL_MYSQL_TYPE_TIME [39, 49, 54, 55, 55, 58, 55, 50, 58, 49, 53, 39],
          \<lparr>ec_ev = [255, 255, 255], ec_cur = 3\<rparr>)"
    using value2Cell_decodes [of "VTime True 0 0 1" "\<lparr>ec_ev = [255, 255, 255], ec_cur = 0\<rparr>"]
    by (simp add: at_bytes_def demo_negative_time skip_def INT_MAX_def decoded_cell_def time_num_def
        del: misread_cell.simps One_nat_def)
qed

text \<open>C10: what \<open>parseTableMapEvent\<close> reads of a well-formed table map event: table
  id, database and table name, number of columns, types and metadata are those of the event.
  The code skips \<open>nfields\<close> bytes over the metadata instead of its length, and
  then copies \<open>nfields\<close> bytes of null flags instead of a bitmap, so the null
  flags are the bytes at that place and an event with too few bytes behind the types is read
  out of bounds.\<close>

theorem parseTableMapEvent_decodes:
  assumes "bl_hdrlen bl = 19" "tid < 281474976710656" "length res = 2"
    and "name_ok db" "name_ok name" "list_all (\<lambda>(t, m). meta_ok t m) cols"
    and "ev = hdr_bytes ts type sid evlen nextpos flags @
        table_map_body tid res db name cols nullable @ post"
    and "length ev \<le> INT_MAX" "evlen < 4294967296"
    and "tail = cols_meta cols @ bitmap nullable @ post"
  shows "parseTableMapEvent bl ev =
    (if 2 * length cols \<le> length tail
     then Inr (bl\<lparr>bl_table := table_of ts sid evlen nextpos tid db name cols
                 (take (length cols) (drop (length cols) tail))\<rparr>)
     else Inl OutOfBounds)"
  by (rule parseTableMapEvent_general [OF assms])

lemma demo_table:
  "cols_types demo_cols = [3, 15]" "cols_meta demo_cols = [20, 0]" "bitmap [False, True] = [2]"
  "list_all (\<lambda>(t, m). meta_ok t m) demo_cols" "length demo_cols = 2"
  "lenenc 2 = [2]"
  by code_simp+

theorem parseTableMapEvent_decodes_witness:
  "parseTableMapEvent (empty_binlog\<lparr>bl_hdrlen := 19\<rparr>)
     (hdr_bytes 1 19 2 44 100 0 @ table_map_body 5 [0, 0] [100] [116] demo_cols [False, True] @ [8]) =
   Inr (empty_binlog\<lparr>bl_hdrlen := 19, bl_table := table_of 1 2 44 100 5 [100] [116] demo_cols [2, 8]\<rparr>)"
proof -
  have "length (hdr_bytes 1 19 2 44 100 0 @
      table_map_body 5 [0, 0] [100] [116] demo_cols [False, True] @ [8]) \<le> INT_MAX"
    using length_lenenc_le [of "Suc (Suc 0)"]
    by (simp add: table_map_body_def name_bytes_def demo_table INT_MAX_def)
  then show ?thesis
    using parseTableMapEvent_decodes [of "empty_binlog\<lparr>bl_hdrlen := 19\<rparr>" 5 "[0, 0]" "[100]" "[116]"
        demo_cols "hdr_bytes 1 19 2 44 100 0 @ table_map_body 5 [0, 0] [100] [116] demo_cols [False, True] @ [8]"
        1 19 2 44 100 0 "[False, True]" "[8]" "[20, 0, 2, 8]"]
    by (simp add: name_ok_def demo_table)
qed

text \<open>C15: every rows event that is parsed, from any bytes, is well formed: as many rows as
  counted, each with as many cells as the table has columns, the old images present exactly
  for an update and of the same shape, and column count and table id are those of the current
  table.\<close>

theorem parseRowsEvent_wf:
  assumes "parseRowsEvent bl re ev = Inr re'"
  shows "wf_rows re' \<and> re_nfields re' = t_nfields (bl_table bl) \<and>
    re_tableid re' = t_tableid (bl_table bl)"
  by (rule parseRowsEvent_shape [OF assms])

lemma demo_rows_event:
  "parseRowsEvent demo_binlog rowsev_uninit
      (rows_event 1 24 2 100 0 5 [0, 0] True [True, True] [True, True] demo_changes @ [1]) =
    Inr (rowsev_uninit\<lparr>re_ts := 1, re_type := 24, re_nextpos := 100, re_serverid := 2,
       re_tableid := 5,
       re_rows := [[col_cell (VLong 8), col_cell (VVarchar 20 [97, 98])]],
       re_rowsold := Some [[col_cell (VLong 7), null_cell]],
       re_nrows := 1, re_nfields := 2\<rparr>)"
proof -
  have u: "((24 :: u8) = BL_UPDATE_ROWS_EVENT) = True" by simp
  have b: "bl_hdrlen demo_binlog = 19" "t_tableid (bl_table demo_binlog) = of_nat 5"
    "t_nfields (bl_table demo_binlog) = of_nat (length [True, True])"
    by (simp_all add: demo_binlog_def)
  have n: "length demo_changes = 1" by (simp add: demo_changes_def)
  show ?thesis
    using parseRowsEvent_rows [OF b(1,2) _ b(3), of "[True, True]" "[0, 0]" 24 demo_changes
        "rows_event 1 24 2 100 0 5 [0, 0] True [True, True] [True, True] demo_changes @ [1]" 1 2 100 0
        True "[1]" rowsev_uninit, unfolded u demo_new_rows if_True] demo_changes_ok [of True] demo_length demo_images n
    by (simp add: INT_MAX_def numeral_2_eq_2)
qed

theorem parseRowsEvent_wf_witness:
  "wf_rows (rowsev_uninit\<lparr>re_ts := 1, re_type := 24, re_nextpos := 100, re_serverid := 2,
       re_tableid := 5,
       re_rows := [[col_cell (VLong 8), col_cell (VVarchar 20 [97, 98])]],
       re_rowsold := Some [[col_cell (VLong 7), null_cell]],
       re_nrows := 1, re_nfields := 2\<rparr>)"
  using parseRowsEvent_wf [OF demo_rows_event] by simp

text \<open>C14: the row loop of \<open>parseRowsEvent\<close> ends on every event, well-formed or not,
  and for every table: the run returns or faults within the fuel it is given. Every pass reads
  the null bitmap, so the length of the event is enough when the bitmap has a byte; when it
  has none, the \<open>int\<close> that counts the allocated rows overflows after \<open>2 ^
  30\<close> of them.\<close>

theorem parseRowsEvent_terminates: "parseRowsEvent bl re ev \<noteq> Inl OutOfFuel"
  using parseRowsEvent_ends [of bl re ev] by (simp add: ends_def)

text \<open>C29: a rows event for a table of zero columns with bytes left is never parsed: neither the
  bitmap nor the images move the cursor, so the loop adds \<open>2 ^ 30\<close> empty rows
  whatever the event holds, one for each unit of fuel, and then the next doubling of the
  \<open>int\<close> \<open>totalrows\<close> overflows. Allocation does not fail in the
  model.\<close>

theorem rows_loop_zero_columns:
  assumes "ec_cur ec < evlen" "ec_cur ec \<le> INT_MAX"
  shows "rows_loop fuel tbl evlen upd 0 0 isused isused_u 8 [] [] ec =
    Inl (if fuel \<le> 2 ^ 30 then OutOfFuel else IntOverflow)"
  using rows_loop_zero_fields [OF assms cap_ok_8, of "[]"] by simp

theorem rows_loop_zero_columns_witness:
  "rows_loop 1000 empty_table 30 False 0 0 28 28 8 [] [] \<lparr>ec_ev = replicate 30 0, ec_cur = 28\<rparr> =
     Inl OutOfFuel \<and>
   rows_loop 1073741825 empty_table 30 False 0 0 28 28 8 [] [] \<lparr>ec_ev = replicate 30 0, ec_cur = 28\<rparr> =
     Inl IntOverflow"
  using rows_loop_zero_columns [of "\<lparr>ec_ev = replicate 30 0, ec_cur = 28\<rparr>" 30 1000 empty_table False 28 28]
    rows_loop_zero_columns [of "\<lparr>ec_ev = replicate 30 0, ec_cur = 28\<rparr>" 30 1073741825 empty_table False 28 28]
  by (simp add: INT_MAX_def del: rows_loop.simps)

text \<open>C18: MySQL's length-encoded integers: for every 64-bit number, \<open>decodeint\<close> on
  its encoding at any offset of an event returns the number and advances the cursor by the
  length of the encoding.\<close>

theorem decodeint_decodes:
  assumes "ev = pre @ lenenc v @ post" "unat cur = length pre" "length ev < 4294967296"
    and "v < 18446744073709551616"
  shows "decodeint ev cur = Inr (of_nat v, cur + of_nat (length (lenenc v)))"
  by (rule decodeint_at [OF assms])

lemma le_bytes_2: "le_bytes 2 v = [of_nat v, of_nat (v div 256)]"
  by (simp add: numeral_2_eq_2)

lemma lenenc_300: "lenenc 300 = [252, 44, 1]"
  by (simp add: lenenc_def le_bytes_2)

theorem decodeint_decodes_witness:
  "decodeint [7, 252, 44, 1, 9] 1 = Inr (300, 4)"
  using decodeint_decodes [of "[7, 252, 44, 1, 9]" "[7]" 300 "[9]" 1] lenenc_300 by simp

text \<open>C28: a format description event is decoded into version, header length, server id and server
  string; the array of post-header lengths is always copied as 29 bytes, so an event with
  fewer types takes bytes from behind the event (or out of the buffer), and one with more
  fails the assertion.\<close>

theorem parseFDE_decodes:
  assumes "length server = 50" "length posthdr < 2147483572" "evlen = 76 + length posthdr"
  shows "parseFDE bl (hdr_bytes ts type sid evlen nextpos flags @
           fde_body ver server created hdrlen posthdr @ post) =
    (if length posthdr > 29 then Inl AssertFailed
     else if length (posthdr @ post) < 29 then Inl OutOfBounds
     else Inr (bl\<lparr>bl_blver := ucast ver, bl_hdrlen := hdrlen, bl_masterid := sid,
                  bl_server := server, bl_posthdr := take 29 (posthdr @ post)\<rparr>))"
  by (rule parseFDE_general [OF assms])

theorem parseFDE_decodes_witness:
  "parseFDE empty_binlog (hdr_bytes 1 15 2 103 103 0 @
      fde_body 4 (replicate 50 0) 0 19 (replicate 27 8) @ [7, 7, 7]) =
    Inr (empty_binlog\<lparr>bl_blver := 4, bl_hdrlen := 19, bl_masterid := 2,
      bl_server := replicate 50 0, bl_posthdr := replicate 27 8 @ [7, 7]\<rparr>)"
  using parseFDE_decodes [of "replicate 50 0" "replicate 27 8" 103 empty_binlog 1 15 2 103 0 4 0 19 "[7, 7, 7]"]
  by simp

text \<open>A rotate event after the format description: position and file name of the next log are
  returned, and a name of 256 bytes or more overflows the 256-byte field.\<close>

lemma parseRotateEvent_decodes:
  assumes "bl_hdrlen bl = 19" "pos < 18446744073709551616"
    and "evlen = 27 + length name" "evlen < 4294967296"
  shows "parseRotateEvent bl (hdr_bytes ts type sid evlen nextpos flags @ le_bytes 8 pos @ name @ post) =
    (if length name < 256 then Inr \<lparr>ro_position = of_nat pos, ro_fileName = name @ [0]\<rparr>
     else Inl BufferOverflow)"
  by (rule parseRotateEvent_general [OF assms])

lemma parseRotateEvent_decodes_example:
  "parseRotateEvent demo_binlog (hdr_bytes 1 4 2 29 0 0 @ le_bytes 8 4 @ [98, 49] @ []) =
     Inr \<lparr>ro_position = 4, ro_fileName = [98, 49, 0]\<rparr>"
  using parseRotateEvent_decodes [of demo_binlog 4 29 "[98, 49]" 1 4 2 0 0 "[]"]
  by (simp add: demo_binlog_def)

text \<open>The fake rotate event a server sends before any format description is parsed with
  header length 0: position and file name are read from the header itself.\<close>

theorem parseRotateEvent_before_fde:
  assumes "bl_hdrlen bl = 0" "length ev = evlen" "19 \<le> evlen" "evlen < 264"
    and "getUint32 ev 9 = Inr (of_nat evlen)"
  shows "parseRotateEvent bl ev =
    Inr \<lparr>ro_position = of_nat (le_val (take 8 ev)), ro_fileName = drop 8 ev @ [0]\<rparr>"
  by (rule parseRotateEvent_no_fde [OF assms])

theorem parseRotateEvent_before_fde_witness:
  "parseRotateEvent empty_binlog
      ([0, 0, 0, 0, 4, 1, 0, 0, 0, 29, 0, 0, 0, 0, 0, 0, 0, 32, 0] @ [4, 0, 0, 0, 0, 0, 0, 0] @ [98, 49]) =
    Inr \<lparr>ro_position = 1116691496960,
         ro_fileName = [0, 29, 0, 0, 0, 0, 0, 0, 0, 32, 0, 4, 0, 0, 0, 0, 0, 0, 0, 98, 49, 0]\<rparr>"
  using parseRotateEvent_before_fde [of empty_binlog
      "[0, 0, 0, 0, 4, 1, 0, 0, 0, 29, 0, 0, 0, 0, 0, 0, 0, 32, 0] @ [4, 0, 0, 0, 0, 0, 0, 0] @ [98, 49]" 29]
  by (simp add: empty_binlog_def getUint32_def peek_def)

text \<open>C19: \<open>decodeMetadata\<close> recovers the metadata of every column from the packed
  block of a table map event, whose entries are one, two or no bytes wide and big or little
  endian depending on the column type.\<close>

theorem decodeMetadata_decodes:
  assumes "list_all (\<lambda>(t, m). meta_ok t m) cols" "off = length pre"
  shows "decodeMetadata (pre @ cols_meta cols @ post) (cols_types cols) len off = Inr (map snd cols)"
  by (rule decodeMetadata_cols [OF assms])

theorem decodeMetadata_decodes_witness:
  "decodeMetadata ([1] @ cols_meta demo_cols @ [9]) (cols_types demo_cols) 2 1 = Inr [0, 20]"
  using decodeMetadata_decodes [of demo_cols 1 "[1]" "[9]" 2] demo_table(4) by (simp add: demo_cols_def)

text \<open>\<open>value2Cell\<close> never moves the cursor back and never changes the event, for
  every column type, metadata and content.\<close>

lemma value2Cell_advances:
  assumes "value2Cell ec type meta = Inr (c, ec')"
  shows "ec_ev ec' = ec_ev ec \<and> ec_cur ec \<le> ec_cur ec'"
  using forward_D [OF value2Cell_forward assms] .

lemma demo_long: "le_bytes 4 (unat (67305985 :: u32)) = [1, 2, 3, 4]"
proof -
  have "(4 :: nat) = Suc (Suc (Suc (Suc 0)))" by simp
  then have "le_bytes 4 67305985 = [of_nat 67305985, of_nat (67305985 div 256),
      of_nat (67305985 div 256 div 256), of_nat (67305985 div 256 div 256 div 256)]"
    by (simp only: le_bytes.simps)
  then show ?thesis by simp
qed

lemma value2Cell_advances_example:
  "ec_ev (skip 4 \<lparr>ec_ev = [1, 2, 3, 4], ec_cur = 0\<rparr>) = [1, 2, 3, 4]"
proof -
  have "value2Cell \<lparr>ec_ev = [1, 2, 3, 4], ec_cur = 0\<rparr> 3 0 =
      Inr (mk_cell INT32 BL_MYSQL_TYPE_LONG 4 [1, 2, 3, 4], skip 4 \<lparr>ec_ev = [1, 2, 3, 4], ec_cur = 0\<rparr>)"
    using value2Cell_col [of "VLong 67305985" "\<lparr>ec_ev = [1, 2, 3, 4], ec_cur = 0\<rparr>"] demo_long
    by (simp add: at_bytes_def INT_MAX_def decoded_cell_def)
  from value2Cell_advances [OF this] show ?thesis by simp
qed

text \<open>C30: every enum column stored in two bytes overflows the heap: the cell allocates one byte
  and stores four.\<close>

theorem value2Cell_enum2_overflows:
  assumes "at_bytes ec [a, b]"
  shows "value2Cell ec 254 (ucast (meta2 247 2)) = Inl BufferOverflow"
proof -
  have "value2Cell ec 254 (ucast (meta2 247 2)) = cell_ENUM (ucast (meta2 247 2)) ec"
    by (rule value2Cell_string(2), rule string_real_type_enum) simp
  moreover have "(ucast (meta2 247 2) :: u32) AND 255 = 2" by (subst meta2_lo) simp_all
  ultimately show ?thesis using assms
    by (simp add: cell_ENUM_def read_at malloc_copy_def poke_def)
qed

theorem value2Cell_enum2_overflows_witness:
  "value2Cell \<lparr>ec_ev = [0, 1, 2], ec_cur = 1\<rparr> 254 (ucast (meta2 247 2)) = Inl BufferOverflow"
  by (rule value2Cell_enum2_overflows [of _ 1 2]) (simp add: at_bytes_def INT_MAX_def)

lemma string_real_type_set: "string_real_type 254 (ucast (meta2 248 lo)) = (248, of_nat lo)"
  if "lo < 256"
proof -
  have "(ucast (meta2 248 lo) :: u32) \<ge> 256"
    using that unat_meta2 [of 248 lo] by (simp add: word_le_nat_alt)
  moreover have "(ucast (of_nat lo :: u8) :: u32) = of_nat lo"
    using that by (simp add: word_unat_eq_iff unat_of_nat)
  ultimately show ?thesis
    using that by (simp add: string_real_type_def meta2_hi meta2_lo Let_def ucast_u32_of_nat_u8)
qed

text \<open>A set column yields the first bytes of the event header instead of its value, although
  the cursor advances correctly.\<close>

theorem value2Cell_set_reads_header:
  assumes "at_bytes ec bs" "length bs \<le> 8"
  shows "value2Cell ec 254 (ucast (meta2 248 (length bs))) =
    Inr (mk_cell BINARY BL_MYSQL_TYPE_SET (length bs)
           (take (length bs) (ec_ev ec) @ replicate (32 - length bs) 0), skip (length bs) ec)"
proof -
  have n: "length bs < 256" using assms(2) by simp
  have "value2Cell ec 254 (ucast (meta2 248 (length bs))) = cell_SET (ucast (meta2 248 (length bs))) ec"
    by (rule value2Cell_string(3), rule string_real_type_set [OF n])
  moreover have "unat ((ucast (meta2 248 (length bs)) :: u32) AND 255) = length bs"
    using n by (simp add: meta2_lo unat_of_nat)
  moreover have "length bs \<le> length (ec_ev ec)" using assms(1) by (simp add: at_bytes_def)
  ultimately show ?thesis using assms
    by (simp add: cell_SET_def malloc_copy_def poke_def peek_def advance_at Let_def)
qed

theorem value2Cell_set_reads_header_witness:
  "value2Cell \<lparr>ec_ev = [11, 22, 33, 44], ec_cur = 2\<rparr> 254 (ucast (meta2 248 2)) =
    Inr (mk_cell BINARY BL_MYSQL_TYPE_SET 2 ([11, 22] @ replicate 30 0), \<lparr>ec_ev = [11, 22, 33, 44], ec_cur = 4\<rparr>)"
  using value2Cell_set_reads_header [of "\<lparr>ec_ev = [11, 22, 33, 44], ec_cur = 2\<rparr>" "[33, 44]"]
  by (simp add: at_bytes_def INT_MAX_def skip_def mk_cell_def numeral_2_eq_2)

end
