(* ===== verification/PrintProps.thy ===== *)
theory PrintProps
  imports PrintSafety FileSource EventProps
begin

text \<open>
  What a user sees: the text of every column value, and the properties of the printing side.
\<close>

subsection \<open>The text of a column value\<close>

fun val_text :: "col_val \<Rightarrow> u8 list" where
  "val_text (VLong v) = int_digits (sint v) @ [9]"
| "val_text (VTiny v) = int_digits (sint v)"
| "val_text (VShort v) = int_digits (sint v)"
| "val_text (VLongLong v) = int_digits (sint v) @ [9]"
| "val_text (VInt24 i) = int_digits i @ [9]"
| "val_text (VTimestamp v) = int_digits (sint v) @ [9]"
| "val_text (VDatetime Y M D h m s) =
     padded 4 Y @ [45] @ padded 2 M @ [45] @ padded 2 D @ [32] @
     padded 2 h @ [58] @ padded 2 m @ [58] @ padded 2 s @ [9]"
| "val_text (VTime neg h m s) =
     [39] @ (if neg then [45] else []) @ padded (if h < 100 then 2 else 3) h @ [58] @ padded 2 m @ [58] @ padded 2 s @ [39, 9]"
| "val_text (VNewDate y m d) = padded 4 y @ [58] @ padded 2 m @ [58] @ padded 2 d @ [9]"
| "val_text (VDate y m d) = padded 4 y @ [45] @ padded 2 m @ [45] @ padded 2 d @ [9]"
| "val_text (VYear y) = padded 4 y @ [9]"
| "val_text (VEnum v) = int_digits (int (unat v)) @ [9]"
| "val_text (VBlob k bs) = [66, 73, 78, 65, 82, 89, 9]"
| "val_text (VVarchar n bs) = takeWhile (\<lambda>c. c \<noteq> 0) bs @ [9]"
| "val_text (VChar n bs) = takeWhile (\<lambda>c. c \<noteq> 0) bs @ [9]"
| "val_text (VBit _ _ bs) = [66, 73, 78, 65, 82, 89, 9]"
| "val_text (VFloat bs) = fmt_f 8 23 (le_val bs) @ [9]"
| "val_text (VDouble bs) = fmt_f 11 52 (le_val bs) @ [9]"
| "val_text (VDecimal p s neg n) = dec_text neg s n @ [9]"

lemma takeWhile_text: "0 \<notin> set s \<Longrightarrow> takeWhile (\<lambda>c. c \<noteq> (0 :: u8)) s = s"
  by (rule takeWhile_eq_all_conv [THEN iffD2]) auto

lemma printCell_string:
  "printCell (string_cell mt s) = Inr (takeWhile (\<lambda>c. c \<noteq> 0) s @ [9])"
  by (simp add: printCell_def string_cell_def mk_cell_def deref_def cstring_at_ends)

lemma sint_small_u32:
  assumes "- (2 ^ 31) \<le> i" "i < 2 ^ 31"
  shows "sint (of_int i :: u32) = i"
  using assms by (simp add: signed_of_int signed_take_bit_int_eq_self)

lemma le4_of_int: "of_nat (le_val (le_bytes 4 (nat (i mod 4294967296)))) = (of_int i :: u32)"
proof -
  have "nat (i mod 4294967296) < 256 ^ 4" by (simp add: nat_less_iff)
  then have "le_val (le_bytes 4 (nat (i mod 4294967296))) = nat (i mod 4294967296)"
    by (rule le_val_le_bytes_id)
  then have "of_nat (le_val (le_bytes 4 (nat (i mod 4294967296)))) = (of_int (i mod 2 ^ 32) :: u32)"
    by simp
  also have "\<dots> = of_int i" by (rule word_of_int_eq_iff [THEN iffD2]) (simp add: take_bit_eq_mod)
  finally show ?thesis .
qed

lemma printCell_int32:
  assumes "- (2 ^ 31) \<le> i" "i < 2 ^ 31" "v = le_bytes 4 (nat (i mod 4294967296))"
  shows "printCell (mk_cell INT32 mt 4 v) = Inr (int_digits i @ [9])"
proof -
  have "getUint32 v 0 = Inr (of_int i)"
    using le4_of_int [of i] by (simp add: assms(3) getUint32_def peek_def)
  with sint_small_u32 [OF assms(1,2)] show ?thesis by (simp add: printCell_def mk_cell_def deref_def)
qed

lemma printCell_prints:
  assumes "col_ok v"
  shows "printCell (col_cell v) = Inr (val_text v)"
proof -
  note print = printCell_def mk_cell_def deref_def getUint8_def getUint16_def getUint32_def getUint64_def
    peek_def
  show ?thesis
  proof (cases v)
    case (VEnum e)
    have e: "uint e < 256" using unsigned_less [of e, where 'a = int] by simp
    then have "nat (uint e mod 4294967296) = unat e" by (simp add: nat_uint_eq)
    moreover have "- (2 ^ 31) \<le> uint e" by (rule order.trans [of _ 0]) simp_all
    ultimately have "printCell (mk_cell INT32 BL_MYSQL_TYPE_ENUM 4 (le_bytes 4 (unat e))) =
        Inr (int_digits (uint e) @ [9])"
      using e by (intro printCell_int32) simp_all
    then show ?thesis using VEnum by simp
  next
    case (VInt24 i)
    then show ?thesis using assms by (simp add: printCell_int32 [of i])
  qed (use assms in \<open>simp_all add: print printCell_string [unfolded printCell_def] padded_nonzero
      dec_text_nonzero takeWhile_text cstring_at_ends\<close>)
qed

lemma columns_run_together:
  "dump_cells [col_cell (VTiny 1), col_cell (VTiny 23)] 0 2 = dump_cells [col_cell (VTiny 12), col_cell (VTiny 3)] 0 2"
  by code_simp

subsection \<open>Cells have the type of their column\<close>

text \<open>C12: cells are well typed, whatever bytes they come from. A cell that
  \<open>value2Cell\<close> returns with a value has the C type and the MySQL type of the type
  byte and metadata of its column, and its block has the size that type asks for: 1, 2, 4 or 8
  bytes, a terminated string, or at least the length it states.\<close>

theorem value2Cell_typed:
  assumes "value2Cell ec type meta = Inr (c, ec')"
  shows "cell_ok c \<and> (c_value c \<noteq> None \<longrightarrow>
    (\<exists>t. field_type_of (fst (string_real_type type meta)) = Some t \<and>
      cell_type t = Some (c_ctype c, c_mtype c)))"
proof (cases "field_type_of (fst (string_real_type type meta))")
  case None
  with assms show ?thesis by (auto simp add: value2Cell_unknown cell_ok_def null_cell_def)
next
  case (Some t)
  from yields_D [OF value2Cell_yields [OF this] assms] Some show ?thesis by (auto simp add: typed_def)
qed

theorem value2Cell_typed_witness:
  "cell_ok (mk_cell INT32 BL_MYSQL_TYPE_LONG 4 [1, 2, 3, 4])"
proof -
  have "value2Cell \<lparr>ec_ev = [1, 2, 3, 4], ec_cur = 0\<rparr> 3 0 =
      Inr (mk_cell INT32 BL_MYSQL_TYPE_LONG 4 [1, 2, 3, 4], skip 4 \<lparr>ec_ev = [1, 2, 3, 4], ec_cur = 0\<rparr>)"
    using value2Cell_col [of "VLong 67305985" "\<lparr>ec_ev = [1, 2, 3, 4], ec_cur = 0\<rparr>"] demo_long
    by (simp add: at_bytes_def INT_MAX_def decoded_cell_def)
  from value2Cell_typed [OF this] show ?thesis by simp
qed

subsection \<open>Whatever is parsed can be printed\<close>

text \<open>C13: type soundness of the path from the bytes to the output: every row of every event that
  \<open>parseRowsEvent\<close> accepts, well-formed or not, becomes a
  \<open>BinlogRow\<close> that is printed as its kind, its cells, its place and its time, and
  released, without a fault, and the event itself can be released.\<close>

theorem parsed_rows_print:
  assumes "parseRowsEvent bl re ev = Inr re'" "i < re_nrows re'"
  shows "(\<exists>r. mk_row re' i = Inr r \<and> dump_row ds r = Inr (row_text (ds_view ds) r) \<and>
      freeBinlogRow (Some r) = Inr ()) \<and>
    rowsevFreeRows re' = Inr ()"
proof -
  obtain r where r: "mk_row re' i = Inr r" "row_typed r" "dump_row ds r = Inr (row_text (ds_view ds) r)"
    using parsed_row_prints [OF assms] by blast
  then have "freeBinlogRow (Some r) = Inr ()"
    by (auto simp add: row_typed_def freeBinlogRow_def deref_def split: option.splits)
  with r show ?thesis using rowsevFreeRows_ok parseRowsEvent_shape [OF assms(1)] by blast
qed

theorem parsed_rows_print_witness:
  "\<exists>r. mk_row (rowsev_uninit\<lparr>re_ts := 1, re_type := 24, re_nextpos := 100, re_serverid := 2,
       re_tableid := 5,
       re_rows := [[col_cell (VLong 8), col_cell (VVarchar 20 [97, 98])]],
       re_rowsold := Some [[col_cell (VLong 7), null_cell]],
       re_nrows := 1, re_nfields := 2\<rparr>) 0 = Inr r \<and> dump_row dsFile r = Inr (row_text (ds_view dsFile) r) \<and>
     freeBinlogRow (Some r) = Inr ()"
  using parsed_rows_print [OF demo_rows_event, of 0 dsFile] by simp

end
