(* ===== verification/Socket.thy ===== *)
theory Socket
  imports Streams ByteStream
begin

text \<open>
  The two loops of \<open>src/src/anet.c\<close> that the connection to a server rests on: \<open>anetRead\<close> and
  \<open>anetWrite\<close> repeat \<open>read(2)\<close> and \<open>write(2)\<close> until the count is reached.
\<close>

subsection \<open>The loops (anet.c)\<close>

text \<open>
  \<open>b\<close> is the block the bytes go to and \<open>off\<close> the place of \<open>buf\<close> in it. A negative \<open>count\<close>
  never equals \<open>totlen\<close>; the length given to \<open>read\<close> is then its conversion to \<open>size_t\<close>.
\<close>

function anet_read_loop ::
    "int \<Rightarrow> int \<Rightarrow> u8 list \<Rightarrow> nat \<Rightarrow> sock \<Rightarrow> (int \<times> u8 list \<times> sock) res"
where
  "anet_read_loop count totlen b off s =
     (if totlen = count then Inr (totlen, b, s)
      else case sock_read (size_of_int (count - totlen)) s of (nread, bs, s') \<Rightarrow>
        if nread = 0 then Inr (totlen, b, s')
        else if nread = - 1 then Inr (- 1, b, s')
        else bindE (poke b off bs) (\<lambda>b.
               anet_read_loop count (totlen + nread) b (off + nat nread) s'))"
  by pat_completeness auto

termination
  by (relation "measure (\<lambda>(_, _, _, _, s). in_size (sk_in s))")
    (auto dest: sock_read_decreases [OF sym])

declare anet_read_loop.simps [simp del]

definition anetRead :: "int \<Rightarrow> u8 list \<Rightarrow> sock \<Rightarrow> (int \<times> u8 list \<times> sock) res" where
  "anetRead count b s = anet_read_loop count 0 b 0 s"

lemma sock_write_range:
  "sock_write bs s = (k, s') \<Longrightarrow> k \<noteq> 0 \<Longrightarrow> k \<noteq> - 1 \<Longrightarrow> 0 < k \<and> nat k \<le> length bs"
  by (auto simp add: sock_write_def split: list.splits room.splits)

text \<open>The loop ends because every turn writes at least one of the bytes that are left.\<close>

function anet_write_loop ::
    "nat \<Rightarrow> nat \<Rightarrow> u8 list \<Rightarrow> sock \<Rightarrow> (int \<times> sock) res"
where
  "anet_write_loop count totlen b s =
     (if count \<le> totlen then Inr (int totlen, s)
      else if length b < count then Inl OutOfBounds
      else case sock_write (take (count - totlen) (drop totlen b)) s of (nwritten, s') \<Rightarrow>
        if nwritten = 0 then Inr (int totlen, s')
        else if nwritten = - 1 then Inr (- 1, s')
        else anet_write_loop count (totlen + nat nwritten) b s')"
  by pat_completeness auto

termination
  by (relation "measure (\<lambda>(count, totlen, _, _). count - totlen)")
    (auto dest!: sock_write_range [OF sym])

declare anet_write_loop.simps [simp del]

definition anetWrite :: "u8 list \<Rightarrow> nat \<Rightarrow> sock \<Rightarrow> (int \<times> sock) res" where
  "anetWrite b count s = anet_write_loop count 0 b s"

subsection \<open>Reading\<close>

text \<open>However the bytes arrive, the loop collects exactly the ones asked for.\<close>

lemma anet_read_loop_exact:
  assumes "in_bytes (sk_in s) = bs @ r" "count = totlen + int (length bs)" "length bs < 2 ^ 64"
    and "off + length bs \<le> length b"
  shows "\<exists>as. anet_read_loop count totlen b off s =
      Inr (count, take off b @ bs @ drop (off + length bs) b, s\<lparr>sk_in := as\<rparr>) \<and>
    in_bytes as = r \<and> in_tail as = in_tail (sk_in s)"
  using assms
proof (induction "length bs" arbitrary: bs totlen b off s rule: less_induct)
  case less
  show ?case
  proof (cases "bs = []")
    case True
    with less.prems show ?thesis
      by (subst anet_read_loop.simps) (auto intro: exI [of _ "sk_in s"])
  next
    case False
    have n: "size_of_int (count - totlen) = length bs" using less.prems(2,3) by simp
    have "in_bytes (sk_in s) \<noteq> []" "0 < length bs" using False less.prems(1) by simp_all
    then obtain xs s1 where x: "sock_read (length bs) s = (int (length xs), xs, s1)" "xs \<noteq> []"
        "length xs \<le> length bs" "in_bytes (sk_in s) = xs @ in_bytes (sk_in s1)"
        "in_tail (sk_in s1) = in_tail (sk_in s)" "s1 = s\<lparr>sk_in := sk_in s1\<rparr>"
      using sock_read_front by metis
    define ys where "ys = drop (length xs) bs"
    have t: "take (length xs) bs = xs"
    proof -
      have "take (length xs) (bs @ r) = take (length xs) (xs @ in_bytes (sk_in s1))"
        using x(4) less.prems(1) by simp
      then show ?thesis using x(3) by simp
    qed
    have bs: "bs = xs @ ys" unfolding ys_def using t by (metis append_take_drop_id)
    have p: "poke b off xs = Inr (take off b @ xs @ drop (off + length xs) b)"
      using less.prems(4) bs by (simp add: poke_def)
    define b1 where "b1 = take off b @ xs @ drop (off + length xs) b"
    have len: "length ys < length bs" "length b1 = length b"
      using bs x(2) less.prems(4) by (simp_all add: b1_def)
    have "in_bytes (sk_in s1) = ys @ r" using x(4) less.prems(1) bs by simp
    then obtain as where as: "anet_read_loop count (totlen + int (length xs)) b1 (off + length xs) s1 =
        Inr (count, take (off + length xs) b1 @ ys @ drop (off + length xs + length ys) b1, s1\<lparr>sk_in := as\<rparr>)"
      "in_bytes as = r" "in_tail as = in_tail (sk_in s1)"
      using less.hyps [OF len(1), of s1 "totlen + int (length xs)" "off + length xs" b1]
        less.prems(2-4) bs len(2) by auto
    have c: "totlen \<noteq> count" "int (length xs) \<noteq> 0" "int (length xs) \<noteq> - 1"
      using less.prems(2) False x(2) by auto
    have s1: "s1\<lparr>sk_in := as\<rparr> = s\<lparr>sk_in := as\<rparr>" by (subst x(6)) simp
    have e: "take (off + length xs) b1 @ ys @ drop (off + length xs + length ys) b1 =
        take off b @ bs @ drop (off + length bs) b"
      using less.prems(4) bs by (simp add: b1_def ac_simps)
    have "anet_read_loop count totlen b off s =
        anet_read_loop count (totlen + int (length xs)) b1 (off + length xs) s1"
      using c by (subst anet_read_loop.simps) (simp add: n x(1) p b1_def)
    with as x(5) show ?thesis unfolding e s1 by metis
  qed
qed

lemma anetRead_exact:
  assumes "in_bytes (sk_in s) = bs @ r" "length bs \<le> length b" "length bs < 2 ^ 64"
  shows "\<exists>as. anetRead (int (length bs)) b s =
      Inr (int (length bs), bs @ drop (length bs) b, s\<lparr>sk_in := as\<rparr>) \<and>
    in_bytes as = r \<and> in_tail as = in_tail (sk_in s)"
  using anet_read_loop_exact [OF assms(1), of _ 0 0 b] assms(2,3) by (simp add: anetRead_def)

text \<open>When fewer bytes arrive than asked for, the loop returns what there was, or \<open>-1\<close>.\<close>

lemma anet_read_loop_short:
  assumes "in_bytes (sk_in s) = bs" "totlen + int (length bs) < count" "count - totlen < 2 ^ 64"
    and "off + length bs \<le> length b"
  shows "\<exists>s'. anet_read_loop count totlen b off s =
      Inr (case in_tail (sk_in s) of RecvErr _ _ # _ \<Rightarrow> - 1 | _ \<Rightarrow> totlen + int (length bs),
           take off b @ bs @ drop (off + length bs) b, s') \<and>
    (in_tail (sk_in s) = [] \<longrightarrow> s' = s\<lparr>sk_in := []\<rparr>)"
  using assms
proof (induction "length bs" arbitrary: bs totlen b off s rule: less_induct)
  case less
  have n: "0 < size_of_int (count - totlen)"
    using less.prems(2,3) by (simp add: size_of_int_def)
  show ?case
  proof (cases "bs = []")
    case True
    then show ?thesis using less.prems
      by (subst anet_read_loop.simps)
        (cases "sk_in s" rule: in_bytes.cases; auto simp add: sock_read_def)
  next
    case False
    then have "in_bytes (sk_in s) \<noteq> []" using less.prems(1) by simp
    then obtain xs s1 where x: "sock_read (size_of_int (count - totlen)) s = (int (length xs), xs, s1)"
        "xs \<noteq> []" "length xs \<le> size_of_int (count - totlen)"
        "in_bytes (sk_in s) = xs @ in_bytes (sk_in s1)"
        "in_tail (sk_in s1) = in_tail (sk_in s)" "s1 = s\<lparr>sk_in := sk_in s1\<rparr>"
      using sock_read_front [OF _ n] by metis
    have s1: "s1\<lparr>sk_in := []\<rparr> = s\<lparr>sk_in := []\<rparr>" by (subst x(6)) simp
    define ys where "ys = in_bytes (sk_in s1)"
    have bs: "bs = xs @ ys" using x(4) less.prems(1) by (simp add: ys_def)
    have p: "poke b off xs = Inr (take off b @ xs @ drop (off + length xs) b)"
      using less.prems(4) bs by (simp add: poke_def)
    define b1 where "b1 = take off b @ xs @ drop (off + length xs) b"
    have len: "length ys < length bs" "length b1 = length b"
      using bs x(2) less.prems(4) by (simp_all add: b1_def)
    obtain s' where as: "anet_read_loop count (totlen + int (length xs)) b1 (off + length xs) s1 =
        Inr (case in_tail (sk_in s1) of RecvErr _ _ # _ \<Rightarrow> - 1 | _ \<Rightarrow> totlen + int (length xs) + int (length ys),
          take (off + length xs) b1 @ ys @ drop (off + length xs + length ys) b1, s')"
      "in_tail (sk_in s) = [] \<longrightarrow> s' = s\<lparr>sk_in := []\<rparr>"
      using less.hyps [OF len(1), of s1 "totlen + int (length xs)" "off + length xs" b1]
        less.prems(2-4) bs len(2) x(5) by (auto simp add: ys_def s1)
    have c: "totlen \<noteq> count" "int (length xs) \<noteq> 0" "int (length xs) \<noteq> - 1"
      using less.prems(2) False x(2) by auto
    have e: "take (off + length xs) b1 @ ys @ drop (off + length xs + length ys) b1 =
        take off b @ bs @ drop (off + length bs) b"
      using less.prems(4) bs by (simp add: b1_def ac_simps)
    have "anet_read_loop count totlen b off s =
        anet_read_loop count (totlen + int (length xs)) b1 (off + length xs) s1"
      using c by (subst anet_read_loop.simps) (simp add: x(1) p b1_def)
    moreover have "totlen + int (length xs) + int (length ys) = totlen + int (length bs)"
      using bs by simp
    ultimately show ?thesis using as unfolding e x(5) by metis
  qed
qed

subsection \<open>Writing\<close>

text \<open>However \<open>write\<close> splits it, everything is written as long as every call takes something.\<close>

definition roomy :: "sock \<Rightarrow> bool" where
  "roomy s \<longleftrightarrow> (\<forall>r \<in> set (sk_room s). case r of Accept k \<Rightarrow> 0 < k | SendErr _ _ \<Rightarrow> False)"

lemma anet_write_loop_all:
  assumes "roomy s" "totlen \<le> count" "count \<le> length b"
  shows "\<exists>rs. anet_write_loop count totlen b s =
      Inr (int count, s\<lparr>sk_out := sk_out s @ take (count - totlen) (drop totlen b), sk_room := rs\<rparr>) \<and>
    (\<forall>r \<in> set rs. case r of Accept k \<Rightarrow> 0 < k | SendErr _ _ \<Rightarrow> False)"
  using assms
proof (induction "count - totlen" arbitrary: totlen s rule: less_induct)
  case less
  show ?case
  proof (cases "totlen = count")
    case True
    then show ?thesis using less.prems
      by (subst anet_write_loop.simps) (auto simp add: roomy_def intro!: exI [of _ "sk_room s"])
  next
    case False
    define bs where "bs = take (count - totlen) (drop totlen b)"
    have bs: "length bs = count - totlen" "bs \<noteq> []"
      using less.prems(2,3) False by (auto simp add: bs_def)
    obtain k rs where w: "sock_write bs s = (int k, s\<lparr>sk_out := sk_out s @ take k bs, sk_room := rs\<rparr>)"
        "0 < k" "k \<le> length bs" "\<forall>r \<in> set rs. case r of Accept k \<Rightarrow> 0 < k | SendErr _ _ \<Rightarrow> False"
    proof (cases "sk_room s")
      case Nil
      then have "sock_write bs s = (int (length bs), s\<lparr>sk_out := sk_out s @ take (length bs) bs, sk_room := []\<rparr>)"
        by (simp add: sock_write_def)
      then show ?thesis using that [of "length bs" "[]"] bs less.prems(2) False by simp
    next
      case (Cons r rs)
      then obtain k where r: "r = Accept k" "0 < k"
        using less.prems(1) by (cases r) (auto simp add: roomy_def)
      have "sock_write bs s = (int (min (length bs) k),
          s\<lparr>sk_out := sk_out s @ take (min (length bs) k) bs, sk_room := rs\<rparr>)"
        using Cons r by (simp add: sock_write_def) (metis min.commute take_take take_all order_refl)
      then show ?thesis using that [of "min (length bs) k" rs] bs r(2) Cons less.prems(1,2) False
        by (auto simp add: roomy_def)
    qed
    define s1 where "s1 = s\<lparr>sk_out := sk_out s @ take k bs, sk_room := rs\<rparr>"
    have r1: "roomy s1" using w(4) by (simp add: s1_def roomy_def)
    have m: "count - (totlen + k) < count - totlen" "totlen + k \<le> count"
      using w(2,3) bs less.prems(2) False by simp_all
    obtain rs' where rs': "anet_write_loop count (totlen + k) b s1 =
        Inr (int count, s1\<lparr>sk_out := sk_out s1 @ take (count - (totlen + k)) (drop (totlen + k) b),
          sk_room := rs'\<rparr>)" "\<forall>r \<in> set rs'. case r of Accept k \<Rightarrow> 0 < k | SendErr _ _ \<Rightarrow> False"
      using less.hyps [OF m(1) r1 m(2) less.prems(3)] by blast
    have "drop k bs = take (count - (totlen + k)) (drop (totlen + k) b)"
      by (simp add: bs_def drop_take add.commute)
    then have "take k bs @ take (count - (totlen + k)) (drop (totlen + k) b) = bs"
      by (metis append_take_drop_id)
    moreover have "anet_write_loop count totlen b s = anet_write_loop count (totlen + k) b s1"
      using less.prems(2,3) False w(1,2)
      by (subst anet_write_loop.simps) (simp add: bs_def [symmetric] s1_def)
    ultimately show ?thesis using rs' by (intro exI [of _ rs']) (simp add: s1_def bs_def)
  qed
qed

lemma anetWrite_all:
  assumes "roomy s" "count \<le> length b"
  shows "\<exists>rs. anetWrite b count s = Inr (int count, s\<lparr>sk_out := sk_out s @ take count b, sk_room := rs\<rparr>) \<and>
    roomy (s\<lparr>sk_room := rs\<rparr>)"
  using anet_write_loop_all [OF assms(1), of 0 count b] assms(2) by (auto simp add: anetWrite_def roomy_def)

end
