(* ===== verification/SocketSetup.thy ===== *)
theory SocketSetup
  imports Socket Cells
begin

text \<open>
  The functions of \<open>src/src/anet.c\<close> that create, connect, bind and accept sockets. The system is
  the parameter \<open>k\<close>: what a system call answers may depend on every call made before, which
  \<open>an_log\<close> records with the answers. A call that fails answers \<open>-1\<close> and sets \<open>errno\<close>. The
  resolver, \<open>strerror\<close> and the bytes of uninitialised memory are part of \<open>k\<close> too.
\<close>

subsection \<open>The system\<close>

datatype domain = AF_INET | AF_LOCAL

datatype sockopt = TCP_NODELAY | SO_SNDBUF | SO_KEEPALIVE | SO_REUSEADDR

datatype errno = EINTR | EINPROGRESS | OtherErrno nat

text \<open>
  A \<open>sockaddr_in\<close> is the four bytes of the address, in network order, and the port number; a
  \<open>sockaddr_un\<close> the 108 bytes of \<open>sun_path\<close>.
\<close>

datatype sockaddr = InetAddr "u8 list" u16 | UnixAddr "u8 list"

datatype syscall =
    SysSocket domain
  | SysSetsockopt int sockopt int
  | SysGetFlags int
  | SysSetFlags int int
  | SysConnect int sockaddr
  | SysBind int sockaddr
  | SysListen int int
  | SysAccept int
  | SysGetpeername int
  | SysChmod "u8 list" u32
  | SysClose int

type_synonym calls = "(syscall \<times> int) list"

text \<open>
  \<open>k_ret\<close> and \<open>k_errno\<close>: the answer to a call after the calls of the log, and the error when it
  is \<open>-1\<close>. \<open>k_peer\<close>: address and port that \<open>accept\<close> and \<open>getpeername\<close> report. \<open>k_aton\<close> and
  \<open>k_host\<close>: \<open>inet_aton\<close> and the first address of \<open>gethostbyname\<close>. \<open>k_junk\<close>: the last byte of an
  uninitialised \<open>sun_path\<close>.
\<close>

record kernel =
  k_ret :: "calls \<Rightarrow> syscall \<Rightarrow> int"
  k_errno :: "calls \<Rightarrow> syscall \<Rightarrow> errno"
  k_peer :: "calls \<Rightarrow> syscall \<Rightarrow> u8 list \<times> u16"
  k_strerror :: "errno \<Rightarrow> u8 list"
  k_aton :: "u8 list \<Rightarrow> u8 list option"
  k_host :: "u8 list \<Rightarrow> u8 list option"
  k_junk :: u8

text \<open>The state: the caller's error buffer, \<open>None\<close> when it is NULL, and the calls so far.\<close>

record anet =
  an_err :: "u8 list option"
  an_log :: calls
  an_errno :: errno

definition sys :: "kernel \<Rightarrow> syscall \<Rightarrow> anet \<Rightarrow> int \<times> anet" where
  "sys k c w =
     (let r = k_ret k (an_log w) c
      in (r, w\<lparr>an_log := an_log w @ [(c, r)],
               an_errno := (if r = - 1 then k_errno k (an_log w) c else an_errno w)\<rparr>))"

abbreviation ANET_OK :: int where "ANET_OK \<equiv> 0"
abbreviation ANET_ERR :: int where "ANET_ERR \<equiv> - 1"
abbreviation ANET_ERR_LEN :: nat where "ANET_ERR_LEN \<equiv> 256"

text \<open>\<open>O_NONBLOCK\<close>, and the flags of the connecting functions.\<close>

abbreviation O_NONBLOCK :: int where "O_NONBLOCK \<equiv> 2048"
abbreviation ANET_CONNECT_NONE :: int where "ANET_CONNECT_NONE \<equiv> 0"
abbreviation ANET_CONNECT_NONBLOCK :: int where "ANET_CONNECT_NONBLOCK \<equiv> 1"

subsection \<open>Errors\<close>

text \<open>\<open>vsnprintf(err, ANET_ERR_LEN, ...)\<close> of the formatted text \<open>msg\<close>.\<close>

definition anetSetError :: "u8 list \<Rightarrow> anet \<Rightarrow> anet res" where
  "anetSetError msg w =
     (case an_err w of None \<Rightarrow> Inr w
      | Some err \<Rightarrow> bindE (poke err 0 (take (ANET_ERR_LEN - 1) msg @ [0])) (\<lambda>err.
          Inr (w\<lparr>an_err := Some err\<rparr>)))"

text \<open>A failed call: \<open>"<name>: %s"\<close> with \<open>strerror(errno)\<close>, and \<open>ANET_ERR\<close>.\<close>

definition anet_fail :: "kernel \<Rightarrow> u8 list \<Rightarrow> anet \<Rightarrow> (int \<times> anet) res" where
  "anet_fail k name w =
     bindE (anetSetError (name @ [58, 32] @ k_strerror k (an_errno w)) w) (\<lambda>w. Inr (ANET_ERR, w))"

definition anet_fail_close :: "kernel \<Rightarrow> u8 list \<Rightarrow> int \<Rightarrow> anet \<Rightarrow> (int \<times> anet) res" where
  "anet_fail_close k name s w =
     bindE (anet_fail k name w) (\<lambda>(r, w). let (_, w) = sys k (SysClose s) w in Inr (r, w))"

subsection \<open>Options\<close>

definition anetNonBlock :: "kernel \<Rightarrow> int \<Rightarrow> anet \<Rightarrow> (int \<times> anet) res" where
  "anetNonBlock k fd w =
     (let (flags, w) = sys k (SysGetFlags fd) w
      in if flags = - 1 then anet_fail k [102, 99, 110, 116, 108, 40, 70, 95, 71, 69, 84, 70, 76, 41] w
         else let (r, w) = sys k (SysSetFlags fd (flags OR O_NONBLOCK)) w
              in if r = - 1
                 then anet_fail k [102, 99, 110, 116, 108, 40, 70, 95, 83, 69, 84, 70, 76, 44, 79, 95,
                        78, 79, 78, 66, 76, 79, 67, 75, 41] w
                 else Inr (ANET_OK, w))"

text \<open>The functions that set one option; \<open>name\<close> is the text of the error.\<close>

definition anet_setopt :: "kernel \<Rightarrow> u8 list \<Rightarrow> int \<Rightarrow> sockopt \<Rightarrow> int \<Rightarrow> anet \<Rightarrow> (int \<times> anet) res" where
  "anet_setopt k name fd opt v w =
     (let (r, w) = sys k (SysSetsockopt fd opt v) w
      in if r = - 1 then anet_fail k ([115, 101, 116, 115, 111, 99, 107, 111, 112, 116, 32] @ name) w
         else Inr (ANET_OK, w))"

definition anetTcpNoDelay :: "kernel \<Rightarrow> int \<Rightarrow> anet \<Rightarrow> (int \<times> anet) res" where
  "anetTcpNoDelay k fd =
     anet_setopt k [84, 67, 80, 95, 78, 79, 68, 69, 76, 65, 89] fd TCP_NODELAY 1"

definition anetSetSendBuffer :: "kernel \<Rightarrow> int \<Rightarrow> int \<Rightarrow> anet \<Rightarrow> (int \<times> anet) res" where
  "anetSetSendBuffer k fd buffsize =
     anet_setopt k [83, 79, 95, 83, 78, 68, 66, 85, 70] fd SO_SNDBUF buffsize"

definition anetTcpKeepAlive :: "kernel \<Rightarrow> int \<Rightarrow> anet \<Rightarrow> (int \<times> anet) res" where
  "anetTcpKeepAlive k fd =
     anet_setopt k [83, 79, 95, 75, 69, 69, 80, 65, 76, 73, 86, 69] fd SO_KEEPALIVE 1"

subsection \<open>Addresses\<close>

text \<open>\<open>inet_ntoa\<close>: the bytes of the address in decimal, with dots between them.\<close>

fun inet_ntoa :: "u8 list \<Rightarrow> u8 list" where
  "inet_ntoa [] = []"
| "inet_ntoa [b] = dec_digits (unat b)"
| "inet_ntoa (b # c # bs) = dec_digits (unat b) @ 46 # inet_ntoa (c # bs)"

text \<open>
  Lines 113-122 and 155-165: the address of a host name or a dotted number, or the error. Four
  bytes are copied of the address that \<open>gethostbyname\<close> finds.
\<close>

definition anet_address :: "kernel \<Rightarrow> u8 list \<Rightarrow> anet \<Rightarrow> (u8 list option \<times> anet) res" where
  "anet_address k host w =
     (case k_aton k host of
        Some a \<Rightarrow> Inr (Some a, w)
      | None \<Rightarrow> (case k_host k host of
            None \<Rightarrow> bindE (anetSetError ([99, 97, 110, 39, 116, 32, 114, 101, 115, 111, 108, 118, 101,
                58, 32] @ host) w) (\<lambda>w. Inr (None, w))
          | Some h \<Rightarrow> bindE (peek h 0 4) (\<lambda>a. Inr (Some a, w))))"

text \<open>\<open>strcpy(ipbuf, inet_ntoa(...))\<close> into the block \<open>ipbuf\<close>.\<close>

definition anetResolve :: "kernel \<Rightarrow> u8 list \<Rightarrow> u8 list \<Rightarrow> anet \<Rightarrow> (int \<times> u8 list \<times> anet) res" where
  "anetResolve k host ipbuf w =
     bindE (anet_address k host w) (\<lambda>(a, w).
     case a of None \<Rightarrow> Inr (ANET_ERR, ipbuf, w)
     | Some a \<Rightarrow> bindE (poke ipbuf 0 (inet_ntoa a @ [0])) (\<lambda>ipbuf. Inr (ANET_OK, ipbuf, w)))"

text \<open>
  \<open>strncpy(sa.sun_path, path, sizeof(sa.sun_path)-1)\<close>: 107 bytes, filled up with zeroes; the
  last byte of the array keeps what it was.
\<close>

definition sun_path :: "u8 list \<Rightarrow> u8 \<Rightarrow> u8 list" where
  "sun_path path final = take 107 (path @ replicate 107 0) @ [final]"

subsection \<open>Connecting\<close>

definition anetCreateSocket :: "kernel \<Rightarrow> domain \<Rightarrow> anet \<Rightarrow> (int \<times> anet) res" where
  "anetCreateSocket k domain w =
     (let (s, w) = sys k (SysSocket domain) w
      in if s = - 1
         then anet_fail k [99, 114, 101, 97, 116, 105, 110, 103, 32, 115, 111, 99, 107, 101, 116] w
         else bindE (anet_setopt k [83, 79, 95, 82, 69, 85, 83, 69, 65, 68, 68, 82] s SO_REUSEADDR 1 w)
                (\<lambda>(r, w). if r = ANET_ERR then Inr (ANET_ERR, w) else Inr (s, w)))"

text \<open>Lines 166-179 and 202-215, the same for both families.\<close>

definition anet_connect :: "kernel \<Rightarrow> int \<Rightarrow> sockaddr \<Rightarrow> int \<Rightarrow> anet \<Rightarrow> (int \<times> anet) res" where
  "anet_connect k s sa flags w =
     bindE (if flags AND ANET_CONNECT_NONBLOCK \<noteq> 0 then anetNonBlock k s w else Inr (ANET_OK, w))
       (\<lambda>(r, w).
     if r \<noteq> ANET_OK then Inr (ANET_ERR, w)
     else
       let (r, w) = sys k (SysConnect s sa) w
       in if r = - 1 then
            if an_errno w = EINPROGRESS \<and> flags AND ANET_CONNECT_NONBLOCK \<noteq> 0 then Inr (s, w)
            else anet_fail_close k [99, 111, 110, 110, 101, 99, 116] s w
          else Inr (s, w))"

definition anetTcpGenericConnect ::
    "kernel \<Rightarrow> u8 list \<Rightarrow> int \<Rightarrow> int \<Rightarrow> anet \<Rightarrow> (int \<times> anet) res"
where
  "anetTcpGenericConnect k addr port flags w =
     bindE (anetCreateSocket k AF_INET w) (\<lambda>(s, w).
     if s = ANET_ERR then Inr (ANET_ERR, w)
     else
       bindE (anet_address k addr w) (\<lambda>(a, w).
       case a of
         None \<Rightarrow> let (_, w) = sys k (SysClose s) w in Inr (ANET_ERR, w)
       | Some a \<Rightarrow> anet_connect k s (InetAddr a (of_int port)) flags w))"

definition anetTcpConnect :: "kernel \<Rightarrow> u8 list \<Rightarrow> int \<Rightarrow> anet \<Rightarrow> (int \<times> anet) res" where
  "anetTcpConnect k addr port = anetTcpGenericConnect k addr port ANET_CONNECT_NONE"

definition anetTcpNonBlockConnect :: "kernel \<Rightarrow> u8 list \<Rightarrow> int \<Rightarrow> anet \<Rightarrow> (int \<times> anet) res" where
  "anetTcpNonBlockConnect k addr port = anetTcpGenericConnect k addr port ANET_CONNECT_NONBLOCK"

definition anetUnixGenericConnect :: "kernel \<Rightarrow> u8 list \<Rightarrow> int \<Rightarrow> anet \<Rightarrow> (int \<times> anet) res" where
  "anetUnixGenericConnect k path flags w =
     bindE (anetCreateSocket k AF_LOCAL w) (\<lambda>(s, w).
     if s = ANET_ERR then Inr (ANET_ERR, w)
     else anet_connect k s (UnixAddr (sun_path path (k_junk k))) flags w)"

definition anetUnixConnect :: "kernel \<Rightarrow> u8 list \<Rightarrow> anet \<Rightarrow> (int \<times> anet) res" where
  "anetUnixConnect k path = anetUnixGenericConnect k path ANET_CONNECT_NONE"

definition anetUnixNonBlockConnect :: "kernel \<Rightarrow> u8 list \<Rightarrow> anet \<Rightarrow> (int \<times> anet) res" where
  "anetUnixNonBlockConnect k path = anetUnixGenericConnect k path ANET_CONNECT_NONBLOCK"

subsection \<open>Serving\<close>

definition anetListen :: "kernel \<Rightarrow> int \<Rightarrow> sockaddr \<Rightarrow> anet \<Rightarrow> (int \<times> anet) res" where
  "anetListen k s sa w =
     (let (r, w) = sys k (SysBind s sa) w
      in if r = - 1 then anet_fail_close k [98, 105, 110, 100] s w
         else let (r, w) = sys k (SysListen s 511) w
              in if r = - 1 then anet_fail_close k [108, 105, 115, 116, 101, 110] s w
                 else Inr (ANET_OK, w))"

definition anetTcpServer :: "kernel \<Rightarrow> int \<Rightarrow> u8 list option \<Rightarrow> anet \<Rightarrow> (int \<times> anet) res" where
  "anetTcpServer k port bindaddr w =
     bindE (anetCreateSocket k AF_INET w) (\<lambda>(s, w).
     if s = ANET_ERR then Inr (ANET_ERR, w)
     else
       case (case bindaddr of None \<Rightarrow> Some [0, 0, 0, 0] | Some b \<Rightarrow> k_aton k b) of
         None \<Rightarrow>
           bindE (anetSetError [105, 110, 118, 97, 108, 105, 100, 32, 98, 105, 110, 100, 32, 97, 100,
               100, 114, 101, 115, 115] w) (\<lambda>w.
           let (_, w) = sys k (SysClose s) w in Inr (ANET_ERR, w))
       | Some a \<Rightarrow>
           bindE (anetListen k s (InetAddr a (of_int port)) w) (\<lambda>(r, w).
           if r = ANET_ERR then Inr (ANET_ERR, w) else Inr (s, w)))"

text \<open>\<open>chmod\<close> gets the path as it was copied, and its answer is ignored.\<close>

definition anetUnixServer :: "kernel \<Rightarrow> u8 list \<Rightarrow> u32 \<Rightarrow> anet \<Rightarrow> (int \<times> anet) res" where
  "anetUnixServer k path perm w =
     bindE (anetCreateSocket k AF_LOCAL w) (\<lambda>(s, w).
     if s = ANET_ERR then Inr (ANET_ERR, w)
     else
       bindE (anetListen k s (UnixAddr (sun_path path 0)) w) (\<lambda>(r, w).
       if r = ANET_ERR then Inr (ANET_ERR, w)
       else if perm \<noteq> 0 then
         let (_, w) = sys k (SysChmod (takeWhile (\<lambda>c. c \<noteq> 0) (sun_path path 0)) perm) w in Inr (s, w)
       else Inr (s, w)))"

text \<open>The loop is over when \<open>accept\<close> is not interrupted; \<open>None\<close> when that never happens.\<close>

partial_function (option) anetGenericAccept :: "kernel \<Rightarrow> int \<Rightarrow> anet \<Rightarrow> (int \<times> anet) res option" where
  "anetGenericAccept k s w =
     (let (fd, w) = sys k (SysAccept s) w
      in if fd = - 1 then
           if an_errno w = EINTR then anetGenericAccept k s w
           else Some (anet_fail k [97, 99, 99, 101, 112, 116] w)
         else Some (Inr (fd, w)))"

text \<open>
  The address of the peer goes to the block \<open>ip\<close> and to \<open>*port\<close> where they are given. The
  address is the one of the last call of the log.
\<close>

definition anet_peer :: "kernel \<Rightarrow> u8 list option \<Rightarrow> int option \<Rightarrow> anet \<Rightarrow> (u8 list option \<times> int option) res"
where
  "anet_peer k ip port w =
     (let (a, p) = k_peer k (butlast (an_log w)) (fst (List.last (an_log w)))
      in bindE (case ip of None \<Rightarrow> Inr None
                | Some b \<Rightarrow> bindE (poke b 0 (inet_ntoa a @ [0])) (\<lambda>b. Inr (Some b))) (\<lambda>ip.
         Inr (ip, map_option (\<lambda>_. int (unat p)) port)))"

definition anetTcpAccept ::
    "kernel \<Rightarrow> int \<Rightarrow> u8 list option \<Rightarrow> int option \<Rightarrow> anet \<Rightarrow>
     (int \<times> u8 list option \<times> int option \<times> anet) res option"
where
  "anetTcpAccept k s ip port w =
     Option.bind (anetGenericAccept k s w) (\<lambda>m. Some (
       bindE m (\<lambda>(fd, w).
       if fd = ANET_ERR then Inr (ANET_ERR, ip, port, w)
       else bindE (anet_peer k ip port w) (\<lambda>(ip, port). Inr (fd, ip, port, w)))))"

definition anetUnixAccept :: "kernel \<Rightarrow> int \<Rightarrow> anet \<Rightarrow> (int \<times> anet) res option" where
  "anetUnixAccept k s w =
     Option.bind (anetGenericAccept k s w) (\<lambda>m. Some (
       bindE m (\<lambda>(fd, w). if fd = ANET_ERR then Inr (ANET_ERR, w) else Inr (fd, w))))"

text \<open>After a failure \<open>ip\<close> and \<open>port\<close> are written without a test for NULL.\<close>

definition anetPeerToString ::
    "kernel \<Rightarrow> int \<Rightarrow> u8 list option \<Rightarrow> int option \<Rightarrow> anet \<Rightarrow>
     (int \<times> u8 list option \<times> int option \<times> anet) res"
where
  "anetPeerToString k fd ip port w =
     (let (r, w) = sys k (SysGetpeername fd) w
      in if r = - 1 then
           bindE (deref port) (\<lambda>_. bindE (deref ip) (\<lambda>b. bindE (poke b 0 [63, 0]) (\<lambda>b.
             Inr (- 1, Some b, Some 0, w))))
         else bindE (anet_peer k ip port w) (\<lambda>(ip, port). Inr (0, ip, port, w)))"

end
