(* ===== verification/Descriptors.thy ===== *)
theory Descriptors
  imports SocketSetup
begin

text \<open>
  Which descriptors a process has open after a sequence of system calls, and what the functions
  of \<open>anet.c\<close> leave open: a socket is owned by the caller exactly when it is returned, unless
  setting an option fails.
\<close>

subsection \<open>Open descriptors\<close>

text \<open>\<open>close\<close> gives the descriptor back whatever it answers.\<close>

fun fd_step :: "int set \<Rightarrow> syscall \<times> int \<Rightarrow> int set" where
  "fd_step F (SysSocket d, r) = (if r = - 1 then F else insert r F)"
| "fd_step F (SysAccept s, r) = (if r = - 1 then F else insert r F)"
| "fd_step F (SysClose s, r) = F - {s}"
| "fd_step F _ = F"

definition open_fds :: "calls \<Rightarrow> int set" where
  "open_fds log = foldl fd_step {} log"

text \<open>
  What the system documents: a descriptor that it hands out is not open yet, and an address it
  finds for a host has at least four bytes.
\<close>

definition kernel_ok :: "kernel \<Rightarrow> bool" where
  "kernel_ok k \<longleftrightarrow> (\<forall>log d. k_ret k log (SysSocket d) \<notin> open_fds log) \<and>
     (\<forall>log s. k_ret k log (SysAccept s) \<notin> open_fds log) \<and>
     (\<forall>name h. k_host k name = Some h \<longrightarrow> 4 \<le> length h)"

lemma open_fds_append [simp]:
  "open_fds (log @ cs) = foldl fd_step (open_fds log) cs"
  by (simp add: open_fds_def)

lemma kernel_ok_D:
  "kernel_ok k \<Longrightarrow> k_ret k log (SysSocket d) \<notin> open_fds log"
  "kernel_ok k \<Longrightarrow> k_ret k log (SysAccept s) \<notin> open_fds log"
  "kernel_ok k \<Longrightarrow> k_host k name = Some h \<Longrightarrow> 4 \<le> length h"
  by (simp_all add: kernel_ok_def)

subsection \<open>Calls and errors\<close>

definition called :: "kernel \<Rightarrow> syscall \<Rightarrow> anet \<Rightarrow> anet" where
  "called k c w = snd (sys k c w)"

lemma sys_called: "sys k c w = (k_ret k (an_log w) c, called k c w)"
  by (simp add: sys_def called_def Let_def)

lemma called_simps [simp]:
  "an_err (called k c w) = an_err w"
  "an_log (called k c w) = an_log w @ [(c, k_ret k (an_log w) c)]"
  "an_errno (called k c w) = (if k_ret k (an_log w) c = - 1 then k_errno k (an_log w) c else an_errno w)"
  by (simp_all add: called_def sys_def Let_def)

text \<open>The buffer for the error is absent or has the length the functions rely on.\<close>

definition err_ok :: "anet \<Rightarrow> bool" where
  "err_ok w \<longleftrightarrow> (\<forall>b. an_err w = Some b \<longrightarrow> ANET_ERR_LEN \<le> length b)"

definition set_err :: "u8 list \<Rightarrow> anet \<Rightarrow> anet" where
  "set_err msg w = w\<lparr>an_err := map_option (\<lambda>b. take 255 msg @ 0 # drop (Suc (length (take 255 msg))) b) (an_err w)\<rparr>"

lemma set_err_simps [simp]:
  "an_log (set_err msg w) = an_log w" "an_errno (set_err msg w) = an_errno w"
  "err_ok w \<Longrightarrow> err_ok (set_err msg w)" "err_ok (called k c w) = err_ok w"
  by (auto simp add: set_err_def err_ok_def)

lemma anetSetError_ok [simp]: "err_ok w \<Longrightarrow> anetSetError msg w = Inr (set_err msg w)"
  by (auto simp add: anetSetError_def set_err_def err_ok_def poke_def split: option.splits)

lemma anet_fail_ok [simp]:
  "err_ok w \<Longrightarrow> anet_fail k name w = Inr (- 1, set_err (name @ [58, 32] @ k_strerror k (an_errno w)) w)"
  by (simp add: anet_fail_def)

lemma anet_fail_close_ok [simp]:
  "err_ok w \<Longrightarrow> anet_fail_close k name s w =
    Inr (- 1, called k (SysClose s) (set_err (name @ [58, 32] @ k_strerror k (an_errno w)) w))"
  by (simp add: anet_fail_close_def sys_called)

subsection \<open>What a function leaves open\<close>

text \<open>\<open>P\<close> holds of the result and the calls that were made.\<close>

definition runs :: "(int \<Rightarrow> calls \<Rightarrow> bool) \<Rightarrow> anet \<Rightarrow> (int \<times> anet) res \<Rightarrow> bool" where
  "runs P w m \<longleftrightarrow> (\<exists>r w' cs. m = Inr (r, w') \<and> err_ok w' \<and> an_log w' = an_log w @ cs \<and> P r cs)"

text \<open>An option could not be set.\<close>

fun setup_call :: "syscall \<Rightarrow> bool" where
  "setup_call (SysSetsockopt _ _ _) = True"
| "setup_call (SysGetFlags _) = True"
| "setup_call (SysSetFlags _ _) = True"
| "setup_call _ = False"

definition setup_failed :: "calls \<Rightarrow> bool" where
  "setup_failed cs \<longleftrightarrow> (\<exists>(c, r) \<in> set cs. setup_call c \<and> r = - 1)"

lemma setup_failed_simps [simp]:
  "\<not> setup_failed []" "setup_failed (cs @ ds) \<longleftrightarrow> setup_failed cs \<or> setup_failed ds"
  "setup_failed ((c, r) # cs) \<longleftrightarrow> setup_call c \<and> r = - 1 \<or> setup_failed cs"
  by (auto simp add: setup_failed_def)

text \<open>A new socket is the caller's, or closed, or, when an option could not be set, lost.\<close>

definition handed_over :: "int set \<Rightarrow> int \<Rightarrow> calls \<Rightarrow> bool" where
  "handed_over F r cs \<longleftrightarrow>
     foldl fd_step F cs = (if r \<noteq> - 1 then insert r F
       else if setup_failed cs then insert (snd (hd cs)) F else F) \<and>
     (r \<noteq> - 1 \<longrightarrow> r \<notin> F \<and> \<not> setup_failed cs)"

lemma runs_Inr [simp]:
  "runs P w (Inr (r, w')) \<longleftrightarrow> err_ok w' \<and> (\<exists>cs. an_log w' = an_log w @ cs \<and> P r cs)"
  by (auto simp add: runs_def)

lemmas anet_steps = sys_called Let_def anet_setopt_def anetNonBlock_def anetCreateSocket_def
  anet_connect_def anetListen_def

lemma anetUnixGenericConnect_runs:
  assumes "kernel_ok k" "err_ok w"
  shows "runs (handed_over (open_fds (an_log w))) w (anetUnixGenericConnect k path flags w)"
  using assms(2) kernel_ok_D(1) [OF assms(1), of "an_log w" AF_LOCAL]
  by (simp add: anetUnixGenericConnect_def anet_steps handed_over_def)

lemma anetTcpGenericConnect_runs:
  assumes "kernel_ok k" "err_ok w"
  shows "runs (handed_over (open_fds (an_log w))) w (anetTcpGenericConnect k addr port flags w)"
proof (cases "k_aton k addr")
  case None
  show ?thesis
  proof (cases "k_host k addr")
    case (Some h)
    have "peek h 0 4 = Inr (take 4 h)" using kernel_ok_D(3) [OF assms(1) Some] by (simp add: peek_def)
    then show ?thesis
      using None Some assms(2) kernel_ok_D(1) [OF assms(1), of "an_log w" AF_INET]
      by (simp add: anetTcpGenericConnect_def anet_address_def anet_steps handed_over_def)
  qed (use None assms(2) kernel_ok_D(1) [OF assms(1), of "an_log w" AF_INET] in
      \<open>simp add: anetTcpGenericConnect_def anet_address_def anet_steps handed_over_def\<close>)
qed (use assms(2) kernel_ok_D(1) [OF assms(1), of "an_log w" AF_INET] in
    \<open>simp add: anetTcpGenericConnect_def anet_address_def anet_steps handed_over_def\<close>)

lemma anetTcpServer_runs:
  assumes "kernel_ok k" "err_ok w"
  shows "runs (handed_over (open_fds (an_log w))) w (anetTcpServer k port bindaddr w)"
  using assms(2) kernel_ok_D(1) [OF assms(1), of "an_log w" AF_INET]
  by (simp add: anetTcpServer_def anet_steps handed_over_def split: option.split)

lemma anetUnixServer_runs:
  assumes "kernel_ok k" "err_ok w"
  shows "runs (handed_over (open_fds (an_log w))) w (anetUnixServer k path perm w)"
  using assms(2) kernel_ok_D(1) [OF assms(1), of "an_log w" AF_LOCAL]
  by (simp add: anetUnixServer_def anet_steps handed_over_def)

subsection \<open>The calls behind a socket that is returned\<close>

text \<open>A blocking connection: the socket, reusable, connected to the address of the host.\<close>

definition host_address :: "kernel \<Rightarrow> u8 list \<Rightarrow> u8 list option" where
  "host_address k addr = (case k_aton k addr of Some a \<Rightarrow> Some a | None \<Rightarrow> map_option (take 4) (k_host k addr))"

lemma anet_address_ok:
  assumes "kernel_ok k" "err_ok w"
  shows "anet_address k host w = (case host_address k host of Some a \<Rightarrow> Inr (Some a, w)
    | None \<Rightarrow> Inr (None, set_err ([99, 97, 110, 39, 116, 32, 114, 101, 115, 111, 108, 118, 101, 58, 32] @ host) w))"
  using assms kernel_ok_D(3) [OF assms(1), of host]
  by (auto simp add: anet_address_def host_address_def peek_def split: option.split)

lemma anetTcpConnect_calls:
  assumes "kernel_ok k" "err_ok w"
  shows "runs (\<lambda>r cs. r \<noteq> - 1 \<longrightarrow> (\<exists>a o' c. host_address k addr = Some a \<and> o' \<noteq> - 1 \<and> c \<noteq> - 1 \<and>
      cs = [(SysSocket AF_INET, r), (SysSetsockopt r SO_REUSEADDR 1, o'),
            (SysConnect r (InetAddr a (of_int port)), c)])) w (anetTcpConnect k addr port w)"
  using assms(2)
  by (simp add: anetTcpConnect_def anetTcpGenericConnect_def anet_address_ok [OF assms(1)] anet_steps
      split: option.split)

lemma anetTcpServer_calls:
  assumes "kernel_ok k" "err_ok w"
  shows "runs (\<lambda>r cs. r \<noteq> - 1 \<longrightarrow> (\<exists>a o' b l. (case bindaddr of None \<Rightarrow> a = [0, 0, 0, 0] | Some h \<Rightarrow> k_aton k h = Some a) \<and>
      o' \<noteq> - 1 \<and> b \<noteq> - 1 \<and> l \<noteq> - 1 \<and>
      cs = [(SysSocket AF_INET, r), (SysSetsockopt r SO_REUSEADDR 1, o'),
            (SysBind r (InetAddr a (of_int port)), b), (SysListen r 511, l)])) w
    (anetTcpServer k port bindaddr w)"
  using assms(2)
  by (simp add: anetTcpServer_def anet_steps split: option.split)

subsection \<open>Waiting for a connection\<close>

definition interrupted :: "kernel \<Rightarrow> int \<Rightarrow> anet \<Rightarrow> bool" where
  "interrupted k s w \<longleftrightarrow> k_ret k (an_log w) (SysAccept s) = - 1 \<and> k_errno k (an_log w) (SysAccept s) = EINTR"

text \<open>The state after \<open>n\<close> more calls of \<open>accept\<close>.\<close>

definition after_accepts :: "kernel \<Rightarrow> int \<Rightarrow> nat \<Rightarrow> anet \<Rightarrow> anet" where
  "after_accepts k s n w = (called k (SysAccept s) ^^ n) w"

lemma after_accepts_simps [simp]:
  "after_accepts k s 0 w = w"
  "after_accepts k s n (called k (SysAccept s) w) = after_accepts k s (Suc n) w"
  by (simp_all add: after_accepts_def funpow_swap1)

definition accept_result :: "kernel \<Rightarrow> int \<Rightarrow> anet \<Rightarrow> (int \<times> anet) res" where
  "accept_result k s w =
     (let w' = called k (SysAccept s) w; fd = k_ret k (an_log w) (SysAccept s)
      in if fd = - 1 then anet_fail k [97, 99, 99, 101, 112, 116] w' else Inr (fd, w'))"

lemma anetGenericAccept_step:
  "anetGenericAccept k s w =
     (if interrupted k s w then anetGenericAccept k s (called k (SysAccept s) w)
      else Some (accept_result k s w))"
  by (subst anetGenericAccept.simps) (simp add: sys_called interrupted_def accept_result_def)

lemma anetGenericAccept_ends:
  assumes "\<And>m. m < n \<Longrightarrow> interrupted k s (after_accepts k s m w)" "\<not> interrupted k s (after_accepts k s n w)"
  shows "anetGenericAccept k s w = Some (accept_result k s (after_accepts k s n w))"
  using assms
proof (induction n arbitrary: w)
  case (Suc n)
  have "anetGenericAccept k s (called k (SysAccept s) w) =
      Some (accept_result k s (after_accepts k s n (called k (SysAccept s) w)))"
    using Suc.prems by (intro Suc.IH) simp_all
  moreover have "interrupted k s w" using Suc.prems(1) [of 0] by simp
  ultimately show ?case by (subst anetGenericAccept_step) simp
qed (subst anetGenericAccept_step, simp)

lemma anetGenericAccept_Some:
  assumes "anetGenericAccept k s w = Some m"
  shows "\<exists>n. \<not> interrupted k s (after_accepts k s n w)"
proof (rule anetGenericAccept.raw_induct [where P = "\<lambda>k s w m. \<exists>n. \<not> interrupted k s (after_accepts k s n w)", OF _ assms])
  fix f k s w m
  assume IH: "\<And>k s w m. f k s w = Some m \<Longrightarrow> \<exists>n. \<not> interrupted k s (after_accepts k s n w)"
    and eq: "(let (fd, w) = sys k (SysAccept s) w
       in if fd = - 1 then
            if an_errno w = EINTR then f k s w else Some (anet_fail k [97, 99, 99, 101, 112, 116] w)
          else Some (Inr (fd, w))) = Some m"
  show "\<exists>n. \<not> interrupted k s (after_accepts k s n w)"
  proof (cases "interrupted k s w")
    case True
    then have "f k s (called k (SysAccept s) w) = Some m"
      using eq by (simp add: sys_called interrupted_def)
    from IH [OF this] show ?thesis by auto
  qed (auto intro: exI [of _ 0])
qed

end
