(* ===== verification/Vio.thy ===== *)
theory Vio
  imports Socket EventReader
begin

text \<open>
  The virtual I/O of \<open>src/src/protocol/vio.c\<close> over a file, a socket or a buffer, and the typed
  reads and writes of \<open>src/src/protocol/binary.c\<close> on it. The function pointers of a \<open>vio\<close>
  are set together by one of three initialisers, so the model is a datatype with one
  constructor for each and the operations are cases on it.
\<close>

subsection \<open>The three kinds (vio.c)\<close>

text \<open>
  A buffer is its block, the position and whether \<open>realloc\<close> has replaced the caller's block,
  whose pointer is dangling from then on.
\<close>

datatype vio = VioFile stream | VioNet sock | VioBuffer "u8 list" nat bool

definition vioFileRead :: "stream \<Rightarrow> u8 list \<Rightarrow> nat \<Rightarrow> (nat \<times> u8 list \<times> stream) res" where
  "vioFileRead fp b len = fread1 b 0 len fp"

text \<open>\<open>fwrite(buf, len, 1, fp)\<close> over whatever the file has at the position.\<close>

definition vioFileWrite :: "stream \<Rightarrow> u8 list \<Rightarrow> nat \<times> stream" where
  "vioFileWrite fp bs =
     (case fp of (content, pos) \<Rightarrow>
        (of_bool (bs \<noteq> []),
         (take pos content @ replicate (pos - length content) 0 @ bs @
            drop (pos + length bs) content, pos + length bs)))"

definition vioFileTell :: "stream \<Rightarrow> nat" where
  "vioFileTell fp = snd fp"

text \<open>
  The loop of \<open>vioNetRead\<close>. \<open>off\<close> is where \<open>buf\<close> points to in the block \<open>b\<close> and \<open>nread\<close> the
  result of the last \<open>read\<close>, which is added to it first: after \<open>EAGAIN\<close> that is \<open>-1\<close>.
\<close>

function vio_net_read ::
    "sock \<Rightarrow> u8 list \<Rightarrow> int \<Rightarrow> int \<Rightarrow> nat \<Rightarrow> (bool \<times> u8 list \<times> sock) res"
where
  "vio_net_read s b off nread len =
     (if len = 0 then Inr (True, b, s)
      else case sock_read len s of (k, bs, s') \<Rightarrow>
        if k = - 1 then
          if sk_again s' then vio_net_read s' b (off + nread) (- 1) len else Inr (False, b, s')
        else if k = 0 then Inr (False, b, s')
        else bindE (if 0 \<le> off + nread then poke b (nat (off + nread)) bs else Inl BufferOverflow)
               (\<lambda>b. vio_net_read s' b (off + nread) k (len - nat k)))"
  by pat_completeness auto

termination
  by (relation "measure (\<lambda>(s, _). in_size (sk_in s))") (auto dest: sock_read_decreases [OF sym])

declare vio_net_read.simps [simp del]

definition vioNetRead :: "sock \<Rightarrow> u8 list \<Rightarrow> nat \<Rightarrow> (bool \<times> u8 list \<times> sock) res" where
  "vioNetRead s b len = vio_net_read s b 0 0 len"

lemma sock_write_D:
  "(k, s') = sock_write bs s \<Longrightarrow> length (sk_room s') \<le> length (sk_room s) \<and>
     (k = - 1 \<longrightarrow> length (sk_room s') < length (sk_room s)) \<and> (k \<noteq> 0 \<longrightarrow> k \<noteq> - 1 \<longrightarrow> 0 < k)"
  by (auto simp add: sock_write_def split: list.splits room.splits)

text \<open>The same for \<open>vioNetWrite\<close>; \<open>b\<close> is the block the bytes come from.\<close>

function vio_net_write ::
    "sock \<Rightarrow> u8 list \<Rightarrow> int \<Rightarrow> int \<Rightarrow> nat \<Rightarrow> (bool \<times> sock) res"
where
  "vio_net_write s b off nwrite len =
     (if len = 0 then Inr (True, s)
      else if off + nwrite < 0 \<or> int (length b) < off + nwrite + int len then Inl OutOfBounds
      else case sock_write (take len (drop (nat (off + nwrite)) b)) s of (k, s') \<Rightarrow>
        if k = - 1 then
          if sk_again s' then vio_net_write s' b (off + nwrite) (- 1) len else Inr (False, s')
        else if k = 0 then Inr (False, s')
        else vio_net_write s' b (off + nwrite) k (len - nat k))"
  by pat_completeness auto

termination
  by (relation "measure (\<lambda>(s, _, _, _, len). len + length (sk_room s))") (auto dest!: sock_write_D)

declare vio_net_write.simps [simp del]

definition vioNetWrite :: "sock \<Rightarrow> u8 list \<Rightarrow> nat \<Rightarrow> (bool \<times> sock) res" where
  "vioNetWrite s b len = vio_net_write s b 0 0 len"

text \<open>\<open>blen - pos < len\<close> compares an \<open>off_t\<close> with a \<open>size_t\<close>: the difference is converted.\<close>

definition vioBufferRead ::
    "u8 list \<Rightarrow> nat \<Rightarrow> u8 list \<Rightarrow> nat \<Rightarrow> (bool \<times> u8 list \<times> nat) res"
where
  "vioBufferRead blk pos b len =
     (if size_of_int (int (length blk) - int pos) < len then Inr (False, b, pos)
      else bindE (peek blk pos len) (\<lambda>bs. bindE (poke b 0 bs) (\<lambda>b. Inr (True, b, pos + len))))"

text \<open>A block that is too small is replaced by one of \<open>2 * (blen + len)\<close> bytes.\<close>

definition vioBufferWrite ::
    "u8 list \<Rightarrow> nat \<Rightarrow> bool \<Rightarrow> u8 list \<Rightarrow> (u8 list \<times> nat \<times> bool) res"
where
  "vioBufferWrite blk pos moved bs =
     (let (blk, moved) =
            (if size_of_int (int (length blk) - int pos) < length bs
             then (blk @ replicate (2 * (length blk + length bs) - length blk) 0, True)
             else (blk, moved))
      in bindE (poke blk pos bs) (\<lambda>blk. Inr (blk, pos + length bs, moved)))"

definition vioBufferTell :: "nat \<Rightarrow> nat" where
  "vioBufferTell pos = pos"

definition vioInitWithFile :: "stream \<Rightarrow> vio" where
  "vioInitWithFile fp = VioFile fp"

definition vioInitWithNet :: "sock \<Rightarrow> vio" where
  "vioInitWithNet fd = VioNet fd"

definition vioInitWithBuffer :: "u8 list \<Rightarrow> vio" where
  "vioInitWithBuffer buf = VioBuffer buf 0 False"

subsection \<open>The public interface\<close>

text \<open>\<open>vioRead(v, b, len)\<close>: nonzero on success. \<open>b\<close> is the block \<open>buf\<close> points to the start of.\<close>

definition vioRead :: "vio \<Rightarrow> u8 list \<Rightarrow> nat \<Rightarrow> (bool \<times> u8 list \<times> vio) res" where
  "vioRead v b len =
     (case v of
        VioFile fp \<Rightarrow> bindE (vioFileRead fp b len) (\<lambda>(c, b, fp). Inr (c \<noteq> 0, b, VioFile fp))
      | VioNet s \<Rightarrow> bindE (vioNetRead s b len) (\<lambda>(ok, b, s). Inr (ok, b, VioNet s))
      | VioBuffer blk pos moved \<Rightarrow>
          bindE (vioBufferRead blk pos b len) (\<lambda>(ok, b, pos). Inr (ok, b, VioBuffer blk pos moved)))"

definition vioWrite :: "vio \<Rightarrow> u8 list \<Rightarrow> (bool \<times> vio) res" where
  "vioWrite v bs =
     (case v of
        VioFile fp \<Rightarrow> (case vioFileWrite fp bs of (c, fp) \<Rightarrow> Inr (c \<noteq> 0, VioFile fp))
      | VioNet s \<Rightarrow> bindE (vioNetWrite s bs (length bs)) (\<lambda>(ok, s). Inr (ok, VioNet s))
      | VioBuffer blk pos moved \<Rightarrow>
          bindE (vioBufferWrite blk pos moved bs) (\<lambda>(blk, pos, moved).
            Inr (True, VioBuffer blk pos moved)))"

text \<open>The \<open>tell\<close> pointer of a socket is NULL.\<close>

definition vioTell :: "vio \<Rightarrow> nat res" where
  "vioTell v =
     (case v of VioFile fp \<Rightarrow> Inr (vioFileTell fp) | VioNet s \<Rightarrow> Inl NullDeref
      | VioBuffer blk pos moved \<Rightarrow> Inr (vioBufferTell pos))"

subsection \<open>Typed reads (binary.c)\<close>

text \<open>\<open>readBinary\<close> into a block of \<open>len\<close> bytes asserts that everything was there.\<close>

definition readBinary :: "vio \<Rightarrow> nat \<Rightarrow> (u8 list \<times> vio) res" where
  "readBinary v len = bindE (vioRead v (replicate len 0) len) (\<lambda>(ok, b, v).
     bindE (checkE AssertFailed ok) (\<lambda>_. Inr (b, v)))"

definition writeBinary :: "vio \<Rightarrow> u8 list \<Rightarrow> vio res" where
  "writeBinary v bs = bindE (vioWrite v bs) (\<lambda>(_, v). Inr v)"

text \<open>Only for a buffer: \<open>strdup\<close> of the C string at the position.\<close>

definition readStr :: "vio \<Rightarrow> (u8 list \<times> vio) res" where
  "readStr v =
     (case v of
        VioBuffer blk pos moved \<Rightarrow>
          bindE (cstring_at blk pos) (\<lambda>s. Inr (s, VioBuffer blk (pos + (length s + 1)) moved))
      | _ \<Rightarrow> Inl OutOfBounds)"

definition vioReadUint8 :: "vio \<Rightarrow> (u8 \<times> vio) res" where
  "vioReadUint8 v = bindE (readBinary v 1) (\<lambda>(b, v). Inr (b ! 0, v))"

definition vioReadInt8 :: "vio \<Rightarrow> (u8 \<times> vio) res" where
  "vioReadInt8 v = bindE (readBinary v 1) (\<lambda>(b, v). Inr (b ! 0, v))"

definition vioReadUint16 :: "vio \<Rightarrow> (u16 \<times> vio) res" where
  "vioReadUint16 v = bindE (readBinary v 2) (\<lambda>(b, v). Inr (of_nat (le_val b), v))"

definition vioReadInt16 :: "vio \<Rightarrow> (u16 \<times> vio) res" where
  "vioReadInt16 v = bindE (readBinary v 2) (\<lambda>(b, v). Inr (of_nat (le_val b), v))"

definition vioReadUint24 :: "vio \<Rightarrow> (u32 \<times> vio) res" where
  "vioReadUint24 v = bindE (readBinary v 3) (\<lambda>(b, v). Inr (uint24_of b, v))"

definition vioReadInt24 :: "vio \<Rightarrow> (u32 \<times> vio) res" where
  "vioReadInt24 v = bindE (readBinary v 3) (\<lambda>(b, v). Inr (int24_of b, v))"

definition vioReadUint32 :: "vio \<Rightarrow> (u32 \<times> vio) res" where
  "vioReadUint32 v = bindE (readBinary v 4) (\<lambda>(b, v). Inr (of_nat (le_val b), v))"

definition vioReadInt32 :: "vio \<Rightarrow> (u32 \<times> vio) res" where
  "vioReadInt32 v = bindE (readBinary v 4) (\<lambda>(b, v). Inr (of_nat (le_val b), v))"

definition vioReadUint64 :: "vio \<Rightarrow> (u64 \<times> vio) res" where
  "vioReadUint64 v = bindE (readBinary v 8) (\<lambda>(b, v). Inr (of_nat (le_val b), v))"

definition vioReadInt64 :: "vio \<Rightarrow> (u64 \<times> vio) res" where
  "vioReadInt64 v = bindE (readBinary v 8) (\<lambda>(b, v). Inr (of_nat (le_val b), v))"

text \<open>\<open>readEncodeLength\<close> of \<open>src/src/protocol/protocol.c\<close>.\<close>

definition readEncodeLength :: "vio \<Rightarrow> (u64 \<times> vio) res" where
  "readEncodeLength io =
     bindE (vioReadUint8 io) (\<lambda>(first, io).
       if first < 251 then Inr (ucast first, io)
       else if first = 251 then Inr (0, io)
       else if first = 252 then bindE (vioReadUint16 io) (\<lambda>(x, io). Inr (ucast x, io))
       else if first = 253 then bindE (vioReadUint24 io) (\<lambda>(x, io). Inr (ucast x, io))
       else if first = 254 then vioReadUint64 io
       else Inr (0, io))"

subsection \<open>A buffer is a byte stream\<close>

definition buf_wf :: "vio \<Rightarrow> bool" where
  "buf_wf v = (case v of VioBuffer blk pos moved \<Rightarrow> pos \<le> length blk \<and> length blk < 2 ^ 64 | _ \<Rightarrow> False)"

definition buf_rest :: "vio \<Rightarrow> u8 list" where
  "buf_rest v = (case v of VioBuffer blk pos moved \<Rightarrow> drop pos blk | _ \<Rightarrow> [])"

definition buf_pos :: "vio \<Rightarrow> nat" where
  "buf_pos v = (case v of VioBuffer blk pos moved \<Rightarrow> pos | _ \<Rightarrow> 0)"

definition buf_rd :: "nat \<Rightarrow> vio \<Rightarrow> (u8 list \<times> vio) res" where
  "buf_rd n v = readBinary v n"

lemma size_of_int_diff:
  "pos \<le> n \<Longrightarrow> n < 2 ^ 64 \<Longrightarrow> size_of_int (int n - int pos) = n - pos"
  using size_of_int_nat [of "n - pos"] by (simp add: of_nat_diff)

lemma readBinary_buffer:
  assumes "pos \<le> length blk" "length blk < 2 ^ 64"
  shows "readBinary (VioBuffer blk pos moved) n =
    (if n \<le> length blk - pos then Inr (take n (drop pos blk), VioBuffer blk (pos + n) moved)
     else Inl AssertFailed)"
  using assms
  by (auto simp add: readBinary_def vioRead_def vioBufferRead_def size_of_int_diff peek_def poke_def)

interpretation vbuf: byte_stream buf_rd buf_rest buf_pos buf_wf
proof unfold_locales
  fix s bs r
  assume s: "buf_wf s" "buf_rest s = bs @ r"
  obtain blk pos moved where v: "s = VioBuffer blk pos moved"
    using s(1) by (cases s) (simp_all add: buf_wf_def)
  have d: "drop pos blk = bs @ r" and w: "pos \<le> length blk" "length blk < 2 ^ 64"
    using s by (simp_all add: v buf_rest_def buf_wf_def)
  have n: "length bs \<le> length blk - pos" using arg_cong [OF d, of length] by simp
  have "drop (pos + length bs) blk = r"
    using arg_cong [OF d, of "drop (length bs)"] by (simp add: add.commute)
  then show "\<exists>s'. buf_rd (length bs) s = Inr (bs, s') \<and> buf_rest s' = r \<and>
      buf_pos s' = buf_pos s + length bs \<and> buf_wf s'"
    using n w d by (simp add: v buf_rd_def readBinary_buffer buf_rest_def buf_pos_def buf_wf_def)
next
  fix s n
  assume "buf_wf s" "length (buf_rest s) < n"
  then show "\<exists>e. buf_rd n s = Inl e"
    by (cases s) (simp_all add: buf_wf_def buf_rest_def buf_rd_def readBinary_buffer)
qed

interpretation vlen: lenenc_reader buf_rd buf_rest buf_pos buf_wf readEncodeLength
proof unfold_locales
  fix s
  assume wf: "buf_wf s"
  have w2: "(ucast (of_nat (le_val b) :: u16) :: u64) = of_nat (le_val b)"
    if "length b = 2" for b
    using le_val_bound [of b] that by (simp add: unsigned_of_nat take_bit_nat_eq_self)
  have w3: "(ucast (uint24_of b) :: u64) = of_nat (le_val b)" if "length b = 3" for b
    using le_val_bound [of b] that by (simp add: uint24_of_le unsigned_of_nat take_bit_nat_eq_self)
  show "readEncodeLength s = bindE (buf_rd 1 s) (\<lambda>(b, s1).
        let v = b ! 0 in
        if v < 251 then Inr (ucast v, s1)
        else if v = 251 then Inr (0, s1)
        else if v = 252 then bindE (buf_rd 2 s1) (\<lambda>(x, s2). Inr (of_nat (le_val x), s2))
        else if v = 253 then bindE (buf_rd 3 s1) (\<lambda>(x, s2). Inr (of_nat (le_val x), s2))
        else if v = 254 then bindE (buf_rd 8 s1) (\<lambda>(x, s2). Inr (of_nat (le_val x), s2))
        else Inr (0, s1))"
  proof -
    obtain blk pos moved where v: "s = VioBuffer blk pos moved"
      using wf by (cases s) (simp_all add: buf_wf_def)
    have w: "pos \<le> length blk" "length blk < 2 ^ 64" using wf by (simp_all add: v buf_wf_def)
    note r = readBinary_buffer [OF w] readBinary_buffer [of "Suc pos", OF _ w(2)]
    show ?thesis
    proof (cases "pos < length blk")
      case True
      show ?thesis
        using True w2 w3 by (simp add: v readEncodeLength_def buf_rd_def vioReadUint8_def vioReadUint16_def
            vioReadUint24_def vioReadUint64_def r Let_def)
    next
      case False
      then show ?thesis by (simp add: v readEncodeLength_def buf_rd_def vioReadUint8_def r)
    qed
  qed
qed

end
