(* ===== verification/Sha1.thy ===== *)
theory Sha1
  imports EventReader
begin

text \<open>
  The digest of \<open>src/src/protocol/sha1.c\<close>: the compression of one block with its circular
  sixteen-word schedule, the incremental interface, and the proof that they compute the
  digest of FIPS 180 on the concatenation of everything that was put in.
\<close>

subsection \<open>The rounds (sha1.c)\<close>

definition rol :: "u32 \<Rightarrow> nat \<Rightarrow> u32" where
  "rol value bits = push_bit bits value OR drop_bit (32 - bits) value"

text \<open>
  \<open>blk0(i)\<close> turns word \<open>i\<close> of the block around, \<open>blk(i)\<close> extends the schedule in place; both
  store the word and return it.
\<close>

definition blk0 :: "nat \<Rightarrow> u32 list \<Rightarrow> u32 \<times> u32 list" where
  "blk0 i l =
     (let x = (rol (l ! i) 24 AND 0xFF00FF00) OR (rol (l ! i) 8 AND 0x00FF00FF)
      in (x, l[i := x]))"

definition blk :: "nat \<Rightarrow> u32 list \<Rightarrow> u32 \<times> u32 list" where
  "blk i l =
     (let x = rol (l ! ((i + 13) mod 16) XOR l ! ((i + 8) mod 16) XOR l ! ((i + 2) mod 16) XOR
                   l ! (i mod 16)) 1
      in (x, l[i mod 16 := x]))"

text \<open>
  The macros \<open>R0\<close> to \<open>R4\<close>: from \<open>(v, w, x, y, z)\<close> the new \<open>w\<close> and \<open>z\<close>. The calls pass the
  five variables rotated by one place each time, which \<open>turn\<close> does here.
\<close>

type_synonym vars = "u32 \<times> u32 \<times> u32 \<times> u32 \<times> u32"

definition R0 :: "nat \<Rightarrow> vars \<times> u32 list \<Rightarrow> vars \<times> u32 list" where
  "R0 i s = (case s of ((v, w, x, y, z), l) \<Rightarrow> case blk0 i l of (b, l) \<Rightarrow>
     ((v, rol w 30, x, y, z + (((w AND (x XOR y)) XOR y) + b + 0x5A827999 + rol v 5)), l))"

definition R1 :: "nat \<Rightarrow> vars \<times> u32 list \<Rightarrow> vars \<times> u32 list" where
  "R1 i s = (case s of ((v, w, x, y, z), l) \<Rightarrow> case blk i l of (b, l) \<Rightarrow>
     ((v, rol w 30, x, y, z + (((w AND (x XOR y)) XOR y) + b + 0x5A827999 + rol v 5)), l))"

definition R2 :: "nat \<Rightarrow> vars \<times> u32 list \<Rightarrow> vars \<times> u32 list" where
  "R2 i s = (case s of ((v, w, x, y, z), l) \<Rightarrow> case blk i l of (b, l) \<Rightarrow>
     ((v, rol w 30, x, y, z + ((w XOR x XOR y) + b + 0x6ED9EBA1 + rol v 5)), l))"

definition R3 :: "nat \<Rightarrow> vars \<times> u32 list \<Rightarrow> vars \<times> u32 list" where
  "R3 i s = (case s of ((v, w, x, y, z), l) \<Rightarrow> case blk i l of (b, l) \<Rightarrow>
     ((v, rol w 30, x, y, z + ((((w OR x) AND y) OR (w AND x)) + b + 0x8F1BBCDC + rol v 5)), l))"

definition R4 :: "nat \<Rightarrow> vars \<times> u32 list \<Rightarrow> vars \<times> u32 list" where
  "R4 i s = (case s of ((v, w, x, y, z), l) \<Rightarrow> case blk i l of (b, l) \<Rightarrow>
     ((v, rol w 30, x, y, z + ((w XOR x XOR y) + b + 0xCA62C1D6 + rol v 5)), l))"

definition turn :: "vars \<Rightarrow> vars" where
  "turn s = (case s of (v, w, x, y, z) \<Rightarrow> (z, v, w, x, y))"

text \<open>Call \<open>i\<close> of the eighty in the unrolled body of \<open>SHA1Transform\<close>.\<close>

definition sha1_call :: "nat \<Rightarrow> vars \<times> u32 list \<Rightarrow> vars \<times> u32 list" where
  "sha1_call i s =
     (if i < 16 then R0 i s else if i < 20 then R1 i s else if i < 40 then R2 i s
      else if i < 60 then R3 i s else R4 i s)"

definition load_words :: "u8 list \<Rightarrow> u32 list" where
  "load_words buffer = map (\<lambda>i. of_nat (le_val (take 4 (drop (4 * i) buffer)))) [0..<16]"

definition SHA1Transform :: "vars \<Rightarrow> u8 list \<Rightarrow> vars" where
  "SHA1Transform state buffer =
     (case state of (a0, b0, c0, d0, e0) \<Rightarrow>
        case fst (fold (\<lambda>i s. apfst turn (sha1_call i s)) [0..<80] (state, load_words buffer))
        of (a, b, c, d, e) \<Rightarrow> (a0 + a, b0 + b, c0 + c, d0 + d, e0 + e))"

subsection \<open>The incremental interface\<close>

record SHA1_CTX =
  sh_state :: vars
  sh_count0 :: u32
  sh_count1 :: u32
  sh_buffer :: "u8 list"

text \<open>The array \<open>buffer\<close> of an uninitialised context is taken as zeroes; it is written before it is read.\<close>

definition SHA1Init :: SHA1_CTX where
  "SHA1Init = \<lparr>sh_state = (0x67452301, 0xEFCDAB89, 0x98BADCFE, 0x10325476, 0xC3D2E1F0),
     sh_count0 = 0, sh_count1 = 0, sh_buffer = replicate 64 0\<rparr>"

text \<open>\<open>for (; i + 63 < len; i += 64) SHA1Transform(context->state, &data[i])\<close>\<close>

function sha1_blocks :: "u8 list \<Rightarrow> nat \<Rightarrow> nat \<Rightarrow> vars \<Rightarrow> nat \<times> vars" where
  "sha1_blocks data len i st =
     (if i + 63 < len then sha1_blocks data len (i + 64) (SHA1Transform st (take 64 (drop i data)))
      else (i, st))"
  by pat_completeness auto

termination
  by (relation "measure (\<lambda>(_, len, i, _). len - i)") auto

declare sha1_blocks.simps [simp del]

text \<open>\<open>data\<close> is the block of \<open>len\<close> bytes; lengths up to \<open>2^32 - 64\<close> keep the 32-bit index sums exact.\<close>

definition SHA1Update :: "SHA1_CTX \<Rightarrow> u8 list \<Rightarrow> SHA1_CTX res" where
  "SHA1Update context data =
     (let len = length data; j = sh_count0 context;
          c0 = j + push_bit 3 (of_nat len);
          c1 = (if c0 < j then sh_count1 context + 1 else sh_count1 context);
          c1 = c1 + drop_bit 29 (of_nat len);
          context = context\<lparr>sh_count0 := c0, sh_count1 := c1\<rparr>;
          j = unat (drop_bit 3 j AND 63)
      in bindE (checkE IntOverflow (j + len < 2 ^ 32 - 64)) (\<lambda>_.
         bindE (if j + len > 63 then
                  bindE (poke (sh_buffer context) j (take (64 - j) data)) (\<lambda>buf.
                    case sha1_blocks data len (64 - j) (SHA1Transform (sh_state context) buf) of (i, st) \<Rightarrow>
                      Inr (i, 0, context\<lparr>sh_state := st, sh_buffer := buf\<rparr>))
                else Inr (0, j, context)) (\<lambda>(i, j, context).
         bindE (poke (sh_buffer context) j (drop i data)) (\<lambda>buf.
           Inr (context\<lparr>sh_buffer := buf\<rparr>)))))"

text \<open>\<open>finalcount\<close>, the bit count with its most significant byte first.\<close>

definition finalcount :: "SHA1_CTX \<Rightarrow> u8 list" where
  "finalcount context = map (\<lambda>i. ucast (drop_bit ((3 - (i AND 3)) * 8)
     (if i \<ge> 4 then sh_count0 context else sh_count1 context) AND 255)) [0..<8]"

text \<open>\<open>while ((context->count[0] & 504) != 448)\<close>: at most 64 turns.\<close>

fun sha1_pad :: "nat \<Rightarrow> SHA1_CTX \<Rightarrow> SHA1_CTX res" where
  "sha1_pad 0 context = Inl OutOfFuel"
| "sha1_pad (Suc fuel) context =
     (if sh_count0 context AND 504 \<noteq> 448
      then bindE (SHA1Update context [0]) (sha1_pad fuel) else Inr context)"

definition state_words :: "vars \<Rightarrow> u32 list" where
  "state_words st = (case st of (a, b, c, d, e) \<Rightarrow> [a, b, c, d, e])"

definition SHA1Final :: "SHA1_CTX \<Rightarrow> u8 list res" where
  "SHA1Final context =
     (let fc = finalcount context
      in bindE (SHA1Update context [128]) (\<lambda>context.
         bindE (sha1_pad 65 context) (\<lambda>context.
         bindE (SHA1Update context fc) (\<lambda>context.
           Inr (map (\<lambda>i. ucast (drop_bit ((3 - (i AND 3)) * 8)
                      (state_words (sh_state context) ! (drop_bit 2 i)) AND 255)) [0..<20])))))"

subsection \<open>FIPS 180\<close>

definition be_val :: "u8 list \<Rightarrow> nat" where
  "be_val bs = le_val (rev bs)"

fun fips_W :: "u8 list \<Rightarrow> nat \<Rightarrow> u32" where
  "fips_W M t =
     (if t < 16 then of_nat (be_val (take 4 (drop (4 * t) M)))
      else rol (fips_W M (t - 3) XOR fips_W M (t - 8) XOR fips_W M (t - 14) XOR fips_W M (t - 16)) 1)"

declare fips_W.simps [simp del]

definition fips_f :: "nat \<Rightarrow> u32 \<Rightarrow> u32 \<Rightarrow> u32 \<Rightarrow> u32" where
  "fips_f t x y z =
     (if t < 20 then (x AND y) XOR (NOT x AND z)
      else if t < 40 then x XOR y XOR z
      else if t < 60 then (x AND y) XOR (x AND z) XOR (y AND z)
      else x XOR y XOR z)"

definition fips_K :: "nat \<Rightarrow> u32" where
  "fips_K t = (if t < 20 then 0x5A827999 else if t < 40 then 0x6ED9EBA1
     else if t < 60 then 0x8F1BBCDC else 0xCA62C1D6)"

definition fips_step :: "u8 list \<Rightarrow> nat \<Rightarrow> vars \<Rightarrow> vars" where
  "fips_step M t s = (case s of (a, b, c, d, e) \<Rightarrow>
     (rol a 5 + fips_f t b c d + e + fips_K t + fips_W M t, a, rol b 30, c, d))"

definition fips_block :: "vars \<Rightarrow> u8 list \<Rightarrow> vars" where
  "fips_block H M =
     (case H of (a0, b0, c0, d0, e0) \<Rightarrow> case fold (fips_step M) [0..<80] H of (a, b, c, d, e) \<Rightarrow>
        (a0 + a, b0 + b, c0 + c, d0 + d, e0 + e))"

function fips_blocks :: "vars \<Rightarrow> u8 list \<Rightarrow> vars" where
  "fips_blocks H m = (if length m < 64 then H else fips_blocks (fips_block H (take 64 m)) (drop 64 m))"
  by pat_completeness auto

termination
  by (relation "measure (\<lambda>(_, m). length m)") auto

declare fips_blocks.simps [simp del]

definition fips_pad :: "u8 list \<Rightarrow> u8 list" where
  "fips_pad m = m @ 128 # replicate ((119 - length m mod 64) mod 64) 0 @ be_bytes 8 (8 * length m)"

definition fips_init :: vars where
  "fips_init = (0x67452301, 0xEFCDAB89, 0x98BADCFE, 0x10325476, 0xC3D2E1F0)"

definition sha1 :: "u8 list \<Rightarrow> u8 list" where
  "sha1 m = concat (map (\<lambda>w. be_bytes 4 (unat w)) (state_words (fips_blocks fips_init (fips_pad m))))"

subsection \<open>The rounds compute the FIPS compression\<close>

lemma code_ch: "(((w :: u32) AND (x XOR y)) XOR y) = (w AND x) XOR (NOT w AND y)"
  by (rule bit_word_eqI) (auto simp add: bit_simps)

lemma code_maj: "((((w :: u32) OR x) AND y) OR (w AND x)) = (w AND x) XOR (w AND y) XOR (x AND y)"
  by (rule bit_word_eqI) (auto simp add: bit_simps)

lemma bit_u8_high: "8 \<le> n \<Longrightarrow> \<not> bit (x :: u8) n"
  using bit_imp_le_length [of x n] by auto

lemma of_nat_le_val_4: "of_nat (le_val [a, b, c, d]) =
    (ucast a :: u32) OR push_bit 8 (ucast b) OR push_bit 16 (ucast c) OR push_bit 24 (ucast d)"
proof -
  have "of_nat (le_val [a, b, c, d]) =
      (ucast a :: u32) + push_bit 8 (ucast b) + push_bit 16 (ucast c) + push_bit 24 (ucast d)"
    by (simp add: ucast_u8_of_nat push_bit_word_of_nat algebra_simps del: of_nat_unat)
  also have "\<dots> = (ucast a :: u32) OR push_bit 8 (ucast b) OR push_bit 16 (ucast c) OR push_bit 24 (ucast d)"
    by (subst disjunctive_add, (auto simp add: bit_simps bit_u8_high)[])+ (simp add: or.assoc)
  finally show ?thesis .
qed

lemma byte_masks:
  "(0xFF00FF00 :: u32) = push_bit 24 (mask 8) OR push_bit 8 (mask 8)"
  "(0x00FF00FF :: u32) = push_bit 16 (mask 8) OR mask 8"
  by (simp_all add: mask_numeral)

text \<open>Two rotations and two masks reverse the bytes of a word.\<close>

lemma bswap_bytes:
  "(rol (of_nat (le_val [a, b, c, d])) 24 AND 0xFF00FF00) OR
   (rol (of_nat (le_val [a, b, c, d])) 8 AND 0x00FF00FF) = of_nat (be_val [a, b, c, d])"
  (is "?l = ?r")
proof (rule bit_word_eqI)
  fix n assume "n < LENGTH(32)"
  then have "n < 8 \<or> 8 \<le> n \<and> n < 16 \<or> 16 \<le> n \<and> n < 24 \<or> 24 \<le> n \<and> n < 32" by auto
  then show "bit ?l n \<longleftrightarrow> bit ?r n"
    unfolding be_val_def rev.simps append.simps of_nat_le_val_4
    by (elim disjE conjE) (auto simp add: byte_masks rol_def bit_simps bit_u8_high)
qed

text \<open>
  The circular block before call \<open>i\<close>: the places of the last sixteen schedule words hold them,
  the places not yet reached hold the little-endian words of the block.
\<close>

definition sched_ok :: "u8 list \<Rightarrow> nat \<Rightarrow> u32 list \<Rightarrow> bool" where
  "sched_ok M i l \<longleftrightarrow> length l = 16 \<and>
     (\<forall>j < i. i \<le> j + 16 \<longrightarrow> l ! (j mod 16) = fips_W M j) \<and>
     (\<forall>k. i \<le> k \<longrightarrow> k < 16 \<longrightarrow> l ! k = load_words M ! k)"

lemma list4_conv: "length bs = 4 \<Longrightarrow> bs = [bs ! 0, bs ! 1, bs ! 2, bs ! 3]"
  by (auto simp: eval_nat_numeral length_Suc_conv)

lemma blk0_sched:
  assumes "sched_ok M i l" "i < 16" "length M = 64"
  shows "\<exists>l'. blk0 i l = (fips_W M i, l') \<and> sched_ok M (Suc i) l'"
proof -
  define bs where "bs = take 4 (drop (4 * i) M)"
  have "length bs = 4" using assms(2,3) by (simp add: bs_def)
  then have bs: "bs = [bs ! 0, bs ! 1, bs ! 2, bs ! 3]" by (rule list4_conv)
  have l: "l ! i = of_nat (le_val bs)" "length l = 16"
    using assms(1,2) by (auto simp add: sched_ok_def load_words_def bs_def)
  have w: "(rol (l ! i) 24 AND 0xFF00FF00) OR (rol (l ! i) 8 AND 0x00FF00FF) = fips_W M i"
    using assms(2) bs bswap_bytes [of "bs ! 0" "bs ! 1" "bs ! 2" "bs ! 3"]
    by (simp add: fips_W.simps [of M i] bs_def [symmetric] l(1))
  then have "blk0 i l = (fips_W M i, l[i := fips_W M i])" by (simp add: blk0_def Let_def)
  moreover have "sched_ok M (Suc i) (l[i := fips_W M i])"
    unfolding sched_ok_def
  proof (intro conjI allI impI)
    fix j assume "j < Suc i" "Suc i \<le> j + 16"
    then show "l[i := fips_W M i] ! (j mod 16) = fips_W M j"
      using assms l(2) by (cases "j = i") (auto simp add: sched_ok_def)
  next
    fix k assume "Suc i \<le> k" "k < 16"
    then show "l[i := fips_W M i] ! k = load_words M ! k" using assms by (simp add: sched_ok_def)
  qed (simp add: l)
  ultimately show ?thesis by blast
qed

lemma blk_sched:
  assumes "sched_ok M i l" "16 \<le> i"
  shows "\<exists>l'. blk i l = (fips_W M i, l') \<and> sched_ok M (Suc i) l'"
proof -
  have o: "l ! ((i + 13) mod 16) = fips_W M (i - 3)" "l ! ((i + 8) mod 16) = fips_W M (i - 8)"
    "l ! ((i + 2) mod 16) = fips_W M (i - 14)" "l ! (i mod 16) = fips_W M (i - 16)"
    and len: "length l = 16"
  proof -
    have m: "(i + 13) mod 16 = (i - 3) mod 16" "(i + 8) mod 16 = (i - 8) mod 16"
      "(i + 2) mod 16 = (i - 14) mod 16" "i mod 16 = (i - 16) mod 16"
    proof -
      have "i + 13 = (i - 3) + 16" "i + 8 = (i - 8) + 16" "i + 2 = (i - 14) + 16" "i = (i - 16) + 16"
        using assms(2) by simp_all
      then show "(i + 13) mod 16 = (i - 3) mod 16" "(i + 8) mod 16 = (i - 8) mod 16"
        "(i + 2) mod 16 = (i - 14) mod 16" "i mod 16 = (i - 16) mod 16"
        by (metis mod_add_self2)+
    qed
    show "l ! ((i + 13) mod 16) = fips_W M (i - 3)" "l ! ((i + 8) mod 16) = fips_W M (i - 8)"
      "l ! ((i + 2) mod 16) = fips_W M (i - 14)" "l ! (i mod 16) = fips_W M (i - 16)" "length l = 16"
      unfolding m using assms by (simp_all add: sched_ok_def)
  qed
  have "rol (l ! ((i + 13) mod 16) XOR l ! ((i + 8) mod 16) XOR l ! ((i + 2) mod 16) XOR l ! (i mod 16)) 1 =
      fips_W M i"
    unfolding o using assms(2) by (simp add: fips_W.simps [of M i])
  then have "blk i l = (fips_W M i, l[i mod 16 := fips_W M i])" by (simp add: blk_def Let_def)
  moreover have "sched_ok M (Suc i) (l[i mod 16 := fips_W M i])"
    unfolding sched_ok_def
  proof (intro conjI allI impI)
    fix j assume j: "j < Suc i" "Suc i \<le> j + 16"
    show "l[i mod 16 := fips_W M i] ! (j mod 16) = fips_W M j"
    proof (cases "j = i")
      case False
      then have "j < i" "i - j < 16" using j by simp_all
      then have "j mod 16 \<noteq> i mod 16"
        by (metis mod_eq_dvd_iff_nat less_imp_le zero_less_diff nat_dvd_not_less)
      with False j assms show ?thesis by (simp add: sched_ok_def)
    qed (simp add: len)
  qed (use len assms in simp_all)
  ultimately show ?thesis by blast
qed

lemma sha1_call_step:
  assumes "sched_ok M i l" "length M = 64" "i < 80"
  shows "\<exists>l'. apfst turn (sha1_call i (st, l)) = (fips_step M i st, l') \<and> sched_ok M (Suc i) l'"
proof -
  obtain a b c d e where st: "st = (a, b, c, d, e)" by (cases st)
  show ?thesis
  proof (cases "i < 16")
    case True
    then obtain l' where "blk0 i l = (fips_W M i, l')" "sched_ok M (Suc i) l'"
      using blk0_sched [OF assms(1) _ assms(2)] by blast
    with True show ?thesis
      by (simp add: sha1_call_def R0_def st turn_def fips_step_def fips_f_def fips_K_def code_ch add_ac)
  next
    case False
    then obtain l' where "blk i l = (fips_W M i, l')" "sched_ok M (Suc i) l'"
      using blk_sched [OF assms(1)] by auto
    with False show ?thesis
      by (simp add: sha1_call_def R1_def R2_def R3_def R4_def st turn_def fips_step_def fips_f_def
          fips_K_def code_ch code_maj add_ac)
  qed
qed

lemma sha1_calls:
  assumes "length M = 64" "n \<le> 80"
  shows "\<exists>l. fold (\<lambda>i s. apfst turn (sha1_call i s)) [0..<n] (st, load_words M) =
    (fold (fips_step M) [0..<n] st, l) \<and> sched_ok M n l"
  using assms(2)
proof (induction n)
  case 0
  then show ?case by (simp add: sched_ok_def load_words_def)
next
  case (Suc n)
  then obtain l where l: "fold (\<lambda>i s. apfst turn (sha1_call i s)) [0..<n] (st, load_words M) =
      (fold (fips_step M) [0..<n] st, l)" "sched_ok M n l" by (blast dest: Suc_leD)
  obtain l' where "apfst turn (sha1_call n (fold (fips_step M) [0..<n] st, l)) =
      (fips_step M n (fold (fips_step M) [0..<n] st), l')" "sched_ok M (Suc n) l'"
    using sha1_call_step [OF l(2) assms(1)] Suc.prems by fastforce
  with l(1) show ?case by simp
qed

lemma SHA1Transform_fips:
  assumes "length M = 64"
  shows "SHA1Transform st M = fips_block st M"
proof -
  obtain l where "fold (\<lambda>i s. apfst turn (sha1_call i s)) [0..<80] (st, load_words M) =
      (fold (fips_step M) [0..<80] st, l)" using sha1_calls [OF assms, of 80 st] by auto
  then show ?thesis by (simp only: SHA1Transform_def fips_block_def fst_conv)
qed

subsection \<open>The incremental interface computes the digest of the concatenation\<close>

lemma fips_blocks_append:
  "fips_blocks H (m @ d) = fips_blocks (fips_blocks H m) (drop (64 * (length m div 64)) m @ d)"
proof (induction H m rule: fips_blocks.induct)
  case (1 H m)
  show ?case
  proof (cases "length m < 64")
    case True
    then show ?thesis by (simp add: fips_blocks.simps [of H m])
  next
    case False
    have "64 * (length m div 64) = 64 + 64 * (length (drop 64 m) div 64)"
      using False by (simp add: le_div_geq)
    then have "drop (64 * (length m div 64)) m = drop (64 * (length (drop 64 m) div 64)) (drop 64 m)"
      by (simp add: add.commute)
    with 1 False show ?thesis
      by (simp add: fips_blocks.simps [of H m] fips_blocks.simps [of H "m @ d"])
  qed
qed

lemma sha1_blocks_fips:
  assumes "i \<le> len" "len = length data"
  shows "sha1_blocks data len i st = (i + 64 * ((len - i) div 64), fips_blocks st (drop i data))"
  using assms
proof (induction data len i st rule: sha1_blocks.induct)
  case (1 data len i st)
  show ?case
  proof (cases "i + 63 < len")
    case True
    then have "len - i = 64 + (len - (i + 64))" by simp
    then have d: "(len - i) div 64 = Suc ((len - (i + 64)) div 64)"
      by (metis div_add_self1 zero_neq_numeral add.commute Suc_eq_plus1)
    have "SHA1Transform st (take 64 (drop i data)) = fips_block st (take 64 (drop i data))"
      using True 1(3) by (intro SHA1Transform_fips) simp
    moreover have "64 \<le> length data - i" using True 1(3) by simp
    ultimately show ?thesis using True 1 d
      by (subst sha1_blocks.simps, subst fips_blocks.simps) (simp add: add.commute)
  next
    case False
    then have "length data - i < 64" using 1(2,3) by simp
    with False 1(2,3) show ?thesis
      by (subst sha1_blocks.simps, subst fips_blocks.simps) simp
  qed
qed

text \<open>
  The context after the bytes \<open>m\<close>: the state is the digest of the whole blocks, the counters
  are the bit length, and the buffer starts with the bytes of the block not yet complete.
\<close>

definition sha1_holds :: "SHA1_CTX \<Rightarrow> u8 list \<Rightarrow> bool" where
  "sha1_holds c m \<longleftrightarrow> sh_state c = fips_blocks fips_init m \<and>
     sh_count0 c = of_nat (8 * length m) \<and> sh_count1 c = of_nat (8 * length m div 2 ^ 32) \<and>
     length (sh_buffer c) = 64 \<and>
     take (length m mod 64) (sh_buffer c) = drop (64 * (length m div 64)) m"

lemma SHA1Init_holds: "sha1_holds SHA1Init []"
  by (simp add: sha1_holds_def SHA1Init_def fips_init_def fips_blocks.simps)

lemma index_bits: "unat (drop_bit 3 (x :: u32) AND 63) = unat x div 8 mod 64"
proof -
  have "drop_bit 3 x AND 63 = take_bit 6 (drop_bit 3 x)" by (simp add: take_bit_eq_mask mask_numeral)
  then have "drop_bit 3 x AND 63 = x div 8 mod 64" by (simp add: take_bit_eq_mod drop_bit_eq_div)
  then show ?thesis by (simp add: unat_div unat_mod)
qed

lemma count_index: "unat (drop_bit 3 (of_nat (8 * n) :: u32) AND 63) = n mod 64"
proof -
  have "unat (of_nat (8 * n) :: u32) = 8 * n mod (8 * 2 ^ 29)"
    by (simp only: unat_of_nat) simp
  then have "unat (of_nat (8 * n) :: u32) div 8 = n mod 2 ^ 29"
    by (simp only: mult_mod_right [symmetric] nonzero_mult_div_cancel_left) 
  moreover have "n mod 2 ^ 29 mod 64 = n mod 64" by (rule mod_mod_cancel) simp
  ultimately show ?thesis by (simp only: index_bits)
qed

lemma mod_add_carry:
  fixes a b M :: nat
  assumes "0 < M"
  shows "(a + b) div M = a div M + b div M + of_bool ((a + b) mod M < a mod M)"
proof -
  have s: "(a + b) div M = a div M + b div M + (a mod M + b mod M) div M" by (rule div_add1_eq)
  have m: "(a + b) mod M = (a mod M + b mod M) mod M" by (simp add: mod_add_eq)
  have l: "a mod M < M" "b mod M < M" using assms by simp_all
  show ?thesis
  proof (cases "a mod M + b mod M < M")
    case False
    then have "a mod M + b mod M - M < M" "a mod M + b mod M - M < a mod M" using l by linarith+
    with False l assms show ?thesis unfolding s m by (simp add: le_mod_geq le_div_geq not_less)
  qed (simp add: s m)
qed

lemma count_carry:
  fixes n k :: nat
  assumes "k < 2 ^ 32"
  shows "(of_nat (8 * n) :: u32) + push_bit 3 (of_nat k) = of_nat (8 * (n + k))"
    and "(if (of_nat (8 * (n + k)) :: u32) < of_nat (8 * n) then of_nat (8 * n div 2 ^ 32) + 1
          else of_nat (8 * n div 2 ^ 32)) + drop_bit 29 (of_nat k :: u32) =
         (of_nat (8 * (n + k) div 2 ^ 32) :: u32)"
proof -
  show "(of_nat (8 * n) :: u32) + push_bit 3 (of_nat k) = of_nat (8 * (n + k))"
    by (simp add: push_bit_word_of_nat algebra_simps)
  have lt: "(of_nat (8 * (n + k)) :: u32) < of_nat (8 * n) \<longleftrightarrow>
      (8 * n + 8 * k) mod 2 ^ 32 < (8 * n) mod 2 ^ 32"
    by (simp only: word_less_nat_alt unat_of_nat distrib_left) simp
  have d: "drop_bit 29 (of_nat k :: u32) = of_nat (8 * k div 2 ^ 32)"
  proof -
    have "unat (drop_bit 29 (of_nat k :: u32)) = k div 2 ^ 29"
      using assms by (simp add: drop_bit_eq_div unat_div unat_of_nat)
    moreover have "k div 2 ^ 29 = 8 * k div 2 ^ 32" by simp
    ultimately have "(of_nat (unat (drop_bit 29 (of_nat k :: u32))) :: u32) = of_nat (8 * k div 2 ^ 32)"
      by (simp only:)
    then show ?thesis by (simp only: of_nat_unat ucast_id)
  qed
  have "8 * (n + k) div 2 ^ 32 = 8 * n div 2 ^ 32 + 8 * k div 2 ^ 32 +
      of_bool ((8 * n + 8 * k) mod 2 ^ 32 < (8 * n) mod 2 ^ 32)"
    using mod_add_carry [of "2 ^ 32" "8 * n" "8 * k"] by (simp only: distrib_left) simp
  then show "(if (of_nat (8 * (n + k)) :: u32) < of_nat (8 * n) then of_nat (8 * n div 2 ^ 32) + 1
          else of_nat (8 * n div 2 ^ 32)) + drop_bit 29 (of_nat k :: u32) =
         (of_nat (8 * (n + k) div 2 ^ 32) :: u32)"
    unfolding lt d by simp
qed
lemma SHA1Update_holds:
  assumes "sha1_holds c m" "length d < 2 ^ 31"
  shows "\<exists>c'. SHA1Update c d = Inr c' \<and> sha1_holds c' (m @ d)"
proof -
  define j where "j = length m mod 64"
  define rest where "rest = drop (64 * (length m div 64)) m"
  have c: "sh_state c = fips_blocks fips_init m" "sh_count0 c = of_nat (8 * length m)"
    "sh_count1 c = of_nat (8 * length m div 2 ^ 32)" "length (sh_buffer c) = 64"
    "take j (sh_buffer c) = rest" "length rest = j" "j < 64"
    using assms(1) by (simp_all add: sha1_holds_def j_def rest_def minus_mult_div_eq_mod)
  have lm: "length m = 64 * (length m div 64) + j" by (simp add: j_def)
  define c1 where "c1 = c\<lparr>sh_count0 := of_nat (8 * (length m + length d)),
      sh_count1 := of_nat (8 * (length m + length d) div 2 ^ 32)\<rparr>"
  have k: "length d < 2 ^ 32" using assms(2) by simp
  have upd: "SHA1Update c d = bindE (if j + length d > 63 then
          bindE (poke (sh_buffer c) j (take (64 - j) d)) (\<lambda>buf.
            case sha1_blocks d (length d) (64 - j) (SHA1Transform (sh_state c) buf) of (i, st) \<Rightarrow>
              Inr (i, 0, c1\<lparr>sh_state := st, sh_buffer := buf\<rparr>))
        else Inr (0, j, c1)) (\<lambda>(i, j, context).
     bindE (poke (sh_buffer context) j (drop i d)) (\<lambda>buf. Inr (context\<lparr>sh_buffer := buf\<rparr>)))"
    using assms(2) c(7)
    by (simp only: SHA1Update_def Let_def c(2,3) count_carry [OF k] count_index j_def [symmetric])
      (simp add: c1_def)
  have app: "fips_blocks fips_init (m @ d) = fips_blocks (sh_state c) (rest @ d)"
    by (simp add: fips_blocks_append [of fips_init m d] c(1) rest_def)
  show ?thesis
  proof (cases "j + length d > 63")
    case True
    define q where "q = (length d - (64 - j)) div 64"
    define i where "i = 64 - j + 64 * q"
    define H where "H = fips_block (sh_state c) (rest @ take (64 - j) d)"
    have p: "poke (sh_buffer c) j (take (64 - j) d) = Inr (rest @ take (64 - j) d)"
      using c(4-7) True by (simp add: poke_def)
    have t: "SHA1Transform (sh_state c) (rest @ take (64 - j) d) = H"
      unfolding H_def using c(6,7) True by (intro SHA1Transform_fips) simp
    have b: "sha1_blocks d (length d) (64 - j) H = (i, fips_blocks H (drop (64 - j) d))"
      using True sha1_blocks_fips [of "64 - j" "length d" d H] by (simp add: i_def q_def)
    have st: "fips_blocks H (drop (64 - j) d) = fips_blocks fips_init (m @ d)"
      unfolding app using True c(6,7)
      by (subst (2) fips_blocks.simps) (simp add: H_def)
    have e: "length (drop i d) = (length d - (64 - j)) mod 64"
      by (simp add: i_def q_def minus_mult_div_eq_mod [symmetric] mult.commute)
    have jd: "j + length d = 64 + (length d - (64 - j))" using True c(7) by simp
    have n: "length m + length d = 64 * (length m div 64 + 1 + q) + length (drop i d)"
      unfolding e q_def using lm jd by (simp add: add.commute)
    have small: "length (drop i d) < 64" unfolding e by simp
    have nd: "(length m + length d) div 64 = length m div 64 + 1 + q"
      "(length m + length d) mod 64 = length (drop i d)"
      using small unfolding n div_mult_self4 mod_mult_self4 by simp_all
    have "64 * (length m div 64 + 1 + q) = length m + i" using lm c(7) by (simp add: i_def)
    then have dr: "drop (64 * ((length m + length d) div 64)) (m @ d) = drop i d"
      unfolding nd by simp
    define buf where "buf = drop i d @ drop (length (drop i d)) (rest @ take (64 - j) d)"
    have p2: "poke (rest @ take (64 - j) d) 0 (drop i d) = Inr buf"
      using small c(6,7) True by (simp add: poke_def buf_def)
    have "SHA1Update c d = Inr (c1\<lparr>sh_state := fips_blocks fips_init (m @ d), sh_buffer := buf\<rparr>)"
      unfolding upd using True by (simp add: p t b p2 st)
    moreover have "sha1_holds (c1\<lparr>sh_state := fips_blocks fips_init (m @ d), sh_buffer := buf\<rparr>) (m @ d)"
      unfolding sha1_holds_def length_append nd(2) dr
      using small c(6,7) True by (simp add: c1_def buf_def)
    ultimately show ?thesis by blast
  next
    case False
    define buf where "buf = rest @ d @ drop (j + length d) (sh_buffer c)"
    have p: "poke (sh_buffer c) j d = Inr buf"
      using c(4-6) False by (simp add: poke_def buf_def)
    have st: "fips_blocks fips_init (m @ d) = sh_state c"
      unfolding app using False c(6) by (subst fips_blocks.simps) simp
    have n: "length m + length d = 64 * (length m div 64) + (j + length d)" using lm by simp
    have nd: "(length m + length d) div 64 = length m div 64"
      "(length m + length d) mod 64 = j + length d"
      using False unfolding n by simp_all
    have "SHA1Update c d = Inr (c1\<lparr>sh_buffer := buf\<rparr>)"
      unfolding upd using False by (simp add: c1_def p)
    moreover have "sha1_holds (c1\<lparr>sh_buffer := buf\<rparr>) (m @ d)"
      unfolding sha1_holds_def length_append nd st
      using False c(4,6) lm by (simp add: c1_def buf_def) (simp add: rest_def)
    ultimately show ?thesis by blast
  qed
qed

text \<open>The padding loop stops when 56 bytes of the block are there.\<close>

lemma count_full: "(of_nat (8 * n) :: u32) AND 504 = 448 \<longleftrightarrow> n mod 64 = 56"
proof -
  have p: "x AND push_bit 3 y = push_bit 3 (drop_bit 3 x AND y)" for x y :: u32
    by (rule bit_word_eqI) (auto simp add: bit_simps)
  define k where "k = n mod 64"
  have k: "k < 64" by (simp add: k_def)
  have "drop_bit 3 (of_nat (8 * n) :: u32) AND 63 = of_nat k"
    using count_index [of n] k by (simp only: word_unat_eq_iff k_def [symmetric]) (simp add: unat_of_nat)
  then have "(of_nat (8 * n) :: u32) AND 504 = of_nat (k * 8)"
    using p [of "of_nat (8 * n)" 63] by (simp add: push_bit_word_of_nat)
  moreover have "(of_nat (k * 8) :: u32) = 448 \<longleftrightarrow> k * 8 = 448"
    using k by (simp only: word_unat_eq_iff unat_of_nat) simp
  ultimately show ?thesis by (auto simp add: k_def)
qed

lemma sha1_pad_holds:
  assumes "sha1_holds c m" "(120 - length m mod 64) mod 64 < fuel"
  shows "\<exists>c'. sha1_pad fuel c = Inr c' \<and> sha1_holds c' (m @ replicate ((120 - length m mod 64) mod 64) 0)"
  using assms
proof (induction fuel arbitrary: c m)
  case (Suc fuel)
  have full: "sh_count0 c AND 504 = 448 \<longleftrightarrow> length m mod 64 = 56"
    using Suc.prems(1) count_full [of "length m"] by (simp add: sha1_holds_def)
  define j where "j = length m mod 64"
  have j: "j < 64" by (simp add: j_def)
  show ?case
  proof (cases "j = 56")
    case True
    then show ?thesis using Suc.prems(1) full by (auto simp add: j_def)
  next
    case False
    obtain c1 where c1: "SHA1Update c [0] = Inr c1" "sha1_holds c1 (m @ [0])"
      using SHA1Update_holds [OF Suc.prems(1), of "[0]"] by auto
    have s: "length (m @ [0]) mod 64 = (if j = 63 then 0 else Suc j)"
      by (simp add: j_def mod_Suc)
    have e: "(120 - j) mod 64 = Suc ((120 - length (m @ [0]) mod 64) mod 64)"
    proof (cases "j < 56")
      case True
      then have "(120 - j) mod 64 = 56 - j" "(119 - j) mod 64 = 55 - j"
        by (simp_all add: mod_if)
      with True show ?thesis unfolding s by simp
    next
      case f: False
      then have l: "56 < j" "j < 64" using False j by simp_all
      then have "(120 - j) mod 64 = 120 - j" by simp
      with l show ?thesis unfolding s by (cases "j = 63") simp_all
    qed
    define k where "k = (120 - length (m @ [0]) mod 64) mod 64"
    have e': "(120 - length m mod 64) mod 64 = Suc k" unfolding k_def j_def [symmetric] by (rule e)
    have h: "(120 - length (m @ [0]) mod 64) mod 64 < fuel"
      using Suc.prems(2) unfolding e' k_def by simp
    obtain c2 where c2: "sha1_pad fuel c1 = Inr c2" "sha1_holds c2 ((m @ [0]) @ replicate k 0)"
      using Suc.IH [OF c1(2) h] unfolding k_def by blast
    have "sh_count0 c AND 504 \<noteq> 448" using False full unfolding j_def by blast
    then have "sha1_pad (Suc fuel) c = Inr c2" using c1(1) c2(1) by simp
    moreover have "(m @ [0]) @ replicate k 0 = m @ replicate (Suc k) 0" by simp
    ultimately show ?thesis unfolding e' using c2(2) by metis
  qed
qed simp

text \<open>Bytes of a word, most significant first.\<close>

lemma be_bytes_nth: "i < n \<Longrightarrow> be_bytes n v ! i = of_nat (v div 256 ^ (n - 1 - i))"
  by (simp add: be_bytes_def rev_nth le_bytes_nth)

lemma byte_of_word:
  assumes "k < 4"
  shows "(ucast (drop_bit (k * 8) (of_nat v :: u32) AND 255) :: u8) = of_nat (v div 256 ^ k)"
proof -
  have "v div 256 ^ k = drop_bit (k * 8) v" by (simp add: drop_bit_eq_div power_mult mult.commute [of k])
  moreover have m: "(255 :: u32) = mask 8" by (simp add: mask_numeral)
  ultimately show ?thesis using assms
    unfolding m by (intro bit_word_eqI) (auto simp add: bit_simps add.commute)
qed

lemma finalcount_holds:
  assumes "sha1_holds c m"
  shows "finalcount c = be_bytes 8 (8 * length m)"
proof (rule nth_equalityI)
  fix i assume "i < length (finalcount c)"
  then have i: "i < 8" by (simp add: finalcount_def)
  have "(3 :: nat) = mask 2" by (simp add: mask_eq_exp_minus_1)
  then have a: "i AND 3 = i mod 4"
    by (simp only: take_bit_eq_mask [symmetric]) (simp add: take_bit_eq_mod)
  have c: "sh_count0 c = of_nat (8 * length m)" "sh_count1 c = of_nat (8 * length m div 2 ^ 32)"
    using assms by (simp_all add: sha1_holds_def)
  have n: "finalcount c ! i = ucast (drop_bit ((3 - i mod 4) * 8)
      (if i \<ge> 4 then sh_count0 c else sh_count1 c) AND 255)"
    unfolding finalcount_def a [symmetric] using i by simp
  show "finalcount c ! i = be_bytes 8 (8 * length m) ! i"
  proof (cases "4 \<le> i")
    case True
    then have m: "3 - i mod 4 = 7 - i" using i by (simp add: mod_if)
    show ?thesis
      unfolding n m c using i True byte_of_word [of "7 - i" "8 * length m"]
      by (simp only: be_bytes_nth if_True) simp
  next
    case False
    then have m: "3 - i mod 4 = 3 - i" "7 - i = 4 + (3 - i)" by simp_all
    have d: "8 * length m div 256 ^ (7 - i) = 8 * length m div 2 ^ 32 div 256 ^ (3 - i)"
      unfolding m(2) by (simp only: power_add div_mult2_eq) simp
    show ?thesis
      unfolding n m(1) c using i False byte_of_word [of "3 - i" "8 * length m div 2 ^ 32"]
      by (simp only: be_bytes_nth if_False) (simp add: d)
  qed
qed (simp add: finalcount_def)

lemma digest_bytes:
  "map (\<lambda>i. ucast (drop_bit ((3 - (i AND 3)) * 8) (state_words st ! (drop_bit 2 i)) AND 255)) [0..<20] =
   concat (map (\<lambda>w. be_bytes 4 (unat w)) (state_words st))"
proof -
  obtain a b c d e where st: "st = (a, b, c, d, e)" by (cases st)
  have w: "be_bytes 4 (unat w) = map (\<lambda>k. ucast (drop_bit ((3 - k) * 8) w AND 255)) [0..<4]" for w :: u32
  proof (rule nth_equalityI)
    fix i assume "i < length (be_bytes 4 (unat w))"
    then have i: "i < 4" "3 - i < 4" by simp_all
    from byte_of_word [OF i(2), of "unat w"] i(1)
    show "be_bytes 4 (unat w) ! i = map (\<lambda>k. ucast (drop_bit ((3 - k) * 8) w AND 255)) [0..<4] ! i"
      by (simp add: be_bytes_nth)
  qed simp
  show ?thesis
    unfolding st state_words_def prod.case w by code_simp
qed

lemma SHA1Final_holds:
  assumes "sha1_holds c m" "length m < 2 ^ 61"
  shows "SHA1Final c = Inr (sha1 m)"
proof -
  define z where "z = replicate ((119 - length m mod 64) mod 64) (0 :: u8)"
  obtain c1 where c1: "SHA1Update c [128] = Inr c1" "sha1_holds c1 (m @ [128])"
    using SHA1Update_holds [OF assms(1), of "[128]"] by auto
  have "length m mod 64 < 64" by simp
  then have "(120 - Suc (length m mod 64) mod 64) mod 64 = (119 - length m mod 64) mod 64"
    by (cases "length m mod 64 = 63") simp_all
  then have e: "(120 - length (m @ [128]) mod 64) mod 64 = (119 - length m mod 64) mod 64"
    by (simp add: mod_Suc_eq)
  obtain c2 where c2: "sha1_pad 65 c1 = Inr c2" "sha1_holds c2 ((m @ [128]) @ z)"
  proof -
    have "(119 - length m mod 64) mod 64 < 64" by simp
    then have "(119 - length m mod 64) mod 64 < 65" by linarith
    from sha1_pad_holds [OF c1(2), of 65, unfolded e, OF this] show ?thesis
      using that unfolding z_def by blast
  qed
  obtain c3 where c3: "SHA1Update c2 (finalcount c) = Inr c3"
      "sha1_holds c3 (((m @ [128]) @ z) @ finalcount c)"
    using SHA1Update_holds [OF c2(2), of "finalcount c"] by (auto simp add: finalcount_def)
  have "((m @ [128]) @ z) @ finalcount c = fips_pad m"
    by (simp add: fips_pad_def z_def finalcount_holds [OF assms(1)])
  then have "sh_state c3 = fips_blocks fips_init (fips_pad m)"
    using c3(2) by (simp add: sha1_holds_def)
  then show ?thesis
    by (simp only: SHA1Final_def Let_def c1(1) c2(1) c3(1) bindE_simps digest_bytes sha1_def)
qed

text \<open>A digest of the pieces \<open>ds\<close>, one \<open>SHA1Update\<close> for each.\<close>

fun sha1_updates :: "SHA1_CTX \<Rightarrow> u8 list list \<Rightarrow> SHA1_CTX res" where
  "sha1_updates c [] = Inr c"
| "sha1_updates c (d # ds) = bindE (SHA1Update c d) (\<lambda>c. sha1_updates c ds)"

lemma sha1_updates_holds:
  assumes "sha1_holds c m" "list_all (\<lambda>d. length d < 2 ^ 31) ds"
  shows "\<exists>c'. sha1_updates c ds = Inr c' \<and> sha1_holds c' (m @ concat ds)"
  using assms
proof (induction ds arbitrary: c m)
  case (Cons d ds)
  obtain c1 where "SHA1Update c d = Inr c1" "sha1_holds c1 (m @ d)"
    using SHA1Update_holds [OF Cons.prems(1)] Cons.prems(2) by auto
  with Cons.IH [of c1 "m @ d"] Cons.prems(2) show ?case by simp
qed simp

lemma length_sha1: "length (sha1 m) = 20"
  by (cases "fips_blocks fips_init (fips_pad m)") (simp add: sha1_def state_words_def)

text \<open>The digest of the pieces is the FIPS digest of their concatenation.\<close>

lemma sha1_pieces:
  assumes "list_all (\<lambda>d. length d < 2 ^ 31) ds" "length (concat ds) < 2 ^ 61"
  shows "bindE (sha1_updates SHA1Init ds) SHA1Final = Inr (sha1 (concat ds))"
proof -
  obtain c where "sha1_updates SHA1Init ds = Inr c" "sha1_holds c (concat ds)"
    using sha1_updates_holds [OF SHA1Init_holds assms(1)] by auto
  with SHA1Final_holds assms(2) show ?thesis by simp
qed

end
