(* ===== verification/Protocol.thy ===== *)
theory Protocol
  imports Vio Sha1
begin

text \<open>
  The packets of \<open>src/src/protocol/protocol.c\<close>: header, handshake, authentication, command and
  the three replies, and the two password scrambles. A field the code leaves uninitialised on
  some path is \<open>None\<close>, and reading it is \<open>Uninitialized\<close>; memory from \<open>malloc\<close> is taken as
  zeroes.
\<close>

definition initialised :: "'a option \<Rightarrow> 'a res" where
  "initialised x = (case x of None \<Rightarrow> Inl Uninitialized | Some v \<Rightarrow> Inr v)"

lemma initialised_simps [simp]:
  "initialised (Some v) = Inr v" "initialised None = Inl Uninitialized"
  by (simp_all add: initialised_def)

text \<open>\<open>malloc\<close> fails beyond \<open>PTRDIFF_MAX\<close>, which is where a length of \<open>-1\<close> ends up.\<close>

definition malloc_fails :: "nat \<Rightarrow> bool" where
  "malloc_fails n \<longleftrightarrow> 2 ^ 63 \<le> n"

subsection \<open>Packet header\<close>

record PktHeader =
  ph_plen :: u32
  ph_pnum :: u8

text \<open>\<open>None\<close> is \<open>PROTO_ERR\<close>, which leaves the caller's header as it was.\<close>

definition readPktHeader :: "sock \<Rightarrow> (PktHeader option \<times> sock) res" where
  "readPktHeader fd =
     bindE (anetRead 4 (replicate 4 0) fd) (\<lambda>(nread, buf, fd).
     if nread = - 1 then Inr (None, fd)
     else let io = vioInitWithBuffer buf in
          bindE (vioReadUint24 io) (\<lambda>(plen, io).
          bindE (vioReadUint8 io) (\<lambda>(pnum, io).
            Inr (Some \<lparr>ph_plen = plen, ph_pnum = pnum\<rparr>, fd))))"

definition writeHeader :: "nat \<Rightarrow> u8 \<Rightarrow> sock \<Rightarrow> (bool \<times> sock) res" where
  "writeHeader plen pnum fd =
     (let buf = (le_bytes 4 plen)[3 := pnum]
      in bindE (anetWrite buf 4 fd) (\<lambda>(n, fd). Inr (n \<noteq> - 1, fd)))"

subsection \<open>Handshake packet\<close>

record HandshakePkt =
  hs_protover :: u8
  hs_mysqlver :: "u8 list"
  hs_threadid :: u32
  hs_saltlen :: nat
  hs_salt :: "u8 list"
  hs_capacity :: "u32 option"
  hs_charset :: "u8 option"
  hs_status :: "u16 option"
  hs_pluginname :: "u8 list option option"

text \<open>
  \<open>saltleft\<close> is 13 on both branches of the code. \<open>hs_pluginname\<close> is \<open>None\<close> when the code never
  sets it and \<open>Some None\<close> when it is NULL. A short read leaves the rest of the block
  uninitialised, and the code goes on to parse it.
\<close>

definition readHandshakePkt :: "nat \<Rightarrow> sock \<Rightarrow> (HandshakePkt option \<times> sock) res" where
  "readHandshakePkt len fd =
     bindE (anetRead (int_of_size len) (replicate len 0) fd) (\<lambda>(nread, buf, fd).
     if nread = - 1 then Inr (None, fd)
     else
       bindE (checkE Uninitialized (nread = int len)) (\<lambda>_.
       let io = vioInitWithBuffer buf in
       bindE (vioReadUint8 io) (\<lambda>(protover, io).
       bindE (readStr io) (\<lambda>(mysqlver, io).
       bindE (vioReadUint32 io) (\<lambda>(threadid, io).
       bindE (readBinary io 9) (\<lambda>(salt1, io).
       let pkt = \<lparr>hs_protover = protover, hs_mysqlver = mysqlver, hs_threadid = threadid,
                  hs_saltlen = 8, hs_salt = take 8 salt1, hs_capacity = None, hs_charset = None,
                  hs_status = None, hs_pluginname = None\<rparr> in
       bindE (vioTell io) (\<lambda>t.
       if t \<ge> len then Inr (Some pkt, fd)
       else
         bindE (vioReadUint16 io) (\<lambda>(cap, io).
         let pkt = pkt\<lparr>hs_capacity := Some (ucast cap)\<rparr> in
         bindE (vioTell io) (\<lambda>t.
         if t + 16 > len then Inr (Some pkt, fd)
         else
           bindE (vioReadUint8 io) (\<lambda>(charset, io).
           bindE (vioReadUint16 io) (\<lambda>(status, io).
           bindE (vioReadUint16 io) (\<lambda>(ucap, io).
           bindE (vioReadUint8 io) (\<lambda>(saltlen, io).
           bindE (readBinary io 10) (\<lambda>(salt2, io).
           bindE (readBinary io 13) (\<lambda>(salt2, io).
           let pkt = pkt\<lparr>hs_salt := hs_salt pkt @ salt2, hs_saltlen := hs_saltlen pkt + 12,
                         hs_capacity := Some (ucast cap OR push_bit 16 (ucast ucap)),
                         hs_charset := Some charset, hs_status := Some status\<rparr> in
           bindE (vioTell io) (\<lambda>t.
           bindE (if t < len then bindE (readStr io) (\<lambda>(s, io). Inr (Some s)) else Inr None)
             (\<lambda>plugin.
             Inr (Some (pkt\<lparr>hs_pluginname := Some plugin\<rparr>), fd))))))))))))))))))"

text \<open>Freeing the strings of a handshake that was not filled frees an uninitialised pointer.\<close>

definition tryFreeHandshake :: "HandshakePkt \<Rightarrow> unit res" where
  "tryFreeHandshake pkt = bindE (initialised (hs_pluginname pkt)) (\<lambda>_. Inr ())"

subsection \<open>Password scrambles\<close>

definition cooksalt :: "u8 list \<Rightarrow> nat \<Rightarrow> u8 list \<Rightarrow> u8 list res" where
  "cooksalt salt slen passwd =
     bindE (SHA1Update SHA1Init passwd) (\<lambda>sha.
     bindE (SHA1Final sha) (\<lambda>hash1.
     bindE (SHA1Update SHA1Init hash1) (\<lambda>sha.
     bindE (SHA1Final sha) (\<lambda>hash2.
     bindE (peek salt 0 slen) (\<lambda>salt.
     bindE (SHA1Update SHA1Init salt) (\<lambda>sha.
     bindE (SHA1Update sha hash2) (\<lambda>sha.
     bindE (SHA1Final sha) (\<lambda>hash2.
       Inr (map2 (XOR) hash1 hash2)))))))))"

record rand_struct =
  rs_seed1 :: u64
  rs_seed2 :: u64
  rs_max_value :: u64

definition randominit :: "u64 \<Rightarrow> u64 \<Rightarrow> rand_struct" where
  "randominit seed1 seed2 = \<lparr>rs_seed1 = seed1 mod 0x3FFFFFFF, rs_seed2 = seed2 mod 0x3FFFFFFF,
     rs_max_value = 0x3FFFFFFF\<rparr>"

text \<open>
  \<open>double\<close> arithmetic on the values that occur: a number is \<open>m / 2 ^ e\<close> with \<open>m\<close> of at most 53
  bits. \<open>dbl_div\<close> is the division of two integers rounded to nearest, ties to even;
  \<open>dbl_times\<close> the product with a small integer, rounded the same way.
\<close>

definition round_even :: "nat \<Rightarrow> nat \<Rightarrow> nat" where
  "round_even a b =
     (let q = a div b; r = a mod b in
      if 2 * r < b then q else if b < 2 * r then Suc q else if even q then q else Suc q)"

function dbl_exp :: "nat \<Rightarrow> nat \<Rightarrow> nat \<Rightarrow> nat" where
  "dbl_exp a b e = (if a = 0 \<or> b * 2 ^ 52 \<le> a * 2 ^ e then e else dbl_exp a b (Suc e))"
  by pat_completeness auto

termination
  by (relation "measure (\<lambda>(a, b, e). b * 2 ^ 52 - a * 2 ^ e)") (auto intro!: diff_less_mono2)

declare dbl_exp.simps [simp del]

definition dbl_div :: "nat \<Rightarrow> nat \<Rightarrow> nat \<times> nat" where
  "dbl_div a b = (if a = 0 then (0, 0) else let e = dbl_exp a b 0 in (round_even (a * 2 ^ e) b, e))"

definition dbl_times :: "nat \<Rightarrow> nat \<times> nat \<Rightarrow> nat \<times> nat" where
  "dbl_times k x =
     (case x of (m, e) \<Rightarrow>
        let p = k * m; s = (if p < 2 ^ 53 then 0 else if p < 2 ^ 54 then 1 else if p < 2 ^ 55 then 2
                            else if p < 2 ^ 56 then 3 else if p < 2 ^ 57 then 4 else 5)
        in (round_even p (2 ^ s) * 2 ^ s, e))"

definition dbl_floor :: "nat \<times> nat \<Rightarrow> nat" where
  "dbl_floor x = (case x of (m, e) \<Rightarrow> m div 2 ^ e)"

definition my_rnd :: "rand_struct \<Rightarrow> (nat \<times> nat) \<times> rand_struct" where
  "my_rnd r =
     (let seed1 = (rs_seed1 r * 3 + rs_seed2 r) mod rs_max_value r;
          seed2 = (seed1 + rs_seed2 r + 33) mod rs_max_value r
      in (dbl_div (unat seed1) (unat (rs_max_value r)), r\<lparr>rs_seed1 := seed1, rs_seed2 := seed2\<rparr>))"

fun hash_old_loop :: "u8 list \<Rightarrow> u64 \<Rightarrow> u64 \<Rightarrow> u64 \<Rightarrow> u64 \<times> u64" where
  "hash_old_loop [] nr add nr2 = (nr, nr2)"
| "hash_old_loop (c # password) nr add nr2 =
     (if c = 32 \<or> c = 9 then hash_old_loop password nr add nr2
      else let tmp = ucast c;
               nr = nr XOR ((((nr AND 63) + add) * tmp) + push_bit 8 nr);
               nr2 = nr2 + (push_bit 8 nr2 XOR nr)
           in hash_old_loop password nr (add + tmp) nr2)"

definition hash_old_password :: "u8 list \<Rightarrow> u64 \<times> u64" where
  "hash_old_password password =
     (case hash_old_loop password 1345345333 7 0x12345671 of (nr, nr2) \<Rightarrow>
        (nr AND mask 31, nr2 AND mask 31))"

text \<open>\<open>*cooked++ = (char) (floor(my_rnd(&rand_st) * 31) + 64)\<close>, eight times.\<close>

fun cook_chars :: "nat \<Rightarrow> rand_struct \<Rightarrow> u8 list \<times> rand_struct" where
  "cook_chars 0 r = ([], r)"
| "cook_chars (Suc n) r =
     (case my_rnd r of (x, r) \<Rightarrow> case cook_chars n r of (cs, r) \<Rightarrow>
        (of_nat (dbl_floor (dbl_times 31 x) + 64) # cs, r))"

text \<open>The content of \<open>cooked\<close> after the call; \<open>passwd\<close> is the C string, \<open>None\<close> for NULL.\<close>

definition cooksaltOld :: "u8 list \<Rightarrow> u8 list \<Rightarrow> u8 list option \<Rightarrow> u8 list res" where
  "cooksaltOld cooked salt passwd =
     (case passwd of
        Some (c # cs) \<Rightarrow>
          bindE (peek salt 0 8) (\<lambda>salt.
          let hashpass = hash_old_password (c # cs); hashsalt = hash_old_password salt;
              rand_st = randominit (fst hashpass XOR fst hashsalt) (snd hashpass XOR snd hashsalt);
              (chars, rand_st) = cook_chars 8 rand_st;
              extra = of_nat (dbl_floor (dbl_times 31 (fst (my_rnd rand_st))))
          in poke cooked 0 (map (\<lambda>x. x XOR extra) chars @ [0]))
      | _ \<Rightarrow> poke cooked 0 [0])"

subsection \<open>Authentication packet\<close>

text \<open>\<open>char *\<close> fields are the C strings they point to, \<open>None\<close> for NULL.\<close>

record AuthPkt =
  au_clientflags :: u32
  au_maxpkt :: u32
  au_charset :: u8
  au_user :: "u8 list option"
  au_saltlen :: nat
  au_salt :: "u8 list"
  au_database :: "u8 list option"

text \<open>22 is \<open>sizeof("mysql_native_password")\<close>, counted although the name is not written.\<close>

definition calcAuthPktLen :: "AuthPkt \<Rightarrow> nat res" where
  "calcAuthPktLen pkt = bindE (deref (au_user pkt)) (\<lambda>user.
     Inr (4 + 4 + 1 + 23 + length user + 1 + 1 + 22 + au_saltlen pkt +
          (case au_database pkt of None \<Rightarrow> 0 | Some db \<Rightarrow> length db + 1)))"

text \<open>The block a buffer wrote to; when \<open>realloc\<close> has moved it, the caller's pointer dangles.\<close>

definition own_block :: "vio \<Rightarrow> u8 list res" where
  "own_block io =
     (case io of VioBuffer b pos moved \<Rightarrow> if moved then Inl NullDeref else Inr b
      | _ \<Rightarrow> Inl NullDeref)"

text \<open>\<open>nwrite < plen\<close> compares an \<open>int\<close> with a \<open>size_t\<close>: \<open>-1\<close> is converted and is not less.\<close>

definition writeAuthPkt :: "AuthPkt \<Rightarrow> nat \<Rightarrow> sock \<Rightarrow> (bool \<times> sock) res" where
  "writeAuthPkt pkt plen fd =
     (let io = vioInitWithBuffer (replicate plen 0)
      in bindE (writeBinary io (le_bytes 4 (unat (au_clientflags pkt)))) (\<lambda>io.
         bindE (writeBinary io (le_bytes 4 (unat (au_maxpkt pkt)))) (\<lambda>io.
         bindE (writeBinary io [au_charset pkt]) (\<lambda>io.
         bindE (writeBinary io (replicate 23 0)) (\<lambda>io.
         bindE (deref (au_user pkt)) (\<lambda>user.
         bindE (writeBinary io (user @ [0])) (\<lambda>io.
         bindE (writeBinary io [of_nat (au_saltlen pkt)]) (\<lambda>io.
         bindE (if au_saltlen pkt \<noteq> 0
                then bindE (peek (au_salt pkt) 0 (au_saltlen pkt)) (writeBinary io)
                else Inr io) (\<lambda>io.
         bindE (case au_database pkt of None \<Rightarrow> Inr io | Some db \<Rightarrow> writeBinary io (db @ [0])) (\<lambda>io.
         bindE (own_block io) (\<lambda>buf.
         bindE (anetWrite buf plen fd) (\<lambda>(nwrite, fd).
           Inr (\<not> size_of_int nwrite < plen, fd)))))))))))))"

subsection \<open>Reply packets\<close>

record OkPkt =
  ok_affected :: u64
  ok_insertid :: u64
  ok_status :: "u16 option"
  ok_warnings :: "u16 option"
  ok_message :: "u8 list option"

record ErrorPkt =
  er_errno :: u16
  er_smarker :: u8
  er_state :: "u8 list option"
  er_message :: "u8 list option"

record EofPkt =
  eo_warnings :: "u16 option"
  eo_status :: "u16 option"

text \<open>
  The check \<open>nread < plen\<close> does not catch \<open>-1\<close>; the parser then reads an uninitialised block.
  A message is the block without its terminating NUL.
\<close>

definition readOkPkt :: "nat \<Rightarrow> sock \<Rightarrow> (OkPkt option \<times> sock) res" where
  "readOkPkt plen fd =
     (if malloc_fails plen then Inr (None, fd)
      else
        bindE (anetRead (int_of_size plen) (replicate plen 0) fd) (\<lambda>(nread, okbuf, fd).
        if size_of_int nread < plen then Inr (None, fd)
        else
          bindE (checkE Uninitialized (nread = int plen)) (\<lambda>_.
          let io = vioInitWithBuffer okbuf in
          bindE (readEncodeLength io) (\<lambda>(affected, io).
          bindE (readEncodeLength io) (\<lambda>(insertid, io).
          bindE (vioTell io) (\<lambda>t.
          if t = plen then Inr (Some \<lparr>ok_affected = affected, ok_insertid = insertid,
                                     ok_status = None, ok_warnings = None, ok_message = None\<rparr>, fd)
          else
            bindE (vioReadUint16 io) (\<lambda>(status, io).
            bindE (vioReadUint16 io) (\<lambda>(warnings, io).
            bindE (vioTell io) (\<lambda>t.
            bindE (if plen - t \<noteq> 0 then bindE (readBinary io (plen - t)) (\<lambda>(m, io). Inr (Some m))
                   else Inr None) (\<lambda>msg.
              Inr (Some \<lparr>ok_affected = affected, ok_insertid = insertid, ok_status = Some status,
                        ok_warnings = Some warnings, ok_message = msg\<rparr>, fd)))))))))))"

definition readErrorPkt :: "nat \<Rightarrow> sock \<Rightarrow> (ErrorPkt option \<times> sock) res" where
  "readErrorPkt plen fd =
     (if malloc_fails plen then Inr (None, fd)
      else
        bindE (anetRead (int_of_size plen) (replicate plen 0) fd) (\<lambda>(nread, errbuf, fd).
        if size_of_int nread < plen then Inr (None, fd)
        else
          bindE (checkE Uninitialized (nread = int plen)) (\<lambda>_.
          let io = vioInitWithBuffer errbuf in
          bindE (vioReadUint16 io) (\<lambda>(errno, io).
          bindE (vioReadUint8 io) (\<lambda>(smarker, io).
          bindE (if smarker = 35 then bindE (readBinary io 5) (\<lambda>(s, io). Inr (Some s, io))
                 else Inr (None, io)) (\<lambda>(state, io).
          bindE (vioTell io) (\<lambda>t.
          bindE (if plen - t = 0 then Inr None
                 else bindE (readBinary io (plen - t)) (\<lambda>(m, io). Inr (Some m))) (\<lambda>msg.
            Inr (Some \<lparr>er_errno = errno, er_smarker = smarker, er_state = state,
                      er_message = msg\<rparr>, fd)))))))))"

text \<open>\<open>eofbuf\<close> has four bytes, whatever \<open>plen\<close> is.\<close>

definition readEofPkt :: "nat \<Rightarrow> sock \<Rightarrow> (EofPkt option \<times> sock) res" where
  "readEofPkt plen fd =
     (if plen = 0 then Inr (Some \<lparr>eo_warnings = None, eo_status = None\<rparr>, fd)
      else
        bindE (anetRead (int_of_size plen) (replicate 4 0) fd) (\<lambda>(nread, eofbuf, fd).
        if size_of_int nread < plen then Inr (None, fd)
        else
          bindE (checkE Uninitialized (nread = int plen)) (\<lambda>_.
          let io = vioInitWithBuffer (take plen eofbuf) in
          bindE (vioReadUint16 io) (\<lambda>(warnings, io).
          bindE (vioReadUint16 io) (\<lambda>(status, io).
            Inr (Some \<lparr>eo_warnings = Some warnings, eo_status = Some status\<rparr>, fd))))))"

text \<open>The union of the three packets; \<open>NoBody\<close> when none has been read completely.\<close>

datatype reply_body = NoBody | OkBody OkPkt | ErrBody ErrorPkt | EofBody EofPkt

record ReplyPkt =
  rp_isok :: bool
  rp_iseof :: bool
  rp_pkt :: reply_body

definition to_body :: "('a \<Rightarrow> reply_body) \<Rightarrow> 'a option \<Rightarrow> reply_body" where
  "to_body f x = (case x of None \<Rightarrow> NoBody | Some v \<Rightarrow> f v)"

text \<open>\<open>pkt\<close> is the caller's reply before the call, \<open>None\<close> while it is uninitialised.\<close>

definition readReplyPkt ::
    "ReplyPkt option \<Rightarrow> nat \<Rightarrow> sock \<Rightarrow> (bool \<times> ReplyPkt option \<times> sock) res"
where
  "readReplyPkt pkt plen fd =
     bindE (anetRead 1 [0] fd) (\<lambda>(nread, marker, fd).
     if nread = - 1 then Inr (False, pkt, fd)
     else
       bindE (checkE Uninitialized (nread = 1)) (\<lambda>_.
       let left = size_of_int (int plen - 1); marker = marker ! 0 in
       if marker = 0 then
         bindE (readOkPkt left fd) (\<lambda>(b, fd).
           Inr (b \<noteq> None, Some \<lparr>rp_isok = True, rp_iseof = False, rp_pkt = to_body OkBody b\<rparr>, fd))
       else if marker = 255 then
         bindE (readErrorPkt left fd) (\<lambda>(b, fd).
           Inr (b \<noteq> None, Some \<lparr>rp_isok = False, rp_iseof = False, rp_pkt = to_body ErrBody b\<rparr>, fd))
       else if marker = 254 \<and> left < 8 then
         bindE (readEofPkt left fd) (\<lambda>(b, fd).
           Inr (b \<noteq> None, Some \<lparr>rp_isok = False, rp_iseof = True, rp_pkt = to_body EofBody b\<rparr>, fd))
       else Inr (False, Some \<lparr>rp_isok = False, rp_iseof = False, rp_pkt = NoBody\<rparr>, fd)))"

text \<open>The message of an error reply; of a reply without one, an uninitialised pointer.\<close>

definition err_message :: "ReplyPkt \<Rightarrow> u8 list res" where
  "err_message pkt =
     (case rp_pkt pkt of ErrBody e \<Rightarrow> bindE (deref (er_message e)) (\<lambda>m. Inr (takeWhile (\<lambda>c. c \<noteq> 0) m))
      | _ \<Rightarrow> Inl Uninitialized)"

definition tryFreeReply :: "ReplyPkt \<Rightarrow> unit res" where
  "tryFreeReply pkt =
     (if rp_iseof pkt then Inr ()
      else case rp_pkt pkt of
        OkBody _ \<Rightarrow> if rp_isok pkt then Inr () else Inl Uninitialized
      | ErrBody _ \<Rightarrow> if rp_isok pkt then Inl Uninitialized else Inr ()
      | _ \<Rightarrow> Inl Uninitialized)"

subsection \<open>Command packet\<close>

record CmdPkt =
  cm_cmd :: u8
  cm_args :: "u8 list"

text \<open>\<open>args\<close> is the block; \<open>plen - 1\<close> bytes of it are sent. \<open>plen < 0\<close> never holds of a \<open>size_t\<close>.\<close>

definition writeCmdPkt :: "CmdPkt \<Rightarrow> nat \<Rightarrow> sock \<Rightarrow> (bool \<times> sock) res" where
  "writeCmdPkt pkt plen fd =
     (let io = vioInitWithBuffer (replicate plen 0)
      in bindE (writeBinary io [cm_cmd pkt]) (\<lambda>io.
         bindE (peek (cm_args pkt) 0 (size_of_int (int plen - 1))) (\<lambda>args.
         bindE (writeBinary io args) (\<lambda>io.
         bindE (own_block io) (\<lambda>buf.
         bindE (anetWrite buf plen fd) (\<lambda>(nwrite, fd). Inr (nwrite \<noteq> - 1, fd)))))))"

end
