(* ===== verification/MySQL.thy ===== *)
theory MySQL
  imports Protocol
begin

text \<open>
  The connection of \<open>src/src/mysql.c\<close>: connecting and authenticating, closing, sending a
  command, and \<open>msaferead\<close>, which reads one packet of a stream. A file descriptor is modelled
  by the socket it names, \<open>-1\<close> by \<open>None\<close>; \<open>errstr\<close> is the C string without its NUL.
\<close>

record MySQL =
  my_fd :: "sock option"
  my_scapacity :: u32
  my_ccapacity :: u32
  my_threadid :: u32
  my_maxpkt :: u32
  my_status :: u16
  my_charset :: u8
  my_pnum :: u8
  my_errstr :: "u8 list"

abbreviation M_COM_BINLOG_DUMP :: u8 where "M_COM_BINLOG_DUMP \<equiv> 18"
abbreviation M_CLIENT_LONG_PASSWORD :: u32 where "M_CLIENT_LONG_PASSWORD \<equiv> 1"
abbreviation M_CLIENT_LONG_FLAG :: u32 where "M_CLIENT_LONG_FLAG \<equiv> 4"
abbreviation M_CLIENT_CONNECT_WITH_DB :: u32 where "M_CLIENT_CONNECT_WITH_DB \<equiv> 8"
abbreviation M_CLIENT_PROTOCOL_41 :: u32 where "M_CLIENT_PROTOCOL_41 \<equiv> 512"
abbreviation M_CLIENT_SECURE_CONNECTION :: u32 where "M_CLIENT_SECURE_CONNECTION \<equiv> 32768"
abbreviation M_MAX_PACKET_SIZE :: u32 where "M_MAX_PACKET_SIZE \<equiv> 16777216"

text \<open>
  \<open>strncpy(errstr, s, 256)\<close> leaves no NUL behind a text of 256 bytes or more; every caller
  prints \<open>errstr\<close> next, past its end.
\<close>

definition strncpy_err :: "u8 list \<Rightarrow> u8 list res" where
  "strncpy_err s = bindE (checkE OutOfBounds (length s < 256)) (\<lambda>_. Inr s)"

definition mclose :: "MySQL \<Rightarrow> MySQL" where
  "mclose m = m\<lparr>my_fd := None, my_scapacity := 0, my_ccapacity := 0, my_threadid := 0,
     my_status := 0, my_charset := 0, my_pnum := 0\<rparr>"

subsection \<open>Connecting\<close>

text \<open>
  The greeting (lines 13-27): header and handshake. The flag is \<open>False\<close> when the code returns
  0 because of the protocol; the messages are those of the two \<open>sprintf\<close>.
\<close>

definition mc_greeting ::
    "MySQL \<Rightarrow> sock \<Rightarrow> (bool \<times> PktHeader \<times> HandshakePkt \<times> MySQL \<times> sock) res"
where
  "mc_greeting mysql fd =
     bindE (readPktHeader fd) (\<lambda>(header, fd).
     bindE (initialised header) (\<lambda>header.
     let mysql = mysql\<lparr>my_pnum := ph_pnum header\<rparr> in
     bindE (readHandshakePkt (unat (ph_plen header)) fd) (\<lambda>(handshake, fd).
     bindE (initialised handshake) (\<lambda>handshake.
     bindE (initialised (hs_capacity handshake)) (\<lambda>capacity.
     if capacity AND M_CLIENT_PROTOCOL_41 = 0
     then Inr (False, header, handshake, mysql\<lparr>my_errstr :=
       [73, 109, 99, 111, 109, 112, 97, 116, 105, 98, 108, 101, 32, 112, 114, 111, 116, 111, 99, 111,
        108, 44, 119, 101, 32, 117, 115, 101, 32, 67, 76, 73, 69, 78, 84, 95, 80, 82, 79, 84, 79,
        67, 79, 76, 95, 52, 49]\<rparr>, fd)
     else if hs_protover handshake \<noteq> 10
     then Inr (False, header, handshake, mysql\<lparr>my_errstr :=
       [85, 110, 115, 117, 112, 112, 111, 114, 116, 32, 112, 114, 111, 116, 111, 99, 111, 108, 32,
        118, 101, 114, 115, 105, 111, 110, 32] @
       (if hs_protover handshake < 10 then [48 + hs_protover handshake]
        else if hs_protover handshake < 100
        then [48 + hs_protover handshake div 10, 48 + hs_protover handshake mod 10]
        else [48 + hs_protover handshake div 100, 48 + hs_protover handshake div 10 mod 10,
              48 + hs_protover handshake mod 10])\<rparr>, fd)
     else bindE (initialised (hs_status handshake)) (\<lambda>status.
       Inr (True, header, handshake, mysql\<lparr>my_scapacity := capacity, my_status := status\<rparr>, fd)))))))"

text \<open>The authentication packet (lines 29-54). \<open>user\<close> NULL stays NULL; \<open>au_salt\<close> starts as zeroes.\<close>

definition mc_auth ::
    "HandshakePkt \<Rightarrow> u8 list option \<Rightarrow> u8 list option \<Rightarrow> u8 list option \<Rightarrow> AuthPkt res"
where
  "mc_auth handshake user passwd db =
     bindE (initialised (hs_charset handshake)) (\<lambda>charset.
     bindE (initialised (hs_capacity handshake)) (\<lambda>capacity.
     let flags = M_CLIENT_PROTOCOL_41 OR M_CLIENT_SECURE_CONNECTION OR M_CLIENT_LONG_PASSWORD OR
                 M_CLIENT_LONG_FLAG;
         with_db = (db \<noteq> None \<and> capacity AND M_CLIENT_CONNECT_WITH_DB \<noteq> 0);
         auth = \<lparr>au_clientflags = (if with_db then flags OR M_CLIENT_CONNECT_WITH_DB else flags),
                 au_maxpkt = M_MAX_PACKET_SIZE, au_charset = charset, au_user = user,
                 au_saltlen = 0, au_salt = replicate 20 0,
                 au_database = (if with_db then db else None)\<rparr>
     in case passwd of
          None \<Rightarrow> Inr auth
        | Some pw \<Rightarrow>
            bindE (cooksalt (hs_salt handshake) (hs_saltlen handshake) pw) (\<lambda>salt.
              Inr (auth\<lparr>au_saltlen := 20, au_salt := salt\<rparr>))))"

text \<open>
  Reading a reply (lines 63-67, 80-83): the header's packet number, then the packet. When no
  header can be read, \<open>header\<close> keeps what it held before, the greeting's or the first reply's.
\<close>

definition mc_reply ::
    "PktHeader \<Rightarrow> ReplyPkt option \<Rightarrow> MySQL \<Rightarrow> sock \<Rightarrow>
     (PktHeader \<times> ReplyPkt option \<times> MySQL \<times> sock) res"
where
  "mc_reply header reply mysql fd =
     bindE (readPktHeader fd) (\<lambda>(h, fd).
     let header = (case h of None \<Rightarrow> header | Some h \<Rightarrow> h) in
     bindE (readReplyPkt reply (unat (ph_plen header)) fd) (\<lambda>(_, reply, fd).
       Inr (header, reply, mysql\<lparr>my_pnum := ph_pnum header\<rparr>, fd)))"

text \<open>
  The verdict of the server (lines 63-95). When it asks for the old password scheme, \<open>saltold\<close>
  starts as zeroes.
\<close>

definition mc_finish ::
    "PktHeader \<Rightarrow> HandshakePkt \<Rightarrow> u8 list option \<Rightarrow> MySQL \<Rightarrow> sock \<Rightarrow> (bool \<times> MySQL) res"
where
  "mc_finish header handshake passwd mysql fd =
     bindE (mc_reply header None mysql fd) (\<lambda>(header, reply, mysql, fd).
     bindE (initialised reply) (\<lambda>r.
     bindE (if rp_iseof r then
              let mysql = mysql\<lparr>my_pnum := my_pnum mysql + 1\<rparr> in
              bindE (case passwd of None \<Rightarrow> Inr (replicate 9 0)
                     | Some pw \<Rightarrow> cooksaltOld (replicate 9 0) (hs_salt handshake) (Some pw)) (\<lambda>saltold.
              bindE (writeHeader 9 (my_pnum mysql) fd) (\<lambda>(_, fd).
              bindE (anetWrite saltold 9 fd) (\<lambda>(_, fd).
                mc_reply header (Some r) mysql fd)))
            else Inr (header, Some r, mysql, fd)) (\<lambda>(header, reply, mysql, fd).
     bindE (initialised reply) (\<lambda>r.
     if \<not> rp_isok r then
       bindE (err_message r) (\<lambda>msg. bindE (strncpy_err msg) (\<lambda>e.
       bindE (tryFreeReply r) (\<lambda>_.
         Inr (False, mclose (mysql\<lparr>my_fd := Some fd, my_errstr := e\<rparr>)))))
     else
       bindE (tryFreeReply r) (\<lambda>_.
         Inr (True, mysql\<lparr>my_fd := Some fd, my_pnum := 0\<rparr>))))))"

text \<open>\<open>tcp\<close> is \<open>anetTcpConnect\<close>: an error text or a connected socket.\<close>

definition mconnect ::
    "(u8 list \<Rightarrow> int \<Rightarrow> u8 list + sock) \<Rightarrow> MySQL \<Rightarrow> u8 list option \<Rightarrow> int \<Rightarrow> u8 list option \<Rightarrow>
     u8 list option \<Rightarrow> u8 list option \<Rightarrow> (bool \<times> MySQL) res"
where
  "mconnect tcp mysql host port user passwd db =
     bindE (deref host) (\<lambda>host.
     case tcp host port of
       Inl msg \<Rightarrow> Inr (False, mysql\<lparr>my_errstr := msg\<rparr>)
     | Inr fd \<Rightarrow>
       bindE (mc_greeting mysql fd) (\<lambda>(ok, header, handshake, mysql, fd).
       if \<not> ok then Inr (False, mysql\<lparr>my_fd := Some fd\<rparr>)
       else
         let mysql = mysql\<lparr>my_pnum := my_pnum mysql + 1\<rparr> in
         bindE (mc_auth handshake user passwd db) (\<lambda>auth.
         let mysql = mysql\<lparr>my_maxpkt := au_maxpkt auth,
               my_ccapacity := au_clientflags auth AND NOT M_CLIENT_CONNECT_WITH_DB\<rparr> in
         bindE (calcAuthPktLen auth) (\<lambda>plen.
         bindE (writeHeader plen (my_pnum mysql) fd) (\<lambda>(_, fd).
         bindE (writeAuthPkt auth plen fd) (\<lambda>(_, fd).
         bindE (tryFreeHandshake handshake) (\<lambda>_.
           mc_finish header handshake passwd mysql fd)))))))"

subsection \<open>Commands\<close>

definition msendcmd :: "MySQL \<Rightarrow> u8 \<Rightarrow> u8 list \<Rightarrow> nat \<Rightarrow> (bool \<times> MySQL) res" where
  "msendcmd mysql cmd args argslen =
     (case my_fd mysql of
        None \<Rightarrow> Inr (False, mysql\<lparr>my_errstr :=
          [73, 110, 118, 97, 108, 105, 100, 32, 102, 100, 44, 32, 112, 108, 101, 97, 115, 101, 32,
           99, 111, 110, 110, 110, 101, 99, 116, 32, 116, 111, 32, 109, 121, 115, 113, 108, 32, 102,
           105, 114, 115, 116, 33]\<rparr>)
      | Some fd \<Rightarrow>
          let plen = argslen + 1 in
          bindE (writeHeader plen (my_pnum mysql) fd) (\<lambda>(ok, fd).
          if \<not> ok then Inr (False, mysql\<lparr>my_fd := Some fd\<rparr>)
          else
            bindE (writeCmdPkt \<lparr>cm_cmd = cmd, cm_args = args\<rparr> plen fd) (\<lambda>(ok, fd).
            if \<not> ok then Inr (False, mysql\<lparr>my_fd := Some fd\<rparr>)
            else
              bindE (readPktHeader fd) (\<lambda>(header, fd).
              bindE (initialised header) (\<lambda>header.
              bindE (readReplyPkt None (unat (ph_plen header)) fd) (\<lambda>(_, reply, fd).
              bindE (initialised reply) (\<lambda>r.
              let mysql = mysql\<lparr>my_fd := Some fd\<rparr> in
              if \<not> rp_isok r \<and> \<not> rp_iseof r then
                bindE (err_message r) (\<lambda>msg. bindE (tryFreeReply r) (\<lambda>_.
                  Inr (False, mysql\<lparr>my_errstr := take 127 msg\<rparr>)))
              else bindE (tryFreeReply r) (\<lambda>_. Inr (True, mysql)))))))))"

subsection \<open>Reading a packet of the stream\<close>

text \<open>
  The result is \<open>nread\<close>, the connection, the caller's buffer and \<open>*newbuf\<close>, which is \<open>None\<close>
  when the call returns without setting it and \<open>Some None\<close> when it is set to NULL. \<open>isok\<close>
  is 0 for an error packet only, so the branch for an end-of-file packet is dead.
\<close>

definition msaferead ::
    "MySQL \<Rightarrow> u8 list \<Rightarrow> nat \<Rightarrow> (int \<times> MySQL \<times> u8 list \<times> u8 list option option) res"
where
  "msaferead mysql buf blen =
     bindE (deref (my_fd mysql)) (\<lambda>fd.
     bindE (readPktHeader fd) (\<lambda>(header, fd).
     bindE (initialised header) (\<lambda>header.
     let plen = unat (ph_plen header) in
     bindE (anetRead 1 [0] fd) (\<lambda>(n, marker, fd).
     if n = - 1 then Inr (- 1, mysql\<lparr>my_fd := Some fd\<rparr>, buf, None)
     else
       bindE (checkE Uninitialized (n = 1)) (\<lambda>_.
       let left = size_of_int (int plen - 1); marker = marker ! 0 in
       if marker = 255 then
         bindE (readErrorPkt left fd) (\<lambda>(b, fd).
         bindE (err_message \<lparr>rp_isok = False, rp_iseof = False, rp_pkt = to_body ErrBody b\<rparr>) (\<lambda>msg.
         bindE (strncpy_err msg) (\<lambda>e.
           Inr (- 1, mysql\<lparr>my_fd := Some fd, my_errstr := e\<rparr>, buf, None))))
       else
         bindE (if marker = 254 \<and> left < 8
                then bindE (readEofPkt left fd) (\<lambda>(_, fd). Inr fd) else Inr fd) (\<lambda>fd.
         let big = (blen < plen) in
         bindE (anetRead (int_of_size left) (if big then replicate plen 0 else buf) fd)
           (\<lambda>(nread, b, fd).
           Inr (nread,
                mysql\<lparr>my_fd := Some fd,
                       my_errstr := (if nread = - 1 then sk_errno fd else my_errstr mysql)\<rparr>,
                (if big then buf else b), Some (if big then Some b else None)))))))))"

end
