(* ===== verification/SocketProps.thy ===== *)
theory SocketProps
  imports Descriptors NetSource
begin

text \<open>
  The properties of the functions that set up sockets, on any system that hands out fresh
  descriptors, and what \<open>mconnect\<close> makes of a connection that cannot be opened.
\<close>

subsection \<open>A system\<close>

text \<open>
  A system that hands out the number above all open descriptors, where the calls that \<open>fails\<close>
  tells fail with the error \<open>e\<close>. It knows dotted numbers of one digit each and one host name.
\<close>

definition fresh_fd :: "calls \<Rightarrow> int" where
  "fresh_fd log = Max (insert 2 (open_fds log)) + 1"

definition demo_kernel :: "(calls \<Rightarrow> syscall \<Rightarrow> bool) \<Rightarrow> errno \<Rightarrow> kernel" where
  "demo_kernel fails e = \<lparr>
     k_ret = (\<lambda>log c. if fails log c then - 1
       else case c of SysSocket _ \<Rightarrow> fresh_fd log | SysAccept _ \<Rightarrow> fresh_fd log | _ \<Rightarrow> 0),
     k_errno = (\<lambda>_ _. e), k_peer = (\<lambda>_ _. ([127, 0, 0, 1], 3306)), k_strerror = (\<lambda>_. [33]),
     k_aton = (\<lambda>t. case t of [a, _, b, _, c, _, d] \<Rightarrow> Some [a - 48, b - 48, c - 48, d - 48] | _ \<Rightarrow> None),
     k_host = (\<lambda>t. if t = [100, 98] then Some [10, 0, 0, 7] else None), k_junk = 255\<rparr>"

definition quiet :: anet where
  "quiet = \<lparr>an_err = Some (replicate 256 0), an_log = [], an_errno = OtherErrno 0\<rparr>"

lemma finite_open_fds: "finite F \<Longrightarrow> finite (foldl fd_step F cs)"
proof (induction cs arbitrary: F)
  case (Cons c cs)
  obtain x r where "c = (x, r)" by (cases c)
  with Cons show ?case by (cases x) simp_all
qed simp

lemma open_fds_no_error: "- 1 \<notin> F \<Longrightarrow> - 1 \<notin> foldl fd_step F cs"
proof (induction cs arbitrary: F)
  case (Cons c cs)
  obtain x r where "c = (x, r)" by (cases c)
  with Cons show ?case by (cases x) simp_all
qed simp

lemma fresh_fd_fresh: "fresh_fd log \<notin> open_fds log"
proof
  have "finite (insert 2 (open_fds log))" by (simp add: open_fds_def finite_open_fds)
  moreover assume "fresh_fd log \<in> open_fds log"
  ultimately have "fresh_fd log \<le> Max (insert 2 (open_fds log))" by (intro Max_ge) simp_all
  then show False by (simp add: fresh_fd_def)
qed

lemma demo_kernel_ok: "kernel_ok (demo_kernel fails e)"
  using fresh_fd_fresh open_fds_no_error [of "{}"]
  by (auto simp add: kernel_ok_def demo_kernel_def open_fds_def)

lemma quiet_ok: "err_ok quiet"
  by (simp add: quiet_def err_ok_def)

subsection \<open>Connecting and serving\<close>

text \<open>C36: who owns a new socket. On every system that hands out fresh descriptors, the connecting
  functions end without a fault; a socket they return is open and was not before; when they
  return \<open>ANET_ERR\<close> no descriptor is left open, except that the new socket is
  lost when \<open>setsockopt\<close> or \<open>fcntl\<close> fails.\<close>

theorem anet_connect_descriptors:
  assumes "kernel_ok k" "err_ok w"
  shows "runs (handed_over (open_fds (an_log w))) w (anetTcpGenericConnect k addr port flags w) \<and>
    runs (handed_over (open_fds (an_log w))) w (anetUnixGenericConnect k path flags w)"
  using anetTcpGenericConnect_runs [OF assms] anetUnixGenericConnect_runs [OF assms] by blast

theorem anet_connect_descriptors_witness:
  "runs (handed_over {}) quiet (anetTcpGenericConnect (demo_kernel (\<lambda>_ c. setup_call c) EINTR) [100, 98] 3306 0 quiet)"
  using anet_connect_descriptors [OF demo_kernel_ok quiet_ok] by (simp add: quiet_def open_fds_def)

text \<open>C37: serving: \<open>anetTcpServer\<close> returns a socket only after creating it, making
  its address reusable, binding it to the address and port asked for, any address when none is
  given, and listening with a backlog of 511, in this order and with no other call;
  descriptors are kept or lost as for the connecting functions.\<close>

theorem anetTcpServer_listens:
  assumes "kernel_ok k" "err_ok w"
  shows "runs (handed_over (open_fds (an_log w))) w (anetTcpServer k port bindaddr w) \<and>
    runs (\<lambda>r cs. r \<noteq> - 1 \<longrightarrow> (\<exists>a o' b l.
      (case bindaddr of None \<Rightarrow> a = [0, 0, 0, 0] | Some h \<Rightarrow> k_aton k h = Some a) \<and>
      o' \<noteq> - 1 \<and> b \<noteq> - 1 \<and> l \<noteq> - 1 \<and>
      cs = [(SysSocket AF_INET, r), (SysSetsockopt r SO_REUSEADDR 1, o'),
            (SysBind r (InetAddr a (of_int port)), b), (SysListen r 511, l)])) w
    (anetTcpServer k port bindaddr w)"
  using anetTcpServer_runs [OF assms] anetTcpServer_calls [OF assms] by blast

theorem anetTcpServer_listens_witness:
  "runs (handed_over {}) quiet (anetTcpServer (demo_kernel (\<lambda>_ _. False) EINTR) 3306 None quiet)"
  using anetTcpServer_listens [OF demo_kernel_ok quiet_ok, of _ _ 3306 None] by (simp add: quiet_def open_fds_def)

text \<open>C38: \<open>anetGenericAccept\<close> returns exactly when some call of
  \<open>accept\<close> is not interrupted, and then with the answer of the first such call:
  its descriptor, or \<open>ANET_ERR\<close> with the error text.\<close>

theorem anetGenericAccept_returns:
  "(anetGenericAccept k s w = None \<longleftrightarrow> (\<forall>n. interrupted k s (after_accepts k s n w))) \<and>
   (\<forall>n. (\<forall>m. m < n \<longrightarrow> interrupted k s (after_accepts k s m w)) \<and> \<not> interrupted k s (after_accepts k s n w) \<longrightarrow>
     anetGenericAccept k s w = Some (accept_result k s (after_accepts k s n w)))"
proof -
  have "\<exists>n. \<not> interrupted k s (after_accepts k s n w)" if "anetGenericAccept k s w = Some m" for m
    using anetGenericAccept_Some [OF that] .
  moreover have "anetGenericAccept k s w \<noteq> None" if "\<not> interrupted k s (after_accepts k s n w)" for n
  proof -
    define l where "l = (LEAST n. \<not> interrupted k s (after_accepts k s n w))"
    have "\<not> interrupted k s (after_accepts k s l w)" "m < l \<Longrightarrow> interrupted k s (after_accepts k s m w)" for m
      unfolding l_def using LeastI [of "\<lambda>n. \<not> interrupted k s (after_accepts k s n w)", OF that]
        not_less_Least [of m "\<lambda>n. \<not> interrupted k s (after_accepts k s n w)"] by blast+
    from anetGenericAccept_ends [OF this(2,1)] show ?thesis by simp
  qed
  ultimately show ?thesis using anetGenericAccept_ends by (metis not_None_eq)
qed

text \<open>Two interrupted calls, then a connection.\<close>

theorem anetGenericAccept_returns_witness:
  "anetGenericAccept (demo_kernel (\<lambda>log _. length log < 2) EINTR) 3 quiet =
     Some (accept_result (demo_kernel (\<lambda>log _. length log < 2) EINTR) 3
       (after_accepts (demo_kernel (\<lambda>log _. length log < 2) EINTR) 3 2 quiet))"
proof -
  define k where "k = demo_kernel (\<lambda>log _. length log < 2) EINTR"
  have len: "length (an_log (after_accepts k 3 n quiet)) = n" for n
    by (induction n) (simp_all add: after_accepts_def quiet_def)
  have "interrupted k 3 (after_accepts k 3 m quiet)" if "m < 2" for m
    using len [of m] that by (simp add: interrupted_def k_def demo_kernel_def)
  moreover have "\<not> interrupted k 3 (after_accepts k 3 2 quiet)"
  proof -
    have "k_ret k log (SysAccept 3) \<noteq> - 1" if "length log = 2" for log
    proof -
      have "2 \<le> Max (insert 2 (open_fds log))" by (intro Max_ge) (simp_all add: open_fds_def finite_open_fds)
      with that show ?thesis by (simp add: k_def demo_kernel_def fresh_fd_def)
    qed
    with len [of 2] show ?thesis by (simp add: interrupted_def)
  qed
  ultimately show ?thesis
    using anetGenericAccept_returns [of k 3 quiet] unfolding k_def by blast
qed

subsection \<open>Corners\<close>

text \<open>A path of 107 bytes and more is cut, and then ends in what the stack held.\<close>

lemma long_path_unterminated:
  assumes "107 \<le> length path" "0 \<notin> set path" "junk \<noteq> 0"
  shows "sun_path path junk = take 107 path @ [junk]" "0 \<notin> set (sun_path path junk)"
  using assms by (auto simp add: sun_path_def dest: in_set_takeD)

text \<open>A caller that gives no buffer is served as long as \<open>getpeername\<close> succeeds.\<close>

lemma anetPeerToString_null:
  "k_ret k (an_log w) (SysGetpeername fd) = - 1 \<Longrightarrow> anetPeerToString k fd ip None w = Inl NullDeref"
  "k_ret k (an_log w) (SysGetpeername fd) \<noteq> - 1 \<Longrightarrow>
     anetPeerToString k fd None None w = Inr (0, None, None, called k (SysGetpeername fd) w)"
  by (simp_all add: anetPeerToString_def sys_called anet_peer_def deref_def split_def)

subsection \<open>Opening the connection to a server\<close>

text \<open>
  Lines 9 and 10 of \<open>mysql.c\<close>: \<open>mysql->errstr\<close> is the error buffer, and \<open>peer\<close> the stream
  behind a connected socket.
\<close>

definition mysql_tcp :: "kernel \<Rightarrow> (int \<Rightarrow> sock) \<Rightarrow> anet \<Rightarrow> u8 list \<Rightarrow> int \<Rightarrow> u8 list + sock" where
  "mysql_tcp k peer w host port =
     (case anetTcpConnect k host port w of
        Inl _ \<Rightarrow> Inl []
      | Inr (fd, w) \<Rightarrow>
          if fd < 0 then Inl (case an_err w of None \<Rightarrow> [] | Some b \<Rightarrow> takeWhile (\<lambda>c. c \<noteq> 0) b)
          else Inr (peer fd))"

lemma takeWhile_err:
  "an_err w = Some b \<Longrightarrow> 0 \<notin> set msg \<Longrightarrow>
    (case an_err (set_err msg w) of None \<Rightarrow> [] | Some b \<Rightarrow> takeWhile (\<lambda>c. c \<noteq> 0) b) = take 255 msg"
proof -
  assume a: "an_err w = Some b" "0 \<notin> set msg"
  then have "takeWhile (\<lambda>c. c \<noteq> 0) (take 255 msg @ 0 # r) = take 255 msg" for r
    by (subst takeWhile_append2) (auto dest: in_set_takeD)
  with a(1) show ?thesis by (simp add: set_err_def)
qed

lemma mconnect_cannot_resolve:
  assumes "kernel_ok k" "an_err w = Some b" "length b = 256" "host_address k host = None" "0 \<notin> set host"
    and "k_ret k (an_log w) (SysSocket AF_INET) = s" "s \<noteq> - 1"
    and "k_ret k (an_log w @ [(SysSocket AF_INET, s)]) (SysSetsockopt s SO_REUSEADDR 1) \<noteq> - 1"
  shows "mconnect (mysql_tcp k peer w) mysql (Some host) port user passwd db =
    Inr (False, mysql\<lparr>my_errstr := take 255 ([99, 97, 110, 39, 116, 32, 114, 101, 115, 111, 108, 118, 101, 58, 32] @ host)\<rparr>)"
proof -
  define msg where "msg = [99, 97, 110, 39, 116, 32, 114, 101, 115, 111, 108, 118, 101, 58, 32] @ host"
  have e: "err_ok w" using assms(2,3) by (simp add: err_ok_def)
  let ?w = "called k (SysSetsockopt s SO_REUSEADDR 1) (called k (SysSocket AF_INET) w)"
  have c: "anetTcpConnect k host port w = Inr (- 1, called k (SysClose s) (set_err msg ?w))"
    using e assms(4,6,7,8)
    by (simp add: anetTcpConnect_def anetTcpGenericConnect_def anet_address_ok [OF assms(1)] anet_steps msg_def)
  have "mysql_tcp k peer w host port = Inl (take 255 msg)"
    unfolding mysql_tcp_def c using takeWhile_err [of ?w b msg] assms(2,5) by (simp add: msg_def)
  then show ?thesis by (simp add: mconnect_def deref_def msg_def)
qed

lemma mconnect_cannot_resolve_example:
  "mconnect (mysql_tcp (demo_kernel (\<lambda>_ _. False) EINTR) (\<lambda>_. \<lparr>sk_in = [], sk_out = [], sk_room = [], sk_again = False, sk_errno = []\<rparr>) quiet) mysql_zero (Some [120]) 3306 None None None =
    Inr (False, mysql_zero\<lparr>my_errstr := take 255 ([99, 97, 110, 39, 116, 32, 114, 101, 115, 111, 108, 118, 101, 58, 32] @ [120])\<rparr>)"
proof -
  show ?thesis
    by (rule mconnect_cannot_resolve [where s = 3 and b = "replicate 256 0", OF demo_kernel_ok])
      (simp_all add: quiet_def demo_kernel_def host_address_def fresh_fd_def open_fds_def)
qed

end
