(* ===== verification/NetStream.thy ===== *)
theory NetStream
  imports NetSource
begin

text \<open>
  The packets of a connection and what the code reads of them: event packets, the error packet
  that ends a stream, and the stream of a server after the dump command. The interpretation
  \<open>net_source\<close> shows that the network driver delivers the events of such a stream.
\<close>

subsection \<open>Packets\<close>

text \<open>A packet: the length of its body in three bytes, the packet number, the body.\<close>

definition packet :: "u8 \<Rightarrow> u8 list \<Rightarrow> u8 list" where
  "packet q body = le_bytes 3 (length body) @ q # body"

lemma readPktHeader_packet:
  assumes "in_bytes (sk_in s) = le_bytes 3 n @ q # r" "n < 2 ^ 24"
  shows "\<exists>as. readPktHeader s = Inr (Some \<lparr>ph_plen = of_nat n, ph_pnum = q\<rparr>, s\<lparr>sk_in := as\<rparr>) \<and>
    in_bytes as = r \<and> in_tail as = in_tail (sk_in s)"
proof -
  have b: "in_bytes (sk_in s) = (le_bytes 3 n @ [q]) @ r" using assms(1) by simp
  obtain as where as: "anetRead 4 (replicate 4 0) s = Inr (4, le_bytes 3 n @ [q], s\<lparr>sk_in := as\<rparr>)"
      "in_bytes as = r" "in_tail as = in_tail (sk_in s)"
    using anetRead_exact [OF b, of "replicate 4 0"] by auto
  have "uint24_of (le_bytes 3 n) = of_nat n"
    using assms(2) by (simp add: uint24_of_le le_val_le_bytes_id)
  then have "readPktHeader s = Inr (Some \<lparr>ph_plen = of_nat n, ph_pnum = q\<rparr>, s\<lparr>sk_in := as\<rparr>)"
    by (simp add: readPktHeader_def as(1) vioInitWithBuffer_def vioReadUint24_def vioReadUint8_def
        readBinary_buffer)
  with as show ?thesis by blast
qed

lemma anetRead_byte:
  assumes "in_bytes (sk_in s) = m # r"
  shows "\<exists>as. anetRead 1 [0] s = Inr (1, [m], s\<lparr>sk_in := as\<rparr>) \<and> in_bytes as = r \<and>
    in_tail as = in_tail (sk_in s)"
  using anetRead_exact [of s "[m]" r "[0]"] assms by simp

lemma unat_plen: "n < 2 ^ 24 \<Longrightarrow> unat (of_nat n :: u32) = n"
  by (simp add: unat_of_nat)

lemma plen_left: "size_of_int (int (Suc n) - 1) = n" if "n < 2 ^ 24"
  using that size_of_int_nat [of n] by simp

text \<open>\<open>anetRead\<close> with the length of a body.\<close>

lemma anetRead_body:
  assumes "in_bytes (sk_in s) = bs @ r" "length bs \<le> length b" "length bs < 2 ^ 24"
  shows "\<exists>as. anetRead (int_of_size (length bs)) b s =
      Inr (int (length bs), bs @ drop (length bs) b, s\<lparr>sk_in := as\<rparr>) \<and>
    in_bytes as = r \<and> in_tail as = in_tail (sk_in s)"
  using anetRead_exact [OF assms(1,2)] assms(3) by (simp add: int_of_size_small)

subsection \<open>Reading the stream\<close>

definition big_event :: "u8 list \<Rightarrow> bool" where
  "big_event e \<longleftrightarrow> BL_EVENT_BUF_SIZE \<le> length e"

lemma msaferead_event:
  assumes "my_fd my = Some s" "in_bytes (sk_in s) = packet q (m # e) @ r"
    and "m \<noteq> 255" "\<not> (m = 254 \<and> length e < 8)" "Suc (length e) < 2 ^ 24" "length buf = BL_EVENT_BUF_SIZE"
  shows "\<exists>as. msaferead my buf BL_EVENT_BUF_SIZE =
      Inr (int (length e), my\<lparr>my_fd := Some (s\<lparr>sk_in := as\<rparr>)\<rparr>,
        (if big_event e then buf else e @ drop (length e) buf),
        Some (if big_event e then Some (e @ [0]) else None)) \<and>
    in_bytes as = r \<and> in_tail as = in_tail (sk_in s)"
proof -
  have n: "Suc (length e) < 2 ^ 24" using assms(5) .
  obtain as1 where 1: "readPktHeader s = Inr (Some \<lparr>ph_plen = of_nat (Suc (length e)), ph_pnum = q\<rparr>, s\<lparr>sk_in := as1\<rparr>)"
      "in_bytes as1 = m # e @ r" "in_tail as1 = in_tail (sk_in s)"
    using readPktHeader_packet [of s "Suc (length e)" q "m # e @ r"] assms(2) n by (auto simp add: packet_def)
  obtain as2 where 2: "anetRead 1 [0] (s\<lparr>sk_in := as1\<rparr>) = Inr (1, [m], s\<lparr>sk_in := as2\<rparr>)"
      "in_bytes as2 = e @ r" "in_tail as2 = in_tail as1"
    using anetRead_byte [of "s\<lparr>sk_in := as1\<rparr>" m "e @ r"] 1(2) by auto
  define b where "b = (if big_event e then replicate (Suc (length e)) 0 else buf)"
  have lb: "length e \<le> length b" using assms(6) by (simp add: b_def big_event_def)
  obtain as3 where 3: "anetRead (int_of_size (length e)) b (s\<lparr>sk_in := as2\<rparr>) =
        Inr (int (length e), e @ drop (length e) b, s\<lparr>sk_in := as3\<rparr>)"
      "in_bytes as3 = r" "in_tail as3 = in_tail as2"
    using anetRead_body [of "s\<lparr>sk_in := as2\<rparr>" e r b] 2(2) lb n by auto
  have u: "unat (of_nat (Suc (length e)) :: u32) = Suc (length e)" using n by (rule unat_plen)
  have l: "size_of_int (int (Suc (length e)) - 1) = length e" using n by (intro plen_left) simp
  have m: "(m = 255) = False" "(m = 254 \<and> length e < 8) = False" using assms(3,4) by auto
  have big: "(BL_EVENT_BUF_SIZE < Suc (length e)) = big_event e" by (auto simp add: big_event_def)
  have ne: "(int (length e) = - 1) = False" "((1 :: int) = - 1) = False" "((1 :: int) = 1) = True" by simp_all
  have up: "my\<lparr>my_fd := Some t, my_errstr := my_errstr my\<rparr> = my\<lparr>my_fd := Some t\<rparr>" for t by simp
  have "msaferead my buf BL_EVENT_BUF_SIZE =
      Inr (int (length e), my\<lparr>my_fd := Some (s\<lparr>sk_in := as3\<rparr>)\<rparr>,
        (if big_event e then buf else e @ drop (length e) b),
        Some (if big_event e then Some (e @ drop (length e) b) else None))"
    unfolding msaferead_def assms(1) deref_def option.case
    by (simp only: bindE_simps 1(1) prod.case initialised_simps Let_def PktHeader.simps u 2(1) ne if_False
        checkE_simps l nth_Cons_0 m big b_def [symmetric] 3(1) up)
  moreover have "(if big_event e then buf else e @ drop (length e) b) =
      (if big_event e then buf else e @ drop (length e) buf)" by (simp add: b_def)
  moreover have "big_event e \<Longrightarrow> drop (length e) b = [0]" by (simp add: b_def replicate_append_same [symmetric])
  ultimately show ?thesis using 1(3) 2(3) 3(2,3) by (intro exI [of _ as3]) auto
qed

text \<open>The error packet that ends a stream.\<close>

definition err_packet :: "u8 \<Rightarrow> nat \<Rightarrow> u8 list \<Rightarrow> u8 list \<Rightarrow> u8 list" where
  "err_packet q errno state msg = packet q (255 # le_bytes 2 errno @ 35 # state @ msg)"

lemma readErrorPkt_body:
  assumes "in_bytes (sk_in s) = le_bytes 2 errno @ 35 # state @ msg @ r"
    and "length state = 5" "msg \<noteq> []" "length msg < 2 ^ 20" "n = 8 + length msg" "errno < 2 ^ 16"
  shows "\<exists>as. readErrorPkt n s = Inr (Some \<lparr>er_errno = of_nat errno, er_smarker = 35,
      er_state = Some state, er_message = Some msg\<rparr>, s\<lparr>sk_in := as\<rparr>) \<and> in_bytes as = r"
proof -
  define body where "body = le_bytes 2 errno @ 35 # state @ msg"
  have l: "length body = n" using assms(2,5) by (simp add: body_def)
  obtain as where as: "anetRead (int_of_size n) (replicate n 0) s = Inr (int n, body, s\<lparr>sk_in := as\<rparr>)"
      "in_bytes as = r"
    using anetRead_body [of s body r "replicate n 0"] assms(1,4,5) l by (auto simp add: body_def)
  have t: "take 2 body = le_bytes 2 errno" "take 1 (drop 2 body) = [35]" "take 5 (drop 3 body) = state"
    "drop 8 body = msg"
    using assms(2) by (simp_all add: body_def)
  have n: "malloc_fails n = False" "size_of_int (int n) < n \<longleftrightarrow> False" "n - 8 = length msg" "n - 8 \<noteq> 0"
  proof -
    have "n < 2 ^ 63" using assms(4,5) by simp
    then show "malloc_fails n = False" "size_of_int (int n) < n \<longleftrightarrow> False"
      using size_of_int_nat [of n] by (simp_all add: malloc_fails_def)
  qed (use assms(3,5) in simp_all)
  have le: "le_val (le_bytes 2 errno) = errno" using assms(6) by (simp add: le_val_le_bytes_id)
  have n8: "\<not> n \<le> 8" using n(4) by simp
  have r: "readBinary (VioBuffer body 0 False) 2 = Inr (le_bytes 2 errno, VioBuffer body 2 False)"
    "readBinary (VioBuffer body 2 False) 1 = Inr ([35], VioBuffer body 3 False)"
    "readBinary (VioBuffer body 3 False) 5 = Inr (state, VioBuffer body 8 False)"
    "readBinary (VioBuffer body 8 False) (n - 8) = Inr (msg, VioBuffer body n False)"
    using assms(2-5) t l n(3) by (simp_all add: readBinary_buffer)
  have "readErrorPkt n s = Inr (Some \<lparr>er_errno = of_nat errno, er_smarker = 35,
      er_state = Some state, er_message = Some msg\<rparr>, s\<lparr>sk_in := as\<rparr>)"
    unfolding readErrorPkt_def n(1,2) if_False as(1) bindE_simps prod.case vioInitWithBuffer_def Let_def
      vioReadUint16_def vioReadUint8_def vioTell_def vioBufferTell_def vio.case
    by (simp add: r r(2) [unfolded One_nat_def] n8 vioTell_def vioBufferTell_def le)
  with as(2) show ?thesis by blast
qed

lemma msaferead_error:
  assumes "my_fd my = Some s" "in_bytes (sk_in s) = err_packet q errno state msg @ r"
    and "length state = 5" "msg \<noteq> []" "0 \<notin> set msg" "length msg < 256" "errno < 2 ^ 16"
  shows "\<exists>as. msaferead my buf blen =
      Inr (- 1, my\<lparr>my_fd := Some (s\<lparr>sk_in := as\<rparr>), my_errstr := msg\<rparr>, buf, None) \<and> in_bytes as = r"
proof -
  define n where "n = 8 + length msg"
  have n: "Suc n < 2 ^ 24" "n < 2 ^ 24" using assms(6) by (simp_all add: n_def)
  obtain as1 where 1: "readPktHeader s = Inr (Some \<lparr>ph_plen = of_nat (Suc n), ph_pnum = q\<rparr>, s\<lparr>sk_in := as1\<rparr>)"
      "in_bytes as1 = 255 # le_bytes 2 errno @ 35 # state @ msg @ r"
    using readPktHeader_packet [of s "Suc n" q "255 # le_bytes 2 errno @ 35 # state @ msg @ r"] assms(2,3) n
    by (auto simp add: err_packet_def packet_def n_def)
  obtain as2 where 2: "anetRead 1 [0] (s\<lparr>sk_in := as1\<rparr>) = Inr (1, [255], s\<lparr>sk_in := as2\<rparr>)"
      "in_bytes as2 = le_bytes 2 errno @ 35 # state @ msg @ r"
    using anetRead_byte [of "s\<lparr>sk_in := as1\<rparr>" 255] 1(2) by auto
  obtain as3 where 3: "readErrorPkt n (s\<lparr>sk_in := as2\<rparr>) = Inr (Some \<lparr>er_errno = of_nat errno, er_smarker = 35,
      er_state = Some state, er_message = Some msg\<rparr>, s\<lparr>sk_in := as3\<rparr>)" "in_bytes as3 = r"
  proof -
    have len: "length msg < 2 ^ 20" using assms(6) by simp
    have inb: "in_bytes (sk_in (s\<lparr>sk_in := as2\<rparr>)) = le_bytes 2 errno @ 35 # state @ msg @ r"
      using 2(2) by simp
    have up: "(s\<lparr>sk_in := as2\<rparr>)\<lparr>sk_in := as\<rparr> = s\<lparr>sk_in := as\<rparr>" for as by simp
    from readErrorPkt_body [OF inb assms(3,4) len n_def assms(7), unfolded up] that
    show thesis by blast
  qed
  have u: "unat (of_nat (Suc n) :: u32) = Suc n" using n(1) by (rule unat_plen)
  have l: "size_of_int (int (Suc n) - 1) = n" using n(2) by (rule plen_left)
  have w: "takeWhile (\<lambda>c. c \<noteq> 0) msg = msg" using assms(5) by (auto simp add: takeWhile_eq_all_conv)
  have m: "err_message \<lparr>rp_isok = False, rp_iseof = False, rp_pkt = to_body ErrBody
      (Some \<lparr>er_errno = of_nat errno, er_smarker = 35, er_state = Some state, er_message = Some msg\<rparr>)\<rparr> = Inr msg"
    "strncpy_err msg = Inr msg"
    using w assms(6) by (simp_all add: err_message_def to_body_def deref_def strncpy_err_def)
  have ne: "((1 :: int) = - 1) = False" "((1 :: int) = 1) = True" by simp_all
  have "msaferead my buf blen =
      Inr (- 1, my\<lparr>my_fd := Some (s\<lparr>sk_in := as3\<rparr>), my_errstr := msg\<rparr>, buf, None)"
    unfolding msaferead_def assms(1) deref_def option.case
    by (simp only: bindE_simps 1(1) prod.case initialised_simps Let_def PktHeader.simps u 2(1) ne if_False if_True
        checkE_simps l nth_Cons_0 3(1) m simp_thms)
  with 3(2) show ?thesis by blast
qed

subsection \<open>The stream of the server\<close>

text \<open>
  What a server sends after the dump command: a packet for every event, with a status byte in
  front of the event, and at last an error packet. The length of the packet has to fit three
  bytes: the code does not put a split packet together.
\<close>

definition err_ok :: "nat \<Rightarrow> u8 list \<Rightarrow> u8 list \<Rightarrow> bool" where
  "err_ok errno state msg \<longleftrightarrow> errno < 2 ^ 16 \<and> length state = 5 \<and> msg \<noteq> [] \<and> length msg < 256 \<and>
     0 \<notin> set msg \<and> 37 \<notin> set msg"

definition event_ok :: "u8 \<Rightarrow> u8 list \<Rightarrow> bool" where
  "event_ok m e \<longleftrightarrow> m \<noteq> 255 \<and> \<not> (m = 254 \<and> length e < 8) \<and> e \<noteq> [] \<and> Suc (length e) < 2 ^ 24"

inductive event_stream :: "u8 list \<Rightarrow> u8 list list \<Rightarrow> bool" where
  Stop: "err_ok errno state msg \<Longrightarrow> event_stream (err_packet q errno state msg @ r) []"
| Event: "event_ok m e \<Longrightarrow> event_stream bs es \<Longrightarrow> event_stream (packet q (m # e) @ bs) (e # es)"

inductive_cases event_stream_NilE: "event_stream bs []"
inductive_cases event_stream_ConsE: "event_stream bs (e # es)"

text \<open>The events of a stream, read off its packets.\<close>

function split_packets :: "u8 list \<Rightarrow> u8 list list" where
  "split_packets bs =
     (let n = le_val (take 3 bs); body = take n (drop 4 bs)
      in if length bs \<le> 4 \<or> body = [] \<or> hd body = 255 then []
         else tl body # split_packets (drop (4 + n) bs))"
  by pat_completeness auto

termination
  by (relation "measure length") auto

declare split_packets.simps [simp del]

lemma split_packets_packet:
  assumes "m \<noteq> 255" "Suc (length e) < 2 ^ 24"
  shows "split_packets (packet q (m # e) @ bs) = e # split_packets bs"
  using assms by (subst split_packets.simps) (simp add: packet_def le_val_le_bytes_id)

lemma split_packets_error: "length state = 5 \<Longrightarrow> length msg < 256 \<Longrightarrow>
    split_packets (err_packet q errno state msg @ r) = []"
  by (subst split_packets.simps) (simp add: err_packet_def packet_def le_val_le_bytes_id)

lemma event_stream_split: "event_stream bs es \<Longrightarrow> split_packets bs = es"
  by (induction rule: event_stream.induct)
    (simp_all add: split_packets_packet split_packets_error err_ok_def event_ok_def)

subsection \<open>A connection that closes\<close>

text \<open>
  \<open>in_tail\<close> is empty when the peer closes the connection behind the bytes that arrive. A read
  then returns what there was, and every later one returns 0.
\<close>

lemma anetRead_closing:
  assumes "in_tail (sk_in s) = []" "length (in_bytes (sk_in s)) < n" "n < 2 ^ 31"
    and "length (in_bytes (sk_in s)) \<le> length b"
  shows "anetRead (int n) b s = Inr (int (length (in_bytes (sk_in s))),
    in_bytes (sk_in s) @ drop (length (in_bytes (sk_in s))) b, s\<lparr>sk_in := []\<rparr>)"
proof -
  have "int n < 2 ^ 64" using assms(3) by simp
  then show ?thesis
    using anet_read_loop_short [OF refl, of 0 s "int n" 0 b] assms by (auto simp add: anetRead_def)
qed

lemma in_bytes_closed: "in_tail as = [] \<Longrightarrow> in_bytes as = [] \<Longrightarrow> as = []"
  by (cases as rule: in_bytes.cases) auto

lemma msaferead_short_header:
  assumes "my_fd my = Some s" "in_tail (sk_in s) = []" "length (in_bytes (sk_in s)) \<le> 4"
  shows "msaferead my buf blen = Inl Uninitialized"
proof -
  define h where "h = in_bytes (sk_in s) @ drop (length (in_bytes (sk_in s))) (replicate 4 0)"
  have h: "length h = 4" using assms(3) by (simp add: h_def)
  obtain s' where s': "\<exists>n. anetRead 4 (replicate 4 0) s = Inr (int n, h, s')" "sk_in s' = []"
  proof (cases "length (in_bytes (sk_in s)) = 4")
    case True
    obtain as where "anetRead 4 (replicate 4 0) s = Inr (4, in_bytes (sk_in s) @ drop 4 (replicate 4 0), s\<lparr>sk_in := as\<rparr>)"
        "in_bytes as = []" "in_tail as = []"
      using anetRead_exact [of s "in_bytes (sk_in s)" "[]" "replicate 4 0"] True assms(2) by auto
    then show thesis using in_bytes_closed [of as] True by (intro that [of "s\<lparr>sk_in := as\<rparr>"] exI [of _ 4]) (simp_all add: h_def)
  next
    case False
    then have "length (in_bytes (sk_in s)) < 4" using assms(3) by simp
    from anetRead_closing [OF assms(2) this, of "replicate 4 0"] assms(3) show thesis
      by (intro that [of "s\<lparr>sk_in := []\<rparr>"] exI [of _ "length (in_bytes (sk_in s))"]) (simp_all add: h_def)
  qed
  obtain hd where hd: "readPktHeader s = Inr (Some hd, s')"
  proof -
    have ne: "(int n = - 1) = False" for n by simp
    have "\<exists>hd. readPktHeader s = Inr (Some hd, s')"
      using s'(1) h by (auto simp add: readPktHeader_def vioInitWithBuffer_def vioReadUint24_def
          vioReadUint8_def readBinary_buffer)
    then show thesis using that by blast
  qed
  have "anetRead 1 [0] s' = Inr (0, [0], s')"
    using anetRead_closing [of s' 1 "[0]"] s'(2) by simp
  then show ?thesis
    unfolding msaferead_def assms(1) by (simp add: deref_def hd)
qed
lemma msaferead_lost:
  assumes "my_fd my = Some s" "in_tail (sk_in s) = []" "event_ok m e" "k < length e"
    and "in_bytes (sk_in s) = take (5 + k) (packet q (m # e))" "length buf = BL_EVENT_BUF_SIZE"
    and "b = (if big_event e then replicate (Suc (length e)) 0 else buf)"
  shows "msaferead my buf BL_EVENT_BUF_SIZE =
    Inr (int k, my\<lparr>my_fd := Some (s\<lparr>sk_in := []\<rparr>)\<rparr>,
      (if big_event e then buf else take k e @ drop k b),
      Some (if big_event e then Some (take k e @ drop k b) else None))"
proof -
  have ok: "m \<noteq> 255" "\<not> (m = 254 \<and> length e < 8)" "Suc (length e) < 2 ^ 24" using assms(3) by (simp_all add: event_ok_def)
  have i: "in_bytes (sk_in s) = le_bytes 3 (Suc (length e)) @ q # m # take k e"
    using assms(5) by (simp add: packet_def)
  obtain as1 where 1: "readPktHeader s = Inr (Some \<lparr>ph_plen = of_nat (Suc (length e)), ph_pnum = q\<rparr>, s\<lparr>sk_in := as1\<rparr>)"
      "in_bytes as1 = m # take k e" "in_tail as1 = []"
    using readPktHeader_packet [OF i ok(3)] assms(2) by auto
  obtain as2 where 2: "anetRead 1 [0] (s\<lparr>sk_in := as1\<rparr>) = Inr (1, [m], s\<lparr>sk_in := as2\<rparr>)"
      "in_bytes as2 = take k e" "in_tail as2 = []"
    using anetRead_byte [of "s\<lparr>sk_in := as1\<rparr>" m "take k e"] 1(2,3) by auto
  have k: "length (take k e) = k" using assms(4) by simp
  have lb: "k \<le> length b" using assms(4,6,7) by (simp add: big_event_def)
  have 3: "anetRead (int_of_size (length e)) b (s\<lparr>sk_in := as2\<rparr>) =
      Inr (int k, take k e @ drop k b, s\<lparr>sk_in := []\<rparr>)"
    using anetRead_closing [of "s\<lparr>sk_in := as2\<rparr>" "length e" b] 2(2,3) k lb assms(4) ok(3)
    by (simp add: int_of_size_small)
  have u: "unat (of_nat (Suc (length e)) :: u32) = Suc (length e)" using ok(3) by (rule unat_plen)
  have l: "size_of_int (int (Suc (length e)) - 1) = length e" using ok(3) by (intro plen_left) simp
  have m: "(m = 255) = False" "(m = 254 \<and> length e < 8) = False" using ok(1,2) by auto
  have big: "(BL_EVENT_BUF_SIZE < Suc (length e)) = big_event e" by (auto simp add: big_event_def)
  have ne: "(int k = - 1) = False" "((1 :: int) = - 1) = False" "((1 :: int) = 1) = True" by simp_all
  have up: "my\<lparr>my_fd := Some t, my_errstr := my_errstr my\<rparr> = my\<lparr>my_fd := Some t\<rparr>" for t by simp
  show ?thesis
    unfolding msaferead_def assms(1) deref_def option.case
    by (simp only: bindE_simps 1(1) prod.case initialised_simps Let_def PktHeader.simps u 2(1) ne if_False
        checkE_simps l nth_Cons_0 m big assms(7) [symmetric] 3 up)
qed

subsection \<open>The network driver as a data source\<close>

definition net_stream :: "NetDrv DataSource \<Rightarrow> u8 list" where
  "net_stream ds = (case my_fd (nd_mysql (ds_drv ds)) of None \<Rightarrow> [] | Some s \<Rightarrow> in_bytes (sk_in s))"

definition net_pending :: "NetDrv DataSource \<Rightarrow> u8 list list" where
  "net_pending ds = split_packets (net_stream ds)"

definition net_idle :: "NetDrv DataSource \<Rightarrow> bool" where
  "net_idle ds \<longleftrightarrow> length (nd_buf (ds_drv ds)) = BL_EVENT_BUF_SIZE \<and>
     my_fd (nd_mysql (ds_drv ds)) \<noteq> None \<and> event_stream (net_stream ds) (net_pending ds)"

definition net_lent :: "NetDrv DataSource \<Rightarrow> bool" where
  "net_lent ds \<longleftrightarrow> net_idle ds \<and> nd_newbuf (ds_drv ds) \<noteq> Freed"

lemma getEventFromServer_event:
  assumes "net_idle ds" "net_pending ds = e # es"
  shows "\<exists>post ds'. getEventFromServer ds = Inr (Some (e @ post), ds') \<and>
    length (e @ post) = (if big_event e then Suc (length e) else BL_EVENT_BUF_SIZE) \<and> length e < 2 ^ 24 \<and>
    net_lent ds' \<and> net_pending ds' = es \<and> ds_view ds' = ds_view ds"
proof -
  define d where "d = ds_drv ds"
  obtain s where s: "my_fd (nd_mysql d) = Some s" using assms(1) by (auto simp add: net_idle_def d_def)
  have st: "event_stream (in_bytes (sk_in s)) (e # es)"
    using assms s by (simp add: net_idle_def net_stream_def d_def)
  then obtain q m bs where bs: "in_bytes (sk_in s) = packet q (m # e) @ bs" "event_ok m e" "event_stream bs es"
    by (rule event_stream_ConsE)
  have len: "length (nd_buf d) = BL_EVENT_BUF_SIZE" using assms(1) by (simp add: net_idle_def d_def)
  obtain as where as: "msaferead (nd_mysql d) (nd_buf d) BL_EVENT_BUF_SIZE =
      Inr (int (length e), (nd_mysql d)\<lparr>my_fd := Some (s\<lparr>sk_in := as\<rparr>)\<rparr>,
        (if big_event e then nd_buf d else e @ drop (length e) (nd_buf d)),
        Some (if big_event e then Some (e @ [0]) else None))" "in_bytes as = bs"
    using msaferead_event [OF s bs(1) _ _ _ len] bs(2) unfolding event_ok_def by metis
  define post where "post = (if big_event e then [0] else drop (length e) (nd_buf d))"
  define ds' where "ds' = ds\<lparr>ds_drv := d\<lparr>nd_mysql := (nd_mysql d)\<lparr>my_fd := Some (s\<lparr>sk_in := as\<rparr>)\<rparr>,
      nd_buf := (if big_event e then nd_buf d else e @ drop (length e) (nd_buf d)),
      nd_newbuf := (if big_event e then Live (e @ [0]) else Null)\<rparr>\<rparr>"
  have "0 < length e" using bs(2) by (simp add: event_ok_def)
  then have "getEventFromServer ds = Inr (Some (e @ post), ds')"
    unfolding getEventFromServer_def d_def [symmetric] Let_def as(1) bindE_simps prod.case
    by (simp add: post_def ds'_def)
  moreover have "length (e @ post) = (if big_event e then Suc (length e) else BL_EVENT_BUF_SIZE)"
    using len by (simp add: post_def big_event_def)
  moreover have p: "net_pending ds' = es" "net_stream ds' = bs"
    using event_stream_split [OF bs(3)] as(2) by (simp_all add: net_pending_def net_stream_def ds'_def)
  moreover have "net_lent ds'"
    unfolding net_lent_def net_idle_def p using bs(3) len by (simp add: ds'_def big_event_def)
  moreover have "length e < 2 ^ 24" using bs(2) by (simp add: event_ok_def)
  ultimately show ?thesis by (intro exI [of _ post] exI [of _ ds']) (simp add: ds_view_def ds'_def)
qed

lemma getEventFromServer_end:
  assumes "net_idle ds" "net_pending ds = []"
  shows "\<exists>msg ds'. getEventFromServer ds = Inr (None, ds') \<and> ds_errstr ds' = msg \<and>
    37 \<notin> set msg \<and> length msg < BL_ERROR_SIZE"
proof -
  define d where "d = ds_drv ds"
  obtain s where s: "my_fd (nd_mysql d) = Some s" using assms(1) by (auto simp add: net_idle_def d_def)
  have "event_stream (in_bytes (sk_in s)) []"
    using assms s by (simp add: net_idle_def net_stream_def d_def)
  then obtain q errno state msg r where bs: "in_bytes (sk_in s) = err_packet q errno state msg @ r"
      "err_ok errno state msg" by (rule event_stream_NilE)
  obtain as where as: "msaferead (nd_mysql d) (nd_buf d) BL_EVENT_BUF_SIZE =
      Inr (- 1, (nd_mysql d)\<lparr>my_fd := Some (s\<lparr>sk_in := as\<rparr>), my_errstr := msg\<rparr>, nd_buf d, None)"
    using msaferead_error [OF s bs(1), of "nd_buf d" BL_EVENT_BUF_SIZE] bs(2) unfolding err_ok_def by metis
  have "length msg < 256" "37 \<notin> set msg" using bs(2) by (simp_all add: err_ok_def)
  then show ?thesis
    unfolding getEventFromServer_def d_def [symmetric] Let_def as(1) bindE_simps prod.case
    by simp
qed

lemma freeEventFromServer_lent:
  assumes "net_lent ds"
  shows "\<exists>ds'. freeEventFromServer ds = Inr ds' \<and> net_idle ds' \<and> net_pending ds' = net_pending ds \<and>
    ds_view ds' = ds_view ds"
  using assms
  by (auto simp add: freeEventFromServer_def net_lent_def net_idle_def net_pending_def net_stream_def
      ds_view_def split: heap_ptr.splits)

lemma net_set [simp]:
  "net_idle (ds_set p i l ds) = net_idle ds" "net_lent (ds_set p i l ds) = net_lent ds"
  "net_pending (ds_set p i l ds) = net_pending ds"
  by (simp_all add: net_idle_def net_lent_def net_pending_def net_stream_def)

interpretation net_source: data_source "net_ops tcp" net_idle net_lent net_pending for tcp
proof (unfold_locales, goal_cases)
  case (1 ds e es)
  obtain post ds' where p: "getEventFromServer ds = Inr (Some (e @ post), ds')"
      "length (e @ post) = (if big_event e then Suc (length e) else BL_EVENT_BUF_SIZE)" "length e < 2 ^ 24"
      "net_lent ds'" "net_pending ds' = es" "ds_view ds' = ds_view ds"
    using getEventFromServer_event [OF 1] by blast
  then have "BL_EVENT_BUF_SIZE \<le> length (e @ post)" "length (e @ post) \<le> INT_MAX"
    by (auto simp add: big_event_def INT_MAX_def)
  with p show ?case by (auto simp add: net_ops_def)
next
  case (2 ds)
  then show ?case using getEventFromServer_end [OF 2] by (auto simp add: net_ops_def)
next
  case (3 ds)
  then show ?case using freeEventFromServer_lent [OF 3] by (simp add: net_ops_def)
qed simp_all

end
