(* ===== verification/ProtocolSpec.thy ===== *)
theory ProtocolSpec
  imports NetStream
begin

text \<open>
  What the packets of a connection mean: the challenge-response of the password, the greeting of
  a server and the record the code reads from it, accepting replies, and the bytes the code
  sends for a header, an authentication packet and a command.
\<close>

subsection \<open>The password scramble\<close>

text \<open>
  What a server expects of a client that knows the password: the digest of the password under
  the digest of the salt and the twice digested password. A server stores the latter only.
\<close>

definition scramble :: "u8 list \<Rightarrow> u8 list \<Rightarrow> u8 list" where
  "scramble salt pw = map2 (XOR) (sha1 pw) (sha1 (salt @ sha1 (sha1 pw)))"

text \<open>The check of the server, which knows the salt it sent and \<open>sha1 (sha1 pw)\<close>.\<close>

definition server_accepts :: "u8 list \<Rightarrow> u8 list \<Rightarrow> u8 list \<Rightarrow> bool" where
  "server_accepts salt stored reply \<longleftrightarrow> sha1 (map2 (XOR) reply (sha1 (salt @ stored))) = stored"

lemma sha1_one:
  assumes "length d < 2 ^ 31"
  shows "bindE (SHA1Update SHA1Init d) SHA1Final = Inr (sha1 d)"
proof -
  obtain c where "SHA1Update SHA1Init d = Inr c" "sha1_holds c d"
    using SHA1Update_holds [OF SHA1Init_holds assms] by auto
  moreover have "length d < 2 ^ 61" using assms by simp
  ultimately show ?thesis by (simp add: SHA1Final_holds)
qed

lemma cooksalt_scramble:
  assumes "length pw < 2 ^ 31" "length salt = n" "n < 2 ^ 31"
  shows "cooksalt (salt @ r) n pw = Inr (scramble salt pw)"
proof -
  have l: "length (sha1 x) < 2 ^ 31" for x by (simp add: length_sha1)
  obtain c1 where c1: "SHA1Update SHA1Init salt = Inr c1" "sha1_holds c1 salt"
    using SHA1Update_holds [OF SHA1Init_holds, of salt] assms(2,3) by auto
  obtain c2 where c2: "SHA1Update c1 (sha1 (sha1 pw)) = Inr c2" "sha1_holds c2 (salt @ sha1 (sha1 pw))"
    using SHA1Update_holds [OF c1(2) l] by auto
  have "length (salt @ sha1 (sha1 pw)) < 2 ^ 61" using assms(2,3) by (simp add: length_sha1)
  then have f: "SHA1Final c2 = Inr (sha1 (salt @ sha1 (sha1 pw)))" by (rule SHA1Final_holds [OF c2(2)])
  obtain d1 d2 where d: "SHA1Update SHA1Init pw = Inr d1" "SHA1Final d1 = Inr (sha1 pw)"
      "SHA1Update SHA1Init (sha1 pw) = Inr d2" "SHA1Final d2 = Inr (sha1 (sha1 pw))"
    using sha1_one [OF assms(1)] sha1_one [OF l] by (meson bindE_Inr_iff)
  show ?thesis
    using assms(2) by (simp add: cooksalt_def d c1(1) c2(1) f peek_def scramble_def)
qed

lemma map2_xor_cancel:
  "length xs = length ys \<Longrightarrow> map2 (XOR) (map2 (XOR) xs ys) ys = (xs :: u8 list)"
  by (induction xs ys rule: list_induct2) (simp_all add: xor.assoc)

lemma scramble_accepted: "server_accepts salt (sha1 (sha1 pw)) (scramble salt pw)"
  by (simp add: server_accepts_def scramble_def map2_xor_cancel length_sha1)

lemma length_scramble [simp]: "length (scramble salt pw) = 20"
  by (simp add: scramble_def length_sha1)

subsection \<open>Reading a buffer\<close>

text \<open>A block that is laid out as a list of fields is read field by field.\<close>

lemma readBinary_field:
  assumes "length (concat fs) < 2 ^ 64" "i < length fs" "pos = length (concat (take i fs))"
    and "f = fs ! i" "n = length f" "pos' = pos + n"
  shows "readBinary (VioBuffer (concat fs) pos mv) n = Inr (f, VioBuffer (concat fs) pos' mv)"
proof -
  have "concat fs = concat (take i fs) @ f @ concat (drop (Suc i) fs)"
    by (metis assms(2,4) concat.simps(2) concat_append id_take_nth_drop)
  then have "drop pos (concat fs) = f @ concat (drop (Suc i) fs)" "pos + n \<le> length (concat fs)"
    using assms(3,5) by simp_all
  then show ?thesis using assms(1,5,6) by (simp add: readBinary_buffer)
qed

lemma readStr_field:
  assumes "i < length fs" "pos = length (concat (take i fs))" "fs ! i = s @ [0]" "0 \<notin> set s"
    and "pos' = pos + length s + 1"
  shows "readStr (VioBuffer (concat fs) pos mv) = Inr (s, VioBuffer (concat fs) pos' mv)"
proof -
  have "concat fs = concat (take i fs) @ s @ 0 # concat (drop (Suc i) fs)"
    using id_take_nth_drop [OF assms(1)] assms(3)
    by (metis append_Cons append_Nil append_assoc concat.simps(2) concat_append)
  then show ?thesis using assms(2,4,5) cstring_at_append [of pos "concat (take i fs)" s] by (simp add: readStr_def)
qed

subsection \<open>The greeting of a server\<close>

record greeting =
  gr_version :: "u8 list"
  gr_thread :: nat
  gr_salt1 :: "u8 list"
  gr_salt2 :: "u8 list"
  gr_caps :: nat
  gr_charset :: u8
  gr_status :: nat
  gr_saltlen :: u8
  gr_filler :: "u8 list"
  gr_plugin :: "u8 list option"

definition greeting_ok :: "greeting \<Rightarrow> bool" where
  "greeting_ok g \<longleftrightarrow> 0 \<notin> set (gr_version g) \<and> length (gr_version g) < 2 ^ 10 \<and> gr_thread g < 2 ^ 32 \<and>
     length (gr_salt1 g) = 8 \<and> length (gr_salt2 g) = 12 \<and> gr_caps g < 2 ^ 32 \<and> gr_status g < 2 ^ 16 \<and>
     length (gr_filler g) = 10 \<and>
     (case gr_plugin g of None \<Rightarrow> True | Some p \<Rightarrow> 0 \<notin> set p \<and> length p < 2 ^ 10)"

definition greeting_fields :: "greeting \<Rightarrow> u8 list list" where
  "greeting_fields g = [[10], gr_version g @ [0], le_bytes 4 (gr_thread g), gr_salt1 g @ [0],
     le_bytes 2 (gr_caps g mod 2 ^ 16), [gr_charset g], le_bytes 2 (gr_status g),
     le_bytes 2 (gr_caps g div 2 ^ 16), [gr_saltlen g], gr_filler g, gr_salt2 g @ [0],
     (case gr_plugin g of None \<Rightarrow> [] | Some p \<Rightarrow> p @ [0])]"

definition greeting_body :: "greeting \<Rightarrow> u8 list" where
  "greeting_body g = concat (greeting_fields g)"

definition greeting_pkt :: "greeting \<Rightarrow> HandshakePkt" where
  "greeting_pkt g = \<lparr>hs_protover = 10, hs_mysqlver = gr_version g, hs_threadid = of_nat (gr_thread g),
     hs_saltlen = 20, hs_salt = gr_salt1 g @ gr_salt2 g @ [0], hs_capacity = Some (of_nat (gr_caps g)),
     hs_charset = Some (gr_charset g), hs_status = Some (of_nat (gr_status g)),
     hs_pluginname = Some (gr_plugin g)\<rparr>"

lemma u32_halves: "(of_nat (n mod 2 ^ 16) :: u32) OR push_bit 16 (of_nat (n div 2 ^ 16)) = of_nat n"
proof -
  have m: "(of_nat (n mod 2 ^ 16) :: u32) = take_bit 16 (of_nat n)"
    by (simp only: take_bit_of_nat take_bit_nat_def)
  have d: "push_bit 16 (of_nat (n div 2 ^ 16) :: u32) = of_nat (2 ^ 16 * (n div 2 ^ 16))"
    by (simp add: push_bit_of_nat push_bit_eq_mult mult.commute)
  have "(of_nat (n mod 2 ^ 16) :: u32) AND push_bit 16 (of_nat (n div 2 ^ 16)) = 0"
    unfolding m by (rule bit_eqI) (auto simp add: bit_simps)
  then have "(of_nat (n mod 2 ^ 16) :: u32) OR push_bit 16 (of_nat (n div 2 ^ 16)) =
      of_nat (n mod 2 ^ 16) + push_bit 16 (of_nat (n div 2 ^ 16))" by (rule disjunctive_add_eq_or [symmetric])
  also have "\<dots> = of_nat (n mod 2 ^ 16 + 2 ^ 16 * (n div 2 ^ 16))" unfolding d by (simp only: of_nat_add)
  finally show ?thesis by (simp only: mod_mult_div_eq)
qed

lemma length_greeting_body:
  "greeting_ok g \<Longrightarrow> length (greeting_body g) = length (gr_version g) + 46 +
     (case gr_plugin g of None \<Rightarrow> 0 | Some p \<Rightarrow> length p + 1)"
  by (simp add: greeting_ok_def greeting_body_def greeting_fields_def split: option.splits)

lemma greeting_reads:
  assumes "greeting_ok g"
  defines "b \<equiv> greeting_body g" and "v \<equiv> length (gr_version g)"
  shows "readBinary (VioBuffer b 0 mv) 1 = Inr ([10], VioBuffer b 1 mv)"
    and "readStr (VioBuffer b 1 mv) = Inr (gr_version g, VioBuffer b (v + 2) mv)"
    and "readBinary (VioBuffer b (v + 2) mv) 4 = Inr (le_bytes 4 (gr_thread g), VioBuffer b (v + 6) mv)"
    and "readBinary (VioBuffer b (v + 6) mv) 9 = Inr (gr_salt1 g @ [0], VioBuffer b (v + 15) mv)"
    and "readBinary (VioBuffer b (v + 15) mv) 2 = Inr (le_bytes 2 (gr_caps g mod 2 ^ 16), VioBuffer b (v + 17) mv)"
    and "readBinary (VioBuffer b (v + 17) mv) 1 = Inr ([gr_charset g], VioBuffer b (v + 18) mv)"
    and "readBinary (VioBuffer b (v + 18) mv) 2 = Inr (le_bytes 2 (gr_status g), VioBuffer b (v + 20) mv)"
    and "readBinary (VioBuffer b (v + 20) mv) 2 = Inr (le_bytes 2 (gr_caps g div 2 ^ 16), VioBuffer b (v + 22) mv)"
    and "readBinary (VioBuffer b (v + 22) mv) 1 = Inr ([gr_saltlen g], VioBuffer b (v + 23) mv)"
    and "readBinary (VioBuffer b (v + 23) mv) 10 = Inr (gr_filler g, VioBuffer b (v + 33) mv)"
    and "readBinary (VioBuffer b (v + 33) mv) 13 = Inr (gr_salt2 g @ [0], VioBuffer b (v + 46) mv)"
    and "v + 46 < length b \<Longrightarrow> readStr (VioBuffer b (v + 46) mv) = Inr (the (gr_plugin g), VioBuffer b (length b) mv)"
    and "v + 46 < length b \<longleftrightarrow> gr_plugin g \<noteq> None"
proof -
  note ok = assms(1) [unfolded greeting_ok_def] greeting_fields_def v_def
  have "length (greeting_body g) < 2 ^ 64"
    using assms(1) by (auto simp add: length_greeting_body greeting_ok_def split: option.splits)
  note rd = readBinary_field [OF this [unfolded greeting_body_def], folded greeting_body_def, folded b_def]
  note rs = readStr_field [of _ "greeting_fields g", folded greeting_body_def, folded b_def]
  show "readBinary (VioBuffer b 0 mv) 1 = Inr ([10], VioBuffer b 1 mv)" by (rule rd [of 0]) (use ok in simp_all)
  show "readStr (VioBuffer b 1 mv) = Inr (gr_version g, VioBuffer b (v + 2) mv)" by (rule rs [of 1]) (use ok in simp_all)
  show "readBinary (VioBuffer b (v + 2) mv) 4 = Inr (le_bytes 4 (gr_thread g), VioBuffer b (v + 6) mv)"
    by (rule rd [of 2]) (use ok in simp_all)
  show "readBinary (VioBuffer b (v + 6) mv) 9 = Inr (gr_salt1 g @ [0], VioBuffer b (v + 15) mv)"
    by (rule rd [of 3]) (use ok in simp_all)
  show "readBinary (VioBuffer b (v + 15) mv) 2 = Inr (le_bytes 2 (gr_caps g mod 2 ^ 16), VioBuffer b (v + 17) mv)"
    by (rule rd [of 4]) (use ok in simp_all)
  show "readBinary (VioBuffer b (v + 17) mv) 1 = Inr ([gr_charset g], VioBuffer b (v + 18) mv)"
    by (rule rd [of 5]) (use ok in simp_all)
  show "readBinary (VioBuffer b (v + 18) mv) 2 = Inr (le_bytes 2 (gr_status g), VioBuffer b (v + 20) mv)"
    by (rule rd [of 6]) (use ok in simp_all)
  show "readBinary (VioBuffer b (v + 20) mv) 2 = Inr (le_bytes 2 (gr_caps g div 2 ^ 16), VioBuffer b (v + 22) mv)"
    by (rule rd [of 7]) (use ok in simp_all)
  show "readBinary (VioBuffer b (v + 22) mv) 1 = Inr ([gr_saltlen g], VioBuffer b (v + 23) mv)"
    by (rule rd [of 8]) (use ok in simp_all)
  show "readBinary (VioBuffer b (v + 23) mv) 10 = Inr (gr_filler g, VioBuffer b (v + 33) mv)"
    by (rule rd [of 9]) (use ok in simp_all)
  show "readBinary (VioBuffer b (v + 33) mv) 13 = Inr (gr_salt2 g @ [0], VioBuffer b (v + 46) mv)"
    by (rule rd [of 10]) (use ok in simp_all)
  show p: "v + 46 < length b \<longleftrightarrow> gr_plugin g \<noteq> None"
    using length_greeting_body [OF assms(1)] by (auto simp add: b_def v_def split: option.splits)
  show "v + 46 < length b \<Longrightarrow> readStr (VioBuffer b (v + 46) mv) = Inr (the (gr_plugin g), VioBuffer b (length b) mv)"
    by (rule rs [of 11]) (use ok p length_greeting_body [OF assms(1)] in \<open>auto simp add: b_def\<close>)
qed

lemma readHandshakePkt_greeting:
  assumes "in_bytes (sk_in s) = greeting_body g @ r" "greeting_ok g" "n = length (greeting_body g)"
  shows "\<exists>as. readHandshakePkt n s = Inr (Some (greeting_pkt g), s\<lparr>sk_in := as\<rparr>) \<and> in_bytes as = r \<and>
    in_tail as = in_tail (sk_in s)"
proof -
  define b where "b = greeting_body g"
  define v where "v = length (gr_version g)"
  have l: "length b = n" by (simp add: b_def assms(3))
  have n: "v + 46 \<le> n" "n < 2 ^ 12"
    using assms(2) by (auto simp add: assms(3) length_greeting_body v_def greeting_ok_def split: option.splits)
  then have small: "n < 2 ^ 24" by simp
  obtain as where as: "anetRead (int_of_size n) (replicate n 0) s = Inr (int n, b, s\<lparr>sk_in := as\<rparr>)"
      "in_bytes as = r" "in_tail as = in_tail (sk_in s)"
    using anetRead_body [of s b r "replicate n 0"] assms(1) small l by (auto simp add: b_def)
  note r = greeting_reads [OF assms(2), folded b_def v_def, unfolded l]
  have bytes: "gr_thread g < 256 ^ 4" "gr_caps g mod 2 ^ 16 < 256 ^ 2" "gr_status g < 256 ^ 2"
    "gr_caps g div 2 ^ 16 < 256 ^ 2" "length (gr_salt1 g) = 8"
    using assms(2) by (simp_all add: greeting_ok_def div_less_iff_less_mult)
  have t: "(n \<le> v + 15) = False" "(n < v + 17 + 16) = False" "(int n = - 1) = False"
    "(n \<le> v + 15) = False" using n(1) by simp_all
  have u: "(ucast (of_nat x :: u16) :: u32) = of_nat x" if "x < 256 ^ 2" for x
    using that by (simp add: unsigned_of_nat take_bit_nat_eq_self)
  have p: "(if v + 46 < n then bindE (readStr (VioBuffer b (v + 46) False)) (\<lambda>(s, io). Inr (Some s)) else Inr None) =
      Inr (gr_plugin g)"
    using r(12,13) by auto
  have "readHandshakePkt n s = Inr (Some (greeting_pkt g), s\<lparr>sk_in := as\<rparr>)"
    unfolding readHandshakePkt_def as(1) bindE_simps prod.case t if_False checkE_simps Let_def simp_thms
      vioInitWithBuffer_def vioReadUint8_def r(1-4) vioReadUint32_def vioTell_def vioBufferTell_def vio.case
      vioReadUint16_def r(5-11) p
    using bytes u32_halves [of "gr_caps g"] t
    by (simp add: greeting_pkt_def le_val_le_bytes_id u p)
  with as(2,3) show ?thesis by blast
qed

subsection \<open>Replies\<close>

lemma buf_tell: "buf_wf v \<Longrightarrow> vioTell v = Inr (buf_pos v)"
  by (cases v) (simp_all add: buf_wf_def buf_pos_def vioTell_def vioBufferTell_def)

text \<open>Two counters, two fields of two bytes and, behind them, a message.\<close>

lemma readOkPkt_body:
  assumes "in_bytes (sk_in s) = (lenenc a @ lenenc i @ x @ y @ msg) @ r"
    and "n = length (lenenc a @ lenenc i @ x @ y @ msg)" "n < 2 ^ 24"
    and "a < 2 ^ 64" "i < 2 ^ 64" "length x = 2" "length y = 2"
  shows "\<exists>as. readOkPkt n s = Inr (Some \<lparr>ok_affected = of_nat a, ok_insertid = of_nat i,
      ok_status = Some (of_nat (le_val x)), ok_warnings = Some (of_nat (le_val y)),
      ok_message = (if msg = [] then None else Some msg)\<rparr>, s\<lparr>sk_in := as\<rparr>) \<and>
    in_bytes as = r \<and> in_tail as = in_tail (sk_in s)"
proof -
  define b where "b = lenenc a @ lenenc i @ x @ y @ msg"
  have l: "length b = n" by (simp add: b_def assms(2))
  obtain as where as: "anetRead (int_of_size n) (replicate n 0) s = Inr (int n, b, s\<lparr>sk_in := as\<rparr>)"
      "in_bytes as = r" "in_tail as = in_tail (sk_in s)"
    using anetRead_body [of s b r "replicate n 0"] assms(1,3) l by (auto simp add: b_def)
  define v0 where "v0 = vioInitWithBuffer b"
  have v0: "buf_wf v0" "buf_rest v0 = b" "buf_pos v0 = 0"
    using assms(3) l by (simp_all add: v0_def vioInitWithBuffer_def buf_wf_def buf_rest_def buf_pos_def)
  obtain v1 v2 where v: "readEncodeLength v0 = Inr (of_nat a, v1)" "readEncodeLength v1 = Inr (of_nat i, v2)"
      "buf_rest v2 = x @ y @ msg" "buf_pos v2 = length (lenenc a) + length (lenenc i)" "buf_wf v2"
    using vlen.dec_lenenc_twice [OF v0(1), of a i "x @ y @ msg"] v0(2,3) assms(4,5) by (auto simp add: b_def)
  obtain v3 where v3: "buf_rd 2 v2 = Inr (x, v3)" "buf_rest v3 = y @ msg" "buf_pos v3 = buf_pos v2 + 2" "buf_wf v3"
    by (rule vbuf.rd_obtain [OF v(5,3) assms(6)])
  obtain v4 where v4: "buf_rd 2 v3 = Inr (y, v4)" "buf_rest v4 = msg" "buf_pos v4 = buf_pos v3 + 2" "buf_wf v4"
    by (rule vbuf.rd_obtain [OF v3(4,2) assms(7)])
  obtain v5 where v5: "buf_rd (length msg) v4 = Inr (msg, v5)"
    using vbuf.rd_take [OF v4(4), of msg "[]"] v4(2) by auto
  have pos: "n - buf_pos v4 = length msg" "buf_pos v2 \<noteq> n" "n \<le> buf_pos v4 \<longleftrightarrow> msg = []"
    using assms(6,7) by (simp_all add: assms(2) v4(3) v3(3) v(4))
  have t: "vioTell v2 = Inr (buf_pos v2)" "vioTell v4 = Inr (buf_pos v4)" using v(5) v4(4) by (simp_all add: buf_tell)
  have "n < 2 ^ 63" using assms(3) by simp
  then have "malloc_fails n = False" "size_of_int (int n) < n \<longleftrightarrow> False"
    using size_of_int_nat [of n] by (simp_all add: malloc_fails_def)
  then have "readOkPkt n s = Inr (Some \<lparr>ok_affected = of_nat a, ok_insertid = of_nat i,
      ok_status = Some (of_nat (le_val x)), ok_warnings = Some (of_nat (le_val y)),
      ok_message = (if msg = [] then None else Some msg)\<rparr>, s\<lparr>sk_in := as\<rparr>)"
    using v3(1) v4(1) v5 pos(2,3)
    by (simp add: readOkPkt_def as(1) v0_def [symmetric] v(1,2) t pos(1) vioReadUint16_def buf_rd_def)
  with as(2,3) show ?thesis by blast
qed

text \<open>An accepting reply, as a packet.\<close>

definition ok_body :: "u8 list \<Rightarrow> bool" where
  "ok_body body \<longleftrightarrow> (\<exists>a i x y msg. body = lenenc a @ lenenc i @ x @ y @ msg \<and> a < 2 ^ 64 \<and> i < 2 ^ 64 \<and>
     length x = 2 \<and> length y = 2) \<and> length body < 2 ^ 24 - 1"

lemma ok_reply:
  assumes "in_bytes (sk_in s) = packet q (0 # body) @ r" "ok_body body"
  shows "\<exists>as1 as p. readPktHeader s = Inr (Some \<lparr>ph_plen = of_nat (Suc (length body)), ph_pnum = q\<rparr>, s\<lparr>sk_in := as1\<rparr>) \<and>
    unat (of_nat (Suc (length body)) :: u32) = Suc (length body) \<and>
    readReplyPkt pkt (Suc (length body)) (s\<lparr>sk_in := as1\<rparr>) =
      Inr (True, Some \<lparr>rp_isok = True, rp_iseof = False, rp_pkt = OkBody p\<rparr>, s\<lparr>sk_in := as\<rparr>) \<and>
    in_bytes as = r \<and> in_tail as = in_tail (sk_in s)"
proof -
  obtain a i x y msg where b: "body = lenenc a @ lenenc i @ x @ y @ msg" "a < 2 ^ 64" "i < 2 ^ 64"
      "length x = 2" "length y = 2" and len: "Suc (length body) < 2 ^ 24"
    using assms(2) by (auto simp add: ok_body_def)
  obtain as1 where 1: "readPktHeader s = Inr (Some \<lparr>ph_plen = of_nat (Suc (length body)), ph_pnum = q\<rparr>, s\<lparr>sk_in := as1\<rparr>)"
      "in_bytes as1 = 0 # body @ r" "in_tail as1 = in_tail (sk_in s)"
    using readPktHeader_packet [of s "Suc (length body)" q "0 # body @ r"] assms(1) len by (auto simp add: packet_def)
  obtain as2 where 2: "anetRead 1 [0] (s\<lparr>sk_in := as1\<rparr>) = Inr (1, [0], s\<lparr>sk_in := as2\<rparr>)"
      "in_bytes as2 = body @ r" "in_tail as2 = in_tail as1"
    using anetRead_byte [of "s\<lparr>sk_in := as1\<rparr>" 0 "body @ r"] 1(2) by auto
  have i2: "in_bytes (sk_in (s\<lparr>sk_in := as2\<rparr>)) = (lenenc a @ lenenc i @ x @ y @ msg) @ r" using 2(2) b(1) by simp
  have up: "(s\<lparr>sk_in := as2\<rparr>)\<lparr>sk_in := as\<rparr> = s\<lparr>sk_in := as\<rparr>" "in_tail (sk_in (s\<lparr>sk_in := as2\<rparr>)) = in_tail as2" for as
    by simp_all
  have "length body < 2 ^ 24" using len by simp
  then obtain p as3 where 3: "readOkPkt (length body) (s\<lparr>sk_in := as2\<rparr>) = Inr (Some p, s\<lparr>sk_in := as3\<rparr>)"
      "in_bytes as3 = r" "in_tail as3 = in_tail as2"
    using readOkPkt_body [OF i2 refl, unfolded up] b by blast
  have l: "size_of_int (int (Suc (length body)) - 1) = length body" using len by (intro plen_left) simp
  have u: "unat (of_nat (Suc (length body)) :: u32) = Suc (length body)" using len by (rule unat_plen)
  have "readReplyPkt pkt (Suc (length body)) (s\<lparr>sk_in := as1\<rparr>) =
      Inr (True, Some \<lparr>rp_isok = True, rp_iseof = False, rp_pkt = OkBody p\<rparr>, s\<lparr>sk_in := as3\<rparr>)"
    unfolding readReplyPkt_def 2(1) bindE_simps prod.case Let_def l by (simp add: 3(1) to_body_def)
  with 1(1,3) 2(3) 3(2,3) u show ?thesis by metis
qed

text \<open>A refusing one.\<close>

lemma err_reply:
  assumes "in_bytes (sk_in s) = err_packet q errno state msg @ r" "err_ok errno state msg"
  shows "\<exists>n as1 as. readPktHeader s = Inr (Some \<lparr>ph_plen = of_nat n, ph_pnum = q\<rparr>, s\<lparr>sk_in := as1\<rparr>) \<and>
    unat (of_nat n :: u32) = n \<and>
    readReplyPkt pkt n (s\<lparr>sk_in := as1\<rparr>) =
      Inr (True, Some \<lparr>rp_isok = False, rp_iseof = False, rp_pkt = ErrBody \<lparr>er_errno = of_nat errno, er_smarker = 35,
        er_state = Some state, er_message = Some msg\<rparr>\<rparr>, s\<lparr>sk_in := as\<rparr>) \<and> in_bytes as = r"
proof -
  define k where "k = 8 + length msg"
  have ok: "length state = 5" "msg \<noteq> []" "length msg < 2 ^ 20" "errno < 2 ^ 16" "length msg < 256"
    using assms(2) by (simp_all add: err_ok_def)
  have k: "Suc k < 2 ^ 24" "k < 2 ^ 24" using ok(5) by (simp_all add: k_def)
  obtain as1 where 1: "readPktHeader s = Inr (Some \<lparr>ph_plen = of_nat (Suc k), ph_pnum = q\<rparr>, s\<lparr>sk_in := as1\<rparr>)"
      "in_bytes as1 = 255 # le_bytes 2 errno @ 35 # state @ msg @ r"
    using readPktHeader_packet [of s "Suc k" q "255 # le_bytes 2 errno @ 35 # state @ msg @ r"] assms(1) ok(1) k
    by (auto simp add: err_packet_def packet_def k_def)
  obtain as2 where 2: "anetRead 1 [0] (s\<lparr>sk_in := as1\<rparr>) = Inr (1, [255], s\<lparr>sk_in := as2\<rparr>)"
      "in_bytes as2 = le_bytes 2 errno @ 35 # state @ msg @ r"
    using anetRead_byte [of "s\<lparr>sk_in := as1\<rparr>" 255] 1(2) by auto
  have i: "in_bytes (sk_in (s\<lparr>sk_in := as2\<rparr>)) = le_bytes 2 errno @ 35 # state @ msg @ r" using 2(2) by simp
  have up: "(s\<lparr>sk_in := as2\<rparr>)\<lparr>sk_in := as\<rparr> = s\<lparr>sk_in := as\<rparr>" for as by simp
  obtain as3 where 3: "readErrorPkt k (s\<lparr>sk_in := as2\<rparr>) = Inr (Some \<lparr>er_errno = of_nat errno, er_smarker = 35,
      er_state = Some state, er_message = Some msg\<rparr>, s\<lparr>sk_in := as3\<rparr>)" "in_bytes as3 = r"
    using readErrorPkt_body [OF i ok(1-3) k_def ok(4), unfolded up] by blast
  have l: "size_of_int (int (Suc k) - 1) = k" using k(2) by (rule plen_left)
  have "readReplyPkt pkt (Suc k) (s\<lparr>sk_in := as1\<rparr>) =
      Inr (True, Some \<lparr>rp_isok = False, rp_iseof = False, rp_pkt = ErrBody \<lparr>er_errno = of_nat errno, er_smarker = 35,
        er_state = Some state, er_message = Some msg\<rparr>\<rparr>, s\<lparr>sk_in := as3\<rparr>)"
    unfolding readReplyPkt_def 2(1) bindE_simps prod.case Let_def l by (simp add: 3(1) to_body_def)
  with 1(1) 3(2) unat_plen [OF k(1)] show ?thesis by blast
qed

subsection \<open>Sending\<close>

text \<open>A block of \<open>n\<close> bytes of which the first are written.\<close>

definition wbuf :: "nat \<Rightarrow> u8 list \<Rightarrow> vio" where
  "wbuf n bs = VioBuffer (bs @ replicate (n - length bs) 0) (length bs) False"

lemma wbuf_init: "vioInitWithBuffer (replicate n 0) = wbuf n []"
  by (simp add: vioInitWithBuffer_def wbuf_def)

lemma wbuf_write:
  assumes "n < 2 ^ 64" "length bs + length cs \<le> n"
  shows "writeBinary (wbuf n bs) cs = Inr (wbuf n (bs @ cs))"
proof -
  have r: "replicate (n - length bs) (0 :: u8) = replicate (length cs) 0 @ replicate (n - length (bs @ cs)) 0"
    using assms(2) by (simp flip: replicate_add)
  have "size_of_int (int n - int (length bs)) = n - length bs" using assms by (intro size_of_int_diff) simp_all
  then show ?thesis
    using assms(2) r by (simp add: wbuf_def writeBinary_def vioWrite_def vioBufferWrite_def poke_def)
qed

lemma wbuf_own: "own_block (wbuf n bs) = Inr (bs @ replicate (n - length bs) 0)"
  by (simp add: wbuf_def own_block_def)

text \<open>What a socket is after some bytes have been sent.\<close>

definition after_send :: "sock \<Rightarrow> u8 list \<Rightarrow> sock \<Rightarrow> bool" where
  "after_send s bs s' \<longleftrightarrow> roomy s' \<and> sk_in s' = sk_in s \<and> sk_out s' = sk_out s @ bs"

lemma anetWrite_sends:
  assumes "roomy s" "n = length b"
  shows "\<exists>s'. anetWrite b n s = Inr (int n, s') \<and> after_send s b s'"
  using anetWrite_all [of s n b] assms by (auto simp add: after_send_def roomy_def)

lemma writeHeader_sends:
  assumes "roomy s"
  shows "\<exists>s'. writeHeader n q s = Inr (True, s') \<and> after_send s (le_bytes 3 n @ [q]) s'"
proof -
  have "(4 :: nat) = Suc (Suc (Suc (Suc 0)))" "(3 :: nat) = Suc (Suc (Suc 0))" by simp_all
  then have "(le_bytes 4 n)[3 := q] = le_bytes 3 n @ [q]"
    by (simp only: le_bytes.simps list_update.simps nat.case append.simps)
  moreover obtain s' where "anetWrite (le_bytes 3 n @ [q]) 4 s = Inr (4, s')" "after_send s (le_bytes 3 n @ [q]) s'"
    using anetWrite_sends [OF assms, of 4 "le_bytes 3 n @ [q]"] by auto
  ultimately show ?thesis by (simp add: writeHeader_def)
qed

text \<open>The authentication packet: 22 bytes are counted for a plugin name that is never written.\<close>

definition auth_body :: "AuthPkt \<Rightarrow> u8 list \<Rightarrow> u8 list" where
  "auth_body pkt user = le_bytes 4 (unat (au_clientflags pkt)) @ le_bytes 4 (unat (au_maxpkt pkt)) @
     [au_charset pkt] @ replicate 23 0 @ (user @ [0]) @ [of_nat (au_saltlen pkt)] @
     take (au_saltlen pkt) (au_salt pkt) @
     (case au_database pkt of None \<Rightarrow> [] | Some db \<Rightarrow> db @ [0])"

lemma writeAuthPkt_sends:
  assumes "roomy s" "au_user pkt = Some user" "length user < 2 ^ 20" "length (au_salt pkt) = 20"
    and "au_saltlen pkt \<le> 20" "case au_database pkt of None \<Rightarrow> True | Some db \<Rightarrow> length db < 2 ^ 20"
  shows "\<exists>n s'. calcAuthPktLen pkt = Inr n \<and> writeAuthPkt pkt n s = Inr (True, s') \<and>
    n = length (auth_body pkt user) + 22 \<and> after_send s (auth_body pkt user @ replicate 22 0) s'"
proof -
  define n where "n = length (auth_body pkt user) + 22"
  define db where "db = (case au_database pkt of None \<Rightarrow> [] | Some db \<Rightarrow> db @ [0])"
  define salt where "salt = take (au_saltlen pkt) (au_salt pkt)"
  have sl: "length salt = au_saltlen pkt" using assms(4,5) by (simp add: salt_def)
  have body: "auth_body pkt user = le_bytes 4 (unat (au_clientflags pkt)) @ le_bytes 4 (unat (au_maxpkt pkt)) @
     [au_charset pkt] @ replicate 23 0 @ (user @ [0]) @ [of_nat (au_saltlen pkt)] @ salt @ db"
    by (simp add: auth_body_def db_def salt_def)
  have c: "calcAuthPktLen pkt = Inr n"
    using assms(4,5) by (simp add: calcAuthPktLen_def assms(2) deref_def n_def auth_body_def split: option.splits)
  have n: "n < 2 ^ 63" using assms(3-6) by (auto simp add: n_def auth_body_def split: option.splits)
  have w: "size_of_int (int n) < n \<longleftrightarrow> False" using n size_of_int_nat [of n] by simp
  have le: "34 + length user + length salt + length db \<le> n" by (simp add: n_def body)
  have W: "writeBinary (wbuf n bs) cs = Inr (wbuf n (bs @ cs))" if "length bs + length cs \<le> n" for bs cs
    using n that by (intro wbuf_write) simp_all
  have p: "au_saltlen pkt \<noteq> 0 \<Longrightarrow> length bs + length salt \<le> n \<Longrightarrow>
      bindE (peek (au_salt pkt) 0 (au_saltlen pkt)) (writeBinary (wbuf n bs)) = Inr (wbuf n (bs @ salt))"
    "au_saltlen pkt = 0 \<Longrightarrow> salt = []" for bs
    using assms(4,5) W [of bs salt] by (auto simp add: peek_def salt_def)
  have d: "(case au_database pkt of None \<Rightarrow> Inr (wbuf n bs) | Some db \<Rightarrow> writeBinary (wbuf n bs) (db @ [0])) =
      Inr (wbuf n (bs @ db))" if "length bs + length db \<le> n" for bs
    using that by (auto simp add: db_def W split: option.splits)
  have all: "auth_body pkt user @ replicate (n - length (auth_body pkt user)) 0 = auth_body pkt user @ replicate 22 0"
    by (simp add: n_def)
  obtain s' where s': "anetWrite (auth_body pkt user @ replicate 22 0) n s = Inr (int n, s')"
      "after_send s (auth_body pkt user @ replicate 22 0) s'"
    using anetWrite_sends [OF assms(1), of n "auth_body pkt user @ replicate 22 0"] by (auto simp add: n_def)
  have "writeAuthPkt pkt n s = bindE (own_block (wbuf n (auth_body pkt user))) (\<lambda>buf.
      bindE (anetWrite buf n s) (\<lambda>(nwrite, fd). Inr (\<not> size_of_int nwrite < n, fd)))"
    unfolding writeAuthPkt_def Let_def wbuf_init assms(2) deref_def body
    using le by (cases "au_saltlen pkt = 0") (simp_all add: W p d sl)
  then have "writeAuthPkt pkt n s = Inr (True, s')" by (simp add: wbuf_own all s'(1) w)
  then show ?thesis using c n_def s'(2) by blast
qed

lemma writeCmdPkt_sends:
  assumes "roomy s" "n \<le> length args" "k = n + 1" "n < 2 ^ 24"
  shows "\<exists>s'. writeCmdPkt \<lparr>cm_cmd = c, cm_args = args\<rparr> k s = Inr (True, s') \<and> after_send s (c # take n args) s'"
proof -
  have "size_of_int (int k - 1) = n" using assms(3,4) size_of_int_nat [of n] by simp
  moreover have "k < 2 ^ 64" using assms(3,4) by simp
  moreover obtain s' where "anetWrite (c # take n args) k s = Inr (int k, s')" "after_send s (c # take n args) s'"
    using anetWrite_sends [OF assms(1), of k "c # take n args"] assms(2,3) by auto
  moreover have "writeBinary (wbuf k []) [c] = Inr (wbuf k [c])"
      "writeBinary (wbuf k [c]) (take n args) = Inr (wbuf k (c # take n args))" "length (c # take n args) = k"
    using assms(2-4) wbuf_write [of k "[]" "[c]"] wbuf_write [of k "[c]" "take n args"] by simp_all
  moreover have "peek args 0 n = Inr (take n args)" using assms(2) by (simp add: peek_def)
  ultimately show ?thesis
    unfolding writeCmdPkt_def wbuf_init Let_def CmdPkt.simps by (simp add: wbuf_own)
qed

end
