(* ===== verification/NetConnect.thy ===== *)
theory NetConnect
  imports NetUrl
begin

text \<open>
  A connection from the first byte on: logging in to a server, asking for the log, and what
  \<open>connectDataSource\<close> returns for a MySQL URL, with the bytes that have been sent on the way.
\<close>

subsection \<open>Logging in\<close>

text \<open>The authentication packet for a greeting, and the bytes of a login.\<close>

definition login_pkt :: "greeting \<Rightarrow> u8 list \<Rightarrow> u8 list \<Rightarrow> AuthPkt" where
  "login_pkt g user pw = \<lparr>au_clientflags = 33285, au_maxpkt = M_MAX_PACKET_SIZE, au_charset = gr_charset g,
     au_user = Some user, au_saltlen = 20, au_salt = scramble (gr_salt1 g @ gr_salt2 g) pw, au_database = None\<rparr>"

definition login_bytes :: "greeting \<Rightarrow> u8 list \<Rightarrow> u8 list \<Rightarrow> u8 list" where
  "login_bytes g user pw = auth_body (login_pkt g user pw) user @ replicate 22 0"

text \<open>What the server sends until the login is accepted.\<close>

definition server_hello :: "greeting \<Rightarrow> u8 \<Rightarrow> u8 \<Rightarrow> u8 list \<Rightarrow> u8 list" where
  "server_hello g q0 q1 ok = packet q0 (greeting_body g) @ packet q1 (0 # ok)"

definition hello_ok :: "greeting \<Rightarrow> u8 list \<Rightarrow> bool" where
  "hello_ok g ok \<longleftrightarrow> greeting_ok g \<and> (of_nat (gr_caps g) :: u32) AND M_CLIENT_PROTOCOL_41 \<noteq> 0 \<and> ok_body ok"

lemma mc_auth_login:
  assumes "greeting_ok g" "length pw < 2 ^ 31"
  shows "mc_auth (greeting_pkt g) (Some user) (Some pw) None = Inr (login_pkt g user pw)"
proof -
  have "length (gr_salt1 g @ gr_salt2 g) = 20" using assms(1) by (simp add: greeting_ok_def)
  then have "cooksalt ((gr_salt1 g @ gr_salt2 g) @ [0]) 20 pw = Inr (scramble (gr_salt1 g @ gr_salt2 g) pw)"
    using assms(2) by (intro cooksalt_scramble) simp_all
  then show ?thesis by (simp add: mc_auth_def greeting_pkt_def login_pkt_def)
qed

definition greeting_hdr :: "greeting \<Rightarrow> u8 \<Rightarrow> PktHeader" where
  "greeting_hdr g q = \<lparr>ph_plen = of_nat (length (greeting_body g)), ph_pnum = q\<rparr>"

lemma mc_greeting_hello:
  assumes "in_bytes (sk_in s) = packet q0 (greeting_body g) @ r" "greeting_ok g"
    and "(of_nat (gr_caps g) :: u32) AND M_CLIENT_PROTOCOL_41 \<noteq> 0"
  shows "\<exists>as. mc_greeting my s = Inr (True, greeting_hdr g q0, greeting_pkt g, my\<lparr>my_pnum := q0, my_scapacity := of_nat (gr_caps g),
      my_status := of_nat (gr_status g)\<rparr>, s\<lparr>sk_in := as\<rparr>) \<and> in_bytes as = r \<and> in_tail as = in_tail (sk_in s)"
proof -
  define n where "n = length (greeting_body g)"
  have n: "n < 2 ^ 24"
    using assms(2) by (auto simp add: n_def length_greeting_body greeting_ok_def split: option.splits)
  obtain as1 where 1: "readPktHeader s = Inr (Some \<lparr>ph_plen = of_nat n, ph_pnum = q0\<rparr>, s\<lparr>sk_in := as1\<rparr>)"
      "in_bytes as1 = greeting_body g @ r" "in_tail as1 = in_tail (sk_in s)"
    using readPktHeader_packet [of s n q0 "greeting_body g @ r"] assms(1) n by (auto simp add: packet_def n_def)
  obtain as2 where 2: "readHandshakePkt n (s\<lparr>sk_in := as1\<rparr>) = Inr (Some (greeting_pkt g), s\<lparr>sk_in := as2\<rparr>)"
      "in_bytes as2 = r" "in_tail as2 = in_tail as1"
    using readHandshakePkt_greeting [of "s\<lparr>sk_in := as1\<rparr>" g r n] 1(2) assms(2) by (auto simp add: n_def)
  have u: "unat (of_nat n :: u32) = n" using n by (rule unat_plen)
  have "mc_greeting my s = Inr (True, greeting_hdr g q0, greeting_pkt g, my\<lparr>my_pnum := q0, my_scapacity := of_nat (gr_caps g),
      my_status := of_nat (gr_status g)\<rparr>, s\<lparr>sk_in := as2\<rparr>)"
    using assms(3) by (simp add: mc_greeting_def 1(1) u 2(1) greeting_pkt_def greeting_hdr_def flip: n_def)
  with 1(3) 2(2,3) show ?thesis by metis
qed

text \<open>The login up to the point where the server answers.\<close>

definition logged :: "greeting \<Rightarrow> u8 \<Rightarrow> MySQL \<Rightarrow> MySQL" where
  "logged g q my = my\<lparr>my_scapacity := of_nat (gr_caps g), my_status := of_nat (gr_status g), my_pnum := q,
     my_maxpkt := M_MAX_PACKET_SIZE, my_ccapacity := 33285\<rparr>"

lemma mconnect_sends:
  assumes "tcp host port = Inr s" "roomy s" "in_bytes (sk_in s) = packet q0 (greeting_body g) @ r" "greeting_ok g"
    and "(of_nat (gr_caps g) :: u32) AND M_CLIENT_PROTOCOL_41 \<noteq> 0" "length user < 2 ^ 20" "length pw < 2 ^ 31"
  shows "\<exists>s'. mconnect tcp my (Some host) port (Some user) (Some pw) None =
      mc_finish (greeting_hdr g q0) (greeting_pkt g) (Some pw) (logged g (q0 + 1) my) s' \<and>
    roomy s' \<and> in_bytes (sk_in s') = r \<and> sk_out s' = sk_out s @ packet (q0 + 1) (login_bytes g user pw)"
proof -
  obtain as1 where 1: "mc_greeting my s = Inr (True, greeting_hdr g q0, greeting_pkt g, my\<lparr>my_pnum := q0,
      my_scapacity := of_nat (gr_caps g), my_status := of_nat (gr_status g)\<rparr>, s\<lparr>sk_in := as1\<rparr>)" "in_bytes as1 = r"
    using mc_greeting_hello [OF assms(3-5)] by blast
  define s1 where "s1 = s\<lparr>sk_in := as1\<rparr>"
  define auth where "auth = login_pkt g user pw"
  have au: "au_user auth = Some user" "length (au_salt auth) = 20" "au_saltlen auth \<le> 20" "au_database auth = None"
    "au_maxpkt auth = M_MAX_PACKET_SIZE"
    by (simp_all add: auth_def login_pkt_def)
  have flags: "au_clientflags auth AND NOT M_CLIENT_CONNECT_WITH_DB = 33285" by (simp add: auth_def login_pkt_def)
  have r1: "roomy s1" using assms(2) by (simp add: s1_def roomy_def)
  define n where "n = length (auth_body auth user) + 22"
  obtain s2 where 2: "writeHeader n (q0 + 1) s1 = Inr (True, s2)" "after_send s1 (le_bytes 3 n @ [q0 + 1]) s2"
    using writeHeader_sends [OF r1] by blast
  then have r2: "roomy s2" by (simp add: after_send_def)
  obtain s3 where 3: "calcAuthPktLen auth = Inr n" "writeAuthPkt auth n s2 = Inr (True, s3)"
      "after_send s2 (auth_body auth user @ replicate 22 0) s3"
    using writeAuthPkt_sends [OF r2 au(1) assms(6) au(2,3)] au(4) by (auto simp add: n_def)
  have a: "mc_auth (greeting_pkt g) (Some user) (Some pw) None = Inr auth"
    using mc_auth_login [OF assms(4,7)] by (simp add: auth_def)
  have f: "tryFreeHandshake (greeting_pkt g) = Inr ()" by (simp add: tryFreeHandshake_def greeting_pkt_def)
  have "mconnect tcp my (Some host) port (Some user) (Some pw) None =
      mc_finish (greeting_hdr g q0) (greeting_pkt g) (Some pw) (logged g (q0 + 1) my) s3"
    unfolding mconnect_def deref_def option.case bindE_simps assms(1) sum.case 1(1) prod.case
    by (simp add: s1_def [symmetric] a 3(1,2) 2(1) f au flags [simplified] logged_def)
  moreover have "in_bytes (sk_in s3) = r" "roomy s3"
    "sk_out s3 = sk_out s @ packet (q0 + 1) (login_bytes g user pw)"
    using 2(2) 3(3) 1(2) by (simp_all add: after_send_def s1_def packet_def login_bytes_def n_def auth_def)
  ultimately show ?thesis by blast
qed

lemma mconnect_login:
  assumes "tcp host port = Inr s" "roomy s" "in_bytes (sk_in s) = server_hello g q0 q1 ok @ r" "hello_ok g ok"
    and "length user < 2 ^ 20" "length pw < 2 ^ 31"
  shows "\<exists>s' my'. mconnect tcp my (Some host) port (Some user) (Some pw) None = Inr (True, my') \<and>
    my_fd my' = Some s' \<and> my_pnum my' = 0 \<and> roomy s' \<and> in_bytes (sk_in s') = r \<and>
    sk_out s' = sk_out s @ packet (q0 + 1) (login_bytes g user pw)"
proof -
  have g: "greeting_ok g" "(of_nat (gr_caps g) :: u32) AND M_CLIENT_PROTOCOL_41 \<noteq> 0" "ok_body ok"
    and b: "in_bytes (sk_in s) = packet q0 (greeting_body g) @ packet q1 (0 # ok) @ r"
    using assms(3,4) by (simp_all add: hello_ok_def server_hello_def)
  obtain s3 where 3: "mconnect tcp my (Some host) port (Some user) (Some pw) None =
        mc_finish (greeting_hdr g q0) (greeting_pkt g) (Some pw) (logged g (q0 + 1) my) s3" "roomy s3"
      "in_bytes (sk_in s3) = packet q1 (0 # ok) @ r" "sk_out s3 = sk_out s @ packet (q0 + 1) (login_bytes g user pw)"
    using mconnect_sends [of tcp host port s, OF assms(1,2) b g(1,2) assms(5,6)] by blast
  obtain as4 as5 p where 4: "readPktHeader s3 = Inr (Some \<lparr>ph_plen = of_nat (Suc (length ok)), ph_pnum = q1\<rparr>, s3\<lparr>sk_in := as4\<rparr>)"
      "unat (of_nat (Suc (length ok)) :: u32) = Suc (length ok)"
      "readReplyPkt None (Suc (length ok)) (s3\<lparr>sk_in := as4\<rparr>) =
        Inr (True, Some \<lparr>rp_isok = True, rp_iseof = False, rp_pkt = OkBody p\<rparr>, s3\<lparr>sk_in := as5\<rparr>)"
      "in_bytes as5 = r"
    using ok_reply [OF 3(3) g(3), of None] by blast
  have reply: "mc_reply h None m s3 = Inr (\<lparr>ph_plen = of_nat (Suc (length ok)), ph_pnum = q1\<rparr>, Some \<lparr>rp_isok = True, rp_iseof = False, rp_pkt = OkBody p\<rparr>,
      m\<lparr>my_pnum := q1\<rparr>, s3\<lparr>sk_in := as5\<rparr>)" for h m
    unfolding mc_reply_def Let_def 4(1) bindE_simps prod.case option.case PktHeader.simps 4(2,3) ..
  obtain my' where "mconnect tcp my (Some host) port (Some user) (Some pw) None = Inr (True, my')"
      "my_fd my' = Some (s3\<lparr>sk_in := as5\<rparr>)" "my_pnum my' = 0"
    unfolding 3(1) mc_finish_def reply by (simp add: tryFreeReply_def)
  moreover have "roomy (s3\<lparr>sk_in := as5\<rparr>)" using 3(2) by (simp add: roomy_def)
  ultimately show ?thesis using 4(4) 3(4) by (intro exI [of _ "s3\<lparr>sk_in := as5\<rparr>"] exI [of _ my']) simp
qed

lemma mconnect_error:
  assumes "tcp host port = Inr s" "roomy s"
    and "in_bytes (sk_in s) = packet q0 (greeting_body g) @ err_packet q1 errno state msg @ r" "greeting_ok g"
    and "(of_nat (gr_caps g) :: u32) AND M_CLIENT_PROTOCOL_41 \<noteq> 0" "err_ok errno state msg"
    and "length user < 2 ^ 20" "length pw < 2 ^ 31"
  shows "\<exists>my'. mconnect tcp my (Some host) port (Some user) (Some pw) None = Inr (False, my') \<and>
    my_errstr my' = msg \<and> my_fd my' = None"
proof -
  obtain s3 where 3: "mconnect tcp my (Some host) port (Some user) (Some pw) None =
        mc_finish (greeting_hdr g q0) (greeting_pkt g) (Some pw) (logged g (q0 + 1) my) s3"
      "in_bytes (sk_in s3) = err_packet q1 errno state msg @ r"
    using mconnect_sends [of tcp host port s, OF assms(1-5,7,8)] by blast
  obtain n as4 as5 where 4: "readPktHeader s3 = Inr (Some \<lparr>ph_plen = of_nat n, ph_pnum = q1\<rparr>, s3\<lparr>sk_in := as4\<rparr>)"
      "unat (of_nat n :: u32) = n"
      "readReplyPkt None n (s3\<lparr>sk_in := as4\<rparr>) = Inr (True, Some \<lparr>rp_isok = False, rp_iseof = False,
        rp_pkt = ErrBody \<lparr>er_errno = of_nat errno, er_smarker = 35, er_state = Some state, er_message = Some msg\<rparr>\<rparr>,
        s3\<lparr>sk_in := as5\<rparr>)"
    using err_reply [OF 3(2) assms(6), of None] by blast
  have reply: "mc_reply h None m s3 = Inr (\<lparr>ph_plen = of_nat n, ph_pnum = q1\<rparr>, Some \<lparr>rp_isok = False, rp_iseof = False,
        rp_pkt = ErrBody \<lparr>er_errno = of_nat errno, er_smarker = 35, er_state = Some state, er_message = Some msg\<rparr>\<rparr>,
      m\<lparr>my_pnum := q1\<rparr>, s3\<lparr>sk_in := as5\<rparr>)" for h m
    unfolding mc_reply_def Let_def 4(1) bindE_simps prod.case option.case PktHeader.simps 4(2,3) ..
  have w: "takeWhile (\<lambda>c. c \<noteq> 0) msg = msg" and "length msg < 256"
    using assms(6) by (auto simp add: err_ok_def takeWhile_eq_all_conv)
  then show ?thesis
    unfolding 3(1) mc_finish_def reply
    by (simp add: tryFreeReply_def err_message_def deref_def strncpy_err_def mclose_def w)
qed

lemma msendcmd_ok:
  assumes "my_fd my = Some s" "roomy s" "in_bytes (sk_in s) = packet q (0 # ok) @ r" "ok_body ok"
    and "n \<le> length args" "n < 2 ^ 20"
  shows "\<exists>s'. msendcmd my cmd args n = Inr (True, my\<lparr>my_fd := Some s'\<rparr>) \<and> roomy s' \<and> in_bytes (sk_in s') = r \<and>
    sk_out s' = sk_out s @ packet (my_pnum my) (cmd # take n args)"
proof -
  obtain s1 where 1: "writeHeader (n + 1) (my_pnum my) s = Inr (True, s1)" "after_send s (le_bytes 3 (n + 1) @ [my_pnum my]) s1"
    using writeHeader_sends [OF assms(2)] by blast
  then have r1: "roomy s1" by (simp add: after_send_def)
  have n: "n < 2 ^ 24" using assms(6) by simp
  obtain s2 where 2: "writeCmdPkt \<lparr>cm_cmd = cmd, cm_args = args\<rparr> (n + 1) s1 = Inr (True, s2)" "after_send s1 (cmd # take n args) s2"
    using writeCmdPkt_sends [OF r1 assms(5) refl n] by blast
  have i2: "in_bytes (sk_in s2) = packet q (0 # ok) @ r" using 1(2) 2(2) assms(3) by (simp add: after_send_def)
  obtain as3 as4 p where 3: "readPktHeader s2 = Inr (Some \<lparr>ph_plen = of_nat (Suc (length ok)), ph_pnum = q\<rparr>, s2\<lparr>sk_in := as3\<rparr>)"
      "unat (of_nat (Suc (length ok)) :: u32) = Suc (length ok)"
      "readReplyPkt None (Suc (length ok)) (s2\<lparr>sk_in := as3\<rparr>) =
        Inr (True, Some \<lparr>rp_isok = True, rp_iseof = False, rp_pkt = OkBody p\<rparr>, s2\<lparr>sk_in := as4\<rparr>)"
      "in_bytes as4 = r"
    using ok_reply [OF i2 assms(4), of None] by blast
  have "msendcmd my cmd args n = Inr (True, my\<lparr>my_fd := Some (s2\<lparr>sk_in := as4\<rparr>)\<rparr>)"
    unfolding msendcmd_def assms(1) option.case Let_def 1(1) bindE_simps prod.case 2(1) 3(1) initialised_simps
      PktHeader.simps 3(2,3) by (simp add: tryFreeReply_def)
  moreover have "roomy (s2\<lparr>sk_in := as4\<rparr>)" using 2(2) by (simp add: after_send_def roomy_def)
  moreover have "sk_out (s2\<lparr>sk_in := as4\<rparr>) = sk_out s @ packet (my_pnum my) (cmd # take n args)"
    using 1(2) 2(2) assms(5) by (simp add: after_send_def packet_def)
  ultimately show ?thesis using 3(4) by (intro exI [of _ "s2\<lparr>sk_in := as4\<rparr>"]) simp
qed

subsection \<open>Asking for the log\<close>

text \<open>The command that asks for the binlog: position, flags, server id, name of the log file.\<close>

definition dump_cmd :: "u32 \<Rightarrow> int \<Rightarrow> u8 list \<Rightarrow> u8 list" where
  "dump_cmd pos sid log = M_COM_BINLOG_DUMP # le_bytes 4 (unat pos) @ [0, 0] @ le_bytes 4 (unat (of_int sid :: u32)) @ log"

lemma dump_args_cmd:
  assumes "length (ds_logfile ds) \<le> 246"
  shows "\<exists>args. dump_args ds = Inr (args, 10 + length (ds_logfile ds)) \<and> length args = 256 \<and>
    M_COM_BINLOG_DUMP # take (10 + length (ds_logfile ds)) args =
      dump_cmd (ds_position ds) (ds_serverid ds) (ds_logfile ds)"
proof -
  define n where "n = length (ds_logfile ds)"
  have n: "10 + n \<le> 256" using assms by (simp add: n_def)
  define p where "p = le_bytes 4 (unat (ds_position ds))"
  define i where "i = le_bytes 4 (unat (of_int (ds_serverid ds) :: u32))"
  have len: "length p = 4" "length i = 4" by (simp_all add: p_def i_def)
  have z: "le_bytes 2 0 = [0, 0]" by (simp add: numeral_2_eq_2)
  have 1: "poke (replicate 256 0) 0 p = Inr (p @ replicate 252 0)" using len by (simp add: poke_def)
  have 2: "poke (p @ replicate 252 0) 4 [0, 0] = Inr (p @ [0, 0] @ replicate 250 0)" using len by (simp add: poke_def)
  have 3: "poke (p @ [0, 0] @ replicate 250 0) 6 i = Inr (p @ [0, 0] @ i @ replicate 246 0)"
    using len by (simp add: poke_def)
  have 4: "poke (p @ [0, 0] @ i @ replicate 246 0) 10 (ds_logfile ds) =
      Inr (p @ [0, 0] @ i @ ds_logfile ds @ replicate (246 - n) 0)"
  proof -
    have "replicate 246 (0 :: u8) = replicate n 0 @ replicate (246 - n) 0" using n by (simp flip: replicate_add)
    then show ?thesis
      using poke_over [of 10 "p @ [0, 0] @ i" "ds_logfile ds" "replicate n 0" "replicate (246 - n) 0"] len
      by (simp add: n_def)
  qed
  have "dump_args ds = Inr (p @ [0, 0] @ i @ ds_logfile ds @ replicate (246 - n) 0, 10 + n)"
    unfolding dump_args_def p_def [symmetric] i_def [symmetric] z 1 2 3 4 bindE_simps n_def ..
  moreover have "take (10 + n) ((p @ [0, 0] @ i @ ds_logfile ds) @ replicate (246 - n) 0) =
      p @ [0, 0] @ i @ ds_logfile ds"
    using len by (subst take_append) (simp add: n_def)
  ultimately show ?thesis using len n by (simp add: n_def dump_cmd_def p_def i_def)
qed

lemma connectMySQL_ok:
  assumes "url_string ds (nd_host (ds_drv ds)) = Inr (Some host)" "url_string ds (nd_user (ds_drv ds)) = Inr (Some user)"
    and "url_string ds (nd_passwd (ds_drv ds)) = Inr (Some pw)" "tcp host (nd_port (ds_drv ds)) = Inr s" "roomy s"
    and "in_bytes (sk_in s) = server_hello g q0 q1 ok @ packet q2 (0 # first) @ r" "hello_ok g ok" "ok_body first"
    and "length user < 2 ^ 20" "length pw < 2 ^ 31" "length (ds_logfile ds) \<le> 246"
  shows "\<exists>s' my. connectMySQL tcp ds = Inr (True, ds\<lparr>ds_drv := (ds_drv ds)\<lparr>nd_mysql := my\<rparr>\<rparr>) \<and> my_fd my = Some s' \<and>
    in_bytes (sk_in s') = r \<and> sk_out s' = sk_out s @ packet (q0 + 1) (login_bytes g user pw) @
      packet 0 (dump_cmd (ds_position ds) (ds_serverid ds) (ds_logfile ds))"
proof -
  define n where "n = 10 + length (ds_logfile ds)"
  obtain s1 my1 where 1: "mconnect tcp (nd_mysql (ds_drv ds)) (Some host) (nd_port (ds_drv ds)) (Some user) (Some pw) None =
        Inr (True, my1)" "my_fd my1 = Some s1" "my_pnum my1 = 0" "roomy s1"
      "in_bytes (sk_in s1) = packet q2 (0 # first) @ r" "sk_out s1 = sk_out s @ packet (q0 + 1) (login_bytes g user pw)"
    using mconnect_login [of tcp host "nd_port (ds_drv ds)" s, OF assms(4,5,6,7,9,10)] by blast
  obtain args where a: "dump_args ds = Inr (args, n)" "length args = 256"
      "M_COM_BINLOG_DUMP # take n args = dump_cmd (ds_position ds) (ds_serverid ds) (ds_logfile ds)"
    using dump_args_cmd [OF assms(11)] by (auto simp add: n_def)
  have n: "n \<le> length args" "n < 2 ^ 20" using assms(11) a(2) by (simp_all add: n_def)
  obtain s2 where 2: "msendcmd my1 M_COM_BINLOG_DUMP args n = Inr (True, my1\<lparr>my_fd := Some s2\<rparr>)"
      "in_bytes (sk_in s2) = r" "sk_out s2 = sk_out s1 @ packet 0 (M_COM_BINLOG_DUMP # take n args)"
    using msendcmd_ok [OF 1(2,4,5) assms(8) n] 1(3) by metis
  have "connectMySQL tcp ds = Inr (True, ds\<lparr>ds_drv := (ds_drv ds)\<lparr>nd_mysql := my1\<lparr>my_fd := Some s2\<rparr>\<rparr>\<rparr>)"
    unfolding connectMySQL_def Let_def assms(1-3) bindE_simps 1(1) prod.case a(1) 2(1) by simp
  then show ?thesis using 2(2,3) 1(6) a(3) by (intro exI [of _ s2] exI [of _ "my1\<lparr>my_fd := Some s2\<rparr>"]) simp
qed

text \<open>Connecting over the network gives a data source at the second packet of the stream.\<close>

lemma net_connect:
  assumes "url_parts_ok user pw host port log" "tcp host (int port) = Inr s" "roomy s"
    and "in_bytes (sk_in s) = server_hello g q0 q1 ok @ packet q2 (0 # first) @ r" "hello_ok g ok" "ok_body first"
    and "event_stream r es" "length user < 2 ^ 20" "length pw < 2 ^ 31" "length log \<le> 246"
  shows "\<exists>ds s'. connectDataSource (dsInitWithMySQL tcp) initF (mysql_url user pw host port log) pos index sid =
      Inr (Some (net_ops tcp), connected index ds) \<and> net_idle ds \<and> net_pending ds = es \<and> ds_view ds = (pos, 0, log) \<and>
      my_fd (nd_mysql (ds_drv ds)) = Some s' \<and>
      sk_out s' = sk_out s @ packet (q0 + 1) (login_bytes g user pw) @ packet 0 (dump_cmd pos sid log)"
proof -
  obtain b hp up pp where p: "parseMySQLUrl dsMySQL (mysql_url user pw host port log) =
        Inr (dsMySQL\<lparr>ds_url := Some b, ds_drv := (ds_drv dsMySQL)\<lparr>nd_host := Some hp, nd_port := int port,
          nd_user := Some up, nd_passwd := Some pp\<rparr>, ds_logfile := log\<rparr>)"
      "cstring_at b hp = Inr host" "cstring_at b up = Inr user" "cstring_at b pp = Inr pw"
    using parseMySQLUrl_parts [OF assms(1), of dsMySQL] assms(10) by auto
  define ds0 where "ds0 = dsMySQL\<lparr>ds_url := Some b, ds_drv := (ds_drv dsMySQL)\<lparr>nd_host := Some hp, nd_port := int port,
      nd_user := Some up, nd_passwd := Some pp\<rparr>, ds_logfile := log\<rparr>"
  define ds1 where "ds1 = ds0\<lparr>ds_position := pos, ds_index := 0, ds_serverid := sid\<rparr>"
  have u: "url_string ds1 (nd_host (ds_drv ds1)) = Inr (Some host)" "url_string ds1 (nd_user (ds_drv ds1)) = Inr (Some user)"
    "url_string ds1 (nd_passwd (ds_drv ds1)) = Inr (Some pw)" "nd_port (ds_drv ds1) = int port" "ds_logfile ds1 = log"
    "ds_position ds1 = pos" "ds_serverid ds1 = sid" "length (nd_buf (ds_drv ds1)) = BL_EVENT_BUF_SIZE" "ds_view ds1 = (pos, 0, log)"
    using p(2-4) by (simp_all add: ds1_def ds0_def url_string_def deref_def dsMySQL_def ds_view_def)
  obtain s' my where c: "connectMySQL tcp ds1 = Inr (True, ds1\<lparr>ds_drv := (ds_drv ds1)\<lparr>nd_mysql := my\<rparr>\<rparr>)" "my_fd my = Some s'"
      "in_bytes (sk_in s') = r" "sk_out s' = sk_out s @ packet (q0 + 1) (login_bytes g user pw) @ packet 0 (dump_cmd pos sid log)"
    using connectMySQL_ok [OF u(1-3) _ assms(3-6,8,9)] assms(2,10) u(4-7) by metis
  define ds where "ds = ds1\<lparr>ds_drv := (ds_drv ds1)\<lparr>nd_mysql := my\<rparr>\<rparr>"
  have "url_prefix [109, 121, 115, 113, 108] (mysql_url user pw host port log) = True"
    by (simp add: url_prefix_def mysql_url_def mysql_scheme_def)
  then have "connectDataSource (dsInitWithMySQL tcp) initF (mysql_url user pw host port log) pos index sid =
      Inr (Some (net_ops tcp), connected index ds)"
    using c(1) by (simp add: connectDataSource_def dsInitWithMySQL_def p(1) ds0_def [symmetric] ds1_def [symmetric]
        net_ops_def ds_def connected_def)
  moreover have st: "net_stream ds = r" "net_pending ds = es"
    using c(2,3) event_stream_split [OF assms(7)] by (simp_all add: net_stream_def net_pending_def ds_def)
  moreover have "net_idle ds"
    unfolding net_idle_def st using assms(7) u(8) c(2) by (simp add: ds_def)
  moreover have "ds_view ds = (pos, 0, log)" using u(9) by (simp add: ds_def ds_view_def)
  ultimately show ?thesis using c(2,4) by (intro exI [of _ ds] exI [of _ s']) (simp add: ds_def)
qed

end
