(* ===== verification/ClientProps.thy ===== *)
theory ClientProps
  imports EventProps FileSource
begin

text \<open>
  The properties of the client \<open>src/src/libbinlog.c\<close> and of the file driver
  \<open>src/src/filedriver.c\<close>, each with an instance on a small log.
\<close>

subsection \<open>A log, for the witnesses\<close>

definition demo_log :: "event list" where
  "demo_log =
     [\<lparr>e_ts = 1, e_sid = 2, e_nextpos = 107, e_flags = 0,
       e_body = EvFDE 4 (replicate 50 0) 0 (replicate 27 8)\<rparr>,
      \<lparr>e_ts = 1, e_sid = 2, e_nextpos = 140, e_flags = 0,
       e_body = EvTable 5 [0, 0] [100] [116] demo_cols [False, True]\<rparr>,
      \<lparr>e_ts = 1, e_sid = 2, e_nextpos = 200, e_flags = 0,
       e_body = EvRows 23 5 [1, 0] True [True, True] [True, True]
         [([], [Some (VLong 7), None]), ([], [Some (VLong 8), Some (VVarchar 20 [97])])]\<rparr>]"

lemma demo_names: "name_ok [100]" "name_ok [116]"
  by (simp_all add: name_ok_def)

lemma demo_log_ok: "log_ok (False, None) demo_log"
  by (simp add: demo_log_def demo_cols_def demo_names meta_ok_def change_ok_def row_ok_def fits_def
      tbl_of_def empty_table_def cols_types_def image_ok_def All_less_Suc)

lemma demo_log_len: "map ev_len demo_log = [103, 40, 41]"
  using demo_table
  by (simp add: demo_log_def ev_len_def fde_body_def table_map_body_def name_bytes_def rows_body_def
      change_bytes_def image_bytes_def present_def val_bytes_def len_prefixed_def lenenc_def)

definition demo_rows :: "BinlogRow list" where
  "demo_rows = [\<lparr>br_nfields = 2, br_type = 23, br_created = 1,
       br_row = [col_cell (VLong 7), null_cell], br_rowOld = None\<rparr>,
     \<lparr>br_nfields = 2, br_type = 23, br_created = 1,
       br_row = [col_cell (VLong 8), col_cell (VVarchar 20 [97])], br_rowOld = None\<rparr>]"

lemma demo_deliver:
  "deliver (100, 0, [98]) demo_log = [(demo_rows ! 0, (100, 1, [98])), (demo_rows ! 1, (100, 2, [98]))]"
  using demo_log_len
  by (simp add: demo_log_def demo_rows_def row_cells_def val_cell_def Let_def)

subsection \<open>Reading from a stream\<close>

lemma fread1_header:
  assumes "19 \<le> length (drop pos content)"
  shows "fread1 (replicate 19 0) 0 19 (content, pos) = Inr (1, take 19 (drop pos content), (content, pos + 19))"
  using assms by (simp add: fread1_def poke_def)

lemma fread1_got:
  "take sz (drop pos content) = got \<Longrightarrow>
   fread1 b off sz (content, pos) = bindE (poke b off got) (\<lambda>b.
     Inr (of_bool (0 < sz \<and> length got = sz), b, (content, pos + length got)))"
  by (simp only: fread1_def Let_def prod.case)

subsection \<open>The client\<close>

text \<open>C16: \<open>setRowsEventBuffer\<close> turns a well-formed rows event into the client's
  buffer: whatever the buffer held before and however long it was, afterwards it yields
  exactly the rows of the event in order, from the first one on; of the client only the
  buffer, the number of its rows and the read position have changed.\<close>

theorem setRowsEventBuffer_buffers:
  assumes "wf_rows ev" "buf_ok bc"
  shows "\<exists>buf. setRowsEventBuffer bc ev =
      Inr (bc\<lparr>bc_cur := 0, bc_lenRows := re_nrows ev, bc_rows := buf\<rparr>) \<and>
    buf_ok (bc\<lparr>bc_cur := 0, bc_lenRows := re_nrows ev, bc_rows := buf\<rparr>) \<and>
    buffered (bc\<lparr>bc_cur := 0, bc_lenRows := re_nrows ev, bc_rows := buf\<rparr>) = rows_of ev"
  using setRowsEventBuffer_wf [OF assms] by auto

definition demo_rows_ev :: RowsEvent where
  "demo_rows_ev = rowsev_uninit\<lparr>re_type := 23, re_nfields := 1, re_nrows := 2,
     re_rows := [[null_cell], [null_cell]]\<rparr>"

lemma demo_rows_ev_wf: "wf_rows demo_rows_ev" "buf_ok (new_client :: unit BinlogClient)"
  by (simp_all add: demo_rows_ev_def rowsev_uninit_def wf_rows_def new_client_def buf_ok_def)

theorem setRowsEventBuffer_buffers_witness:
  "\<exists>bc'. setRowsEventBuffer (new_client :: unit BinlogClient) demo_rows_ev = Inr bc' \<and>
     length (buffered bc') = 2"
  using setRowsEventBuffer_buffers [OF demo_rows_ev_wf] by (auto simp add: demo_rows_ev_def)

text \<open>A rows event without rows ends the stream for the caller: \<open>fetchOne\<close>
  returns NULL although the error flag is not set and events may follow.\<close>

lemma fetchOne_empty_event:
  assumes "getRowsEvent fuel ops bc = Inr (Some e, bc1)" "re_nrows e = 0"
    and "bc_cur bc = bc_lenRows bc" "bc_startidx bc = 0" "bc_dataSource bc1 = Some ds"
  shows "\<exists>bc'. fetchOne fuel ops bc = Inr (None, bc') \<and> bc_err bc' = bc_err bc1"
  using assms
  by (simp add: fetchOne_def fetchOne_raw_def setRowsEventBuffer_def deref_def fetchFromBuffer_def Let_def)

definition demo_src :: "u8 list option \<Rightarrow> u8 list \<Rightarrow> unit ds_ops" where
  "demo_src ev msg = \<lparr>op_connect = (\<lambda>ds. Inr (True, ds)), op_close = Inr,
     op_getEvent = (\<lambda>ds. Inr (ev, ds\<lparr>ds_errstr := msg\<rparr>)), op_freeEvent = Inr\<rparr>"

definition demo_ds :: "unit DataSource" where
  "demo_ds = \<lparr>ds_url = None, ds_logfile = [], ds_position = 4, ds_index = 0, ds_serverid = 1,
     ds_drv = (), ds_errstr = []\<rparr>"

definition demo_client :: "unit BinlogClient" where
  "demo_client = new_client\<lparr>bc_binlog := demo_binlog, bc_dataSource := Some demo_ds\<rparr>"

definition demo_no_rows :: "u8 list" where
  "demo_no_rows = rows_event 1 23 2 100 0 5 [0, 0] True [True, True] [True, True] []"

lemma demo_no_rows_taken:
  "\<exists>e. getRowsEvent 1 (demo_src (Some demo_no_rows) []) demo_client = Inr (Some e, demo_client) \<and>
     re_nrows e = 0"
proof -
  have b: "bl_hdrlen demo_binlog = 19" "t_tableid (bl_table demo_binlog) = of_nat 5"
    "t_nfields (bl_table demo_binlog) = of_nat (length [True, True])"
    by (simp_all add: demo_binlog_def)
  have l: "length demo_no_rows \<le> INT_MAX"
    using length_lenenc_le [of "Suc (Suc 0)"]
    by (simp add: demo_no_rows_def rows_event_def rows_body_def Let_def INT_MAX_def)
  obtain e where "parseRowsEvent demo_binlog rowsev_uninit demo_no_rows = Inr e" "re_nrows e = 0"
    using parseRowsEvent_rows [OF b(1,2) _ b(3), of "[True, True]" "[0, 0]" 23 "[]" demo_no_rows 1 2
        100 0 True "[]" rowsev_uninit] l demo_images(1) by (simp add: demo_no_rows_def INT_MAX_def)
  moreover have "getEventType demo_no_rows = Inr 23"
    using hdr_fields(2) [of _ 1 23 2 100 0] l
    by (simp add: getEventType_def demo_no_rows_def rows_event_def Let_def INT_MAX_def)
  ultimately show ?thesis
    by (simp add: demo_src_def demo_client_def demo_ds_def handleEvent_def deref_def)
qed

lemma fetchOne_empty_event_example:
  "\<exists>bc'. fetchOne 1 (demo_src (Some demo_no_rows) []) demo_client = Inr (None, bc') \<and>
     \<not> bc_err bc'"
proof -
  obtain e where e: "getRowsEvent 1 (demo_src (Some demo_no_rows) []) demo_client = Inr (Some e, demo_client)"
    "re_nrows e = 0" using demo_no_rows_taken by blast
  show ?thesis
    using fetchOne_empty_event [OF e, of demo_ds] by (auto simp add: demo_client_def new_client_def)
qed

text \<open>When a data source ends with a message that contains a percent sign,
  \<open>getRowsEvent\<close> uses it as the format of \<open>sprintf\<close>.\<close>

theorem getRowsEvent_format_string:
  assumes "bc_dataSource bc = Some ds" "op_getEvent ops ds = Inr (None, ds')"
    and "37 \<in> set (ds_errstr ds')"
  shows "getRowsEvent (Suc fuel) ops bc = Inl BadFormat"
  using assms by (simp add: deref_def sprintf_err_def)

theorem getRowsEvent_format_string_witness:
  "getRowsEvent 1 (demo_src None [37, 110]) demo_client = Inl BadFormat"
  using getRowsEvent_format_string [of demo_client demo_ds "demo_src None [37, 110]" _ 0]
  by (simp add: demo_client_def demo_src_def)

text \<open>A URL of an unknown scheme gives a client with the error flag set and no data source; a
  caller that fetches from it anyway dereferences NULL.
\<close>

lemma connectDataSource_unknown:
  assumes "\<not> url_prefix [109, 121, 115, 113, 108] url" "\<not> url_prefix [102, 105, 108, 101] url"
  shows "\<exists>bc. connectDataSource initMySQL initFile url position index serverid = Inr (None, bc) \<and>
    bc_err bc \<and> (\<forall>fuel ops. fetchOne (Suc fuel) ops bc = Inl NullDeref)"
  using assms
  by (simp add: connectDataSource_def new_client_def fetchOne_def fetchOne_raw_def deref_def)

lemma connectDataSource_unknown_example:
  "\<exists>bc. connectDataSource (\<lambda>u. Inl NullDeref) (dsInitWithFile (\<lambda>p. None)) [104, 116, 116, 112] 4 0 1 =
     Inr (None, bc) \<and> bc_err bc \<and> (\<forall>fuel ops. fetchOne (Suc fuel) ops bc = Inl NullDeref)"
  by (rule connectDataSource_unknown) (simp_all add: url_prefix_def)

subsection \<open>The file driver\<close>


definition demo_file :: "u8 list \<Rightarrow> FileDrv DataSource" where
  "demo_file content = dsFile\<lparr>ds_drv := (ds_drv dsFile)\<lparr>fd_fp := Some (content, 0)\<rparr>\<rparr>"






text \<open>A length field below 19 overflows the event buffer: the remaining length is negative,
  \<open>fread\<close> takes it as a huge size and writes past the 4096 bytes when the file
  has that many.\<close>

lemma getEventFromFile_short_length:
  assumes "fd_fp (ds_drv ds) = Some (content, pos)" "length (fd_buf (ds_drv ds)) = BL_EVENT_BUF_SIZE"
    and "getUint32 (take 19 (drop pos content)) 9 = Inr (of_nat n)" "n < 19"
    and "BL_EVENT_BUF_SIZE < length (drop pos content)" "length content < 2 ^ 63"
  shows "getEventFromFile ds = Inl BufferOverflow"
proof -
  define r where "r = drop pos content"
  have r: "19 \<le> length r" "4096 < length r" "length r < 2 ^ 63"
    using assms(5,6) by (simp_all add: r_def)
  have f1: "fread1 (replicate 19 0) 0 19 (content, pos) = Inr (1, take 19 r, (content, pos + 19))"
    using fread1_header [of pos content] r(1) by (simp only: r_def)
  have s: "sint (of_nat n :: u32) = int n" using assms(4) by (simp add: sint_u32_small INT_MAX_def)
  have p: "poke (fd_buf (ds_drv ds)) 0 (take 19 r) = Inr (take 19 r @ drop 19 (fd_buf (ds_drv ds)))"
    using r assms(2) by (simp add: poke_def)
  have z: "length r - 19 < size_of_int (int n - 19)"
  proof -
    have "(int n - 19) mod 2 ^ 64 = int n - 19 + 2 ^ 64"
      using assms(4) by (subst mod_add_self2 [symmetric], intro mod_pos_pos_trivial) simp_all
    then have "int (size_of_int (int n - 19)) = int n - 19 + 2 ^ 64" by (simp add: size_of_int_def)
    moreover have "int (length r) < 2 ^ 63" using r(3) by (metis of_nat_less_iff of_nat_numeral of_nat_power)
    moreover have "int n < 19" using assms(4) by simp
    ultimately have "int (length r - 19) < int (size_of_int (int n - 19))" by simp
    then show ?thesis by (simp only: of_nat_less_iff)
  qed
  have f2: "fread1 (take 19 r @ drop 19 (fd_buf (ds_drv ds))) 19 (size_of_int (int n - 19)) (content, pos + 19) =
      Inl BufferOverflow"
  proof -
    have "take (size_of_int (int n - 19)) (drop (pos + 19) content) = drop 19 r"
      using z by (simp add: r_def add.commute)
    then show ?thesis using r assms(2) by (simp add: fread1_got poke_def)
  qed
  have b: "(int 4096 < int n) = False" "(- (2 ^ 31) \<le> int n - 19) = True" "(1 = (0 :: nat)) = False"
    using assms(4) by simp_all
  have fb: "fd_buf ((ds_drv ds)\<lparr>fd_fp := x\<rparr>) = fd_buf (ds_drv ds)" for x by simp
  show ?thesis
    by (simp only: getEventFromFile_def Let_def assms(1) deref_def option.case f1 assms(3) [folded r_def]
        s b bindE_simps prod.case if_False nat_int fb p checkE_simps f2)
qed

lemma getEventFromFile_short_length_example:
  "getEventFromFile (demo_file (replicate 5000 0)) = Inl BufferOverflow"
proof -
  have "getUint32 (replicate 19 0) 9 = Inr (of_nat 0)"
    by (simp add: getUint32_def peek_def numeral_eq_Suc)
  then show ?thesis
    using getEventFromFile_short_length [of "demo_file (replicate 5000 0)" "replicate 5000 0" 0 0]
    by (simp add: demo_file_def dsFile_def)
qed

text \<open>A file that ends inside an event: \<open>getEventFromFile\<close> still returns the
  event, whose missing bytes are whatever the buffer held before.\<close>

lemma getEventFromFile_truncated:
  assumes "fd_fp (ds_drv ds) = Some (content, pos)" "length (fd_buf (ds_drv ds)) = BL_EVENT_BUF_SIZE"
    and "drop pos content = take j e" "19 \<le> j" "j < length e" "length e \<le> BL_EVENT_BUF_SIZE"
    and "le_val (take 4 (drop 9 e)) = length e"
  shows "\<exists>ds'. getEventFromFile ds = Inr (Some (take j e @ drop j (fd_buf (ds_drv ds))), ds')"
proof -
  define n where "n = length e"
  have f1: "fread1 (replicate 19 0) 0 19 (content, pos) = Inr (1, take 19 e, (content, pos + 19))"
    using fread1_header [of pos content] assms(4,5) unfolding assms(3) by simp
  have l: "getUint32 (take 19 e) 9 = Inr (of_nat n)"
    using assms(4,5,7) by (simp add: getUint32_def peek_def drop_take n_def)
  have s: "sint (of_nat n :: u32) = int n" using assms(6) by (simp add: sint_u32_small INT_MAX_def n_def)
  define buf where "buf = fd_buf (ds_drv ds)"
  have p: "poke buf 0 (take 19 e) = Inr (take 19 e @ drop 19 buf)"
    using assms(2,4,5) by (simp add: poke_def buf_def)
  have sz: "size_of_int (int n - 19) = n - 19"
  proof -
    have "(int n - 19) mod 2 ^ 64 = int n - 19"
      using assms(4-6) by (intro mod_pos_pos_trivial) (simp_all add: n_def)
    then show ?thesis by (simp add: size_of_int_def)
  qed
  have f2: "fread1 (take 19 e @ drop 19 buf) 19 (n - 19) (content, pos + 19) =
      Inr (0, take j e @ drop j buf, (content, pos + 19 + (j - 19)))"
  proof -
    have "drop (pos + 19) content = drop 19 (take j e)" using assms(3) by (metis drop_drop add.commute)
    then have "take (n - 19) (drop (pos + 19) content) = drop 19 (take j e)"
      using assms(5) by (simp add: n_def)
    moreover have "take 19 e @ drop 19 (take j e) = take j e"
      using assms(4) by (metis append_take_drop_id min.absorb1 take_take)
    ultimately show ?thesis using assms(2,4-6) fread1_got [of "n - 19" "pos + 19" content "drop 19 (take j e)"]
      by (simp add: poke_def n_def buf_def flip: append_assoc)
  qed
  have b: "(int 4096 < int n) = False" "(- (2 ^ 31) \<le> int n - 19) = True" "(1 = (0 :: nat)) = False"
    using assms(6) by (simp_all add: n_def)
  have fb: "fd_buf ((ds_drv ds)\<lparr>fd_fp := x\<rparr>) = buf" for x by (simp add: buf_def)
  show ?thesis
    by (simp only: getEventFromFile_def Let_def assms(1) deref_def option.case f1 l
        s b bindE_simps prod.case if_False nat_int fb p checkE_simps sz f2 buf_def [symmetric]) blast
qed

lemma getEventFromFile_truncated_example:
  "\<exists>ds'. getEventFromFile (demo_file (take 50 (ev_bytes (hd demo_log)))) =
     Inr (Some (take 50 (ev_bytes (hd demo_log)) @ replicate 4046 0), ds')"
proof -
  have "ev_len (hd demo_log) = 103" using demo_log_len by (simp add: demo_log_def)
  then show ?thesis
    using getEventFromFile_truncated [of "demo_file (take 50 (ev_bytes (hd demo_log)))"
        "take 50 (ev_bytes (hd demo_log))" 0 50 "ev_bytes (hd demo_log)"]
      ev_bytes_len_field [of "hd demo_log"]
    by (simp add: demo_file_def dsFile_def)
qed

text \<open>A relative file URL: \<open>parseFileUrl\<close> sets the path to the text behind
  \<open>file://\<close> and the log file name to the same text when it is shorter than 256
  bytes.\<close>

theorem parseFileUrl_relative_path:
  assumes "p \<noteq> []" "hd p \<noteq> 47" "58 \<notin> set p" "0 \<notin> set p"
  shows "parseFileUrl dsFile (file_scheme @ p) =
    Inr (dsFile\<lparr>ds_url := Some (file_scheme @ p @ [0]),
           ds_drv := (ds_drv dsFile)\<lparr>fd_path := Some 7\<rparr>,
           ds_logfile := (if length p < 256 then p else [])\<rparr>)"
  by (rule parseFileUrl_relative [OF assms])

theorem parseFileUrl_relative_path_witness:
  "\<exists>ds. parseFileUrl dsFile (file_scheme @ [97, 47, 98]) = Inr ds \<and> ds_logfile ds = [97, 47, 98]"
  using parseFileUrl_relative_path [of "[97, 47, 98]"] by simp

text \<open>An absolute file URL loses its leading slash: whenever \<open>parseFileUrl\<close>
  accepts \<open>file:///p\<close>, the path it will open is \<open>p\<close>, relative to the
  working directory.
\<close>

lemma parseFileUrl_absolute_path:
  assumes "parseFileUrl dsFile (file_scheme @ 47 # p) = Inr ds" "0 \<notin> set p"
  shows "fd_path (ds_drv ds) = Some 8 \<and>
    bindE (deref (ds_url ds)) (\<lambda>url. cstring_at url 8) = Inr p"
  by (rule parseFileUrl_absolute [OF assms])

lemma demo_absolute:
  "\<exists>ds. parseFileUrl dsFile (file_scheme @ 47 # [118, 97, 47, 108, 111, 103]) = Inr ds"
proof -
  have l: "file_url_loop (file_scheme @ 47 # [118, 97, 47, 108, 111, 103, 0]) 0 True 58 None None =
      Inr (Some 8, Some 13)"
    by (simp add: file_url_loop.simps nthE_def)
  have c: "cstring_at (file_scheme @ 47 # [118, 97, 47, 108, 111, 103, 0]) 13 = Inr [103]"
    by (simp add: cstring_at_def)
  have d: "fd_path (ds_drv dsFile) = None" by (simp add: dsFile_def)
  have "take 1 (file_scheme @ 47 # [118, 97, 47, 108, 111, 103]) = [102]" by simp
  then show ?thesis
    unfolding parseFileUrl_def Let_def d using l c by simp
qed

lemma parseFileUrl_absolute_path_example:
  "\<exists>ds. parseFileUrl dsFile (file_scheme @ 47 # [118, 97, 47, 108, 111, 103]) = Inr ds \<and>
     bindE (deref (ds_url ds)) (\<lambda>url. cstring_at url 8) = Inr [118, 97, 47, 108, 111, 103]"
proof -
  obtain ds where ds: "parseFileUrl dsFile (file_scheme @ 47 # [118, 97, 47, 108, 111, 103]) = Inr ds"
    using demo_absolute by blast
  from parseFileUrl_absolute_path [OF ds] have "bindE (deref (ds_url ds)) (\<lambda>url. cstring_at url 8) =
      Inr [118, 97, 47, 108, 111, 103]" by simp
  with ds show ?thesis by blast
qed

text \<open>An absolute file URL without a further slash reaches the test of the uninitialised
  pointer \<open>logfile\<close>.\<close>

theorem parseFileUrl_absolute_fails:
  assumes "p \<noteq> []" "47 \<notin> set p" "0 \<notin> set p"
  shows "parseFileUrl dsFile (file_scheme @ 47 # p) = Inl Uninitialized"
  by (rule parseFileUrl_absolute_uninit [OF assms])

theorem parseFileUrl_absolute_fails_witness:
  "parseFileUrl dsFile (file_scheme @ 47 # [98]) = Inl Uninitialized"
  by (rule parseFileUrl_absolute_fails) simp_all

text \<open>Opening a file: a missing file makes \<open>readMagic\<close> read from a NULL stream;
  any other file is accepted, whatever its first four bytes are, even when it has fewer, and
  the events start behind the fourth byte.\<close>

theorem openFile_any_magic:
  assumes "fd_path (ds_drv ds) = Some k" "ds_url ds = Some url" "cstring_at url k = Inr path"
  shows "case fs path of
      None \<Rightarrow> openFile fs ds = Inl NullDeref
    | Some content \<Rightarrow> (\<exists>ds'. openFile fs ds = Inr (True, ds') \<and> file_rest ds' = drop 4 content)"
proof (cases "fs path")
  case None
  then show ?thesis using openFile_missing [OF assms, of fs] by simp
next
  case (Some content)
  then show ?thesis using openFile_opens [OF assms, of fs content] by auto
qed

theorem openFile_any_magic_witness:
  "\<exists>ds'. openFile (\<lambda>p. Some [1, 2, 3]) (dsFile\<lparr>ds_url := Some [98, 0],
     ds_drv := (ds_drv dsFile)\<lparr>fd_path := Some 0\<rparr>\<rparr>) = Inr (True, ds') \<and> file_rest ds' = []"
  using openFile_any_magic [of "dsFile\<lparr>ds_url := Some [98, 0],
     ds_drv := (ds_drv dsFile)\<lparr>fd_path := Some 0\<rparr>\<rparr>" 0 "[98, 0]" "[98]" "\<lambda>p. Some [1, 2, 3]"]
  by (simp add: cstring_at_def)

text \<open>Releasing the same event twice frees the block of a long event twice:
  \<open>freeEventFromFile\<close> leaves the dangling pointer in place.\<close>

theorem freeEventFromFile_twice:
  "bindE (freeEventFromFile ds) freeEventFromFile =
     (if fd_newbuf (ds_drv ds) = Null then Inr ds else Inl DoubleFree)"
  by (cases "fd_newbuf (ds_drv ds)") (simp_all add: freeEventFromFile_def)

end
