(* ===== verification/NetProps.thy ===== *)
theory NetProps
  imports NetConnect ClientProps
begin

text \<open>
  The properties of the sockets, the digest, the packets and the network driver, each with a
  witness at a concrete server.
\<close>

subsection \<open>A server to talk to\<close>

definition demo_greeting :: greeting where
  "demo_greeting = \<lparr>gr_version = [53, 46, 53], gr_thread = 7, gr_salt1 = replicate 8 65, gr_salt2 = replicate 12 66,
     gr_caps = 63487, gr_charset = 33, gr_status = 2, gr_saltlen = 21, gr_filler = replicate 10 0, gr_plugin = None\<rparr>"

definition demo_ok :: "u8 list" where
  "demo_ok = [0, 0, 2, 0, 0, 0]"

definition demo_end :: "u8 list" where
  "demo_end = err_packet 9 1236 [72, 89, 48, 48, 48] [101, 110, 100]"

definition sock_of :: "u8 list \<Rightarrow> sock" where
  "sock_of bs = \<lparr>sk_in = [Data bs], sk_out = [], sk_room = [Accept 1, Accept 3], sk_again = False, sk_errno = []\<rparr>"

definition demo_server :: sock where
  "demo_server = sock_of (server_hello demo_greeting 0 2 demo_ok @ packet 1 (0 # demo_ok) @
     concat (map (\<lambda>e. packet 2 (0 # ev_bytes e)) demo_log) @ demo_end)"

lemma sock_of_simps [simp]: "in_bytes (sk_in (sock_of bs)) = bs" "roomy (sock_of bs)" "sk_out (sock_of bs) = []"
  by (cases bs; simp add: sock_of_def roomy_def)+

lemma demo_stream: "event_stream (concat (map (\<lambda>e. packet 2 (0 # ev_bytes e)) demo_log) @ demo_end) (map ev_bytes demo_log)"
proof -
  have "event_stream (concat (map (\<lambda>e. packet 2 (0 # ev_bytes e)) es) @ demo_end) (map ev_bytes es)"
    if "list_all (\<lambda>e. 0 < ev_len e \<and> ev_len e < 2 ^ 20) es" for es
    using that
  proof (induction es)
    case Nil
    then show ?case
      using event_stream.Stop [of 1236 "[72, 89, 48, 48, 48]" "[101, 110, 100]" 9 "[]"] by (simp add: demo_end_def err_ok_def)
  next
    case (Cons e es)
    then have "event_ok 0 (ev_bytes e)" by (auto simp add: event_ok_def simp flip: length_0_conv)
    with Cons event_stream.Event show ?case by force
  qed
  moreover have "list_all (\<lambda>e. 0 < ev_len e \<and> ev_len e < 2 ^ 20) demo_log"
    using demo_log_len by (simp add: demo_log_def)
  ultimately show ?thesis by blast
qed

lemma demo_hello: "hello_ok demo_greeting demo_ok" "ok_body demo_ok" "greeting_ok demo_greeting"
proof -
  have "demo_ok = lenenc 0 @ lenenc 0 @ [2, 0] @ [0, 0] @ []" by (simp add: demo_ok_def lenenc_def)
  then have "\<exists>a i x y msg. demo_ok = lenenc a @ lenenc i @ x @ y @ msg \<and> a < 2 ^ 64 \<and> i < 2 ^ 64 \<and> length x = 2 \<and> length y = 2"
    by (intro exI [of _ 0] exI [of _ "[2, 0]"] exI [of _ "[0, 0]"] exI [of _ "[]"]) simp
  then show ok: "ok_body demo_ok" unfolding ok_body_def by (simp add: demo_ok_def)
  show g: "greeting_ok demo_greeting" by (simp add: greeting_ok_def demo_greeting_def)
  show "hello_ok demo_greeting demo_ok" using ok g by (simp add: hello_ok_def demo_greeting_def)
qed

subsection \<open>Sockets\<close>

text \<open>C34: \<open>anetRead\<close> does not depend on how the bytes arrive: when at least
  \<open>count\<close> bytes come before an error or the end, it returns \<open>count\<close>
  with exactly those bytes at the front of the block, and leaves the rest for the next call.\<close>

theorem anetRead_collects:
  assumes "in_bytes (sk_in s) = bs @ r" "length bs \<le> length b" "length bs < 2 ^ 31"
  shows "\<exists>as. anetRead (int (length bs)) b s =
      Inr (int (length bs), bs @ drop (length bs) b, s\<lparr>sk_in := as\<rparr>) \<and>
    in_bytes as = r \<and> in_tail as = in_tail (sk_in s)"
  using anetRead_exact [OF assms(1,2)] assms(3) by simp

theorem anetRead_collects_witness:
  "\<exists>as. anetRead (int (length [1 :: u8, 2, 3])) [0, 0, 0, 0]
      \<lparr>sk_in = [Data [1], Data [2, 3, 4], RecvErr True []], sk_out = [], sk_room = [], sk_again = False, sk_errno = []\<rparr> =
      Inr (int (length [1 :: u8, 2, 3]), [1, 2, 3] @ drop (length [1 :: u8, 2, 3]) [0, 0, 0, 0],
        \<lparr>sk_in = as, sk_out = [], sk_room = [], sk_again = False, sk_errno = []\<rparr>) \<and>
    in_bytes as = [4] \<and> in_tail as = [RecvErr True []]"
  using anetRead_collects [of "\<lparr>sk_in = [Data [1], Data [2, 3, 4], RecvErr True []], sk_out = [], sk_room = [],
      sk_again = False, sk_errno = []\<rparr>" "[1, 2, 3]" "[4]" "[0, 0, 0, 0]"]
  by simp

text \<open>C35: \<open>anetWrite\<close> sends every byte once and in order, however many calls of
  \<open>write\<close> take only a part, as long as none fails or takes nothing.\<close>

theorem anetWrite_delivers:
  assumes "roomy s" "count \<le> length b"
  shows "\<exists>rs. anetWrite b count s = Inr (int count, s\<lparr>sk_out := sk_out s @ take count b, sk_room := rs\<rparr>) \<and>
    roomy (s\<lparr>sk_room := rs\<rparr>)"
  using anetWrite_all [OF assms] .

theorem anetWrite_delivers_witness:
  "\<exists>rs. anetWrite [1, 2, 3, 4] 4 (sock_of []) =
      Inr (int 4, (sock_of [])\<lparr>sk_out := sk_out (sock_of []) @ take 4 [1, 2, 3, 4], sk_room := rs\<rparr>) \<and>
    roomy ((sock_of [])\<lparr>sk_room := rs\<rparr>)"
  by (rule anetWrite_delivers) simp_all

text \<open>More bytes than the block has room for are written past its end.\<close>

lemma anet_read_loop_overflows:
  assumes "length b - off < length (in_bytes (sk_in s))" "off \<le> length b" "int (length b) - int off < count - totlen"
    and "0 \<le> totlen" "count < 2 ^ 31" "count - totlen \<le> int (length (in_bytes (sk_in s)))"
  shows "anet_read_loop count totlen b off s = Inl BufferOverflow"
  using assms
proof (induction "length (in_bytes (sk_in s))" arbitrary: totlen b off s rule: less_induct)
  case less
  have n: "0 < size_of_int (count - totlen)" "size_of_int (count - totlen) = nat (count - totlen)"
    using less.prems(2-5) by (simp_all add: size_of_int_def)
  have "in_bytes (sk_in s) \<noteq> []" using less.prems(1) by auto
  then obtain xs s1 where x: "sock_read (size_of_int (count - totlen)) s = (int (length xs), xs, s1)"
      "xs \<noteq> []" "length xs \<le> size_of_int (count - totlen)" "in_bytes (sk_in s) = xs @ in_bytes (sk_in s1)"
    using sock_read_front [OF _ n(1)] by metis
  have c: "totlen \<noteq> count" "int (length xs) \<noteq> 0" "int (length xs) \<noteq> - 1"
    using less.prems(2,3) x(2) by auto
  show ?case
  proof (cases "off + length xs \<le> length b")
    case False
    then have "poke b off xs = Inl BufferOverflow" by (simp add: poke_def)
    then show ?thesis using c by (subst anet_read_loop.simps) (simp add: x(1))
  next
    case True
    define b1 where "b1 = take off b @ xs @ drop (off + length xs) b"
    have p: "poke b off xs = Inr b1" "length b1 = length b" using True by (simp_all add: poke_def b1_def)
    have "anet_read_loop count (totlen + int (length xs)) b1 (off + length xs) s1 = Inl BufferOverflow"
      using less.prems x(2-4) True p(2) by (intro less.hyps) (auto simp add: n(2))
    then show ?thesis using c by (subst anet_read_loop.simps) (simp add: x(1) p(1))
  qed
qed

text \<open>An end-of-file packet of 5, 6 or 7 bytes overflows the four-byte buffer it is read
  into, however the bytes arrive.\<close>

lemma readEofPkt_overflows:
  assumes "n \<in> {5, 6, 7}" "n \<le> length (in_bytes (sk_in s))"
  shows "readEofPkt n s = Inl BufferOverflow"
proof -
  have "n < 2 ^ 31" using assms(1) by auto
  then have "int_of_size n = int n" by (rule int_of_size_small)
  moreover have "anetRead (int n) (replicate 4 0) s = Inl BufferOverflow"
    unfolding anetRead_def using assms by (intro anet_read_loop_overflows) auto
  ultimately show ?thesis using assms(1) by (auto simp add: readEofPkt_def)
qed

lemma readEofPkt_overflows_example: "readEofPkt 5 (sock_of [0, 0, 2, 0, 1]) = Inl BufferOverflow"
  by (rule readEofPkt_overflows) simp_all

text \<open>\<open>vioNetRead\<close> after \<open>EAGAIN\<close>: the result \<open>-1\<close> of
  the failed read is added to the buffer pointer, so the next bytes are written in front of
  the buffer.
\<close>

lemma vioNetRead_after_again:
  assumes "sk_in s = RecvErr True m # Data (y # c) # r" "0 < len"
  shows "vioNetRead s b len = Inl BufferOverflow"
  using assms
  unfolding vioNetRead_def
  by (subst vio_net_read.simps, simp add: sock_read_def, subst vio_net_read.simps, cases len) (auto simp add: sock_read_def)

lemma vioNetRead_after_again_example:
  "vioNetRead \<lparr>sk_in = RecvErr True [] # Data [1, 2] # [], sk_out = [], sk_room = [], sk_again = False, sk_errno = []\<rparr>
     [0, 0] 2 = Inl BufferOverflow"
  by (rule vioNetRead_after_again [of _ "[]" 1 "[2]" "[]"]) simp_all

subsection \<open>SHA-1 and the password\<close>

text \<open>C7: one block of SHA-1: the unrolled rounds with their rotating arguments, the in-place
  16-word message schedule and the rewritten choice and majority functions compute the FIPS
  180 block function, with its schedule of 80 words.\<close>

theorem SHA1Transform_is_fips:
  assumes "length M = 64"
  shows "SHA1Transform st M = fips_block st M"
  using SHA1Transform_fips [OF assms] .

theorem SHA1Transform_is_fips_witness:
  "SHA1Transform fips_init (replicate 64 0) = fips_block fips_init (replicate 64 0)"
  by (rule SHA1Transform_is_fips) simp

text \<open>C6: the incremental interface of SHA-1: feeding a message in any pieces of less than
  \<open>2 ^ 31\<close> bytes, empty ones included, and finishing gives the FIPS 180 digest of
  the whole message, for every message the 64-bit counter can count; no piece boundary, buffer
  filling or carry of the counter changes the result.\<close>

theorem SHA1_incremental:
  assumes "list_all (\<lambda>d. length d < 2 ^ 31) ds" "length (concat ds) < 2 ^ 61"
  shows "bindE (sha1_updates SHA1Init ds) SHA1Final = Inr (sha1 (concat ds))"
  using sha1_pieces [OF assms] .

theorem SHA1_incremental_witness:
  "bindE (sha1_updates SHA1Init [[97], [98, 99]]) SHA1Final = Inr (sha1 (concat [[97], [98, 99]]))"
  by (rule SHA1_incremental) simp_all

text \<open>C3: logging in. For every greeting of a 4.1 server, \<open>mconnect\<close> sends one
  packet, numbered one above the greeting, with the client flags, the maximal packet size, the
  charset of the server, 23 zero bytes, the user, a reply of 20 bytes and 22 zero bytes where
  a plugin name is counted but never written; the reply passes the check of a server that
  stores only the double SHA-1 of the password, whatever the salt; after the OK packet the
  connection stands at the next packet with packet number 0.\<close>

theorem mconnect_logs_in:
  assumes "tcp host port = Inr s" "roomy s" "in_bytes (sk_in s) = server_hello g q0 q1 ok @ r" "hello_ok g ok"
    and "length user < 2 ^ 20" "length pw < 2 ^ 31"
  shows "\<exists>s' my' reply. mconnect tcp my (Some host) port (Some user) (Some pw) None = Inr (True, my') \<and>
    my_fd my' = Some s' \<and> my_pnum my' = 0 \<and> in_bytes (sk_in s') = r \<and>
    sk_out s' = sk_out s @ packet (q0 + 1) (le_bytes 4 33285 @ le_bytes 4 16777216 @ [gr_charset g] @
      replicate 23 0 @ user @ [0, 20] @ reply @ replicate 22 0) \<and>
    length reply = 20 \<and> server_accepts (gr_salt1 g @ gr_salt2 g) (sha1 (sha1 pw)) reply"
proof -
  define reply where "reply = scramble (gr_salt1 g @ gr_salt2 g) pw"
  have "login_bytes g user pw = le_bytes 4 33285 @ le_bytes 4 16777216 @ [gr_charset g] @
      replicate 23 0 @ user @ [0, 20] @ reply @ replicate 22 0"
    by (simp add: login_bytes_def auth_body_def login_pkt_def reply_def)
  then show ?thesis
    using mconnect_login [of tcp host port s, OF assms, of my] scramble_accepted [of "gr_salt1 g @ gr_salt2 g" pw]
    unfolding reply_def by (metis length_scramble)
qed

theorem mconnect_logs_in_witness:
  "\<exists>s' my' reply. mconnect (\<lambda>_ _. Inr demo_server) mysql_zero (Some [104]) 3306 (Some [114]) (Some [115]) None = Inr (True, my') \<and>
    my_fd my' = Some s' \<and> my_pnum my' = 0 \<and> in_bytes (sk_in s') = packet 1 (0 # demo_ok) @
     concat (map (\<lambda>e. packet 2 (0 # ev_bytes e)) demo_log) @ demo_end \<and>
    sk_out s' = sk_out demo_server @ packet (0 + 1) (le_bytes 4 33285 @ le_bytes 4 16777216 @ [gr_charset demo_greeting] @
      replicate 23 0 @ [114] @ [0, 20] @ reply @ replicate 22 0) \<and>
    length reply = 20 \<and> server_accepts (gr_salt1 demo_greeting @ gr_salt2 demo_greeting) (sha1 (sha1 [115])) reply"
  by (rule mconnect_logs_in [OF _ _ _ demo_hello(1)]) (simp_all add: demo_server_def)

subsection \<open>Packets\<close>

text \<open>C33: the greeting of a server decodes to its fields: protocol and server version, thread,
  the two parts of the salt, the capability bits from their two halves, charset, status and
  plugin name, and exactly the bytes of the packet are consumed.\<close>

theorem readHandshakePkt_decodes:
  assumes "in_bytes (sk_in s) = greeting_body g @ r" "greeting_ok g" "n = length (greeting_body g)"
  shows "\<exists>as. readHandshakePkt n s = Inr (Some (greeting_pkt g), s\<lparr>sk_in := as\<rparr>) \<and> in_bytes as = r \<and>
    in_tail as = in_tail (sk_in s)"
  using readHandshakePkt_greeting [OF assms] .

theorem readHandshakePkt_decodes_witness:
  "\<exists>as. readHandshakePkt 49 (sock_of (greeting_body demo_greeting @ [1])) =
      Inr (Some (greeting_pkt demo_greeting), (sock_of (greeting_body demo_greeting @ [1]))\<lparr>sk_in := as\<rparr>) \<and> in_bytes as = [1] \<and>
    in_tail as = in_tail (sk_in (sock_of (greeting_body demo_greeting @ [1])))"
  by (rule readHandshakePkt_decodes [OF _ demo_hello(3)])
    (simp_all add: length_greeting_body [OF demo_hello(3)], simp add: demo_greeting_def)

text \<open>C39: the length-encoded integers of a reply packet: for every 64-bit number,
  \<open>readEncodeLength\<close> on its encoding anywhere in a buffer returns the number and
  moves the buffer past the encoding.\<close>

theorem readEncodeLength_decodes:
  assumes "v < 2 ^ 64" "length (pre @ lenenc v @ r) < 2 ^ 64"
  shows "\<exists>io. readEncodeLength (VioBuffer (pre @ lenenc v @ r) (length pre) False) = Inr (of_nat v, io) \<and>
    buf_rest io = r \<and> buf_pos io = length (pre @ lenenc v)"
  using vlen.dec_lenenc [of "VioBuffer (pre @ lenenc v @ r) (length pre) False" v r] assms
  by (auto simp add: buf_wf_def buf_rest_def buf_pos_def)

theorem readEncodeLength_decodes_witness:
  "\<exists>io. readEncodeLength (VioBuffer ([7] @ lenenc 300 @ [9]) (length [7 :: u8]) False) = Inr (of_nat 300, io) \<and>
    buf_rest io = [9] \<and> buf_pos io = length ([7] @ lenenc 300)"
  by (rule readEncodeLength_decodes) (simp_all add: lenenc_def)

subsection \<open>The network driver\<close>

text \<open>C32: a MySQL URL is taken apart as it was put together: for all parts without separators,
  \<open>parseMySQLUrl\<close> finds user, password, host, port number and, when it is shorter
  than 256 bytes, log file; the strings are in the copy of the URL that the data source keeps,
  and nothing but that copy, these four fields of the driver and the log file changes.\<close>

theorem parseMySQLUrl_splits:
  assumes "url_parts_ok user pw host port log"
  shows "\<exists>b hp up pp. parseMySQLUrl ds (mysql_url user pw host port log) =
      Inr (ds\<lparr>ds_url := Some b,
             ds_drv := (ds_drv ds)\<lparr>nd_host := Some hp, nd_port := int port, nd_user := Some up,
               nd_passwd := Some pp\<rparr>,
             ds_logfile := (if length log < 256 then log else ds_logfile ds)\<rparr>) \<and>
    cstring_at b hp = Inr host \<and> cstring_at b up = Inr user \<and> cstring_at b pp = Inr pw"
  by (rule parseMySQLUrl_parts [OF assms])

theorem parseMySQLUrl_splits_witness:
  "\<exists>b hp up pp. parseMySQLUrl dsMySQL (mysql_url [114] [115, 116] [104] 3306 [98]) =
      Inr (dsMySQL\<lparr>ds_url := Some b,
             ds_drv := (ds_drv dsMySQL)\<lparr>nd_host := Some hp, nd_port := 3306, nd_user := Some up,
               nd_passwd := Some pp\<rparr>,
             ds_logfile := [98]\<rparr>) \<and>
    cstring_at b hp = Inr [104] \<and> cstring_at b up = Inr [114] \<and> cstring_at b pp = Inr [115, 116]"
  using parseMySQLUrl_splits [of "[114]" "[115, 116]" "[104]" 3306 "[98]" dsMySQL]
  by (simp add: url_parts_ok_def)

text \<open>C31: reading one event from a server: on a stream of event packets
  \<open>getEventFromServer\<close> returns the next event at the start of the 4096-byte
  buffer, or of a block of its own when the packet is longer, with position, index and log
  file untouched; after \<open>freeEventFromServer\<close> the source is ready for the
  following events, which are all still there.\<close>

theorem getEventFromServer_next:
  assumes "net_idle ds" "net_pending ds = e # es"
  shows "\<exists>post ds' ds2. getEventFromServer ds = Inr (Some (e @ post), ds') \<and>
    length (e @ post) = (if big_event e then Suc (length e) else BL_EVENT_BUF_SIZE) \<and>
    ds_view ds' = ds_view ds \<and> freeEventFromServer ds' = Inr ds2 \<and> net_idle ds2 \<and> net_pending ds2 = es \<and>
    ds_view ds2 = ds_view ds"
  using getEventFromServer_event [OF assms] freeEventFromServer_lent by metis

definition demo_net :: "NetDrv DataSource" where
  "demo_net = dsMySQL\<lparr>ds_drv := (ds_drv dsMySQL)\<lparr>nd_mysql := mysql_zero\<lparr>my_fd :=
     Some (sock_of (concat (map (\<lambda>e. packet 2 (0 # ev_bytes e)) demo_log) @ demo_end))\<rparr>\<rparr>\<rparr>"

lemma demo_net_pending: "net_pending demo_net = map ev_bytes demo_log" "net_idle demo_net"
proof -
  have s: "net_stream demo_net = concat (map (\<lambda>e. packet 2 (0 # ev_bytes e)) demo_log) @ demo_end"
    by (simp add: net_stream_def demo_net_def)
  show p: "net_pending demo_net = map ev_bytes demo_log"
    unfolding net_pending_def s using event_stream_split [OF demo_stream] .
  show "net_idle demo_net"
    unfolding net_idle_def p s using demo_stream by (simp add: demo_net_def dsMySQL_def)
qed

theorem getEventFromServer_next_witness:
  "\<exists>post ds' ds2. getEventFromServer demo_net = Inr (Some (ev_bytes (hd demo_log) @ post), ds') \<and>
    length (ev_bytes (hd demo_log) @ post) = (if big_event (ev_bytes (hd demo_log)) then Suc (length (ev_bytes (hd demo_log)))
      else BL_EVENT_BUF_SIZE) \<and>
    ds_view ds' = ds_view demo_net \<and> freeEventFromServer ds' = Inr ds2 \<and> net_idle ds2 \<and>
    net_pending ds2 = map ev_bytes (tl demo_log) \<and> ds_view ds2 = ds_view demo_net"
  by (rule getEventFromServer_next [OF demo_net_pending(2)]) (simp add: demo_net_pending demo_log_def)

text \<open>C40: a connection that closes inside an event packet. When it closes inside the four bytes
  of the header or right behind them, that is not noticed: missing bytes of the header are
  zero, and the marker byte behind it is tested although it was never read. When it closes
  right behind the marker, the call returns NULL with the message \<open>Lost connection to
  master\<close>. When it closes inside the event, that is not noticed either: the bytes that
  came are returned as the event, followed by what the buffer held, or by the rest of the new
  block of a large packet, and no error is set.\<close>

theorem getEventFromServer_closed:
  assumes "my_fd (nd_mysql (ds_drv ds)) = Some s" "length (nd_buf (ds_drv ds)) = BL_EVENT_BUF_SIZE"
    and "in_bytes (sk_in s) = take j (packet q (m # e))" "in_tail (sk_in s) = []"
    and "event_ok m e" "j < 5 + length e"
  shows "if j \<le> 4 then getEventFromServer ds = Inl Uninitialized
    else if j = 5 then \<exists>ds'. getEventFromServer ds = Inr (None, ds') \<and> ds_errstr ds' = lost_connection
    else \<exists>ds' rest. getEventFromServer ds = Inr (Some (take (j - 5) e @ rest), ds') \<and>
      rest = drop (j - 5) (if big_event e then replicate (Suc (length e)) 0 else nd_buf (ds_drv ds)) \<and>
      ds_errstr ds' = ds_errstr ds"
proof (cases "j \<le> 4")
  case True
  then have "length (in_bytes (sk_in s)) \<le> 4" using assms(3) by simp
  from msaferead_short_header [OF assms(1,4) this] True show ?thesis
    by (simp add: getEventFromServer_def Let_def)
next
  case False
  define k where "k = j - 5"
  have j: "j = 5 + k" using False by (simp add: k_def)
  note r = msaferead_lost [OF assms(1,4,5) _ assms(3) [unfolded j] assms(2) refl]
  have k: "k < length e" using assms(6) by (simp add: j)
  show ?thesis
    using r [OF k] by (cases "k = 0") (simp_all add: j getEventFromServer_def Let_def)
qed

definition demo_cut :: "nat \<Rightarrow> NetDrv DataSource" where
  "demo_cut j = dsMySQL\<lparr>ds_drv := (ds_drv dsMySQL)\<lparr>nd_mysql := mysql_zero\<lparr>my_fd :=
     Some (sock_of (take j (packet 2 (0 # [7, 8, 9]))))\<rparr>\<rparr>\<rparr>"

theorem getEventFromServer_closed_witness:
  "getEventFromServer (demo_cut 3) = Inl Uninitialized \<and>
   (\<exists>ds'. getEventFromServer (demo_cut 5) = Inr (None, ds') \<and> ds_errstr ds' = lost_connection) \<and>
   (\<exists>ds'. getEventFromServer (demo_cut 7) = Inr (Some ([7, 8] @ replicate 4094 0), ds') \<and> ds_errstr ds' = [])"
proof -
  have s: "my_fd (nd_mysql (ds_drv (demo_cut j))) = Some (sock_of (take j (packet 2 (0 # [7, 8, 9]))))"
    "length (nd_buf (ds_drv (demo_cut j))) = BL_EVENT_BUF_SIZE" "event_ok 0 [7, 8, 9]"
    "nd_buf (ds_drv (demo_cut j)) = replicate 4096 0" "ds_errstr (demo_cut j) = []" for j
    by (simp_all add: demo_cut_def dsMySQL_def event_ok_def)
  have t: "in_tail (sk_in (sock_of bs)) = []" if "bs \<noteq> []" for bs
    using that by (cases bs) (simp_all add: sock_of_def)
  have c: "take j (packet 2 (0 # [7, 8, 9])) \<noteq> []" if "0 < j" for j using that by (simp add: packet_def flip: length_0_conv)
  note closed = getEventFromServer_closed [OF s(1,2) sock_of_simps(1) t [OF c] s(3)]
  have big: "\<not> big_event [7, 8, 9]" by (simp add: big_event_def)
  show ?thesis using closed [of 3] closed [of 5] closed [of 7] big by (simp add: s(4,5))
qed

theorem dump_args_overflows:
  assumes "246 < length (ds_logfile ds)"
  shows "dump_args ds = Inl BufferOverflow"
  using assms by (simp add: dump_args_def poke_def)

theorem dump_args_overflows_witness: "dump_args (dsMySQL\<lparr>ds_logfile := replicate 250 65\<rparr>) = Inl BufferOverflow"
  by (rule dump_args_overflows) simp

subsection \<open>Refusals\<close>

text \<open>C4: a refused login: when the server answers the login with an error packet,
  \<open>mconnect\<close> fails, the text of the server is the error message of the
  connection, and the socket is closed.\<close>

theorem mconnect_refused:
  assumes "tcp host port = Inr s" "roomy s"
    and "in_bytes (sk_in s) = packet q0 (greeting_body g) @ err_packet q1 errno state msg @ r" "greeting_ok g"
    and "(of_nat (gr_caps g) :: u32) AND M_CLIENT_PROTOCOL_41 \<noteq> 0" "err_ok errno state msg"
    and "length user < 2 ^ 20" "length pw < 2 ^ 31"
  shows "\<exists>my'. mconnect tcp my (Some host) port (Some user) (Some pw) None = Inr (False, my') \<and>
    my_errstr my' = msg \<and> my_fd my' = None"
  using mconnect_error [of tcp host port s, OF assms] .

theorem mconnect_refused_witness:
  "\<exists>my'. mconnect (\<lambda>_ _. Inr (sock_of (packet 0 (greeting_body demo_greeting) @ demo_end @ []))) mysql_zero (Some [104]) 3306
      (Some [114]) (Some [115]) None = Inr (False, my') \<and>
    my_errstr my' = [101, 110, 100] \<and> my_fd my' = None"
  by (rule mconnect_refused [OF refl _ _ demo_hello(3), where ?q0.0 = 0 and r = "[]" and ?q1.0 = 9 and errno = 1236 and state = "[72, 89, 48, 48, 48]"])
    (simp_all add: demo_end_def err_ok_def demo_greeting_def)

theorem parseMySQLUrl_no_slash:
  assumes "url_parts_ok user pw host port []"
  shows "dsInitWithMySQL tcp (mysql_scheme @ user @ 58 # pw @ 64 # host @ 58 # dec_digits port) = Inl Uninitialized"
  using parseMySQLUrl_no_file [OF assms] by (simp add: dsInitWithMySQL_def)

theorem parseMySQLUrl_no_slash_witness:
  "dsInitWithMySQL (\<lambda>_ _. Inl []) (mysql_scheme @ [114] @ 58 # [115] @ 64 # [104] @ 58 # dec_digits 3306) = Inl Uninitialized"
  by (rule parseMySQLUrl_no_slash) (simp add: url_parts_ok_def)

subsection \<open>End-of-file packets\<close>

text \<open>An end-of-file packet in the stream is not reported: it is read, and then the
  next four bytes, which belong to the following packet, are returned as an event of length 4.\<close>

lemma msaferead_eof_packet:
  assumes "my_fd my = Some s" "in_bytes (sk_in s) = packet q (254 # x) @ y @ r" "length x = 4" "length y = 4"
    and "length buf = BL_EVENT_BUF_SIZE"
  shows "\<exists>as. msaferead my buf BL_EVENT_BUF_SIZE =
      Inr (4, my\<lparr>my_fd := Some (s\<lparr>sk_in := as\<rparr>)\<rparr>, y @ drop 4 buf, Some None) \<and> in_bytes as = r"
proof -
  obtain as1 where 1: "readPktHeader s = Inr (Some \<lparr>ph_plen = of_nat 5, ph_pnum = q\<rparr>, s\<lparr>sk_in := as1\<rparr>)"
      "in_bytes as1 = 254 # x @ y @ r"
    using readPktHeader_packet [of s 5 q "254 # x @ y @ r"] assms(2,3) by (auto simp add: packet_def)
  obtain as2 where 2: "anetRead 1 [0] (s\<lparr>sk_in := as1\<rparr>) = Inr (1, [254], s\<lparr>sk_in := as2\<rparr>)" "in_bytes as2 = x @ y @ r"
    using anetRead_byte [of "s\<lparr>sk_in := as1\<rparr>" 254] 1(2) by auto
  obtain as3 where 3: "anetRead (int_of_size 4) (replicate 4 0) (s\<lparr>sk_in := as2\<rparr>) = Inr (4, x, s\<lparr>sk_in := as3\<rparr>)"
      "in_bytes as3 = y @ r"
    using anetRead_body [of "s\<lparr>sk_in := as2\<rparr>" x "y @ r" "replicate 4 0"] 2(2) assms(3) by auto
  obtain as4 where 4: "anetRead (int_of_size 4) buf (s\<lparr>sk_in := as3\<rparr>) = Inr (4, y @ drop 4 buf, s\<lparr>sk_in := as4\<rparr>)"
      "in_bytes as4 = r"
    using anetRead_body [of "s\<lparr>sk_in := as3\<rparr>" y r buf] 3(2) assms(4,5) by auto
  have u: "unat (of_nat 5 :: u32) = 5" "size_of_int (int 5 - 1) = 4" by (simp_all add: size_of_int_def)
  have "\<exists>e. readEofPkt 4 (s\<lparr>sk_in := as2\<rparr>) = Inr (Some e, s\<lparr>sk_in := as3\<rparr>)"
    using assms(3) size_of_int_nat [of 4]
    by (simp add: readEofPkt_def 3(1) vioInitWithBuffer_def vioReadUint16_def readBinary_buffer)
  then obtain e where e: "readEofPkt 4 (s\<lparr>sk_in := as2\<rparr>) = Inr (Some e, s\<lparr>sk_in := as3\<rparr>)" by blast
  have "msaferead my buf BL_EVENT_BUF_SIZE =
      Inr (4, my\<lparr>my_fd := Some (s\<lparr>sk_in := as4\<rparr>)\<rparr>, y @ drop 4 buf, Some None)"
    unfolding msaferead_def assms(1) deref_def option.case bindE_simps 1(1) prod.case initialised_simps
      PktHeader.simps u(1) Let_def 2(1) u(2) by (simp add: e 4(1))
  with 4(2) show ?thesis by blast
qed

lemma msaferead_eof_packet_example:
  "\<exists>as. msaferead (mysql_zero\<lparr>my_fd := Some (sock_of (packet 3 (254 # [0, 0, 2, 0]) @ [9, 8, 7, 6] @ [5]))\<rparr>)
      (replicate 4096 0) BL_EVENT_BUF_SIZE =
      Inr (4, (mysql_zero\<lparr>my_fd := Some (sock_of (packet 3 (254 # [0, 0, 2, 0]) @ [9, 8, 7, 6] @ [5]))\<rparr>)
          \<lparr>my_fd := Some ((sock_of (packet 3 (254 # [0, 0, 2, 0]) @ [9, 8, 7, 6] @ [5]))\<lparr>sk_in := as\<rparr>)\<rparr>,
        [9, 8, 7, 6] @ drop 4 (replicate 4096 0), Some None) \<and> in_bytes as = [5]"
  by (rule msaferead_eof_packet [where q = 3 and x = "[0, 0, 2, 0]"]) simp_all

end
