(* ===== verification/Spec2Isabelle.thy ===== *)
theory Spec2Isabelle
  imports DecimalProduct DecimalQuotient DecimalShifting PrintProps SocketProps NetProps
begin

section \<open>The library and its model\<close>

text \<open>
  libbinlog reads the row changes of a MySQL binary log, from a file or from a server that it
  talks to as a replica. A program calls \<open>connectDataSource\<close> with a URL and then
  \<open>fetchOne\<close> until it returns NULL. The client (\<open>src/src/libbinlog.c\<close>) pulls events from a
  data source through four function pointers (\<open>src/src/datasource.h\<close>), has them parsed
  (\<open>src/src/logevent.c\<close>, which calls \<open>src/src/decimal.c\<close> for one column type) and hands out
  the rows of a rows event one by one. A data source is a file (\<open>src/src/filedriver.c\<close>) or a
  server (\<open>src/src/netdriver.c\<close>), the latter on top of a connection (\<open>src/src/mysql.c\<close>), the
  packets of the protocol (\<open>src/src/protocol/protocol.c\<close>), byte streams
  (\<open>src/src/protocol/vio.c\<close>, \<open>binary.c\<close>), SHA-1 (\<open>src/src/protocol/sha1.c\<close>) and sockets
  (\<open>src/src/anet.c\<close>). The program \<open>src/src/bldump.c\<close> prints what a client delivers.

  \<^bold>\<open>Conventions.\<close> A C function is a HOL function of the state it reads to a result of type
  \<open>'a res\<close>: \<open>Inr\<close> the values it returns and changes, or \<open>Inl\<close> a fault, which stands for
  undefined behaviour (a read or write outside a block, NULL or a freed block used, an
  uninitialised value tested, a failed assertion). Integers are words of their width, blocks of
  memory are lists of bytes, records have the fields of the structs. \<open>malloc\<close> does not fail
  for sizes a process can have. The machine is little endian with 64-bit pointers, as the code
  assumes when it reads integers through casts.
\<close>

text \<open>
  \<^bold>\<open>Theories.\<close>
  \<^item> \<open>Prelude\<close>: faults, the \<open>res\<close> monad, blocks, C strings, little-endian values.
  \<^item> \<open>ByteStream\<close>: the interface \<open>byte_stream\<close> of a source of bytes, and \<open>lenenc_reader\<close>,
    the length-encoded integer that the code decodes in two places.
  \<^item> \<open>EventReader\<close> (\<open>util.h\<close>, first part of \<open>logevent.c\<close>): loads, cursor readers, \<open>decodeint\<close>,
    bitmaps; the event cursor as a \<open>byte_stream\<close>.
  \<^item> \<open>Decimal\<close> (\<open>decimal.c\<close>): the binary format of a DECIMAL column and its printed form.
    \<open>DecimalText\<close>, \<open>DecimalFormat\<close>: the printed number is the decimal expansion, and the
    binary format decodes to the number it encodes.
  \<^item> \<open>DecimalArith\<close>, \<open>DecimalMul\<close>, \<open>DecimalDiv\<close>, \<open>DecimalRound\<close>, \<open>DecimalShift\<close>
    (\<open>decimal.c\<close>): addition, subtraction and comparison; multiplication; division and modulus;
    rounding; shifting by powers of ten. \<open>DecimalValue\<close>, \<open>DecimalSub\<close>, \<open>DecimalSum\<close>,
    \<open>DecimalProduct\<close>, \<open>DecimalQuotient\<close>, \<open>DecimalRounding\<close>, \<open>DecimalAlign\<close>,
    \<open>DecimalShifting\<close>: the rational number a \<open>decimal_t\<close> stands for, and what the operations
    do to it.
  \<^item> \<open>Cells\<close>, \<open>LogEvent\<close> (\<open>logevent.c\<close>): \<open>value2Cell\<close> case by case, and the parsers of the
    header and the format description, table map, rotate and rows events.
  \<^item> \<open>CellFormat\<close>, \<open>TableFormat\<close>, \<open>RowsFormat\<close>: the formats a MySQL server writes, as
    encoders, and the lemmas that the parsers invert them, or what they make of a value they
    misread (\<open>misread_cell\<close>, \<open>image_cells_partial\<close>); \<open>RowsSafety\<close>: shapes, progress and
    termination on arbitrary bytes.
  \<^item> \<open>DataSource\<close> (\<open>datasource.h\<close>): the shared fields, the function pointers and the locale
    \<open>data_source\<close>, the contract between the client and a driver.
  \<^item> \<open>Client\<close> (\<open>libbinlog.c\<close>, the loop of \<open>bldump.c\<close>): connecting, pulling and buffering rows,
    skipping to a start index. \<open>ClientSpec\<close>: what a log means (\<open>deliver\<close>), and inside
    \<open>data_source\<close> the proof that the client delivers it.
  \<^item> \<open>Streams\<close>, \<open>FileSource\<close> (\<open>filedriver.c\<close>): files and sockets as the system shows them, the
    file driver, and \<open>file_source\<close>, the contract for it.
  \<^item> \<open>Socket\<close> (\<open>anet.c\<close>), \<open>Vio\<close> (\<open>vio.c\<close>, \<open>binary.c\<close>), \<open>Sha1\<close> (\<open>sha1.c\<close>), \<open>Protocol\<close>
    (\<open>protocol.c\<close>), \<open>MySQL\<close> (\<open>mysql.c\<close>), \<open>NetSource\<close> (\<open>netdriver.c\<close>): the network stack,
    bottom up; a buffer is again a \<open>byte_stream\<close> and a \<open>lenenc_reader\<close>.
  \<^item> \<open>NetStream\<close>: the packet stream of a server and \<open>net_source\<close>, the contract for the network
    driver; \<open>ProtocolSpec\<close>, \<open>NetUrl\<close>, \<open>NetConnect\<close>: greeting, login, replies, URLs, and a
    connection from its first byte.
  \<^item> \<open>SocketSetup\<close> (\<open>anet.c\<close>): the functions that create, connect, bind and accept sockets,
    over a log of system calls; \<open>Descriptors\<close>: what they leave open, and the calls behind a
    socket that is returned.
  \<^item> \<open>CellPrint\<close> (\<open>printCell\<close> of \<open>libbinlog.c\<close>, \<open>bldump.c\<close>): what is printed, as bytes;
    \<open>PrintSafety\<close>: the types of cells, and the text of a row.
  \<^item> \<open>EventProps\<close>, \<open>ClientProps\<close>, \<open>NetProps\<close>, \<open>PrintProps\<close>, \<open>SocketProps\<close> and this theory: the properties with their
    witnesses; here those that span the components, for a file and for a server.
\<close>

text \<open>
  \<^bold>\<open>What is shown.\<close> Decoding: cells, rows, table maps, greetings, URLs and length-encoded
  integers decode to what they encode. For cells the exceptions are stated: a negative TIME and
  the year 0000 come out as another value. For rows the images are those of full rows, or of a
  prefix of the columns whose null bits need as many bytes; the parser takes the null bits of
  other partial images for those of other columns. Safety on any input: cursors only move forward, parsed
  events are well formed, the row loop ends. Delivery: a client of any \<open>data_source\<close> returns
  the rows of the log in order, once each, with position and index, and both drivers satisfy
  the contract, so this holds from the URL to the last row, and for a file up to the output of
  \<open>bldump\<close>. Types: a cell has the type of its column and a block of the size its type asks
  for, so whatever is parsed is printed and released without a fault. Sockets: a descriptor
  belongs to the caller exactly when it is returned, unless setting an option fails. The login passes the server's
  check, and SHA-1 is the FIPS function however it is fed. Sums, differences, products and
  comparisons of decimals are exact, rounding is the rational one, and a shift multiplies by the
  power of ten. Error behaviour and the
  places where the code goes wrong are theorems too: they state the fault or the wrong value
  exactly.

  \<^bold>\<open>Fuel and bounds.\<close> \<open>rows_loop\<close> takes fuel because its cursor does not move for a table without
  columns. The length of the event is enough when the null bitmap has a byte, and \<open>2 ^ 30\<close>
  passes otherwise, because the counter of the allocated rows is an \<open>int\<close> that is doubled from 8
  on and overflows then (\<open>parseRowsEvent_terminates\<close>, \<open>rows_loop_zero_columns\<close>).
  \<open>getRowsEvent\<close>, \<open>fetchOne\<close>, \<open>fetch_all\<close> and \<open>dump_rows\<close> take fuel for loops over the events of a source;
  one more than the number of events, and of rows, is enough. \<open>anetGenericAccept\<close> may wait
  for ever: it is a partial function with \<open>None\<close> for that. All other loops are total functions.

  \<^bold>\<open>The outside.\<close> The file system is a function from paths to contents. A socket is a list of
  arrivals and of answers to \<open>write\<close>, so that every way a transfer can be split or fail is
  covered. Opening the connection is the parameter \<open>tcp\<close>, which \<open>mysql_tcp\<close> of
  \<open>SocketProps\<close> makes from \<open>anetTcpConnect\<close>; system calls and the resolver are the parameter
  \<open>kernel\<close>, whose answers may depend on all calls before. The double arithmetic of the old password
  scheme is modelled on the values that occur, with rounding to nearest.

  \<^bold>\<open>Not modelled.\<close> Failing allocations; the debugging output under \<open>MAIN\<close> in \<open>decimal.c\<close>, and the conversions that
  \<open>decimal.h\<close> declares without a definition; \<open>freeCell\<close>, a single call of \<open>free\<close> (cells are
  values here); the message \<open>bldump\<close> prints when it is called without a URL; the Python binding
  and the test programs.
\<close>

section \<open>The file client end to end\<close>

text \<open>C2: end to end over a file. When a relative file URL names a file that holds the magic and a
  well-formed log of events (a format description first, a table map before its rows, images
  and values that the parser does not misread), connecting and then calling
  \<open>fetchOne\<close> until NULL delivers exactly the rows of the log: every row of every
  write, update and delete event once, in order, with the position, index and log file name
  that stand for it, and after skipping the \<open>m\<close> rows the caller asked to skip. At
  the end of the file the error flag is set. The loop ends: the fuel is one more than the
  number of events.\<close>

theorem file_client_delivers:
  assumes "p \<noteq> []" "hd p \<noteq> 47" "58 \<notin> set p" "0 \<notin> set p" "length p < 256"
    and "fs p = Some (magic @ concat (map ev_bytes evs) @ tail)" "length magic = 4" "length tail < 19"
    and "log_ok (False, None) evs" "list_all (\<lambda>e. ev_len e \<le> INT_MAX) evs"
    and "outs = deliver (pos, 0, p) evs" "m \<le> length outs" "m < 2 ^ 31"
    and "\<And>r v. (r, v) \<in> set (take m outs) \<Longrightarrow> fst v = pos"
    and "length evs < fuel" "length outs < k + m"
  shows "\<exists>bc bc'. connectDataSource initM (dsInitWithFile fs) (file_scheme @ p) pos (of_nat m) sid =
      Inr (Some (file_ops fs), bc) \<and>
    fetch_all k fuel (file_ops fs) bc = Inr (drop m outs, bc') \<and> bc_err bc'"
proof -
  obtain ds where "connectDataSource initM (dsInitWithFile fs) (file_scheme @ p) pos (of_nat m) sid =
      Inr (Some (file_ops fs), connected (of_nat m) ds)" "file_wf ds" "file_pending ds = map ev_bytes evs"
    "ds_view ds = (pos, 0, p)" "ds_position ds = pos"
    using file_connect_log [of p fs magic evs tail initM pos "of_nat m" sid] assms(1-8,10) by blast
  then show ?thesis
    using file_source.client_delivers [of ds evs outs m fuel k fs] assms(9) assms(11-16) by auto
qed

lemma demo_log_small: "list_all (\<lambda>e. ev_len e \<le> INT_MAX) demo_log"
  using demo_log_len by (simp add: demo_log_def INT_MAX_def)

definition demo_fs :: "u8 list \<Rightarrow> u8 list option" where
  "demo_fs path = Some ([254, 98, 105, 110] @ concat (map ev_bytes demo_log) @ [])"

theorem file_client_delivers_witness:
  "\<exists>bc bc'. connectDataSource (\<lambda>u. Inl NullDeref) (dsInitWithFile demo_fs) (file_scheme @ [98])
       100 (of_nat 1) 7 = Inr (Some (file_ops demo_fs), bc) \<and>
     fetch_all 5 5 (file_ops demo_fs) bc =
       Inr (drop 1 [(demo_rows ! 0, (100, 1, [98])), (demo_rows ! 1, (100, 2, [98]))], bc') \<and> bc_err bc'"
  by (rule file_client_delivers [where m = 1, OF _ _ _ _ _ demo_fs_def _ _ demo_log_ok demo_log_small
        demo_deliver [symmetric]]) (auto simp add: demo_log_def)

text \<open>C11: a start index past the rows of the first table map event is rejected. When one of the
  rows the caller asked to skip shows another position than the one the client connected with,
  the first \<open>fetchOne\<close> returns NULL, the error flag is set and the message is the
  formatted \<open>Impossible index\<close> with that index and position.\<close>

theorem file_client_rejects_index:
  assumes "p \<noteq> []" "hd p \<noteq> 47" "58 \<notin> set p" "0 \<notin> set p" "length p < 256"
    and "fs p = Some (magic @ concat (map ev_bytes evs) @ tail)" "length magic = 4" "length tail < 19"
    and "log_ok (False, None) evs" "list_all (\<lambda>e. ev_len e \<le> INT_MAX) evs"
    and "outs = deliver (pos, 0, p) evs" "j < m" "j < length outs" "m < 2 ^ 31"
    and "\<And>r v. (r, v) \<in> set (take j outs) \<Longrightarrow> fst v = pos"
    and "fst (snd (outs ! j)) \<noteq> pos" "length evs < fuel"
  shows "\<exists>bc bc'. connectDataSource initM (dsInitWithFile fs) (file_scheme @ p) pos (of_nat m) sid =
      Inr (Some (file_ops fs), bc) \<and>
    fetchOne fuel (file_ops fs) bc = Inr (None, bc') \<and> bc_err bc' \<and>
    bc_errstr bc' = impossible_index (int m) pos"
proof -
  obtain ds where "connectDataSource initM (dsInitWithFile fs) (file_scheme @ p) pos (of_nat m) sid =
      Inr (Some (file_ops fs), connected (of_nat m) ds)" "file_wf ds" "file_pending ds = map ev_bytes evs"
    "ds_view ds = (pos, 0, p)" "ds_position ds = pos"
    using file_connect_log [of p fs magic evs tail initM pos "of_nat m" sid] assms(1-8,10) by blast
  then show ?thesis
    using file_source.client_rejects_index [of ds evs outs j m fuel fs] assms(9) assms(11-17) by auto
qed

lemma demo_deliver_4:
  "deliver (4, 0, [98]) demo_log = [(demo_rows ! 0, (100, 1, [98])), (demo_rows ! 1, (100, 2, [98]))]"
  using demo_log_len by (simp add: demo_log_def demo_rows_def row_cells_def val_cell_def Let_def)

theorem file_client_rejects_index_witness:
  "\<exists>bc bc'. connectDataSource (\<lambda>u. Inl NullDeref) (dsInitWithFile demo_fs) (file_scheme @ [98])
       4 (of_nat 1) 7 = Inr (Some (file_ops demo_fs), bc) \<and>
     fetchOne 5 (file_ops demo_fs) bc = Inr (None, bc') \<and> bc_err bc' \<and>
     bc_errstr bc' = impossible_index (int 1) 4"
  by (rule file_client_rejects_index [where m = 1 and j = 0, OF _ _ _ _ _ demo_fs_def _ _ demo_log_ok
        demo_log_small demo_deliver_4 [symmetric]]) (auto simp add: demo_log_def)

section \<open>The output of bldump\<close>

text \<open>C5: what \<open>bldump\<close> prints of a file. When the URL names a file with the magic
  and a well-formed log, the loop of \<open>main\<close> prints exactly the rows of the log,
  one after the other, each with its kind, its cells, the position, index and file name that
  stand for it, and its time, and for an update the old cells; no row is skipped or printed
  twice and no cell is read outside its block.\<close>

theorem dump_prints_log:
  assumes "p \<noteq> []" "hd p \<noteq> 47" "58 \<notin> set p" "0 \<notin> set p" "length p < 256"
    and "fs p = Some (magic @ concat (map ev_bytes evs) @ tail)" "length magic = 4" "length tail < 19"
    and "log_ok (False, None) evs" "list_all (\<lambda>e. ev_len e \<le> INT_MAX) evs"
    and "length evs < fuel" "length (deliver (4, 0, p) evs) < k"
  shows "\<exists>bc bc'. connectDataSource initM (dsInitWithFile fs) (file_scheme @ p) 4 0 10 =
      Inr (Some (file_ops fs), bc) \<and>
    dump_rows k fuel (file_ops fs) bc =
      Inr (concat (map (\<lambda>(r, v). row_text v r) (deliver (4, 0, p) evs)), bc') \<and> bc_err bc'"
proof -
  obtain ds where ds: "connectDataSource initM (dsInitWithFile fs) (file_scheme @ p) 4 0 10 =
      Inr (Some (file_ops fs), connected (of_nat 0) ds)" "file_wf ds" "file_pending ds = map ev_bytes evs"
    "ds_view ds = (4, 0, p)"
    using file_connect_log [of p fs magic evs tail initM 4 0 10] assms(1-8,10) by auto
  obtain bc' where f: "fetch_all k fuel (file_ops fs) (connected (of_nat 0) ds) =
      Inr (deliver (4, 0, p) evs, bc')" "bc_err bc'"
    using file_source.client_delivers [OF ds(2,3) assms(9), of "deliver (4, 0, p) evs" 0 fuel k fs]
      assms(11,12) ds(4) by auto
  have "dump_rows k fuel (file_ops fs) (connected (of_nat 0) ds) =
      Inr (concat (map (\<lambda>(r, v). row_text v r) (deliver (4, 0, p) evs)), bc')"
    by (rule dump_rows_text [OF f(1)]) (rule deliver_typed [OF assms(9)])
  with ds(1) f(2) show ?thesis by blast
qed

theorem dump_prints_log_witness:
  "\<exists>bc bc'. connectDataSource (\<lambda>u. Inl NullDeref) (dsInitWithFile demo_fs) (file_scheme @ [98]) 4 0 10 =
      Inr (Some (file_ops demo_fs), bc) \<and>
    dump_rows 5 5 (file_ops demo_fs) bc =
      Inr (concat (map (\<lambda>(r, v). row_text v r) (deliver (4, 0, [98]) demo_log)), bc') \<and> bc_err bc'"
  by (rule dump_prints_log [OF _ _ _ _ _ demo_fs_def _ _ demo_log_ok demo_log_small])
    (simp_all add: demo_deliver_4, simp add: demo_log_def)

section \<open>The network client end to end\<close>

text \<open>C1: end to end over a MySQL server. When a URL with user, password, host, port and log file
  names a server that greets, accepts the login, answers the dump command and then sends a
  well-formed log of events as for a file, one packet each, and at last an error packet,
  connecting and calling \<open>fetchOne\<close> until NULL delivers exactly the rows of the
  log, in order, with the position, index and log file that stand for them, after the rows the
  caller asked to skip; then the error flag is set. The bytes may arrive in any pieces and
  every write may be partial. The first packet of the answer is taken for the reply to the
  command and its event is never delivered.\<close>

theorem net_client_delivers:
  assumes "url_parts_ok user pw host port p" "tcp host (int port) = Inr s" "roomy s"
    and "in_bytes (sk_in s) = server_hello g q0 q1 ok @ packet q2 (0 # first) @ bs" "hello_ok g ok" "ok_body first"
    and "event_stream bs (map ev_bytes evs)" "length user < 2 ^ 20" "length pw < 2 ^ 31" "length p \<le> 246"
    and "log_ok (False, None) evs" "outs = deliver (pos, 0, p) evs" "m \<le> length outs" "m < 2 ^ 31"
    and "\<And>r v. (r, v) \<in> set (take m outs) \<Longrightarrow> fst v = pos"
    and "length evs < fuel" "length outs < k + m"
  shows "\<exists>bc bc'. connectDataSource (dsInitWithMySQL tcp) initF (mysql_url user pw host port p) pos (of_nat m) sid =
      Inr (Some (net_ops tcp), bc) \<and>
    fetch_all k fuel (net_ops tcp) bc = Inr (drop m outs, bc') \<and> bc_err bc'"
proof -
  obtain ds where ds: "connectDataSource (dsInitWithMySQL tcp) initF (mysql_url user pw host port p) pos (of_nat m) sid =
      Inr (Some (net_ops tcp), connected (of_nat m) ds)" "net_idle ds" "net_pending ds = map ev_bytes evs"
      "ds_view ds = (pos, 0, p)"
    using net_connect [of user pw host port p tcp s, OF assms(1-10), of initF pos "of_nat m" sid] by blast
  moreover have "ds_position ds = pos" using ds(4) by (simp add: ds_view_def)
  ultimately show ?thesis
    using net_source.client_delivers [OF ds(2,3) assms(11), of outs m fuel k tcp] assms(12-17) by auto
qed

theorem net_client_delivers_witness:
  "\<exists>bc bc'. connectDataSource (dsInitWithMySQL (\<lambda>_ _. Inr demo_server)) (\<lambda>u. Inl NullDeref)
       (mysql_url [114] [115] [104] 3306 [98]) 100 (of_nat 1) 7 = Inr (Some (net_ops (\<lambda>_ _. Inr demo_server)), bc) \<and>
     fetch_all 5 5 (net_ops (\<lambda>_ _. Inr demo_server)) bc =
       Inr (drop 1 [(demo_rows ! 0, (100, 1, [98])), (demo_rows ! 1, (100, 2, [98]))], bc') \<and> bc_err bc'"
  by (rule net_client_delivers [where m = 1 and s = demo_server, OF _ refl _ _ demo_hello(1,2) demo_stream _ _ _ demo_log_ok
        demo_deliver [symmetric]])
    (auto simp add: demo_log_def url_parts_ok_def demo_server_def)

end
